(* ===== verification/Prelude.thy ===== *)
theory Prelude
  imports Main "HOL-Library.Word" "HOL-Library.AList"
begin

text \<open>
  The vocabulary every component shares.

  \<^item> Machine integers by the width the source gives them; a \<open>usize\<close> used as a length or
    an index is a \<open>nat\<close>.
  \<^item> \<open>outcome\<close>: how a Rust call ends. \<open>Ok\<close> and \<open>Err\<close> are the two constructors of
    \<open>Result\<close>, \<open>Panic\<close> is a panic (\<open>unwrap\<close>, \<open>expect\<close>, \<open>panic!\<close>, a slice index
    out of range), and \<open>Stuck\<close> is a call that never returns (it waits for a lock that
    its own thread holds).
  \<^item> \<open>prog\<close>: a call that changes a state. The state it leaves behind is kept on every
    exit, because the caller of a failed Rust method still sees the fields it changed.
  \<^item> Little-endian byte encodings of the integers (\<open>zerocopy\<close> views of
    \<open>#[repr(C)]\<close> structs on the little-endian target, \<open>to_ne_bytes\<close>).
  \<^item> \<open>HashMap\<close> as an association list with distinct keys, so that the order in which an
    iteration visits it is a definite one and is visible in the model.
\<close>

type_synonym byte = "8 word"
type_synonym u16 = "16 word"
type_synonym u32 = "32 word"
type_synonym u64 = "64 word"

text \<open>
  Collections: \<open>prog_simps\<close> runs the programs below, \<open>codec_simps\<close> holds widths and
  round trips of byte encodings.
\<close>

named_theorems prog_simps
named_theorems codec_simps

section \<open>Outcomes and state-passing programs\<close>

datatype ('e, 'a) outcome = Ok 'a | Err 'e | Panic | Stuck

fun oc_bind :: "('e, 'a) outcome \<Rightarrow> ('a \<Rightarrow> ('e, 'b) outcome) \<Rightarrow> ('e, 'b) outcome" where
  "oc_bind (Ok a) f = f a"
| "oc_bind (Err e) f = Err e"
| "oc_bind Panic f = Panic"
| "oc_bind Stuck f = Stuck"

fun oc_map_err :: "('e \<Rightarrow> 'f) \<Rightarrow> ('e, 'a) outcome \<Rightarrow> ('f, 'a) outcome" where
  "oc_map_err f (Ok a) = Ok a"
| "oc_map_err f (Err e) = Err (f e)"
| "oc_map_err f Panic = Panic"
| "oc_map_err f Stuck = Stuck"

type_synonym ('s, 'e, 'a) prog = "'s \<Rightarrow> ('e, 'a) outcome \<times> 's"

definition ret :: "'a \<Rightarrow> ('s, 'e, 'a) prog" where
  "ret a s = (Ok a, s)"

definition throw :: "'e \<Rightarrow> ('s, 'e, 'a) prog" where
  "throw e s = (Err e, s)"

definition panic :: "('s, 'e, 'a) prog" where
  "panic s = (Panic, s)"

definition stuck :: "('s, 'e, 'a) prog" where
  "stuck s = (Stuck, s)"

definition lift_oc :: "('e, 'a) outcome \<Rightarrow> ('s, 'e, 'a) prog" where
  "lift_oc r s = (r, s)"

definition get_state :: "('s, 'e, 's) prog" where
  "get_state s = (Ok s, s)"

definition modify :: "('s \<Rightarrow> 's) \<Rightarrow> ('s, 'e, unit) prog" where
  "modify f s = (Ok (), f s)"

definition bindp :: "('s, 'e, 'a) prog \<Rightarrow> ('a \<Rightarrow> ('s, 'e, 'b) prog) \<Rightarrow> ('s, 'e, 'b) prog" where
  "bindp m f s = (case m s of
       (Ok a, s') \<Rightarrow> f a s'
     | (Err e, s') \<Rightarrow> (Err e, s')
     | (Panic, s') \<Rightarrow> (Panic, s')
     | (Stuck, s') \<Rightarrow> (Stuck, s'))"

abbreviation thenp :: "('s, 'e, 'a) prog \<Rightarrow> ('s, 'e, 'b) prog \<Rightarrow> ('s, 'e, 'b) prog" where
  "thenp m n \<equiv> bindp m (\<lambda>_. n)"

definition map_errp :: "('e \<Rightarrow> 'f) \<Rightarrow> ('s, 'e, 'a) prog \<Rightarrow> ('s, 'f, 'a) prog" where
  "map_errp f m s = (case m s of (r, s') \<Rightarrow> (oc_map_err f r, s'))"

text \<open>A \<open>for\<close> loop whose body may return early with \<open>?\<close>.\<close>

fun for_each :: "('b \<Rightarrow> ('s, 'e, unit) prog) \<Rightarrow> 'b list \<Rightarrow> ('s, 'e, unit) prog" where
  "for_each f [] = ret ()"
| "for_each f (x # xs) = bindp (f x) (\<lambda>_. for_each f xs)"

lemma ret_run [prog_simps]: "ret a s = (Ok a, s)"
  by (simp add: ret_def)

lemma throw_run [prog_simps]: "throw e s = (Err e, s)"
  by (simp add: throw_def)

lemma panic_run [prog_simps]: "panic s = (Panic, s)"
  by (simp add: panic_def)

lemma stuck_run [prog_simps]: "stuck s = (Stuck, s)"
  by (simp add: stuck_def)

lemma lift_oc_run [prog_simps]: "lift_oc r s = (r, s)"
  by (simp add: lift_oc_def)

lemma get_state_run [prog_simps]: "get_state s = (Ok s, s)"
  by (simp add: get_state_def)

lemma modify_run [prog_simps]: "modify f s = (Ok (), f s)"
  by (simp add: modify_def)

lemma bindp_Ok [prog_simps]: "m s = (Ok a, s') \<Longrightarrow> bindp m f s = f a s'"
  by (simp add: bindp_def)

lemma bindp_Err [prog_simps]: "m s = (Err e, s') \<Longrightarrow> bindp m f s = (Err e, s')"
  by (simp add: bindp_def)

lemma bindp_Panic [prog_simps]: "m s = (Panic, s') \<Longrightarrow> bindp m f s = (Panic, s')"
  by (simp add: bindp_def)

lemma bindp_Stuck [prog_simps]: "m s = (Stuck, s') \<Longrightarrow> bindp m f s = (Stuck, s')"
  by (simp add: bindp_def)

lemma bindp_ret [prog_simps]: "bindp (ret a) f s = f a s"
  by (simp add: bindp_def ret_def)

lemma bindp_throw [prog_simps]: "bindp (throw e) f s = (Err e, s)"
  by (simp add: bindp_def throw_def)

lemma bindp_panic [prog_simps]: "bindp panic f s = (Panic, s)"
  by (simp add: bindp_def panic_def)

lemma bindp_lift [prog_simps]:
  "bindp (lift_oc r) f s = (case r of Ok a \<Rightarrow> f a s | Err e \<Rightarrow> (Err e, s) | Panic \<Rightarrow> (Panic, s)
     | Stuck \<Rightarrow> (Stuck, s))"
  by (simp add: bindp_def lift_oc_def split: outcome.split)

lemma bindp_get [prog_simps]: "bindp get_state f s = f s s"
  by (simp add: bindp_def get_state_def)

lemma bindp_modify [prog_simps]: "bindp (modify g) f s = f () (g s)"
  by (simp add: bindp_def modify_def)

lemma map_errp_Ok [prog_simps]: "m s = (Ok a, s') \<Longrightarrow> map_errp f m s = (Ok a, s')"
  by (simp add: map_errp_def)

lemma map_errp_Err [prog_simps]: "m s = (Err e, s') \<Longrightarrow> map_errp f m s = (Err (f e), s')"
  by (simp add: map_errp_def)

lemma map_errp_Panic [prog_simps]: "m s = (Panic, s') \<Longrightarrow> map_errp f m s = (Panic, s')"
  by (simp add: map_errp_def)

lemma map_errp_OkD: "map_errp f m s = (Ok a, s') \<Longrightarrow> m s = (Ok a, s')"
  by (cases "m s"; cases "fst (m s)") (auto simp: map_errp_def)

lemma bindp_OkD:
  assumes "bindp m f s = (Ok b, s')"
  obtains a s1 where "m s = (Ok a, s1)" and "f a s1 = (Ok b, s')"
  using assms by (auto simp: bindp_def split: prod.splits outcome.splits)

lemma bindp_assoc: "bindp (bindp m f) g = bindp m (\<lambda>a. bindp (f a) g)"
  by (rule ext) (simp add: bindp_def split: prod.splits outcome.splits)

lemma for_each_append:
  "for_each f (xs @ ys) s = bindp (for_each f xs) (\<lambda>_. for_each f ys) s"
proof (induction xs arbitrary: s)
  case Nil
  show ?case by (simp add: prog_simps)
next
  case (Cons x xs)
  then have "for_each f (xs @ ys) = bindp (for_each f xs) (\<lambda>_. for_each f ys)"
    by (rule ext)
  then show ?case by (simp add: bindp_assoc)
qed

section \<open>Little-endian integers\<close>

lemma unat_bound: "unat (w :: 'a::len word) < 2 ^ LENGTH('a)"
  by (rule unsigned_less)

fun enc_nat :: "nat \<Rightarrow> nat \<Rightarrow> byte list" where
  "enc_nat 0 x = []"
| "enc_nat (Suc n) x = word_of_nat (x mod 256) # enc_nat n (x div 256)"

fun dec_nat :: "byte list \<Rightarrow> nat" where
  "dec_nat [] = 0"
| "dec_nat (b # bs) = unat b + 256 * dec_nat bs"

lemma length_enc_nat [simp]: "length (enc_nat n x) = n"
  by (induction n arbitrary: x) auto

lemma unat_byte_mod [simp]: "unat (word_of_nat (x mod 256) :: byte) = x mod 256"
  by (simp add: unat_of_nat)

lemma dec_enc_nat: "dec_nat (enc_nat n x) = x mod 256 ^ n"
proof (induction n arbitrary: x)
  case 0
  show ?case by simp
next
  case (Suc n)
  then show ?case by (simp add: mod_mult2_eq)
qed

lemma dec_enc_nat_small: "x < 256 ^ n \<Longrightarrow> dec_nat (enc_nat n x) = x"
  by (simp add: dec_enc_nat)

lemma dec_nat_bound: "dec_nat bs < 256 ^ length bs"
proof (induction bs)
  case Nil
  show ?case by simp
next
  case (Cons b bs)
  have "unat b < 256" using unat_bound [of b] by simp
  with Cons show ?case by simp
qed

lemma enc_dec_nat: "enc_nat (length bs) (dec_nat bs) = bs"
proof (induction bs)
  case Nil
  show ?case by simp
next
  case (Cons b bs)
  have "unat b < 256" using unat_bound [of b] by simp
  with Cons show ?case by simp
qed

lemma enc_nat_inj: "x < 256 ^ n \<Longrightarrow> y < 256 ^ n \<Longrightarrow> enc_nat n x = enc_nat n y \<Longrightarrow> x = y"
  by (metis dec_enc_nat_small)

lemma enc_nat_zero: "enc_nat n 0 = replicate n 0"
  by (induction n) auto

lemma dec_nat_replicate_zero [simp]: "dec_nat (replicate n 0) = 0"
  by (induction n) auto

text \<open>The fixed-width integers of the on-disk structs.\<close>

definition enc_u16 :: "u16 \<Rightarrow> byte list" where "enc_u16 w = enc_nat 2 (unat w)"
definition enc_u32 :: "u32 \<Rightarrow> byte list" where "enc_u32 w = enc_nat 4 (unat w)"
definition enc_u64 :: "u64 \<Rightarrow> byte list" where "enc_u64 w = enc_nat 8 (unat w)"
definition dec_u16 :: "byte list \<Rightarrow> u16" where "dec_u16 bs = word_of_nat (dec_nat bs)"
definition dec_u32 :: "byte list \<Rightarrow> u32" where "dec_u32 bs = word_of_nat (dec_nat bs)"
definition dec_u64 :: "byte list \<Rightarrow> u64" where "dec_u64 bs = word_of_nat (dec_nat bs)"

lemma enc_u_length [simp, codec_simps]:
  "length (enc_u16 w) = 2" "length (enc_u32 x) = 4" "length (enc_u64 y) = 8"
  by (simp_all add: enc_u16_def enc_u32_def enc_u64_def)

lemma dec_enc_u16 [simp, codec_simps]: "dec_u16 (enc_u16 w) = w"
  using unat_bound [of w] by (simp add: enc_u16_def dec_u16_def dec_enc_nat)

lemma dec_enc_u32 [simp, codec_simps]: "dec_u32 (enc_u32 w) = w"
  using unat_bound [of w] by (simp add: enc_u32_def dec_u32_def dec_enc_nat)

lemma dec_enc_u64 [simp, codec_simps]: "dec_u64 (enc_u64 w) = w"
  using unat_bound [of w] by (simp add: enc_u64_def dec_u64_def dec_enc_nat)

lemma enc_dec_u16: "length bs = 2 \<Longrightarrow> enc_u16 (dec_u16 bs) = bs"
  using dec_nat_bound [of bs] enc_dec_nat [of bs]
  by (simp add: enc_u16_def dec_u16_def unat_of_nat)

lemma enc_dec_u32: "length bs = 4 \<Longrightarrow> enc_u32 (dec_u32 bs) = bs"
  using dec_nat_bound [of bs] enc_dec_nat [of bs]
  by (simp add: enc_u32_def dec_u32_def unat_of_nat)

lemma enc_dec_u64: "length bs = 8 \<Longrightarrow> enc_u64 (dec_u64 bs) = bs"
  using dec_nat_bound [of bs] enc_dec_nat [of bs]
  by (simp add: enc_u64_def dec_u64_def unat_of_nat)

text \<open>Standard checked arithmetic on words, as in Rust's library.\<close>

definition checked_add :: "'a::len word \<Rightarrow> 'a word \<Rightarrow> 'a word option" where
  "checked_add x y = (if unat x + unat y < 2 ^ LENGTH('a) then Some (x + y) else None)"

definition saturating_sub :: "'a::len word \<Rightarrow> 'a word \<Rightarrow> 'a word" where
  "saturating_sub x y = (if x < y then 0 else x - y)"

definition try_u16 :: "nat \<Rightarrow> u16 option" where
  "try_u16 n = (if n < 2 ^ 16 then Some (word_of_nat n) else None)"

lemma checked_add_Some: "checked_add x y = Some z \<Longrightarrow> unat z = unat x + unat y"
  by (auto simp: checked_add_def unat_word_ariths split: if_splits)

lemma try_u16_Some: "try_u16 n = Some w \<Longrightarrow> unat w = n"
  by (auto simp: try_u16_def unat_of_nat split: if_splits)

section \<open>Slices\<close>

text \<open>
  \<open>slice\<close> is \<open>&xs[off..off + n]\<close> and \<open>patch\<close> is
  \<open>xs[off..off + ys.len()].copy_from_slice(ys)\<close>, for a range inside the list; the callers
  test the range and panic when it is not.
\<close>

definition slice :: "nat \<Rightarrow> nat \<Rightarrow> 'a list \<Rightarrow> 'a list" where
  "slice off n xs = take n (drop off xs)"

definition patch :: "nat \<Rightarrow> 'a list \<Rightarrow> 'a list \<Rightarrow> 'a list" where
  "patch off ys xs = take off xs @ ys @ drop (off + length ys) xs"

lemma length_slice [simp]: "off + n \<le> length xs \<Longrightarrow> length (slice off n xs) = n"
  by (simp add: slice_def)

lemma length_patch [simp]: "off + length ys \<le> length xs \<Longrightarrow> length (patch off ys xs) = length xs"
  by (simp add: patch_def)

lemma slice_patch_same: "off + length ys \<le> length xs \<Longrightarrow> slice off (length ys) (patch off ys xs) = ys"
  by (simp add: slice_def patch_def)

lemma nth_patch:
  "off + length ys \<le> length xs \<Longrightarrow> i < length xs \<Longrightarrow>
   patch off ys xs ! i = (if off \<le> i \<and> i < off + length ys then ys ! (i - off) else xs ! i)"
  by (auto simp: patch_def nth_append min_def)

lemma nth_slice: "off + n \<le> length xs \<Longrightarrow> i < n \<Longrightarrow> slice off n xs ! i = xs ! (off + i)"
  by (simp add: slice_def)

lemma slice_patch_other:
  assumes "off + length ys \<le> length xs" and "o2 + n \<le> length xs"
    and "o2 + n \<le> off \<or> off + length ys \<le> o2"
  shows "slice o2 n (patch off ys xs) = slice o2 n xs"
  using assms by (intro nth_equalityI) (auto simp: nth_slice nth_patch)

lemma patch_slice_id: "off + n \<le> length xs \<Longrightarrow> patch off (slice off n xs) xs = xs"
  by (intro nth_equalityI) (auto simp: nth_patch nth_slice)

lemma patch_patch_undo:
  "off + length ys \<le> length xs \<Longrightarrow> patch off (slice off (length ys) xs) (patch off ys xs) = xs"
  by (intro nth_equalityI) (auto simp: nth_patch nth_slice)

section \<open>Association lists as hash maps\<close>

text \<open>
  \<open>HashMap::insert\<close> is \<open>AList.update\<close>, \<open>remove\<close> is \<open>AList.delete\<close>, \<open>get\<close> is
  \<open>map_of\<close>; \<open>entry(k).or_insert(v)\<close> writes only when the key is absent.
\<close>

definition or_insert :: "'k \<Rightarrow> 'v \<Rightarrow> ('k \<times> 'v) list \<Rightarrow> ('k \<times> 'v) list" where
  "or_insert k v m = (case map_of m k of None \<Rightarrow> AList.update k v m | Some _ \<Rightarrow> m)"

abbreviation keys_of :: "('k \<times> 'v) list \<Rightarrow> 'k set" where
  "keys_of m \<equiv> fst ` set m"

definition distinct_keys :: "('k \<times> 'v) list \<Rightarrow> bool" where
  "distinct_keys m \<longleftrightarrow> distinct (map fst m)"

lemma distinct_keys_Nil [simp]: "distinct_keys []"
  by (simp add: distinct_keys_def)

lemma distinct_keys_update [simp]: "distinct_keys m \<Longrightarrow> distinct_keys (AList.update k v m)"
  by (simp add: distinct_keys_def distinct_update)

lemma distinct_keys_delete [simp]: "distinct_keys m \<Longrightarrow> distinct_keys (AList.delete k m)"
  by (simp add: distinct_keys_def distinct_delete)

lemma distinct_keys_or_insert [simp]: "distinct_keys m \<Longrightarrow> distinct_keys (or_insert k v m)"
  by (simp add: or_insert_def split: option.split)

lemma map_of_or_insert:
  "map_of (or_insert k v m) k' = (if k' = k \<and> map_of m k = None then Some v else map_of m k')"
  by (auto simp: or_insert_def update_conv' split: option.split)

lemma keys_of_update [simp]: "keys_of (AList.update k v m) = insert k (keys_of m)"
  by (induction m) auto

lemma keys_of_delete [simp]: "keys_of (AList.delete k m) = keys_of m - {k}"
  by (auto simp: AList.delete_eq image_iff)

lemma keys_of_map_of: "k \<in> keys_of m \<longleftrightarrow> (\<exists>v. map_of m k = Some v)"
  by (metis dom_map_of_conv_image_fst domD domI)

lemma update_fresh: "k \<notin> keys_of m \<Longrightarrow> AList.update k v m = m @ [(k, v)]"
  by (induction m) auto

end
