(* ===== verification/FileTypes.thy ===== *)
theory FileTypes
  imports Prelude
begin

text \<open>
  The shared types of \<open>files/mod.rs\<close> (addresses, log positions, errors), the generic
  (de)serialisation of \<open>repr.rs\<close>, and the part of \<open>std\<close>'s \<open>File\<close>, \<open>Cursor\<close> and
  \<open>Seek\<close> that the crate uses.

  \<open>NonZeroU16\<close> and \<open>NonZeroU64\<close> are words with the side condition in a well-formedness
  predicate; decoders are proved to return well-formed values only. Device failures are not
  modelled: the only I/O errors are the ones the position in a file determines (end of file,
  a seek before its start).
\<close>

section \<open>Errors\<close>

datatype file_type = Wal | Segment

datatype io_kind = IoUnexpectedEof | IoInvalidInput | IoNotFound | IoOther

text \<open>The messages of \<open>FileError::Corrupted\<close>, by what they report.\<close>

datatype corruption =
    UnknownFileType byte
  | UnknownItemKind byte
  | ItemAtPositionZero
  | InvalidPageNumber
  | InvalidWalOffset
  | WrongContentOffset u16
  | TruncatedSegment

text \<open>A signed result code of the kernel, read with \<open>sint\<close>.\<close>

type_synonym i32 = "32 word"

datatype file_error =
    MissingMagic
  | ByteOrderMismatch
  | Corrupted corruption
  | WrongFileType file_type
  | IncompatibleVersion file_type byte
  | IncompatiblePageVersion byte
  | UnexpectedEof
  | ChecksumMismatch
  | UnexpectedFile string
  | TooManyConcurrent
  | IoQueuePush
  | ConcurrentReadFail i32
  | ConcurrentWriteFail i32
  | Unexpected
  | Io io_kind

definition file_error_from_io :: "io_kind \<Rightarrow> file_error" where
  "file_error_from_io k = (case k of IoUnexpectedEof \<Rightarrow> UnexpectedEof | _ \<Rightarrow> Io k)"

section \<open>Addresses and log positions\<close>

datatype page_address = PageAddress (segment_num: u32) (page_num: u16)

definition wf_page_address :: "page_address \<Rightarrow> bool" where
  "wf_page_address a \<longleftrightarrow> page_num a \<noteq> 0"

text \<open>\<open>PageAddress::new_unwrap\<close> panics on page 0.\<close>

definition new_unwrap :: "u32 \<Rightarrow> u16 \<Rightarrow> ('e, page_address) outcome" where
  "new_unwrap s p = (if p = 0 then Panic else Ok (PageAddress s p))"

datatype wal_index = WalIndex (generation: u64) (offset: u64)

definition wf_wal_index :: "wal_index \<Rightarrow> bool" where
  "wf_wal_index i \<longleftrightarrow> offset i \<noteq> 0"

text \<open>
  The derived \<open>Ord\<close> of \<open>WalIndex\<close>: fields in declaration order, generation first.
\<close>

definition wal_index_lt :: "wal_index \<Rightarrow> wal_index \<Rightarrow> bool" where
  "wal_index_lt i j \<longleftrightarrow>
     generation i < generation j \<or> generation i = generation j \<and> offset i < offset j"

definition wal_index_le :: "wal_index \<Rightarrow> wal_index \<Rightarrow> bool" where
  "wal_index_le i j \<longleftrightarrow>
     generation i < generation j \<or> generation i = generation j \<and> offset i \<le> offset j"

lemmas wal_index_order = wal_index_lt_def wal_index_le_def

instantiation wal_index :: linorder
begin

definition less_eq_wal_index :: "wal_index \<Rightarrow> wal_index \<Rightarrow> bool" where
  "less_eq_wal_index = wal_index_le"

definition less_wal_index :: "wal_index \<Rightarrow> wal_index \<Rightarrow> bool" where
  "less_wal_index = wal_index_lt"

instance
  by standard (auto simp: less_eq_wal_index_def less_wal_index_def wal_index_order wal_index.expand)

end

lemma wal_index_less_iff [simp]:
  "WalIndex g o1 < WalIndex h o2 \<longleftrightarrow> g < h \<or> g = h \<and> o1 < o2"
  "WalIndex g o1 \<le> WalIndex h o2 \<longleftrightarrow> g < h \<or> g = h \<and> o1 \<le> o2"
  by (simp_all add: less_wal_index_def less_eq_wal_index_def wal_index_order)

record transaction_state =
  first_gen :: u64
  last_index :: wal_index

definition wf_transaction_state :: "transaction_state \<Rightarrow> bool" where
  "wf_transaction_state t \<longleftrightarrow> wf_wal_index (last_index t)"

section \<open>Readers and writers\<close>

text \<open>\<open>Read::read_exact\<close> on a cursor over a buffer: the state is what is left to read.\<close>

definition buf_read_exact :: "nat \<Rightarrow> (byte list, file_error, byte list) prog" where
  "buf_read_exact n r =
     (if n \<le> length r then (Ok (take n r), drop n r) else (Err UnexpectedEof, []))"

text \<open>A file handle: the file's bytes and the position of the handle.\<close>

record rfile =
  content :: "byte list"
  pos :: nat

definition file_read_exact :: "nat \<Rightarrow> (rfile, file_error, byte list) prog" where
  "file_read_exact n f =
     (if pos f + n \<le> length (content f)
      then (Ok (slice (pos f) n (content f)), f\<lparr>pos := pos f + n\<rparr>)
      else (Err UnexpectedEof, f\<lparr>pos := max (pos f) (length (content f))\<rparr>))"

text \<open>Writing past the end fills the gap with zeros; writing nothing changes nothing.\<close>

definition file_write_all :: "byte list \<Rightarrow> (rfile, file_error, unit) prog" where
  "file_write_all bs f =
     (if bs = [] then (Ok (), f)
      else (Ok (), f\<lparr>content := take (pos f) (content f)
                        @ replicate (pos f - length (content f)) 0
                        @ bs @ drop (pos f + length bs) (content f),
                     pos := pos f + length bs\<rparr>))"

definition file_seek_start :: "nat \<Rightarrow> (rfile, file_error, nat) prog" where
  "file_seek_start n f = (Ok n, f\<lparr>pos := n\<rparr>)"

text \<open>\<open>seek(SeekFrom::End(-back))\<close>: an error when that is before the start.\<close>

definition file_seek_end :: "nat \<Rightarrow> (rfile, file_error, nat) prog" where
  "file_seek_end back f =
     (if back \<le> length (content f)
      then (Ok (length (content f) - back), f\<lparr>pos := length (content f) - back\<rparr>)
      else (Err (Io IoInvalidInput), f))"

text \<open>
  \<open>seek(SeekFrom::Current(d))\<close>: a position is a signed 64-bit number (\<open>off_t\<close>), and one past the
  end of the file is fine. A file system whose files are limited to fewer bytes gives the same
  error from its own limit on.
\<close>

definition file_seek_relative :: "int \<Rightarrow> (rfile, file_error, unit) prog" where
  "file_seek_relative d f =
     (if 0 \<le> int (pos f) + d \<and> int (pos f) + d < 2 ^ 63
      then (Ok (), f\<lparr>pos := nat (int (pos f) + d)\<rparr>)
      else (Err (Io IoInvalidInput), f))"

text \<open>\<open>File::set_len\<close> truncates or extends with zeros; the position stays.\<close>

definition file_set_len :: "nat \<Rightarrow> (rfile, file_error, unit) prog" where
  "file_set_len n f =
     (Ok (), f\<lparr>content := take n (content f) @ replicate (n - length (content f)) 0\<rparr>)"

lemma file_ops_run [prog_simps]:
  "file_seek_start n f = (Ok n, f\<lparr>pos := n\<rparr>)"
  "back \<le> length (content f) \<Longrightarrow> file_seek_end back f
     = (Ok (length (content f) - back), f\<lparr>pos := length (content f) - back\<rparr>)"
  "file_write_all [] f = (Ok (), f)"
  "pos f = length (content f) \<Longrightarrow> file_write_all bs f
     = (Ok (), f\<lparr>content := content f @ bs, pos := pos f + length bs\<rparr>)"
  by (simp_all add: file_seek_start_def file_seek_end_def file_write_all_def)

section \<open>The \<open>Repr\<close> and \<open>IoRepr\<close> traits\<close>

text \<open>
  A \<open>Repr\<close> is given by its size and by \<open>TryFrom<Self>\<close> on the bytes of the struct.
  \<open>from_bytes\<close> copies the slice into a zeroed struct of the fixed size, and
  \<open>copy_from_slice\<close> panics when the lengths differ. \<open>deserialize\<close> reads exactly the
  struct's bytes from any reader; \<open>serialize\<close> writes them.
\<close>

definition repr_from_bytes :: "nat \<Rightarrow> (byte list \<Rightarrow> ('e, 'a) outcome) \<Rightarrow> byte list \<Rightarrow> ('e, 'a) outcome" where
  "repr_from_bytes sz dec bs = (if length bs = sz then dec bs else Panic)"

definition serialize :: "(byte list \<Rightarrow> ('w, 'e, unit) prog) \<Rightarrow> ('a \<Rightarrow> byte list) \<Rightarrow> 'a \<Rightarrow> ('w, 'e, unit) prog" where
  "serialize write_all enc v = write_all (enc v)"

definition deserialize ::
  "(nat \<Rightarrow> ('r, 'e, byte list) prog) \<Rightarrow> nat \<Rightarrow> (byte list \<Rightarrow> ('e, 'a) outcome) \<Rightarrow> ('r, 'e, 'a) prog" where
  "deserialize read_exact sz dec = bindp (read_exact sz) (\<lambda>bs. lift_oc (dec bs))"

text \<open>\<open>Write for Vec<u8>\<close>: appending never fails.\<close>

definition vec_write_all :: "byte list \<Rightarrow> (byte list, 'e, unit) prog" where
  "vec_write_all bs buf = (Ok (), buf @ bs)"

text \<open>
  The contract of a \<open>Repr\<close>: every encoding has the struct's size, decoding undoes encoding
  on well-formed values, and a decoder only returns well-formed values.
\<close>

locale byte_repr =
  fixes enc :: "'a \<Rightarrow> byte list"
    and dec :: "byte list \<Rightarrow> ('e, 'a) outcome"
    and sz :: nat
    and wf :: "'a \<Rightarrow> bool"
  assumes enc_length: "length (enc v) = sz"
    and dec_enc: "wf v \<Longrightarrow> dec (enc v) = Ok v"
    and dec_wf: "length bs = sz \<Longrightarrow> dec bs = Ok v \<Longrightarrow> wf v"
begin

lemma from_bytes_enc: "wf v \<Longrightarrow> repr_from_bytes sz dec (enc v) = Ok v"
  by (simp add: repr_from_bytes_def enc_length dec_enc)

lemma from_bytes_wf: "repr_from_bytes sz dec bs = Ok v \<Longrightarrow> wf v"
  by (auto simp: repr_from_bytes_def dec_wf split: if_splits)

lemma enc_inj: "wf v \<Longrightarrow> wf w \<Longrightarrow> enc v = enc w \<Longrightarrow> v = w"
  by (metis dec_enc outcome.inject(1))

lemma vec_roundtrip:
  "wf v \<Longrightarrow> serialize vec_write_all enc v buf = (Ok (), buf @ enc v)"
  by (simp add: serialize_def vec_write_all_def)

end

text \<open>The same for readers: on top of a codec, reading from a buffer and from a file.\<close>

locale file_repr = byte_repr enc dec sz wf
  for enc :: "'a \<Rightarrow> byte list" and dec :: "byte list \<Rightarrow> (file_error, 'a) outcome"
    and sz :: nat and wf :: "'a \<Rightarrow> bool"
begin

lemma buf_deserialize:
  "wf v \<Longrightarrow> deserialize buf_read_exact sz dec (enc v @ rest) = (Ok v, rest)"
  by (simp add: deserialize_def buf_read_exact_def bindp_def enc_length dec_enc lift_oc_def)

lemma buf_deserialize_short:
  "length r < sz \<Longrightarrow> deserialize buf_read_exact sz dec r = (Err UnexpectedEof, [])"
  by (simp add: deserialize_def buf_read_exact_def bindp_def)

lemma buf_deserialize_wf:
  "deserialize buf_read_exact sz dec r = (Ok v, r') \<Longrightarrow> wf v"
  by (auto simp: deserialize_def buf_read_exact_def bindp_def lift_oc_def
      split: if_splits outcome.splits intro: dec_wf [of "take sz r"])

lemma file_deserialize:
  assumes "wf v" and "slice (pos f) sz (content f) = enc v" and "pos f + sz \<le> length (content f)"
  shows "deserialize file_read_exact sz dec f = (Ok v, f\<lparr>pos := pos f + sz\<rparr>)"
  using assms by (simp add: deserialize_def file_read_exact_def bindp_def dec_enc lift_oc_def)

end

end
