(* ===== verification/StoreTypes.thy ===== *)
theory StoreTypes
  imports FileTypes
begin

text \<open>
  What the layers of \<open>page_store/\<close> share: \<open>StorageError\<close>, and the running of a component's
  program inside a bigger state.
\<close>

datatype storage_error = WalNotInitialized | TransactionLimitReached | File file_error

text \<open>\<open>?\<close> on a \<open>FileError\<close> uses \<open>#[from]\<close>.\<close>

definition from_file :: "('s, file_error, 'a) prog \<Rightarrow> ('s, storage_error, 'a) prog" where
  "from_file m = map_errp File m"

lemma from_file_Ok [prog_simps]: "m s = (Ok a, s') \<Longrightarrow> from_file m s = (Ok a, s')"
  by (simp add: from_file_def map_errp_Ok)

text \<open>A program on the first or the second component of a pair.\<close>

definition on_fst :: "('a, 'e, 'r) prog \<Rightarrow> ('a \<times> 'b, 'e, 'r) prog" where
  "on_fst m s = (case m (fst s) of (r, a) \<Rightarrow> (r, (a, snd s)))"

definition on_snd :: "('b, 'e, 'r) prog \<Rightarrow> ('a \<times> 'b, 'e, 'r) prog" where
  "on_snd m s = (case m (snd s) of (r, b) \<Rightarrow> (r, (fst s, b)))"

lemma on_fst_run [prog_simps]: "m a = (r, a') \<Longrightarrow> on_fst m (a, b) = (r, (a', b))"
  by (simp add: on_fst_def)

lemma on_snd_run [prog_simps]: "m b = (r, b') \<Longrightarrow> on_snd m (a, b) = (r, (a, b'))"
  by (simp add: on_snd_def)

end
