(* ===== verification/GenericHeader.thy ===== *)
theory GenericHeader
  imports FileTypes
begin

text \<open>
  The header every database file starts with (\<open>files/generic.rs\<close>): magic, byte order, file
  type, offset of the content and format version, in the nine bytes of the packed
  \<open>GenericHeaderRepr\<close>. The target is little-endian, so \<open>NATIVE_BYTE_ORDER\<close> is 1.
\<close>

record generic_header_repr =
  ghr_magic :: "byte list"
  ghr_byte_order :: byte
  ghr_file_type :: byte
  ghr_content_offset :: u16
  ghr_version :: byte

record generic_header =
  gh_file_type :: file_type
  gh_content_offset :: u16
  gh_version :: byte

definition NATIVE_BYTE_ORDER :: byte where "NATIVE_BYTE_ORDER = 1"

definition MAGIC :: "byte list" where "MAGIC = [65, 67, 82, 78]"

definition GENERIC_HEADER_SIZE :: nat where "GENERIC_HEADER_SIZE = 9"

fun file_type_byte :: "file_type \<Rightarrow> byte" where
  "file_type_byte Wal = 0"
| "file_type_byte Segment = 1"

definition file_type_try_from :: "byte \<Rightarrow> (file_error, file_type) outcome" where
  "file_type_try_from v =
     (if v = 0 then Ok Wal else if v = 1 then Ok Segment
      else Err (Corrupted (UnknownFileType v)))"

definition generic_header_into :: "generic_header \<Rightarrow> generic_header_repr" where
  "generic_header_into h =
     \<lparr>ghr_magic = MAGIC, ghr_byte_order = NATIVE_BYTE_ORDER,
      ghr_file_type = file_type_byte (gh_file_type h),
      ghr_content_offset = gh_content_offset h, ghr_version = gh_version h\<rparr>"

definition generic_header_try_from :: "generic_header_repr \<Rightarrow> (file_error, generic_header) outcome" where
  "generic_header_try_from r =
     (if ghr_magic r \<noteq> MAGIC then Err MissingMagic
      else if ghr_byte_order r \<noteq> NATIVE_BYTE_ORDER then Err ByteOrderMismatch
      else oc_bind (file_type_try_from (ghr_file_type r)) (\<lambda>ft.
        Ok \<lparr>gh_file_type = ft, gh_content_offset = ghr_content_offset r,
            gh_version = ghr_version r\<rparr>))"

text \<open>The packed struct as bytes and back.\<close>

definition generic_header_bytes :: "generic_header_repr \<Rightarrow> byte list" where
  "generic_header_bytes r =
     ghr_magic r @ [ghr_byte_order r, ghr_file_type r] @ enc_u16 (ghr_content_offset r)
     @ [ghr_version r]"

definition generic_header_view :: "byte list \<Rightarrow> generic_header_repr" where
  "generic_header_view bs =
     \<lparr>ghr_magic = take 4 bs, ghr_byte_order = bs ! 4, ghr_file_type = bs ! 5,
      ghr_content_offset = dec_u16 (slice 6 2 bs), ghr_version = bs ! 8\<rparr>"

definition enc_generic_header :: "generic_header \<Rightarrow> byte list" where
  "enc_generic_header h = generic_header_bytes (generic_header_into h)"

definition dec_generic_header :: "byte list \<Rightarrow> (file_error, generic_header) outcome" where
  "dec_generic_header bs = generic_header_try_from (generic_header_view bs)"

lemma file_type_roundtrip [simp]: "file_type_try_from (file_type_byte t) = Ok t"
  by (cases t) (simp_all add: file_type_try_from_def)

lemma enc_generic_header_length [simp, codec_simps]:
  "length (enc_generic_header h) = GENERIC_HEADER_SIZE"
  by (simp add: enc_generic_header_def generic_header_bytes_def generic_header_into_def MAGIC_def
      GENERIC_HEADER_SIZE_def)

lemma generic_header_view_bytes:
  assumes "length (ghr_magic r) = 4"
  shows "generic_header_view (generic_header_bytes r) = r"
proof -
  have "slice 6 2 (ghr_magic r @ [ghr_byte_order r, ghr_file_type r]
      @ enc_u16 (ghr_content_offset r) @ [ghr_version r]) = enc_u16 (ghr_content_offset r)"
    using assms by (simp add: slice_def)
  then show ?thesis
    using assms by (simp add: generic_header_view_def generic_header_bytes_def nth_append)
qed

lemma dec_enc_generic_header [codec_simps]: "dec_generic_header (enc_generic_header h) = Ok h"
proof -
  have "generic_header_view (enc_generic_header h) = generic_header_into h"
    by (simp add: enc_generic_header_def generic_header_view_bytes generic_header_into_def MAGIC_def)
  then show ?thesis
    by (simp add: dec_generic_header_def generic_header_try_from_def generic_header_into_def)
qed

interpretation gh: file_repr enc_generic_header dec_generic_header GENERIC_HEADER_SIZE "\<lambda>_. True"
  by unfold_locales (simp_all add: codec_simps)

text \<open>What a decoded header says about the bytes, and what each foreign file is rejected with.\<close>

lemma dec_generic_header_Ok:
  "dec_generic_header bs = Ok h \<Longrightarrow> take 4 bs = MAGIC \<and> bs ! 4 = NATIVE_BYTE_ORDER
     \<and> bs ! 5 = file_type_byte (gh_file_type h)"
  by (auto simp: dec_generic_header_def generic_header_try_from_def generic_header_view_def
      file_type_try_from_def split: if_splits)

lemma dec_generic_header_no_magic:
  "take 4 bs \<noteq> MAGIC \<Longrightarrow> dec_generic_header bs = Err MissingMagic"
  by (simp add: dec_generic_header_def generic_header_try_from_def generic_header_view_def)

lemma dec_generic_header_byte_order:
  "take 4 bs = MAGIC \<Longrightarrow> bs ! 4 \<noteq> NATIVE_BYTE_ORDER
     \<Longrightarrow> dec_generic_header bs = Err ByteOrderMismatch"
  by (simp add: dec_generic_header_def generic_header_try_from_def generic_header_view_def)

text \<open>
  Reading the header of any file of at least nine bytes either yields a header whose
  encoding is exactly the nine bytes read, or one of the three errors the code documents
  (missing magic, byte order, unknown file type), in that order of precedence.
\<close>

theorem generic_header_decode_exact:
  assumes "length bs = GENERIC_HEADER_SIZE"
  shows "(case dec_generic_header bs of
            Ok h \<Rightarrow> enc_generic_header h = bs
          | Err e \<Rightarrow> e = (if take 4 bs \<noteq> MAGIC then MissingMagic
                       else if bs ! 4 \<noteq> NATIVE_BYTE_ORDER then ByteOrderMismatch
                       else Corrupted (UnknownFileType (bs ! 5)))
          | _ \<Rightarrow> False)"
proof -
  obtain a b c d e f g h i where bs: "bs = [a, b, c, d, e, f, g, h, i]"
    using assms by (auto simp: GENERIC_HEADER_SIZE_def numeral_eq_Suc length_Suc_conv)
  have *: "enc_u16 (dec_u16 [g, h]) = [g, h]" by (rule enc_dec_u16) simp
  show ?thesis
    by (auto simp: bs dec_generic_header_def generic_header_try_from_def generic_header_view_def
        file_type_try_from_def enc_generic_header_def generic_header_bytes_def
        generic_header_into_def slice_def *)
qed

theorem generic_header_decode_exact_witness:
  "length (enc_generic_header \<lparr>gh_file_type = Segment, gh_content_offset = 32768, gh_version = 1\<rparr>)
     = GENERIC_HEADER_SIZE
   \<and> dec_generic_header [65, 67, 82, 78, 1, 7, 0, 0, 1] = Err (Corrupted (UnknownFileType 7))"
proof -
  have "length ([65, 67, 82, 78, 1, 7, 0, 0, 1] :: byte list) = GENERIC_HEADER_SIZE"
    by (simp add: GENERIC_HEADER_SIZE_def)
  note * = generic_header_decode_exact [OF this]
  then have "dec_generic_header [65, 67, 82, 78, 1, 7, 0, 0, 1] = Err (Corrupted (UnknownFileType 7))"
    by (simp add: MAGIC_def NATIVE_BYTE_ORDER_def dec_generic_header_def
        generic_header_try_from_def generic_header_view_def file_type_try_from_def)
  then show ?thesis by simp
qed

end
