(* ===== verification/Segment.thy ===== *)
theory Segment
  imports GenericHeader
begin

text \<open>
  Segment files (\<open>files/segment.rs\<close>): 65536 page slots of 32 KiB, the first of which holds
  the file header. Every page starts with a packed header (the log position of its last
  write, a CRC-16 of its body, the page format version); a page whose version byte is 0 was
  never written. The CRC comes from the \<open>crc\<close> crate and is the parameter \<open>crc\<close>.

  Reads and writes use \<open>pread\<close>/\<open>pwrite\<close>, so the handle's position plays no part. The
  buffers of the read operations have the size \<open>PAGE_BODY_SIZE\<close> that the code asserts; a
  write with another size panics in \<open>copy_from_slice\<close>. The batch is the variant without
  \<open>io_uring\<close>; the other one is in \<open>SegmentRing\<close>.
\<close>

section \<open>Constants\<close>

definition KIB :: nat where "KIB = 1024"
definition MIB :: nat where "MIB = 1024 * KIB"
definition GIB :: nat where "GIB = 1024 * MIB"
definition PAGE_SIZE :: nat where "PAGE_SIZE = 32 * KIB"
definition SEGMENT_SIZE :: nat where "SEGMENT_SIZE = push_bit 16 PAGE_SIZE"
definition FORMAT_VERSION_UNINIT :: byte where "FORMAT_VERSION_UNINIT = 0"
definition FORMAT_VERSION :: byte where "FORMAT_VERSION = 1"
definition PAGE_FORMAT_VERSION :: byte where "PAGE_FORMAT_VERSION = 1"
definition PAGE_HEADER_SIZE :: nat where "PAGE_HEADER_SIZE = 19"
definition PAGE_BODY_SIZE :: nat where "PAGE_BODY_SIZE = PAGE_SIZE - PAGE_HEADER_SIZE"

lemma page_size_value: "PAGE_SIZE = 32768"
  by (simp add: PAGE_SIZE_def KIB_def)

lemma page_body_size_value: "PAGE_BODY_SIZE = 32749"
  by (simp add: PAGE_BODY_SIZE_def PAGE_HEADER_SIZE_def page_size_value)

lemma segment_size_value: "SEGMENT_SIZE = 65536 * PAGE_SIZE"
  by (simp add: SEGMENT_SIZE_def push_bit_eq_mult)

lemma page_sizes_add: "PAGE_HEADER_SIZE + PAGE_BODY_SIZE = PAGE_SIZE"
  by (simp add: PAGE_BODY_SIZE_def PAGE_HEADER_SIZE_def page_size_value)

section \<open>Page headers\<close>

record init_page_header =
  iph_wal_index :: wal_index
  iph_crc :: u16

datatype page_header = Uninit | Init init_page_header

record page_header_repr =
  phr_wal_generation :: u64
  phr_wal_offset :: u64
  phr_crc :: u16
  phr_format_version :: byte

definition page_header_into :: "page_header \<Rightarrow> page_header_repr" where
  "page_header_into h = (case h of
     Uninit \<Rightarrow> \<lparr>phr_wal_generation = 0, phr_wal_offset = 0, phr_crc = 0, phr_format_version = 0\<rparr>
   | Init i \<Rightarrow> \<lparr>phr_wal_generation = generation (iph_wal_index i),
       phr_wal_offset = offset (iph_wal_index i), phr_crc = iph_crc i,
       phr_format_version = PAGE_FORMAT_VERSION\<rparr>)"

definition page_header_try_from :: "page_header_repr \<Rightarrow> (file_error, page_header) outcome" where
  "page_header_try_from r =
     (if phr_format_version r = FORMAT_VERSION_UNINIT then Ok Uninit
      else if phr_format_version r \<noteq> PAGE_FORMAT_VERSION
        then Err (IncompatiblePageVersion (phr_format_version r))
      else if phr_wal_offset r = 0 then Err (Corrupted InvalidWalOffset)
      else Ok (Init \<lparr>iph_wal_index = WalIndex (phr_wal_generation r) (phr_wal_offset r),
                     iph_crc = phr_crc r\<rparr>))"

definition page_header_bytes :: "page_header_repr \<Rightarrow> byte list" where
  "page_header_bytes r = enc_u64 (phr_wal_generation r) @ enc_u64 (phr_wal_offset r)
     @ enc_u16 (phr_crc r) @ [phr_format_version r]"

definition page_header_view :: "byte list \<Rightarrow> page_header_repr" where
  "page_header_view bs =
     \<lparr>phr_wal_generation = dec_u64 (slice 0 8 bs), phr_wal_offset = dec_u64 (slice 8 8 bs),
      phr_crc = dec_u16 (slice 16 2 bs), phr_format_version = bs ! 18\<rparr>"

definition enc_page_header :: "page_header \<Rightarrow> byte list" where
  "enc_page_header h = page_header_bytes (page_header_into h)"

definition dec_page_header :: "byte list \<Rightarrow> (file_error, page_header) outcome" where
  "dec_page_header bs = page_header_try_from (page_header_view bs)"

definition wf_page_header :: "page_header \<Rightarrow> bool" where
  "wf_page_header h \<longleftrightarrow> (case h of Uninit \<Rightarrow> True | Init i \<Rightarrow> wf_wal_index (iph_wal_index i))"

lemma page_header_view_bytes: "page_header_view (page_header_bytes r) = r"
  by (simp add: page_header_view_def page_header_bytes_def slice_def nth_append)

interpretation ph: file_repr enc_page_header dec_page_header PAGE_HEADER_SIZE wf_page_header
proof (unfold_locales, goal_cases)
  case (1 v)
  show ?case by (simp add: enc_page_header_def page_header_bytes_def PAGE_HEADER_SIZE_def)
next
  case (2 v)
  then show ?case
    by (cases v) (auto simp: dec_page_header_def enc_page_header_def page_header_view_bytes
        page_header_into_def page_header_try_from_def wf_page_header_def wf_wal_index_def
        FORMAT_VERSION_UNINIT_def PAGE_FORMAT_VERSION_def)
next
  case (3 bs v)
  then show ?case
    by (auto simp: dec_page_header_def page_header_try_from_def wf_page_header_def
        wf_wal_index_def split: if_splits)
qed

lemma dec_page_header_zeros: "dec_page_header (replicate PAGE_HEADER_SIZE 0) = Ok Uninit"
  by (simp add: dec_page_header_def page_header_view_def page_header_try_from_def
      PAGE_HEADER_SIZE_def FORMAT_VERSION_UNINIT_def)

section \<open>Raw operations\<close>

definition get_page_offset :: "u16 \<Rightarrow> nat" where
  "get_page_offset p = unat p * PAGE_SIZE"

text \<open>\<open>read_exact_at\<close> and \<open>write_all_at\<close> of \<open>std::os::unix::fs::FileExt\<close>.\<close>

definition read_exact_at :: "nat \<Rightarrow> nat \<Rightarrow> (rfile, file_error, byte list) prog" where
  "read_exact_at off n f =
     (if off + n \<le> length (content f) then (Ok (slice off n (content f)), f)
      else (Err UnexpectedEof, f))"

definition write_all_at :: "nat \<Rightarrow> byte list \<Rightarrow> (rfile, file_error, unit) prog" where
  "write_all_at off bs f =
     (if bs = [] then (Ok (), f)
      else (Ok (), f\<lparr>content := take off (content f) @ replicate (off - length (content f)) 0
                       @ bs @ drop (off + length bs) (content f)\<rparr>))"

record segment_write_op =
  swo_page_num :: u16
  swo_wal_index :: wal_index
  swo_buf :: "byte list"

text \<open>A read operation's result: the two out-parameters \<open>wal_index\<close> and \<open>buf\<close>.\<close>

type_synonym page_read = "wal_index option \<times> byte list"

datatype segment_op = SegRead u16 | SegWrite segment_write_op

text \<open>\<open>RawWriteOp::new\<close> fills the page buffer, \<open>RawReadOp::complete\<close> checks and unpacks it.\<close>

definition raw_write_new :: "(byte list \<Rightarrow> u16) \<Rightarrow> segment_write_op \<Rightarrow> (file_error, byte list) outcome" where
  "raw_write_new crc op =
     (if length (swo_buf op) \<noteq> PAGE_BODY_SIZE then Panic
      else Ok (enc_page_header (Init \<lparr>iph_wal_index = swo_wal_index op,
                 iph_crc = crc (swo_buf op)\<rparr>) @ swo_buf op))"

definition raw_read_complete :: "(byte list \<Rightarrow> u16) \<Rightarrow> byte list \<Rightarrow> (file_error, page_read) outcome" where
  "raw_read_complete crc buf =
     oc_bind (repr_from_bytes PAGE_HEADER_SIZE dec_page_header (take PAGE_HEADER_SIZE buf)) (\<lambda>header.
       case header of
         Uninit \<Rightarrow> Ok (None, replicate PAGE_BODY_SIZE 0)
       | Init h \<Rightarrow>
           (let body = drop PAGE_HEADER_SIZE buf in
            if iph_crc h \<noteq> crc body then Err ChecksumMismatch
            else Ok (Some (iph_wal_index h), body)))"

datatype raw_io_op = RawRead nat | RawWrite nat "byte list"

definition raw_io_op_new :: "(byte list \<Rightarrow> u16) \<Rightarrow> segment_op \<Rightarrow> (file_error, raw_io_op) outcome" where
  "raw_io_op_new crc op = (case op of
     SegRead p \<Rightarrow> Ok (RawRead (get_page_offset p))
   | SegWrite w \<Rightarrow> oc_bind (raw_write_new crc w) (\<lambda>b. Ok (RawWrite (get_page_offset (swo_page_num w)) b)))"

section \<open>Segment files\<close>

definition segment_create_file :: "(rfile, file_error, unit) prog" where
  "segment_create_file =
     thenp (modify (\<lambda>_. \<lparr>content = [], pos = 0\<rparr>))
     (thenp (serialize file_write_all enc_generic_header
               \<lparr>gh_file_type = Segment, gh_content_offset = word_of_nat PAGE_SIZE,
                gh_version = FORMAT_VERSION\<rparr>)
      (file_set_len SEGMENT_SIZE))"

definition segment_open_file :: "(rfile, file_error, unit) prog" where
  "segment_open_file =
     thenp (file_seek_start 0)
     (bindp (deserialize file_read_exact GENERIC_HEADER_SIZE dec_generic_header) (\<lambda>header.
       if gh_file_type header \<noteq> Segment then throw (WrongFileType (gh_file_type header))
       else if gh_version header \<noteq> FORMAT_VERSION
         then throw (IncompatibleVersion (gh_file_type header) FORMAT_VERSION)
       else if unat (gh_content_offset header) \<noteq> PAGE_SIZE
         then throw (Corrupted (WrongContentOffset (gh_content_offset header)))
       else bindp get_state (\<lambda>f.
         if length (content f) \<noteq> SEGMENT_SIZE then throw (Corrupted TruncatedSegment)
         else ret ())))"

definition segment_read :: "(byte list \<Rightarrow> u16) \<Rightarrow> u16 \<Rightarrow> (rfile, file_error, page_read) prog" where
  "segment_read crc p =
     bindp (read_exact_at (get_page_offset p) PAGE_SIZE) (\<lambda>buf. lift_oc (raw_read_complete crc buf))"

definition segment_write :: "(byte list \<Rightarrow> u16) \<Rightarrow> segment_write_op \<Rightarrow> (rfile, file_error, unit) prog" where
  "segment_write crc op =
     bindp (lift_oc (raw_write_new crc op)) (\<lambda>buf.
       write_all_at (get_page_offset (swo_page_num op)) buf)"

fun oc_mapM :: "('a \<Rightarrow> ('e, 'b) outcome) \<Rightarrow> 'a list \<Rightarrow> ('e, 'b list) outcome" where
  "oc_mapM f [] = Ok []"
| "oc_mapM f (x # xs) = oc_bind (f x) (\<lambda>y. oc_bind (oc_mapM f xs) (\<lambda>ys. Ok (y # ys)))"

text \<open>
  \<open>exec_batch\<close>: the raw operations in order. A raw read leaves the bytes it read in its
  buffer; they are checked only after the whole batch, by \<open>complete\<close>.
\<close>

fun exec_batch :: "raw_io_op list \<Rightarrow> (rfile, file_error, byte list list) prog" where
  "exec_batch [] = ret []"
| "exec_batch (RawRead off # ops) =
     bindp (read_exact_at off PAGE_SIZE) (\<lambda>b. bindp (exec_batch ops) (\<lambda>bs. ret (b # bs)))"
| "exec_batch (RawWrite off b # ops) =
     bindp (write_all_at off b) (\<lambda>_. bindp (exec_batch ops) (\<lambda>bs. ret (b # bs)))"

definition raw_complete :: "(byte list \<Rightarrow> u16) \<Rightarrow> segment_op \<times> byte list
    \<Rightarrow> (file_error, page_read option) outcome" where
  "raw_complete crc ob = (case ob of
     (SegRead _, buf) \<Rightarrow> oc_bind (raw_read_complete crc buf) (\<lambda>r. Ok (Some r))
   | (SegWrite _, _) \<Rightarrow> Ok None)"

definition segment_batch :: "(byte list \<Rightarrow> u16) \<Rightarrow> segment_op list
    \<Rightarrow> (rfile, file_error, page_read option list) prog" where
  "segment_batch crc ops =
     bindp (lift_oc (oc_mapM (raw_io_op_new crc) ops)) (\<lambda>raw.
     bindp (exec_batch raw) (\<lambda>bufs.
       lift_oc (oc_mapM (raw_complete crc) (zip ops bufs))))"


section \<open>Slots\<close>

definition slot :: "rfile \<Rightarrow> u16 \<Rightarrow> byte list" where
  "slot f p = slice (get_page_offset p) PAGE_SIZE (content f)"

definition segment_header :: generic_header where
  "segment_header = \<lparr>gh_file_type = Segment, gh_content_offset = word_of_nat PAGE_SIZE,
     gh_version = FORMAT_VERSION\<rparr>"

text \<open>A well-formed segment file: full length, and the header that \<open>create_file\<close> wrote.\<close>

definition wf_segment :: "rfile \<Rightarrow> bool" where
  "wf_segment f \<longleftrightarrow> length (content f) = SEGMENT_SIZE
     \<and> slice 0 GENERIC_HEADER_SIZE (content f) = enc_generic_header segment_header"

lemma page_slot_bounds:
  "get_page_offset p + PAGE_SIZE \<le> SEGMENT_SIZE"
  "p \<noteq> 0 \<Longrightarrow> PAGE_SIZE \<le> get_page_offset p"
proof -
  have "unat p + 1 \<le> 65536" using unat_bound [of p] by simp
  then have "(unat p + 1) * PAGE_SIZE \<le> 65536 * PAGE_SIZE" by (rule mult_le_mono1)
  then show "get_page_offset p + PAGE_SIZE \<le> SEGMENT_SIZE"
    by (simp add: get_page_offset_def segment_size_value)
  assume "p \<noteq> 0"
  then have "1 \<le> unat p" by (simp add: Suc_leI unat_gt_0)
  then show "PAGE_SIZE \<le> get_page_offset p" by (simp add: get_page_offset_def)
qed

lemma page_slots_disjoint:
  assumes "p \<noteq> q"
  shows "get_page_offset p + PAGE_SIZE \<le> get_page_offset q
    \<or> get_page_offset q + PAGE_SIZE \<le> get_page_offset p"
proof -
  have "unat p + 1 \<le> unat q \<or> unat q + 1 \<le> unat p"
    using assms by (metis Suc_eq_plus1 Suc_leI linorder_neqE_nat word_unat_eq_iff)
  then have "(unat p + 1) * PAGE_SIZE \<le> unat q * PAGE_SIZE
    \<or> (unat q + 1) * PAGE_SIZE \<le> unat p * PAGE_SIZE"
    using mult_le_mono1 by blast
  then show ?thesis by (simp add: get_page_offset_def add.commute)
qed

lemma header_before_slots: "p \<noteq> 0 \<Longrightarrow> GENERIC_HEADER_SIZE \<le> get_page_offset p"
  using page_slot_bounds(2) [of p] by (simp add: GENERIC_HEADER_SIZE_def page_size_value)

lemma length_slot: "wf_segment f \<Longrightarrow> length (slot f p) = PAGE_SIZE"
  using page_slot_bounds(1) [of p] by (simp add: slot_def wf_segment_def)

lemma read_exact_at_slot:
  "wf_segment f \<Longrightarrow> read_exact_at (get_page_offset p) PAGE_SIZE f = (Ok (slot f p), f)"
  using page_slot_bounds(1) [of p] by (simp add: read_exact_at_def slot_def wf_segment_def)

lemma write_all_at_patch:
  "off + length bs \<le> length (content f) \<Longrightarrow>
   write_all_at off bs f = (Ok (), f\<lparr>content := patch off bs (content f)\<rparr>)"
  by (simp add: write_all_at_def patch_def)

lemma wf_segment_patch:
  assumes "wf_segment f" and "p \<noteq> 0" and "length b = PAGE_SIZE"
  shows "wf_segment (f\<lparr>content := patch (get_page_offset p) b (content f)\<rparr>)"
  using assms page_slot_bounds(1) [of p] header_before_slots [of p]
  by (simp add: wf_segment_def slice_patch_other)

lemma slot_patch:
  assumes "wf_segment f" and "length b = PAGE_SIZE"
  shows "slot (f\<lparr>content := patch (get_page_offset p) b (content f)\<rparr>) q
    = (if q = p then b else slot f q)"
proof (cases "q = p")
  case True
  then show ?thesis
    using assms page_slot_bounds(1) [of p] slice_patch_same [of "get_page_offset p" b "content f"]
    by (simp add: slot_def wf_segment_def)
next
  case False
  then show ?thesis
    using assms page_slot_bounds(1) [of p] page_slot_bounds(1) [of q] page_slots_disjoint [of p q]
    by (auto simp: slot_def wf_segment_def slice_patch_other)
qed

section \<open>What a page holds\<close>

text \<open>The abstract view of a segment: what reading each page gives.\<close>

definition segment_view :: "(byte list \<Rightarrow> u16) \<Rightarrow> rfile \<Rightarrow> u16 \<Rightarrow> (file_error, page_read) outcome" where
  "segment_view crc f p = raw_read_complete crc (slot f p)"

definition page_image :: "(byte list \<Rightarrow> u16) \<Rightarrow> wal_index \<Rightarrow> byte list \<Rightarrow> byte list" where
  "page_image crc i b = enc_page_header (Init \<lparr>iph_wal_index = i, iph_crc = crc b\<rparr>) @ b"

lemma length_page_image: "length b = PAGE_BODY_SIZE \<Longrightarrow> length (page_image crc i b) = PAGE_SIZE"
  using page_sizes_add by (simp add: page_image_def ph.enc_length)

lemma raw_write_new_image:
  "length (swo_buf w) = PAGE_BODY_SIZE \<Longrightarrow>
   raw_write_new crc w = Ok (page_image crc (swo_wal_index w) (swo_buf w))"
  by (simp add: raw_write_new_def page_image_def)

lemma raw_read_complete_image:
  assumes "wf_wal_index i"
  shows "raw_read_complete crc (page_image crc i b) = Ok (Some i, b)"
proof -
  have "repr_from_bytes PAGE_HEADER_SIZE dec_page_header
      (enc_page_header (Init \<lparr>iph_wal_index = i, iph_crc = crc b\<rparr>))
    = Ok (Init \<lparr>iph_wal_index = i, iph_crc = crc b\<rparr>)"
    by (rule ph.from_bytes_enc) (simp add: wf_page_header_def assms)
  then show ?thesis
    by (simp add: raw_read_complete_def page_image_def ph.enc_length)
qed

lemma segment_read_view:
  "wf_segment f \<Longrightarrow> segment_read crc p f = (segment_view crc f p, f)"
  by (simp add: segment_read_def bindp_def read_exact_at_slot segment_view_def lift_oc_def)

lemma segment_write_run:
  assumes "wf_segment f" and "length (swo_buf w) = PAGE_BODY_SIZE"
  shows "segment_write crc w f = (Ok (), f\<lparr>content := patch (get_page_offset (swo_page_num w))
     (page_image crc (swo_wal_index w) (swo_buf w)) (content f)\<rparr>)"
  using assms page_slot_bounds(1) [of "swo_page_num w"]
  by (simp add: segment_write_def prog_simps raw_write_new_image write_all_at_patch
      length_page_image wf_segment_def)

section \<open>The page device interface\<close>

text \<open>
  What the layers above rely on: reading gives the view and changes nothing that can be
  seen, writing a page changes the view of that page only. Segment files provide it for the
  pages of one segment, the physical storage for all page addresses.
\<close>

locale page_device =
  fixes dread :: "'p \<Rightarrow> ('s, 'e, page_read) prog"
    and dwrite :: "'p \<Rightarrow> wal_index \<Rightarrow> byte list \<Rightarrow> ('s, 'e, unit) prog"
    and view :: "'s \<Rightarrow> 'p \<Rightarrow> ('e, page_read) outcome"
    and invar :: "'s \<Rightarrow> bool"
    and wf_addr :: "'p \<Rightarrow> bool"
  assumes read_ok: "invar s \<Longrightarrow> wf_addr p \<Longrightarrow>
      \<exists>s'. dread p s = (view s p, s') \<and> invar s' \<and> view s' = view s"
    and write_ok: "invar s \<Longrightarrow> wf_addr p \<Longrightarrow> wf_wal_index i \<Longrightarrow> length b = PAGE_BODY_SIZE \<Longrightarrow>
      \<exists>s'. dwrite p i b s = (Ok (), s') \<and> invar s' \<and> view s' = (view s)(p := Ok (Some i, b))"
begin

lemma read_after_write:
  assumes "invar s" and "wf_addr p" and "wf_wal_index i" and "length b = PAGE_BODY_SIZE"
  shows "fst (bindp (dwrite p i b) (\<lambda>_. dread p) s) = Ok (Some i, b)"
proof -
  obtain s1 where w: "dwrite p i b s = (Ok (), s1)" "invar s1"
      "view s1 = (view s)(p := Ok (Some i, b))"
    using write_ok [OF assms] by blast
  obtain s2 where "dread p s1 = (view s1 p, s2)"
    using read_ok [OF w(2) assms(2)] by blast
  with w show ?thesis by (simp add: bindp_Ok)
qed

lemma read_other_after_write:
  assumes "invar s" and "wf_addr p" and "wf_wal_index i" and "length b = PAGE_BODY_SIZE"
    and "wf_addr q" and "q \<noteq> p"
  shows "fst (bindp (dwrite p i b) (\<lambda>_. dread q) s) = fst (dread q s)"
proof -
  obtain s1 where w: "dwrite p i b s = (Ok (), s1)" "invar s1"
      "view s1 = (view s)(p := Ok (Some i, b))"
    using write_ok [OF assms(1-4)] by blast
  obtain s2 where "dread q s1 = (view s1 q, s2)"
    using read_ok [OF w(2) assms(5)] by blast
  moreover obtain s3 where "dread q s = (view s q, s3)"
    using read_ok [OF assms(1,5)] by blast
  ultimately show ?thesis using w assms(6) by (simp add: bindp_Ok)
qed

lemma write_all_ok:
  assumes "invar s" and "\<forall>(p, i, b) \<in> set ws. wf_addr p \<and> wf_wal_index i \<and> length b = PAGE_BODY_SIZE"
  shows "\<exists>s'. for_each (\<lambda>(p, i, b). dwrite p i b) ws s = (Ok (), s') \<and> invar s'
    \<and> view s' = fold (\<lambda>(p, i, b) v. v(p := Ok (Some i, b))) ws (view s)"
  using assms
proof (induction ws arbitrary: s)
  case Nil
  then show ?case by (auto simp: prog_simps)
next
  case (Cons w ws)
  obtain p i b where w: "w = (p, i, b)" by (cases w) auto
  obtain s1 where s1: "dwrite p i b s = (Ok (), s1)" "invar s1"
      "view s1 = (view s)(p := Ok (Some i, b))"
    using write_ok [of s p i b] Cons.prems w by auto
  then show ?case
    using Cons.IH [of s1] Cons.prems w by (auto simp: bindp_Ok)
qed

end

definition segment_write_at :: "(byte list \<Rightarrow> u16) \<Rightarrow> u16 \<Rightarrow> wal_index \<Rightarrow> byte list
    \<Rightarrow> (rfile, file_error, unit) prog" where
  "segment_write_at crc p i b =
     segment_write crc \<lparr>swo_page_num = p, swo_wal_index = i, swo_buf = b\<rparr>"

interpretation seg: page_device "segment_read crc" "segment_write_at crc"
    "segment_view crc" wf_segment "\<lambda>p. p \<noteq> 0" for crc
proof (unfold_locales, goal_cases)
  case (1 s p)
  then show ?case by (auto simp: segment_read_view)
next
  case (2 s p i b)
  then show ?case
    by (auto simp: segment_write_at_def segment_write_run wf_segment_patch length_page_image
        segment_view_def fun_eq_iff slot_patch raw_read_complete_image)
qed


section \<open>Creating and opening\<close>

lemma segment_create_run:
  "segment_create_file f = (Ok (), \<lparr>content = enc_generic_header segment_header
     @ replicate (SEGMENT_SIZE - GENERIC_HEADER_SIZE) 0, pos = GENERIC_HEADER_SIZE\<rparr>)"
proof -
  have "enc_generic_header segment_header \<noteq> []"
    by (metis enc_generic_header_length GENERIC_HEADER_SIZE_def list.size(3) zero_neq_numeral)
  moreover have "GENERIC_HEADER_SIZE \<le> SEGMENT_SIZE"
    by (simp add: GENERIC_HEADER_SIZE_def segment_size_value page_size_value)
  ultimately show ?thesis
    by (simp add: segment_create_file_def segment_header_def [symmetric] prog_simps serialize_def
        file_write_all_def file_set_len_def bindp_def)
qed

lemma wf_segment_created: "segment_create_file f = (r, f') \<Longrightarrow> wf_segment f'"
  by (auto simp: segment_create_run wf_segment_def slice_def GENERIC_HEADER_SIZE_def
      segment_size_value page_size_value)

lemma segment_open_wf:
  assumes "wf_segment f"
  shows "segment_open_file f = (Ok (), f\<lparr>pos := GENERIC_HEADER_SIZE\<rparr>)"
proof -
  have "GENERIC_HEADER_SIZE \<le> length (content f)"
    using assms by (simp add: wf_segment_def GENERIC_HEADER_SIZE_def segment_size_value page_size_value)
  then have "deserialize file_read_exact GENERIC_HEADER_SIZE dec_generic_header (f\<lparr>pos := 0\<rparr>)
    = (Ok segment_header, f\<lparr>pos := GENERIC_HEADER_SIZE\<rparr>)"
    using assms gh.file_deserialize [where v = segment_header and f = "f\<lparr>pos := 0\<rparr>"]
    by (simp add: wf_segment_def)
  then show ?thesis
    using assms by (simp add: segment_open_file_def prog_simps bindp_Ok segment_header_def
        wf_segment_def page_size_value)
qed

lemma slot_created:
  assumes "segment_create_file f = (r, f')" and "p \<noteq> 0"
  shows "slot f' p = replicate PAGE_SIZE 0"
  using assms header_before_slots [of p] page_slot_bounds(1) [of p]
  by (auto simp: slot_def segment_create_run slice_def)

text \<open>
  A segment file that was just created opens again without an error, and every one of
  its 65535 pages reads as never written: no log position and a body of zeros.
\<close>

theorem segment_create_fresh:
  assumes "p \<noteq> 0"
  shows "(case segment_create_file f of (r, f') \<Rightarrow> r = Ok ()
           \<and> fst (segment_open_file f') = Ok ()
           \<and> segment_read crc p f' = (Ok (None, replicate PAGE_BODY_SIZE 0), f'))"
proof -
  obtain f' where c: "segment_create_file f = (Ok (), f')" by (simp add: segment_create_run)
  note wf = wf_segment_created [OF c]
  have "repr_from_bytes PAGE_HEADER_SIZE dec_page_header
      (take PAGE_HEADER_SIZE (replicate PAGE_SIZE 0)) = Ok Uninit"
    using page_sizes_add dec_page_header_zeros
    by (simp add: repr_from_bytes_def min_absorb1 flip: page_sizes_add)
  then have "segment_view crc f' p = Ok (None, replicate PAGE_BODY_SIZE 0)"
    using assms c by (simp add: segment_view_def slot_created raw_read_complete_def)
  then show ?thesis
    using c wf by (simp add: segment_read_view segment_open_wf)
qed

theorem segment_create_fresh_witness:
  "\<exists>f'. segment_create_file \<lparr>content = [], pos = 0\<rparr> = (Ok (), f')
     \<and> segment_read (\<lambda>_. 0) 3 f' = (Ok (None, replicate PAGE_BODY_SIZE 0), f')"
  using segment_create_fresh [where p = 3 and f = "\<lparr>content = [], pos = 0\<rparr>" and crc = "\<lambda>_. 0"]
  by (auto split: prod.splits)

text \<open>
  C15: Writing a page of a well-formed segment and then reading any page returns the written
  body and log position for that page, and for every other page what a read returned before.
\<close>

theorem segment_write_then_read:
  assumes "wf_segment f" and "p \<noteq> 0" and "wf_wal_index i" and "length b = PAGE_BODY_SIZE"
    and "q \<noteq> 0"
  shows "fst (bindp (segment_write_at crc p i b) (\<lambda>_. segment_read crc q) f)
    = (if q = p then Ok (Some i, b) else fst (segment_read crc q f))"
  using seg.read_after_write [OF assms(1-4)] seg.read_other_after_write [OF assms] by simp

lemma wf_segment_example: "\<exists>f. wf_segment f"
  by (meson segment_create_run wf_segment_created)

theorem segment_write_then_read_witness:
  "\<exists>f. wf_segment f \<and> fst (bindp (segment_write_at (\<lambda>_. 7) 5 (WalIndex 69 420) (replicate PAGE_BODY_SIZE 25))
      (\<lambda>_. segment_read (\<lambda>_. 7) 5) f) = Ok (Some (WalIndex 69 420), replicate PAGE_BODY_SIZE 25)"
proof -
  obtain f where f: "wf_segment f" using wf_segment_example by blast
  have "wf_wal_index (WalIndex 69 420)" by (simp add: wf_wal_index_def)
  then show ?thesis
    using segment_write_then_read [OF f, of 5 "WalIndex 69 420" "replicate PAGE_BODY_SIZE 25" 5] f
    by auto
qed

text \<open>
  C31: A read never returns data that fails its checks: if reading a page returns a log
  position and a body, the slot on disk is exactly the image that a write of that position
  and body produces, with the checksum of the body in its header.
\<close>

theorem segment_read_sound:
  assumes "wf_segment f" and "segment_read crc p f = (Ok (Some i, b), f')"
  shows "slot f p = page_image crc i b \<and> wf_wal_index i \<and> f' = f"
proof -
  define hd where "hd = take PAGE_HEADER_SIZE (slot f p)"
  have len: "length hd = PAGE_HEADER_SIZE"
    using assms(1) page_sizes_add by (simp add: hd_def length_slot)
  have split: "slot f p = hd @ drop PAGE_HEADER_SIZE (slot f p)"
    by (simp add: hd_def)
  have view: "raw_read_complete crc (slot f p) = Ok (Some i, b)" and "f' = f"
    using assms by (auto simp: segment_read_view segment_view_def)
  then obtain h where h: "dec_page_header hd = Ok (Init h)" "iph_crc h = crc b"
      "iph_wal_index h = i" "b = drop PAGE_HEADER_SIZE (slot f p)"
    using len by (auto simp: raw_read_complete_def repr_from_bytes_def hd_def Let_def
        split: page_header.splits if_splits elim!: oc_bind.elims)
  from h(1) len have "wf_page_header (Init h)" by (rule ph.dec_wf [rotated])
  then have wf: "wf_wal_index i" using h(3) by (simp add: wf_page_header_def)
  have r: "page_header_view hd = \<lparr>phr_wal_generation = generation i, phr_wal_offset = offset i,
      phr_crc = crc b, phr_format_version = PAGE_FORMAT_VERSION\<rparr>"
    using h by (auto simp: dec_page_header_def page_header_try_from_def split: if_splits)
  obtain b0 b1 b2 b3 b4 b5 b6 b7 b8 b9 b10 b11 b12 b13 b14 b15 b16 b17 b18 where bs:
    "hd = [b0, b1, b2, b3, b4, b5, b6, b7, b8, b9, b10, b11, b12, b13, b14, b15, b16, b17, b18]"
    using len by (auto simp: PAGE_HEADER_SIZE_def numeral_eq_Suc length_Suc_conv)
  have "page_header_bytes (page_header_view hd) = hd"
    by (simp add: page_header_bytes_def page_header_view_def bs slice_def enc_dec_u64 enc_dec_u16)
  then have "enc_page_header (Init \<lparr>iph_wal_index = i, iph_crc = crc b\<rparr>) = hd"
    using r by (simp add: enc_page_header_def page_header_into_def)
  then show ?thesis
    using split h(4) wf \<open>f' = f\<close> by (simp add: page_image_def)
qed

theorem segment_read_sound_witness:
  "\<exists>f. wf_segment f \<and> slot f 5 = page_image (\<lambda>_. 7) (WalIndex 69 420) (replicate PAGE_BODY_SIZE 25)"
proof -
  obtain f where f: "wf_segment f" using wf_segment_example by blast
  have i: "wf_wal_index (WalIndex 69 420)" by (simp add: wf_wal_index_def)
  obtain f1 where w: "segment_write_at (\<lambda>_. 7) 5 (WalIndex 69 420) (replicate PAGE_BODY_SIZE 25) f = (Ok (), f1)"
      "wf_segment f1" "segment_view (\<lambda>_. 7) f1
         = (segment_view (\<lambda>_. 7) f)(5 := Ok (Some (WalIndex 69 420), replicate PAGE_BODY_SIZE 25))"
    using seg.write_ok [of f 5 "WalIndex 69 420" "replicate PAGE_BODY_SIZE 25" "\<lambda>_. 7"] f i by auto
  then have "segment_read (\<lambda>_. 7) 5 f1 = (Ok (Some (WalIndex 69 420), replicate PAGE_BODY_SIZE 25), f1)"
    by (simp add: segment_read_view)
  from segment_read_sound [OF w(2) this] w(2) show ?thesis by blast
qed

section \<open>Batches\<close>

text \<open>The reference: the operations of a batch one after the other.\<close>

fun segment_ops_seq :: "(byte list \<Rightarrow> u16) \<Rightarrow> segment_op list
    \<Rightarrow> (rfile, file_error, page_read option list) prog" where
  "segment_ops_seq crc [] = ret []"
| "segment_ops_seq crc (SegRead p # ops) =
     bindp (segment_read crc p) (\<lambda>r. bindp (segment_ops_seq crc ops) (\<lambda>rs. ret (Some r # rs)))"
| "segment_ops_seq crc (SegWrite w # ops) =
     bindp (segment_write crc w) (\<lambda>_. bindp (segment_ops_seq crc ops) (\<lambda>rs. ret (None # rs)))"

lemma segment_batch_seq_aux:
  "segment_ops_seq crc ops f = (Ok rs, f') \<Longrightarrow>
   \<exists>raw bufs. oc_mapM (raw_io_op_new crc) ops = Ok raw \<and> exec_batch raw f = (Ok bufs, f')
     \<and> oc_mapM (raw_complete crc) (zip ops bufs) = Ok rs"
proof (induction ops arbitrary: f rs)
  case Nil
  then show ?case by (simp add: prog_simps)
next
  case (Cons op ops)
  show ?case
  proof (cases op)
    case (SegRead p)
    with Cons.prems obtain r f1 rs' where
      "segment_read crc p f = (Ok r, f1)" "segment_ops_seq crc ops f1 = (Ok rs', f')"
      "rs = Some r # rs'"
      by (auto elim!: bindp_OkD simp: prog_simps)
    moreover from this(1) obtain buf where "read_exact_at (get_page_offset p) PAGE_SIZE f = (Ok buf, f1)"
      "raw_read_complete crc buf = Ok r"
      by (auto simp: segment_read_def prog_simps elim!: bindp_OkD)
    ultimately show ?thesis
      using Cons.IH [of f1 rs'] SegRead
      by (auto simp: raw_io_op_new_def raw_complete_def prog_simps bindp_Ok)
  next
    case (SegWrite w)
    with Cons.prems obtain f1 rs' where
      "segment_write crc w f = (Ok (), f1)" "segment_ops_seq crc ops f1 = (Ok rs', f')"
      "rs = None # rs'"
      by (auto elim!: bindp_OkD simp: prog_simps)
    moreover from this(1) obtain b where "raw_write_new crc w = Ok b"
      "write_all_at (get_page_offset (swo_page_num w)) b f = (Ok (), f1)"
      by (auto simp: segment_write_def prog_simps split: outcome.splits elim!: bindp_OkD)
    ultimately show ?thesis
      using Cons.IH [of f1 rs'] SegWrite
      by (auto simp: raw_io_op_new_def raw_complete_def prog_simps bindp_Ok)
  qed
qed

text \<open>
  A batch is equivalent to running its operations one after the other: whenever the
  sequence succeeds, the batch succeeds with the same results, read by read, and leaves the
  same file.
\<close>

theorem segment_batch_refines_sequence:
  assumes "segment_ops_seq crc ops f = (Ok rs, f')"
  shows "segment_batch crc ops f = (Ok rs, f')"
  using segment_batch_seq_aux [OF assms]
  by (auto simp: segment_batch_def prog_simps bindp_Ok)

theorem segment_batch_refines_sequence_witness:
  "\<exists>f f'. segment_batch (\<lambda>_. 7) [SegWrite \<lparr>swo_page_num = 5, swo_wal_index = WalIndex 69 420,
       swo_buf = replicate PAGE_BODY_SIZE 25\<rparr>, SegRead 5] f
     = (Ok [None, Some (Some (WalIndex 69 420), replicate PAGE_BODY_SIZE 25)], f')"
proof -
  obtain f where f: "wf_segment f" using wf_segment_example by blast
  have i: "wf_wal_index (WalIndex 69 420)" by (simp add: wf_wal_index_def)
  let ?w = "\<lparr>swo_page_num = 5, swo_wal_index = WalIndex 69 420, swo_buf = replicate PAGE_BODY_SIZE 25\<rparr>"
  obtain f1 where w: "segment_write (\<lambda>_. 7) ?w f = (Ok (), f1)" "wf_segment f1"
      "segment_view (\<lambda>_. 7) f1
         = (segment_view (\<lambda>_. 7) f)(5 := Ok (Some (WalIndex 69 420), replicate PAGE_BODY_SIZE 25))"
    using seg.write_ok [of f 5 "WalIndex 69 420" "replicate PAGE_BODY_SIZE 25" "\<lambda>_. 7"] f i
    by (auto simp: segment_write_at_def)
  then have "segment_ops_seq (\<lambda>_. 7) [SegWrite ?w, SegRead 5] f
      = (Ok [None, Some (Some (WalIndex 69 420), replicate PAGE_BODY_SIZE 25)], f1)"
    by (simp add: bindp_Ok segment_read_view prog_simps)
  from segment_batch_refines_sequence [OF this] show ?thesis by blast
qed

text \<open>
  A segment file with another format version is rejected, but the version the error
  reports is the supported one, never the one found in the file.
\<close>

theorem segment_version_error_reports_own_version:
  assumes "gh_file_type h = Segment" and "gh_version h \<noteq> FORMAT_VERSION"
    and "take GENERIC_HEADER_SIZE (content f) = enc_generic_header h"
    and "GENERIC_HEADER_SIZE \<le> length (content f)"
  shows "fst (segment_open_file f) = Err (IncompatibleVersion Segment FORMAT_VERSION)"
proof -
  have "deserialize file_read_exact GENERIC_HEADER_SIZE dec_generic_header (f\<lparr>pos := 0\<rparr>)
    = (Ok h, f\<lparr>pos := GENERIC_HEADER_SIZE\<rparr>)"
    using assms gh.file_deserialize [where v = h and f = "f\<lparr>pos := 0\<rparr>"] by (simp add: slice_def)
  then show ?thesis
    using assms(1,2) by (simp add: segment_open_file_def prog_simps bindp_Ok)
qed

theorem segment_version_error_reports_own_version_witness:
  "fst (segment_open_file \<lparr>content = enc_generic_header
      \<lparr>gh_file_type = Segment, gh_content_offset = 0, gh_version = 9\<rparr>, pos = 0\<rparr>)
   = Err (IncompatibleVersion Segment 1)"
  using segment_version_error_reports_own_version
    [where h = "\<lparr>gh_file_type = Segment, gh_content_offset = 0, gh_version = 9\<rparr>"
      and f = "\<lparr>content = enc_generic_header \<lparr>gh_file_type = Segment, gh_content_offset = 0, gh_version = 9\<rparr>, pos = 0\<rparr>"]
  by (simp add: FORMAT_VERSION_def)

end
