(* ===== verification/WalItems.thy ===== *)
theory WalItems
  imports GenericHeader
begin

unbundle bit_operations_syntax

text \<open>
  The records of the write-ahead log and their on-disk form (the first half of
  \<open>files/wal.rs\<close>): every \<open>*Repr\<close> struct with its conversions, the writers of the three
  kinds of item body and the readers of \<open>ItemReader\<close> that parse a body again.

  An \<open>Option<NonZeroU64>\<close> is stored as 0 for \<open>None\<close>. A body is written to a fresh
  vector, which cannot fail; the writers return the bytes. The assertion that the old and
  the new bytes of a write have the same length is a \<open>debug_assert\<close>, kept here as a
  well-formedness condition of the item.
\<close>

section \<open>Fixed-size blocks\<close>

datatype item_kind = ItemWrite | ItemCommit | ItemCheckpoint

fun item_kind_byte :: "item_kind \<Rightarrow> byte" where
  "item_kind_byte ItemWrite = 0"
| "item_kind_byte ItemCommit = 1"
| "item_kind_byte ItemCheckpoint = 2"

definition item_kind_try_from :: "byte \<Rightarrow> (file_error, item_kind) outcome" where
  "item_kind_try_from v =
     (if v = 0 then Ok ItemWrite else if v = 1 then Ok ItemCommit else if v = 2 then Ok ItemCheckpoint
      else Err (Corrupted (UnknownItemKind v)))"

definition FLAG_UNDO :: byte where "FLAG_UNDO = 1"

definition opt_to_u64 :: "u64 option \<Rightarrow> u64" where
  "opt_to_u64 x = (case x of None \<Rightarrow> 0 | Some v \<Rightarrow> v)"

definition u64_to_opt :: "u64 \<Rightarrow> u64 option" where
  "u64_to_opt v = (if v = 0 then None else Some v)"

lemma opt_u64_roundtrip [simp]: "x \<noteq> Some 0 \<Longrightarrow> u64_to_opt (opt_to_u64 x) = x"
  by (auto simp: opt_to_u64_def u64_to_opt_def split: option.split)

lemma u64_to_opt_nonzero [simp]: "u64_to_opt v \<noteq> Some 0"
  by (simp add: u64_to_opt_def)

record item_header =
  ih_kind :: item_kind
  ih_flags :: byte
  ih_body_length :: u16
  ih_crc :: u32
  ih_prev_item :: "u64 option"

definition ITEM_HEADER_SIZE :: nat where "ITEM_HEADER_SIZE = 16"

definition enc_item_header :: "item_header \<Rightarrow> byte list" where
  "enc_item_header h = [item_kind_byte (ih_kind h), ih_flags h] @ enc_u16 (ih_body_length h)
     @ enc_u32 (ih_crc h) @ enc_u64 (opt_to_u64 (ih_prev_item h))"

definition dec_item_header :: "byte list \<Rightarrow> (file_error, item_header) outcome" where
  "dec_item_header bs =
     oc_bind (item_kind_try_from (bs ! 0)) (\<lambda>k.
       Ok \<lparr>ih_kind = k, ih_flags = bs ! 1, ih_body_length = dec_u16 (slice 2 2 bs),
           ih_crc = dec_u32 (slice 4 4 bs), ih_prev_item = u64_to_opt (dec_u64 (slice 8 8 bs))\<rparr>)"

definition wf_item_header :: "item_header \<Rightarrow> bool" where
  "wf_item_header h \<longleftrightarrow> ih_prev_item h \<noteq> Some 0"

definition ITEM_FOOTER_SIZE :: nat where "ITEM_FOOTER_SIZE = 8"

definition enc_item_footer :: "u64 \<Rightarrow> byte list" where
  "enc_item_footer item_start = enc_u64 item_start"

definition dec_item_footer :: "byte list \<Rightarrow> (file_error, u64) outcome" where
  "dec_item_footer bs =
     (if dec_u64 bs = 0 then Err (Corrupted ItemAtPositionZero) else Ok (dec_u64 bs))"

record transaction_data =
  td_transaction_id :: u64
  td_prev_item :: "wal_index option"

definition wf_transaction_data :: "transaction_data \<Rightarrow> bool" where
  "wf_transaction_data d \<longleftrightarrow> (case td_prev_item d of None \<Rightarrow> True | Some i \<Rightarrow> wf_wal_index i)"

definition TRANSACTION_BLOCK_SIZE :: nat where "TRANSACTION_BLOCK_SIZE = 24"

text \<open>\<open>TransactionBlock\<close> has the fields of \<open>TransactionData\<close>; \<open>None\<close> gives two zeros.\<close>

definition enc_transaction_block :: "transaction_data \<Rightarrow> byte list" where
  "enc_transaction_block d = enc_u64 (td_transaction_id d)
     @ enc_u64 (case td_prev_item d of None \<Rightarrow> 0 | Some i \<Rightarrow> generation i)
     @ enc_u64 (case td_prev_item d of None \<Rightarrow> 0 | Some i \<Rightarrow> offset i)"

definition dec_transaction_block :: "byte list \<Rightarrow> (file_error, transaction_data) outcome" where
  "dec_transaction_block bs = Ok
     \<lparr>td_transaction_id = dec_u64 (slice 0 8 bs),
      td_prev_item = map_option (\<lambda>off. WalIndex (dec_u64 (slice 8 8 bs)) off)
        (u64_to_opt (dec_u64 (slice 16 8 bs)))\<rparr>"

record write_block =
  wb_page_address :: page_address
  wb_offset :: u16
  wb_write_length :: u16

definition WRITE_BLOCK_SIZE :: nat where "WRITE_BLOCK_SIZE = 10"

definition enc_write_block :: "write_block \<Rightarrow> byte list" where
  "enc_write_block b = enc_u32 (segment_num (wb_page_address b))
     @ enc_u16 (page_num (wb_page_address b)) @ enc_u16 (wb_offset b) @ enc_u16 (wb_write_length b)"

definition dec_write_block :: "byte list \<Rightarrow> (file_error, write_block) outcome" where
  "dec_write_block bs =
     (if dec_u16 (slice 4 2 bs) = 0 then Err (Corrupted InvalidPageNumber)
      else Ok \<lparr>wb_page_address = PageAddress (dec_u32 (slice 0 4 bs)) (dec_u16 (slice 4 2 bs)),
               wb_offset = dec_u16 (slice 6 2 bs), wb_write_length = dec_u16 (slice 8 2 bs)\<rparr>)"

record checkpoint_block =
  cb_num_dirty_pages :: u64
  cb_num_transactions :: u64

definition CHECKPOINT_BLOCK_SIZE :: nat where "CHECKPOINT_BLOCK_SIZE = 16"

definition enc_checkpoint_block :: "checkpoint_block \<Rightarrow> byte list" where
  "enc_checkpoint_block b = enc_u64 (cb_num_dirty_pages b) @ enc_u64 (cb_num_transactions b)"

definition dec_checkpoint_block :: "byte list \<Rightarrow> (file_error, checkpoint_block) outcome" where
  "dec_checkpoint_block bs = Ok \<lparr>cb_num_dirty_pages = dec_u64 (slice 0 8 bs),
     cb_num_transactions = dec_u64 (slice 8 8 bs)\<rparr>"

definition PAGE_ADDRESS_SIZE :: nat where "PAGE_ADDRESS_SIZE = 6"

definition enc_page_address :: "page_address \<Rightarrow> byte list" where
  "enc_page_address a = enc_u32 (segment_num a) @ enc_u16 (page_num a)"

definition dec_page_address :: "byte list \<Rightarrow> (file_error, page_address) outcome" where
  "dec_page_address bs =
     (if dec_u16 (slice 4 2 bs) = 0 then Err (Corrupted InvalidPageNumber)
      else Ok (PageAddress (dec_u32 (slice 0 4 bs)) (dec_u16 (slice 4 2 bs))))"

definition WAL_INDEX_SIZE :: nat where "WAL_INDEX_SIZE = 16"

definition enc_wal_index :: "wal_index \<Rightarrow> byte list" where
  "enc_wal_index i = enc_u64 (generation i) @ enc_u64 (offset i)"

definition dec_wal_index :: "byte list \<Rightarrow> (file_error, wal_index) outcome" where
  "dec_wal_index bs =
     (if dec_u64 (slice 8 8 bs) = 0 then Err (Corrupted InvalidWalOffset)
      else Ok (WalIndex (dec_u64 (slice 0 8 bs)) (dec_u64 (slice 8 8 bs))))"

definition TRANSACTION_STATE_SIZE :: nat where "TRANSACTION_STATE_SIZE = 24"

definition enc_transaction_state :: "transaction_state \<Rightarrow> byte list" where
  "enc_transaction_state t = enc_u64 (first_gen t) @ enc_u64 (generation (last_index t))
     @ enc_u64 (offset (last_index t))"

definition dec_transaction_state :: "byte list \<Rightarrow> (file_error, transaction_state) outcome" where
  "dec_transaction_state bs =
     (if dec_u64 (slice 16 8 bs) = 0 then Err (Corrupted InvalidWalOffset)
      else Ok \<lparr>first_gen = dec_u64 (slice 0 8 bs),
               last_index = WalIndex (dec_u64 (slice 8 8 bs)) (dec_u64 (slice 16 8 bs))\<rparr>)"

text \<open>Transaction ids are written as bare \<open>u64\<close> bytes.\<close>

definition dec_tid :: "byte list \<Rightarrow> (file_error, u64) outcome" where
  "dec_tid bs = Ok (dec_u64 bs)"

lemmas block_sizes = ITEM_HEADER_SIZE_def ITEM_FOOTER_SIZE_def TRANSACTION_BLOCK_SIZE_def
  WRITE_BLOCK_SIZE_def CHECKPOINT_BLOCK_SIZE_def PAGE_ADDRESS_SIZE_def WAL_INDEX_SIZE_def
  TRANSACTION_STATE_SIZE_def

lemma item_kind_roundtrip [simp]: "item_kind_try_from (item_kind_byte k) = Ok k"
  by (cases k) (simp_all add: item_kind_try_from_def)

interpretation ih: file_repr enc_item_header dec_item_header ITEM_HEADER_SIZE wf_item_header
  by unfold_locales (auto simp: enc_item_header_def dec_item_header_def block_sizes slice_def
      wf_item_header_def elim!: oc_bind.elims)

interpretation ifo: file_repr enc_item_footer dec_item_footer ITEM_FOOTER_SIZE "\<lambda>v. v \<noteq> 0"
  by unfold_locales (auto simp: enc_item_footer_def dec_item_footer_def block_sizes split: if_splits)

interpretation tb: file_repr enc_transaction_block dec_transaction_block TRANSACTION_BLOCK_SIZE
    wf_transaction_data
proof (unfold_locales, goal_cases)
  case (2 v)
  then show ?case
    by (cases "td_prev_item v") (auto simp: enc_transaction_block_def dec_transaction_block_def
        slice_def wf_transaction_data_def wf_wal_index_def u64_to_opt_def)
qed (auto simp: enc_transaction_block_def dec_transaction_block_def block_sizes
    wf_transaction_data_def wf_wal_index_def u64_to_opt_def)

interpretation wb: file_repr enc_write_block dec_write_block WRITE_BLOCK_SIZE
    "\<lambda>b. wf_page_address (wb_page_address b)"
  by unfold_locales (auto simp: enc_write_block_def dec_write_block_def block_sizes slice_def
      wf_page_address_def split: if_splits)

interpretation cb: file_repr enc_checkpoint_block dec_checkpoint_block CHECKPOINT_BLOCK_SIZE
    "\<lambda>_. True"
  by unfold_locales (auto simp: enc_checkpoint_block_def dec_checkpoint_block_def block_sizes slice_def)

interpretation pa: file_repr enc_page_address dec_page_address PAGE_ADDRESS_SIZE wf_page_address
  by unfold_locales (auto simp: enc_page_address_def dec_page_address_def block_sizes slice_def
      wf_page_address_def split: if_splits)

interpretation wi: file_repr enc_wal_index dec_wal_index WAL_INDEX_SIZE wf_wal_index
  by unfold_locales (auto simp: enc_wal_index_def dec_wal_index_def block_sizes slice_def
      wf_wal_index_def split: if_splits)

interpretation ts: file_repr enc_transaction_state dec_transaction_state TRANSACTION_STATE_SIZE
    wf_transaction_state
  by unfold_locales (auto simp: enc_transaction_state_def dec_transaction_state_def block_sizes
      slice_def wf_transaction_state_def wf_wal_index_def split: if_splits)

interpretation tid: file_repr enc_u64 dec_tid 8 "\<lambda>_. True"
  by unfold_locales (auto simp: dec_tid_def)


section \<open>Items\<close>

record write_data =
  wd_transaction_data :: transaction_data
  wd_page_address :: page_address
  wd_offset :: u16
  wd_from :: "byte list option"
  wd_to :: "byte list"

record checkpoint_data =
  cd_transactions :: "(u64 \<times> transaction_state) list"
  cd_dirty_pages :: "(page_address \<times> wal_index) list"

datatype item = Write write_data | Commit transaction_data | Checkpoint checkpoint_data

section \<open>Writing bodies\<close>

definition write_transaction_block :: "transaction_data \<Rightarrow> byte list" where
  "write_transaction_block d = enc_transaction_block d"

text \<open>The length is converted with \<open>expect("Write length must be 16-bit!")\<close>.\<close>

definition write_write_block :: "write_data \<Rightarrow> (file_error, byte list) outcome" where
  "write_write_block d =
     (case try_u16 (length (wd_to d)) of
        None \<Rightarrow> Panic
      | Some len \<Rightarrow> Ok (write_transaction_block (wd_transaction_data d)
          @ enc_write_block \<lparr>wb_page_address = wd_page_address d, wb_offset = wd_offset d,
              wb_write_length = len\<rparr>
          @ (case wd_from d of None \<Rightarrow> [] | Some from \<Rightarrow> from)
          @ wd_to d))"

definition write_checkpoint_block :: "checkpoint_data \<Rightarrow> byte list" where
  "write_checkpoint_block d =
     enc_checkpoint_block \<lparr>cb_num_dirty_pages = word_of_nat (length (cd_dirty_pages d)),
       cb_num_transactions = word_of_nat (length (cd_transactions d))\<rparr>
     @ concat (map (\<lambda>(a, i). enc_page_address a @ enc_wal_index i) (cd_dirty_pages d))
     @ concat (map (\<lambda>(t, s). enc_u64 t @ enc_transaction_state s) (cd_transactions d))"

definition encode_body :: "item \<Rightarrow> (file_error, item_kind \<times> byte \<times> byte list) outcome" where
  "encode_body it = (case it of
     Write d \<Rightarrow> oc_bind (write_write_block d) (\<lambda>b.
       Ok (ItemWrite, if wd_from d = None then FLAG_UNDO else 0, b))
   | Commit d \<Rightarrow> Ok (ItemCommit, 0, write_transaction_block d)
   | Checkpoint d \<Rightarrow> Ok (ItemCheckpoint, 0, write_checkpoint_block d))"

section \<open>Reading bodies\<close>

definition read_transaction_data :: "(byte list, file_error, transaction_data) prog" where
  "read_transaction_data =
     deserialize buf_read_exact TRANSACTION_BLOCK_SIZE dec_transaction_block"

definition read_write_data :: "bool \<Rightarrow> (byte list, file_error, write_data) prog" where
  "read_write_data is_undo =
     bindp read_transaction_data (\<lambda>td.
     bindp (deserialize buf_read_exact WRITE_BLOCK_SIZE dec_write_block) (\<lambda>wb.
     bindp (if is_undo then ret None
            else bindp (buf_read_exact (unat (wb_write_length wb))) (\<lambda>b. ret (Some b))) (\<lambda>from.
     bindp (buf_read_exact (unat (wb_write_length wb))) (\<lambda>to.
       ret \<lparr>wd_transaction_data = td, wd_page_address = wb_page_address wb,
            wd_offset = wb_offset wb, wd_from = from, wd_to = to\<rparr>))))"

fun read_dirty_pages :: "nat \<Rightarrow> (page_address \<times> wal_index) list
    \<Rightarrow> (byte list, file_error, (page_address \<times> wal_index) list) prog" where
  "read_dirty_pages 0 m = ret m"
| "read_dirty_pages (Suc n) m =
     bindp (deserialize buf_read_exact PAGE_ADDRESS_SIZE dec_page_address) (\<lambda>a.
     bindp (deserialize buf_read_exact WAL_INDEX_SIZE dec_wal_index) (\<lambda>i.
       read_dirty_pages n (AList.update a i m)))"

fun read_transactions :: "nat \<Rightarrow> (u64 \<times> transaction_state) list
    \<Rightarrow> (byte list, file_error, (u64 \<times> transaction_state) list) prog" where
  "read_transactions 0 m = ret m"
| "read_transactions (Suc n) m =
     bindp (deserialize buf_read_exact 8 dec_tid) (\<lambda>t.
     bindp (deserialize buf_read_exact TRANSACTION_STATE_SIZE dec_transaction_state) (\<lambda>s.
       read_transactions n (AList.update t s m)))"

definition read_checkpoint_data :: "(byte list, file_error, checkpoint_data) prog" where
  "read_checkpoint_data =
     bindp (deserialize buf_read_exact CHECKPOINT_BLOCK_SIZE dec_checkpoint_block) (\<lambda>cb.
     bindp (read_dirty_pages (unat (cb_num_dirty_pages cb)) []) (\<lambda>dp.
     bindp (read_transactions (unat (cb_num_transactions cb)) []) (\<lambda>tr.
       ret \<lparr>cd_transactions = tr, cd_dirty_pages = dp\<rparr>)))"

definition decode_body :: "item_kind \<Rightarrow> bool \<Rightarrow> (byte list, file_error, item) prog" where
  "decode_body k is_undo = (case k of
     ItemWrite \<Rightarrow> bindp (read_write_data is_undo) (\<lambda>d. ret (Write d))
   | ItemCommit \<Rightarrow> bindp read_transaction_data (\<lambda>d. ret (Commit d))
   | ItemCheckpoint \<Rightarrow> bindp read_checkpoint_data (\<lambda>d. ret (Checkpoint d)))"

section \<open>Well-formed items\<close>

text \<open>
  \<open>wf_item\<close> collects what the types of the source guarantee (non-zero page numbers and
  offsets, distinct keys of the hash maps), the asserted equal length of old and new bytes,
  and the sizes that the format can hold.
\<close>

definition wf_write_data :: "write_data \<Rightarrow> bool" where
  "wf_write_data d \<longleftrightarrow> wf_transaction_data (wd_transaction_data d)
     \<and> wf_page_address (wd_page_address d)
     \<and> (case wd_from d of None \<Rightarrow> True | Some from \<Rightarrow> length from = length (wd_to d))
     \<and> length (wd_to d) < 2 ^ 16"

definition wf_checkpoint_data :: "checkpoint_data \<Rightarrow> bool" where
  "wf_checkpoint_data d \<longleftrightarrow> distinct_keys (cd_transactions d) \<and> distinct_keys (cd_dirty_pages d)
     \<and> list_all (\<lambda>(a, i). wf_page_address a \<and> wf_wal_index i) (cd_dirty_pages d)
     \<and> list_all (\<lambda>(_, s). wf_transaction_state s) (cd_transactions d)
     \<and> length (cd_transactions d) < 2 ^ 64 \<and> length (cd_dirty_pages d) < 2 ^ 64"

definition wf_item :: "item \<Rightarrow> bool" where
  "wf_item it \<longleftrightarrow> (case it of Write d \<Rightarrow> wf_write_data d | Commit d \<Rightarrow> wf_transaction_data d
     | Checkpoint d \<Rightarrow> wf_checkpoint_data d)"

definition body_length :: "item \<Rightarrow> nat" where
  "body_length it = (case it of
     Write d \<Rightarrow> 34 + (case wd_from d of None \<Rightarrow> 0 | Some from \<Rightarrow> length from) + length (wd_to d)
   | Commit d \<Rightarrow> 24
   | Checkpoint d \<Rightarrow> 16 + 22 * length (cd_dirty_pages d) + 32 * length (cd_transactions d))"

lemma length_dirty_pages_bytes:
  "length (concat (map (\<lambda>(a, i). enc_page_address a @ enc_wal_index i) m)) = 22 * length m"
  by (induction m) (auto simp: pa.enc_length wi.enc_length block_sizes)

lemma length_transactions_bytes:
  "length (concat (map (\<lambda>(t, s). enc_u64 t @ enc_transaction_state s) m)) = 32 * length m"
  by (induction m) (auto simp: ts.enc_length block_sizes)

lemma encode_body_length:
  assumes "encode_body it = Ok (k, fl, b)"
  shows "length b = body_length it"
proof (cases it)
  case (Write d)
  with assms show ?thesis
    by (cases "wd_from d") (auto simp: encode_body_def write_write_block_def body_length_def
        write_transaction_block_def tb.enc_length wb.enc_length block_sizes split: option.splits)
next
  case (Commit d)
  with assms show ?thesis
    by (auto simp: encode_body_def body_length_def write_transaction_block_def tb.enc_length block_sizes)
next
  case (Checkpoint d)
  with assms show ?thesis
    by (auto simp: encode_body_def body_length_def write_checkpoint_block_def cb.enc_length
        length_dirty_pages_bytes length_transactions_bytes CHECKPOINT_BLOCK_SIZE_def)
qed

section \<open>Round trips\<close>

lemma read_transaction_data_enc:
  "wf_transaction_data d \<Longrightarrow> read_transaction_data (enc_transaction_block d @ r) = (Ok d, r)"
  unfolding read_transaction_data_def by (rule tb.buf_deserialize)

lemma buf_read_exact_append: "length b = n \<Longrightarrow> buf_read_exact n (b @ r) = (Ok b, r)"
  by (auto simp: buf_read_exact_def)

lemma read_write_data_enc:
  assumes "wf_write_data d" and "write_write_block d = Ok b"
  shows "read_write_data (wd_from d = None) (b @ r) = (Ok d, r)"
proof -
  obtain len where len: "try_u16 (length (wd_to d)) = Some len"
    using assms(2) by (auto simp: write_write_block_def split: option.splits)
  let ?wb = "\<lparr>wb_page_address = wd_page_address d, wb_offset = wd_offset d, wb_write_length = len\<rparr>"
  have wb: "deserialize buf_read_exact WRITE_BLOCK_SIZE dec_write_block (enc_write_block ?wb @ r') = (Ok ?wb, r')" for r'
    by (rule wb.buf_deserialize) (use assms(1) in \<open>simp add: wf_write_data_def\<close>)
  note run = bindp_Ok read_transaction_data_enc wb buf_read_exact_append
  show ?thesis
  proof (cases "wd_from d")
    case None
    then show ?thesis
      using assms len by (auto simp: write_write_block_def read_write_data_def wf_write_data_def
          write_transaction_block_def run prog_simps try_u16_Some)
  next
    case (Some old)
    then show ?thesis
      using assms len by (auto simp: write_write_block_def read_write_data_def wf_write_data_def
          write_transaction_block_def run bindp_assoc prog_simps try_u16_Some)
  qed
qed

lemma read_dirty_pages_enc:
  assumes "list_all (\<lambda>(a, i). wf_page_address a \<and> wf_wal_index i) m" and "distinct (map fst (m0 @ m))"
  shows "read_dirty_pages (length m) m0
    (concat (map (\<lambda>(a, i). enc_page_address a @ enc_wal_index i) m) @ r) = (Ok (m0 @ m), r)"
  using assms
proof (induction m arbitrary: m0)
  case Nil
  then show ?case by (simp add: prog_simps)
next
  case (Cons ai m)
  obtain a i where ai: "ai = (a, i)" by force
  then have "AList.update a i m0 = m0 @ [(a, i)]"
    using Cons.prems(2) by (intro update_fresh) auto
  then show ?case
    using Cons.IH [of "m0 @ [(a, i)]"] Cons.prems ai
    by (simp add: bindp_Ok pa.buf_deserialize bindp_Ok wi.buf_deserialize)
qed

lemma read_transactions_enc:
  assumes "list_all (\<lambda>(_, s). wf_transaction_state s) m" and "distinct (map fst (m0 @ m))"
  shows "read_transactions (length m) m0
    (concat (map (\<lambda>(t, s). enc_u64 t @ enc_transaction_state s) m) @ r) = (Ok (m0 @ m), r)"
  using assms
proof (induction m arbitrary: m0)
  case Nil
  then show ?case by (simp add: prog_simps)
next
  case (Cons ai m)
  obtain a i where ai: "ai = (a, i)" by force
  then have "AList.update a i m0 = m0 @ [(a, i)]"
    using Cons.prems(2) by (intro update_fresh) auto
  then show ?case
    using Cons.IH [of "m0 @ [(a, i)]"] Cons.prems ai
    by (simp add: bindp_Ok tid.buf_deserialize bindp_Ok ts.buf_deserialize)
qed

lemma read_checkpoint_data_enc:
  assumes "wf_checkpoint_data d"
  shows "read_checkpoint_data (write_checkpoint_block d @ r) = (Ok d, r)"
proof -
  have "unat (word_of_nat (length (cd_dirty_pages d)) :: u64) = length (cd_dirty_pages d)"
    and "unat (word_of_nat (length (cd_transactions d)) :: u64) = length (cd_transactions d)"
    using assms by (simp_all add: wf_checkpoint_data_def unat_of_nat)
  then show ?thesis
    using assms read_dirty_pages_enc [of "cd_dirty_pages d" "[]"]
      read_transactions_enc [of "cd_transactions d" "[]"]
    by (simp add: read_checkpoint_data_def write_checkpoint_block_def wf_checkpoint_data_def
        distinct_keys_def bindp_Ok cb.buf_deserialize bindp_Ok prog_simps)
qed

lemma decode_encode_body:
  assumes "wf_item it" and "encode_body it = Ok (k, fl, b)"
  shows "decode_body k (fl AND FLAG_UNDO \<noteq> 0) (b @ r) = (Ok it, r)"
proof (cases it)
  case (Write d)
  with assms obtain b' where "write_write_block d = Ok b'" "k = ItemWrite" "b = b'"
    and fl: "fl = (if wd_from d = None then FLAG_UNDO else 0)"
    by (auto simp: encode_body_def elim!: oc_bind.elims)
  moreover have "(fl AND FLAG_UNDO \<noteq> 0) = (wd_from d = None)"
    by (simp add: fl FLAG_UNDO_def)
  ultimately show ?thesis
    using Write assms(1) read_write_data_enc [of d b r]
    by (simp add: decode_body_def wf_item_def bindp_Ok prog_simps)
next
  case (Commit d)
  with assms show ?thesis
    by (auto simp: encode_body_def decode_body_def wf_item_def write_transaction_block_def
        bindp_Ok read_transaction_data_enc prog_simps)
next
  case (Checkpoint d)
  with assms show ?thesis
    by (auto simp: encode_body_def decode_body_def wf_item_def
        bindp_Ok read_checkpoint_data_enc prog_simps)
qed

lemma encode_body_ok:
  "wf_item it \<Longrightarrow> \<exists>k fl b. encode_body it = Ok (k, fl, b)"
  by (auto simp: wf_item_def encode_body_def write_write_block_def try_u16_def wf_write_data_def
      split: item.splits option.splits)

end
