(* ===== verification/WalFile.thy ===== *)
theory WalFile
  imports WalItems
begin

unbundle bit_operations_syntax

text \<open>
  One generation of the write-ahead log: \<open>WalFile\<close>, its \<open>WalFileApi\<close> operations, and the
  readers \<open>ItemReader\<close>, \<open>IterItems\<close> and \<open>IterItemsReverse\<close> (the second half of
  \<open>files/wal.rs\<close>).

  An item is a 16-byte header (kind, flags, body length, CRC-32 of the body, position of the
  previous item), the body, and an 8-byte footer with the item's own position, by which
  \<open>open\<close> finds the last item. The CRC is the parameter \<open>crc\<close>.

  The buffered reader reads the file at the reader's own position. An iterator is consumed
  from the front until its consumer stops, so it is modelled by the items it yields together
  with how the iteration ends: \<open>Ok ()\<close> for the end of the log, the error that an item gave,
  or \<open>Stuck\<close> if it has not ended after \<open>fuel\<close> items. Reading forwards consumes at least 24
  bytes per item, so the file's length is enough fuel; reading backwards follows the stored
  positions, which on a damaged file may lead in a circle.
\<close>

section \<open>State\<close>

record wal_file =
  body_start :: u64
  prev_item :: "u64 option"
  write_buf :: "byte list"
  wfile :: rfile
  next_offset :: u64

definition WAL_FORMAT_VERSION :: byte where "WAL_FORMAT_VERSION = 1"

definition WRITE_BUF_LIMIT :: nat where "WRITE_BUF_LIMIT = 2 * 1024 * 1024"

definition on_file :: "(rfile, 'e, 'a) prog \<Rightarrow> (wal_file, 'e, 'a) prog" where
  "on_file m w = (case m (wfile w) of (r, f) \<Rightarrow> (r, w\<lparr>wfile := f\<rparr>))"

lemma on_file_run [prog_simps]: "m (wfile w) = (r, f) \<Longrightarrow> on_file m w = (r, w\<lparr>wfile := f\<rparr>)"
  by (simp add: on_file_def)

section \<open>Creating and opening\<close>

text \<open>
  \<open>new\<close>: the footer of the last item is read if there is room for one after the header.
  The two conversions of the end position are \<open>unwrap\<close>ped \<open>NonZeroU64\<close>s.
\<close>

definition wal_file_new :: "u64 \<Rightarrow> (rfile, file_error, wal_file) prog" where
  "wal_file_new start =
     bindp (file_seek_end ITEM_FOOTER_SIZE) (\<lambda>prev_footer_start.
     bindp (if prev_footer_start > unat start
            then bindp (deserialize file_read_exact ITEM_FOOTER_SIZE dec_item_footer) (\<lambda>i. ret (Some i))
            else ret None) (\<lambda>prev.
     bindp (file_seek_end 0) (\<lambda>e.
       if (word_of_nat e :: u64) = 0 then panic
       else bindp get_state (\<lambda>f.
         ret \<lparr>body_start = start, prev_item = prev, write_buf = [], wfile = f,
              next_offset = word_of_nat e\<rparr>))))"

definition wal_header :: generic_header where
  "wal_header = \<lparr>gh_file_type = Wal, gh_content_offset = word_of_nat GENERIC_HEADER_SIZE,
     gh_version = WAL_FORMAT_VERSION\<rparr>"

definition wal_file_create :: "(rfile, file_error, wal_file) prog" where
  "wal_file_create =
     bindp (file_seek_start 0) (\<lambda>_.
     bindp (serialize file_write_all enc_generic_header wal_header) (\<lambda>_.
       wal_file_new (word_of_nat GENERIC_HEADER_SIZE)))"

definition wal_file_open :: "(rfile, file_error, wal_file) prog" where
  "wal_file_open =
     bindp (file_seek_start 0) (\<lambda>_.
     bindp (deserialize file_read_exact GENERIC_HEADER_SIZE dec_generic_header) (\<lambda>header.
       if gh_file_type header \<noteq> Wal then throw (WrongFileType (gh_file_type header))
       else if gh_version header \<noteq> WAL_FORMAT_VERSION
         then throw (IncompatibleVersion (gh_file_type header) (gh_version header))
       else wal_file_new (ucast (gh_content_offset header))))"

section \<open>Appending\<close>

definition wal_flush :: "(wal_file, file_error, unit) prog" where
  "wal_flush =
     bindp get_state (\<lambda>w.
     bindp (on_file (file_write_all (write_buf w))) (\<lambda>_.
       modify (\<lambda>w. w\<lparr>write_buf := []\<rparr>)))"

definition buf_push :: "byte list \<Rightarrow> (wal_file, file_error, unit) prog" where
  "buf_push bs = modify (\<lambda>w. w\<lparr>write_buf := write_buf w @ bs\<rparr>)"

definition wal_push_item :: "(byte list \<Rightarrow> u32) \<Rightarrow> item \<Rightarrow> (wal_file, file_error, u64) prog" where
  "wal_push_item crc it =
     bindp get_state (\<lambda>w0.
     let current_pos = next_offset w0 in
     bindp (lift_oc (encode_body it)) (\<lambda>(kind, flags, body).
     case try_u16 (length body) of
       None \<Rightarrow> panic
     | Some body_len \<Rightarrow>
         bindp (serialize buf_push enc_item_header
           \<lparr>ih_kind = kind, ih_flags = flags, ih_body_length = body_len, ih_crc = crc body,
            ih_prev_item = prev_item w0\<rparr>) (\<lambda>_.
         bindp (buf_push body) (\<lambda>_.
         bindp (serialize buf_push enc_item_footer current_pos) (\<lambda>_.
         bindp (modify (\<lambda>w. w\<lparr>prev_item := Some current_pos\<rparr>)) (\<lambda>_.
         bindp (on_file (file_seek_end 0)) (\<lambda>e.
         bindp get_state (\<lambda>w1.
         let next = word_of_nat e + word_of_nat (length (write_buf w1)) :: u64 in
         if next = 0 then panic
         else
           bindp (modify (\<lambda>w. w\<lparr>next_offset := next\<rparr>)) (\<lambda>_.
           bindp (if length (write_buf w1) < WRITE_BUF_LIMIT then wal_flush else ret ()) (\<lambda>_.
             ret current_pos))))))))))"

definition wal_size :: "wal_file \<Rightarrow> nat" where
  "wal_size w = unat (next_offset w)"

section \<open>Reading\<close>

record item_reader =
  rd_offset :: u64
  rd_file :: rfile
  rd_prev_item :: "u64 option"

definition item_reader_new :: "rfile \<Rightarrow> u64 option \<Rightarrow> item_reader" where
  "item_reader_new f prev = \<lparr>rd_offset = word_of_nat (pos f), rd_file = f, rd_prev_item = prev\<rparr>"

definition on_reader :: "(rfile, 'e, 'a) prog \<Rightarrow> (item_reader, 'e, 'a) prog" where
  "on_reader m r = (case m (rd_file r) of (x, f) \<Rightarrow> (x, r\<lparr>rd_file := f\<rparr>))"

lemma on_reader_run [prog_simps]:
  "m (rd_file r) = (x, f) \<Longrightarrow> on_reader m r = (x, r\<lparr>rd_file := f\<rparr>)"
  by (simp add: on_reader_def)

definition read_item_exact :: "(byte list \<Rightarrow> u32) \<Rightarrow> (item_reader, file_error, u64 \<times> item) prog" where
  "read_item_exact crc =
     bindp (on_reader (deserialize file_read_exact ITEM_HEADER_SIZE dec_item_header)) (\<lambda>header.
     bindp (on_reader (file_read_exact (unat (ih_body_length header)))) (\<lambda>body.
     bindp (modify (\<lambda>r. r\<lparr>rd_prev_item := ih_prev_item header\<rparr>)) (\<lambda>_.
     if crc body \<noteq> ih_crc header then throw ChecksumMismatch
     else
       bindp (lift_oc (fst (decode_body (ih_kind header) (ih_flags header AND FLAG_UNDO \<noteq> 0) body))) (\<lambda>it.
       bindp (on_reader (file_seek_relative (int ITEM_FOOTER_SIZE))) (\<lambda>_.
       bindp get_state (\<lambda>r.
       bindp (modify (\<lambda>r. r\<lparr>rd_offset := rd_offset r + word_of_nat
         (ITEM_HEADER_SIZE + unat (ih_body_length header) + ITEM_FOOTER_SIZE)\<rparr>)) (\<lambda>_.
         if rd_offset r = 0 then panic else ret (rd_offset r, it))))))))"

definition read_item :: "(byte list \<Rightarrow> u32) \<Rightarrow> (item_reader, file_error, (u64 \<times> item) option) prog" where
  "read_item crc r = (case read_item_exact crc r of
     (Err UnexpectedEof, r') \<Rightarrow> (Ok None, r')
   | (Err e, r') \<Rightarrow> (Err e, r')
   | (Ok v, r') \<Rightarrow> (Ok (Some v), r')
   | (Panic, r') \<Rightarrow> (Panic, r')
   | (Stuck, r') \<Rightarrow> (Stuck, r'))"

text \<open>The distance to the previous item is converted to \<open>i64\<close> with \<open>expect\<close>.\<close>

definition read_prev_item :: "(byte list \<Rightarrow> u32) \<Rightarrow> (item_reader, file_error, (u64 \<times> item) option) prog" where
  "read_prev_item crc =
     bindp get_state (\<lambda>r.
     case rd_prev_item r of
       None \<Rightarrow> ret None
     | Some p \<Rightarrow>
         let d = int (unat p) - int (unat (rd_offset r)) in
         if \<bar>d\<bar> \<ge> 2 ^ 63 then panic
         else
           bindp (on_reader (file_seek_relative d)) (\<lambda>_.
           bindp (modify (\<lambda>r. r\<lparr>rd_offset := p\<rparr>)) (\<lambda>_. read_item crc)))"

type_synonym item_iter = "(u64 \<times> item) list \<times> (file_error, unit) outcome"

fun run_iter :: "(item_reader, file_error, (u64 \<times> item) option) prog \<Rightarrow> nat \<Rightarrow> item_reader \<Rightarrow> item_iter" where
  "run_iter nxt 0 r = ([], Stuck)"
| "run_iter nxt (Suc fuel) r = (case nxt r of
     (Ok None, r') \<Rightarrow> ([], Ok ())
   | (Ok (Some x), r') \<Rightarrow> (case run_iter nxt fuel r' of (xs, e) \<Rightarrow> (x # xs, e))
   | (Err e, r') \<Rightarrow> ([], Err e)
   | (Panic, r') \<Rightarrow> ([], Panic)
   | (Stuck, r') \<Rightarrow> ([], Stuck))"

definition iter_fuel :: "rfile \<Rightarrow> nat" where
  "iter_fuel f = Suc (length (content f))"

definition wal_read_item_at :: "(byte list \<Rightarrow> u32) \<Rightarrow> u64 \<Rightarrow> (wal_file, file_error, item) prog" where
  "wal_read_item_at crc off =
     bindp wal_flush (\<lambda>_.
     bindp (on_file (file_seek_start (unat off))) (\<lambda>_.
     bindp get_state (\<lambda>w.
     bindp (lift_oc (fst (read_item crc (item_reader_new (wfile w) None)))) (\<lambda>x.
       case x of None \<Rightarrow> throw UnexpectedEof | Some (_, it) \<Rightarrow> ret it))))"

definition wal_iter_items :: "(byte list \<Rightarrow> u32) \<Rightarrow> (wal_file, file_error, item_iter) prog" where
  "wal_iter_items crc =
     bindp wal_flush (\<lambda>_.
     bindp get_state (\<lambda>w.
     bindp (on_file (file_seek_start (unat (body_start w)))) (\<lambda>_.
     bindp get_state (\<lambda>w.
       ret (run_iter (read_item crc) (iter_fuel (wfile w)) (item_reader_new (wfile w) None))))))"

definition wal_iter_items_reverse :: "(byte list \<Rightarrow> u32) \<Rightarrow> (wal_file, file_error, item_iter) prog" where
  "wal_iter_items_reverse crc =
     bindp wal_flush (\<lambda>_.
     bindp (on_file (file_seek_end 0)) (\<lambda>_.
     bindp get_state (\<lambda>w.
       ret (run_iter (read_prev_item crc) (iter_fuel (wfile w))
         (item_reader_new (wfile w) (prev_item w))))))"


section \<open>The layout of a log\<close>

definition item_len :: "item \<Rightarrow> nat" where
  "item_len it = ITEM_HEADER_SIZE + body_length it + ITEM_FOOTER_SIZE"

definition item_image :: "(byte list \<Rightarrow> u32) \<Rightarrow> u64 option \<Rightarrow> nat \<Rightarrow> item \<Rightarrow> byte list" where
  "item_image crc prev off it = (case encode_body it of
     Ok (k, fl, b) \<Rightarrow> enc_item_header \<lparr>ih_kind = k, ih_flags = fl,
         ih_body_length = word_of_nat (length b), ih_crc = crc b, ih_prev_item = prev\<rparr>
       @ b @ enc_item_footer (word_of_nat off)
   | _ \<Rightarrow> [])"

fun log_image :: "(byte list \<Rightarrow> u32) \<Rightarrow> u64 option \<Rightarrow> nat \<Rightarrow> item list \<Rightarrow> byte list" where
  "log_image crc prev off [] = []"
| "log_image crc prev off (it # its) =
     item_image crc prev off it @ log_image crc (Some (word_of_nat off)) (off + item_len it) its"

fun log_len :: "item list \<Rightarrow> nat" where
  "log_len [] = 0"
| "log_len (it # its) = item_len it + log_len its"

fun last_pos :: "u64 option \<Rightarrow> nat \<Rightarrow> item list \<Rightarrow> u64 option" where
  "last_pos prev off [] = prev"
| "last_pos prev off (it # its) = last_pos (Some (word_of_nat off)) (off + item_len it) its"

fun log_entries :: "nat \<Rightarrow> item list \<Rightarrow> (u64 \<times> item) list" where
  "log_entries off [] = []"
| "log_entries off (it # its) = (word_of_nat off, it) # log_entries (off + item_len it) its"

text \<open>What fits into the format: well-formed, with a body length of 16 bits.\<close>

definition loggable :: "item \<Rightarrow> bool" where
  "loggable it \<longleftrightarrow> wf_item it \<and> body_length it < 2 ^ 16"

lemma loggable_encode:
  assumes "loggable it"
  obtains k fl b where "encode_body it = Ok (k, fl, b)" and "length b = body_length it"
    and "unat (word_of_nat (length b) :: u16) = length b"
    and "try_u16 (length b) = Some (word_of_nat (length b))"
proof -
  obtain k fl b where "encode_body it = Ok (k, fl, b)"
    using assms encode_body_ok unfolding loggable_def by blast
  moreover from this have "length b = body_length it" by (rule encode_body_length)
  ultimately show ?thesis
    using assms that by (simp add: loggable_def try_u16_def unat_of_nat)
qed

lemma length_item_image: "loggable it \<Longrightarrow> length (item_image crc prev off it) = item_len it"
  by (erule loggable_encode) (simp add: item_image_def item_len_def ih.enc_length ifo.enc_length)

lemma item_len_ge: "24 \<le> item_len it"
  by (simp add: item_len_def block_sizes)

lemma length_log_image: "list_all loggable its \<Longrightarrow> length (log_image crc prev off its) = log_len its"
  by (induction its arbitrary: prev off) (simp_all add: length_item_image)

lemma length_log_entries [simp]: "length (log_entries off its) = length its"
  by (induction its arbitrary: off) simp_all

lemma length_le_log_len: "length its \<le> log_len its"
proof (induction its)
  case Nil
  show ?case by simp
next
  case (Cons it its)
  then show ?case using item_len_ge [of it] by simp
qed

lemma log_len_append [simp]: "log_len (xs @ ys) = log_len xs + log_len ys"
  by (induction xs) simp_all

lemma last_pos_append: "last_pos prev off (xs @ ys) = last_pos (last_pos prev off xs) (off + log_len xs) ys"
  by (induction xs arbitrary: prev off) (simp_all add: add.assoc)

lemma log_image_append:
  "log_image crc prev off (xs @ ys)
   = log_image crc prev off xs @ log_image crc (last_pos prev off xs) (off + log_len xs) ys"
  by (induction xs arbitrary: prev off) (simp_all add: add.assoc)

lemma log_entries_append:
  "log_entries off (xs @ ys) = log_entries off xs @ log_entries (off + log_len xs) ys"
  by (induction xs arbitrary: off) (simp_all add: add.assoc)

lemma last_pos_nonzero:
  "prev \<noteq> Some 0 \<Longrightarrow> 0 < off \<Longrightarrow> off + log_len its < 2 ^ 64 \<Longrightarrow> last_pos prev off its \<noteq> Some 0"
proof (induction its arbitrary: prev off)
  case Nil
  then show ?case by simp
next
  case (Cons it its)
  have "unat (word_of_nat off :: u64) = off"
    using Cons.prems by (simp add: unat_of_nat)
  then have "(word_of_nat off :: u64) \<noteq> 0"
    using Cons.prems(2) by (metis less_irrefl unat_eq_0)
  then show ?case using Cons by simp
qed

lemma log_entries_offsets:
  "(o', it) \<in> set (log_entries off its) \<Longrightarrow> off + log_len its < 2 ^ 64 \<Longrightarrow>
   off \<le> unat o' \<and> unat o' + item_len it \<le> off + log_len its"
proof (induction its arbitrary: off)
  case Nil
  then show ?case by simp
next
  case (Cons x its)
  have "unat (word_of_nat off :: u64) = off"
    using Cons.prems(2) by (simp add: unat_of_nat)
  then show ?case
    using Cons by (auto dest!: Cons.IH)
qed

section \<open>Reading one item\<close>

definition at_pos :: "rfile \<Rightarrow> nat \<Rightarrow> byte list \<Rightarrow> bool" where
  "at_pos f p bs \<longleftrightarrow> pos f = p \<and> p + length bs \<le> length (content f)
     \<and> slice p (length bs) (content f) = bs"

lemma at_posI: "content f = A @ bs @ B \<Longrightarrow> pos f = length A \<Longrightarrow> at_pos f (length A) bs"
  by (simp add: at_pos_def slice_def)

lemma at_pos_appendD:
  assumes "at_pos f p (xs @ ys)"
  shows "at_pos f p xs" and "at_pos (f\<lparr>pos := p + length xs\<rparr>) (p + length xs) ys"
proof -
  have eq: "slice p (length xs + length ys) (content f) = xs @ ys"
    and le: "p + (length xs + length ys) \<le> length (content f)"
    using assms by (simp_all add: at_pos_def)
  have "slice p (length xs) (content f) = take (length xs) (slice p (length xs + length ys) (content f))"
    by (simp add: slice_def min_def)
  moreover have "slice (p + length xs) (length ys) (content f)
      = drop (length xs) (slice p (length xs + length ys) (content f))"
    by (simp add: slice_def drop_take add.commute)
  ultimately show "at_pos f p xs" and "at_pos (f\<lparr>pos := p + length xs\<rparr>) (p + length xs) ys"
    using eq le assms by (simp_all add: at_pos_def)
qed

lemma at_pos_read_exact:
  "at_pos f p bs \<Longrightarrow> length bs = n \<Longrightarrow> file_read_exact n f = (Ok bs, f\<lparr>pos := p + n\<rparr>)"
  by (auto simp: at_pos_def file_read_exact_def)

lemma read_item_exact_image:
  assumes it: "loggable it" and at: "at_pos (rd_file r) p (item_image crc prev p it)"
    and ro: "rd_offset r = word_of_nat p" and p: "0 < p" "p + item_len it < 2 ^ 63"
    and prev: "prev \<noteq> Some 0"
  shows "read_item_exact crc r = (Ok (word_of_nat p, it),
    \<lparr>rd_offset = word_of_nat (p + item_len it),
     rd_file = (rd_file r)\<lparr>pos := p + item_len it\<rparr>, rd_prev_item = prev\<rparr>)"
proof -
  obtain k fl b where enc: "encode_body it = Ok (k, fl, b)" and lb: "length b = body_length it"
    and wl: "unat (word_of_nat (length b) :: u16) = length b"
    using it by (rule loggable_encode)
  let ?h = "\<lparr>ih_kind = k, ih_flags = fl, ih_body_length = word_of_nat (length b),
    ih_crc = crc b, ih_prev_item = prev\<rparr>"
  let ?f = "rd_file r"
  have img: "item_image crc prev p it = enc_item_header ?h @ b @ enc_item_footer (word_of_nat p)"
    by (simp add: item_image_def enc)
  note at0 = at [unfolded img]
  have h: "deserialize file_read_exact ITEM_HEADER_SIZE dec_item_header ?f
      = (Ok ?h, ?f\<lparr>pos := p + ITEM_HEADER_SIZE\<rparr>)"
    using at_pos_appendD(1) [OF at0] prev ih.file_deserialize [where v = ?h and f = ?f]
    by (simp add: at_pos_def wf_item_header_def ih.enc_length)
  have b: "file_read_exact (length b) (?f\<lparr>pos := p + ITEM_HEADER_SIZE\<rparr>)
      = (Ok b, ?f\<lparr>pos := p + ITEM_HEADER_SIZE + length b\<rparr>)"
    using at_pos_read_exact [OF at_pos_appendD(1) [OF at_pos_appendD(2) [OF at0]] refl]
    by (simp add: ih.enc_length)
  have d: "fst (decode_body k (fl AND FLAG_UNDO \<noteq> 0) b) = Ok it"
    using decode_encode_body [of it k fl b "[]"] it enc by (simp add: loggable_def)
  have nz: "(word_of_nat p :: u64) \<noteq> 0"
  proof -
    have "unat (word_of_nat p :: u64) = p" using p by (simp add: unat_of_nat)
    with p(1) show ?thesis by (metis less_irrefl unat_eq_0)
  qed
  have il: "item_len it = ITEM_HEADER_SIZE + length b + ITEM_FOOTER_SIZE"
    by (simp add: item_len_def lb)
  have w: "(word_of_nat p :: u64) + word_of_nat (ITEM_HEADER_SIZE + length b + ITEM_FOOTER_SIZE)
      = word_of_nat (p + item_len it)"
    by (simp add: il)
  have sk: "file_seek_relative (int ITEM_FOOTER_SIZE) (?f\<lparr>pos := p + ITEM_HEADER_SIZE + length b\<rparr>)
      = (Ok (), ?f\<lparr>pos := p + item_len it\<rparr>)"
    using p(2) by (simp add: file_seek_relative_def il nat_add_distrib ITEM_FOOTER_SIZE_def)
  show ?thesis
    unfolding read_item_exact_def
    apply (subst bindp_Ok [where a = ?h and s' = "r\<lparr>rd_file := ?f\<lparr>pos := p + ITEM_HEADER_SIZE\<rparr>\<rparr>"])
     apply (simp add: on_reader_def h)
    apply (subst bindp_Ok [where a = b and s' = "r\<lparr>rd_file := ?f\<lparr>pos := p + ITEM_HEADER_SIZE + length b\<rparr>\<rparr>"])
     apply (simp add: on_reader_def b wl)
    apply (simp add: d sk nz w ro wl prog_simps bindp_Ok del: of_nat_add)
    done
qed

lemma read_item_image:
  assumes "loggable it" and "at_pos (rd_file r) p (item_image crc prev p it)"
    and "rd_offset r = word_of_nat p" and "0 < p" "p + item_len it < 2 ^ 63" and "prev \<noteq> Some 0"
  shows "read_item crc r = (Ok (Some (word_of_nat p, it)),
    \<lparr>rd_offset = word_of_nat (p + item_len it),
     rd_file = (rd_file r)\<lparr>pos := p + item_len it\<rparr>, rd_prev_item = prev\<rparr>)"
  using read_item_exact_image [OF assms] by (simp add: read_item_def)


lemma read_item_eof:
  assumes "pos (rd_file r) + ITEM_HEADER_SIZE > length (content (rd_file r))"
  shows "\<exists>r'. read_item crc r = (Ok None, r')"
  using assms by (simp add: read_item_def read_item_exact_def on_reader_def deserialize_def
      file_read_exact_def bindp_def)

text \<open>
  A header that was written completely, before a body that was not: the reader goes on into
  whatever bytes follow, and the checksum is that of the mixture.
\<close>

lemma read_item_after_torn:
  assumes enc: "encode_body it = Ok (kd, fl, b)" and it: "loggable it"
    and k: "ITEM_HEADER_SIZE \<le> k" "k < ITEM_HEADER_SIZE + length b"
    and f: "content (rd_file r) = A @ take k (item_image crc prev p it) @ B" "pos (rd_file r) = length A"
    and prev: "prev \<noteq> Some 0"
  shows "k + length B < ITEM_HEADER_SIZE + length b \<Longrightarrow> \<exists>r'. read_item crc r = (Ok None, r')"
    and "ITEM_HEADER_SIZE + length b \<le> k + length B \<Longrightarrow>
      crc (take (k - ITEM_HEADER_SIZE) b @ take (ITEM_HEADER_SIZE + length b - k) B) \<noteq> crc b \<Longrightarrow>
      \<exists>r'. read_item crc r = (Err ChecksumMismatch, r')"
proof -
  have lb: "length b = body_length it" and wl: "unat (word_of_nat (length b) :: u16) = length b"
    using it enc by (auto elim: loggable_encode)
  let ?h = "\<lparr>ih_kind = kd, ih_flags = fl, ih_body_length = word_of_nat (length b),
    ih_crc = crc b, ih_prev_item = prev\<rparr>"
  let ?f = "rd_file r"
  have img: "item_image crc prev p it = enc_item_header ?h @ b @ enc_item_footer (word_of_nat p)"
    by (simp add: item_image_def enc)
  have lh: "length (enc_item_header ?h) = ITEM_HEADER_SIZE" by (rule ih.enc_length)
  have cont: "content ?f = A @ enc_item_header ?h @ take (k - ITEM_HEADER_SIZE) b @ B"
    using f(1) k lh by (simp add: img)
  then have "slice (length A) ITEM_HEADER_SIZE (content ?f) = enc_item_header ?h"
    using lh by (simp add: slice_def)
  then have h: "deserialize file_read_exact ITEM_HEADER_SIZE dec_item_header ?f
      = (Ok ?h, ?f\<lparr>pos := length A + ITEM_HEADER_SIZE\<rparr>)"
    using ih.file_deserialize [where v = ?h and f = ?f] f(2) prev cont lh
    by (simp add: wf_item_header_def)
  let ?r = "r\<lparr>rd_file := ?f\<lparr>pos := length A + ITEM_HEADER_SIZE\<rparr>\<rparr>"
  {
    assume s: "k + length B < ITEM_HEADER_SIZE + length b"
    have "file_read_exact (length b) (?f\<lparr>pos := length A + ITEM_HEADER_SIZE\<rparr>)
        = (Err UnexpectedEof, ?f\<lparr>pos := length (content ?f)\<rparr>)"
      using cont s k lh by (simp add: file_read_exact_def)
    then have "read_item_exact crc r = (Err UnexpectedEof, r\<lparr>rd_file := ?f\<lparr>pos := length (content ?f)\<rparr>\<rparr>)"
      unfolding read_item_exact_def
      apply (subst bindp_Ok [where a = ?h and s' = ?r])
       apply (simp add: on_reader_def h)
      apply (rule bindp_Err)
      apply (simp add: on_reader_def wl)
      done
    then show "\<exists>r'. read_item crc r = (Ok None, r')" by (simp add: read_item_def)
  next
    assume s: "ITEM_HEADER_SIZE + length b \<le> k + length B"
      and c: "crc (take (k - ITEM_HEADER_SIZE) b @ take (ITEM_HEADER_SIZE + length b - k) B) \<noteq> crc b"
    let ?b = "take (k - ITEM_HEADER_SIZE) b @ take (ITEM_HEADER_SIZE + length b - k) B"
    let ?g = "?f\<lparr>pos := length A + ITEM_HEADER_SIZE + length b\<rparr>"
    have "slice (length A + ITEM_HEADER_SIZE) (length b) (content ?f) = ?b"
      using cont k lh by (simp add: slice_def add.commute)
    then have rb: "file_read_exact (length b) (?f\<lparr>pos := length A + ITEM_HEADER_SIZE\<rparr>) = (Ok ?b, ?g)"
      using cont s k lh by (simp add: file_read_exact_def)
    have "read_item_exact crc r = (Err ChecksumMismatch, r\<lparr>rd_file := ?g, rd_prev_item := prev\<rparr>)"
      unfolding read_item_exact_def
      apply (subst bindp_Ok [where a = ?h and s' = ?r])
       apply (simp add: on_reader_def h)
      apply (subst bindp_Ok [where a = ?b and s' = "r\<lparr>rd_file := ?g\<rparr>"])
       apply (simp add: on_reader_def wl rb)
      using c by (simp add: prog_simps)
    then show "\<exists>r'. read_item crc r = (Err ChecksumMismatch, r')" by (simp add: read_item_def)
  }
qed

lemma read_item_torn_body:
  assumes it: "loggable it" and k: "ITEM_HEADER_SIZE \<le> k" "k < ITEM_HEADER_SIZE + body_length it"
    and f: "content (rd_file r) = A @ take k (item_image crc prev p it)" "pos (rd_file r) = length A"
    and prev: "prev \<noteq> Some 0"
  shows "\<exists>r'. read_item crc r = (Ok None, r')"
proof -
  obtain kd fl b where enc: "encode_body it = Ok (kd, fl, b)" and lb: "length b = body_length it"
    using it by (rule loggable_encode)
  show ?thesis
    using read_item_after_torn(1) [OF enc it k(1) _ _ f(2) prev, of _ _ "[]"] k(2) f(1) lb by simp
qed

section \<open>Iterating\<close>

lemma run_iter_until:
  assumes "list_all loggable its" and "content f = A @ log_image crc prev p its @ tail"
    and "p = length A" and "0 < p" and "p + log_len its < 2 ^ 63" and "prev \<noteq> Some 0"
    and "length its < fuel"
    and stop: "\<And>r n. content (rd_file r) = content f \<Longrightarrow> pos (rd_file r) = p + log_len its \<Longrightarrow>
        run_iter (read_item crc) (Suc n) r = ([], e)"
  shows "content (rd_file r) = content f \<Longrightarrow> pos (rd_file r) = p \<Longrightarrow> rd_offset r = word_of_nat p \<Longrightarrow>
    run_iter (read_item crc) fuel r = (log_entries p its, e)"
  using assms
proof (induction its arbitrary: A prev p fuel r)
  case Nil
  then obtain n where "fuel = Suc n" by (cases fuel) auto
  then show ?case using Nil.prems by simp
next
  case (Cons it its)
  obtain n where fuel: "fuel = Suc n" using Cons.prems by (cases fuel) auto
  let ?img = "item_image crc prev p it"
  have len: "length ?img = item_len it" using Cons.prems by (simp add: length_item_image)
  have "at_pos (rd_file r) (length A) ?img"
    using Cons.prems by (intro at_posI) simp_all
  then have rd: "read_item crc r = (Ok (Some (word_of_nat p, it)),
      \<lparr>rd_offset = word_of_nat (p + item_len it),
       rd_file = (rd_file r)\<lparr>pos := p + item_len it\<rparr>, rd_prev_item = prev\<rparr>)" (is "_ = (_, ?r1)")
    using Cons.prems by (intro read_item_image) simp_all
  have up: "unat (word_of_nat p :: u64) = p"
    using Cons.prems by (simp add: unat_of_nat)
  then have nz: "(word_of_nat p :: u64) \<noteq> 0"
    using Cons.prems(7) by (metis less_irrefl unat_eq_0)
  have "run_iter (read_item crc) n ?r1 = (log_entries (p + item_len it) its, e)"
    by (rule Cons.IH [where A = "A @ ?img" and prev = "Some (word_of_nat p)"])
      (use Cons.prems len nz fuel in \<open>simp_all add: add.assoc\<close>)
  then show ?case using rd fuel by simp
qed

lemma run_iter_forward:
  assumes "list_all loggable its" and "content f = A @ log_image crc prev p its @ tail"
    and "p = length A" and "0 < p" and "p + log_len its < 2 ^ 63" and "prev \<noteq> Some 0"
    and "length its < fuel"
    and stop: "\<And>r. content (rd_file r) = content f \<Longrightarrow> pos (rd_file r) = p + log_len its \<Longrightarrow>
        \<exists>r'. read_item crc r = (Ok None, r')"
    and "content (rd_file r) = content f" "pos (rd_file r) = p" "rd_offset r = word_of_nat p"
  shows "run_iter (read_item crc) fuel r = (log_entries p its, Ok ())"
proof (rule run_iter_until [OF assms(1-7) _ assms(9-11)])
  fix s :: item_reader and n
  assume "content (rd_file s) = content f" "pos (rd_file s) = p + log_len its"
  from stop [OF this] show "run_iter (read_item crc) (Suc n) s = ([], Ok ())" by auto
qed

lemma seek_relative_to:
  "unat (rd_offset r) = pos (rd_file r) \<Longrightarrow> p < 2 ^ 63 \<Longrightarrow>
   on_reader (file_seek_relative (int p - int (unat (rd_offset r)))) r
   = (Ok (), r\<lparr>rd_file := (rd_file r)\<lparr>pos := p\<rparr>\<rparr>)"
  by (simp add: on_reader_def file_seek_relative_def)

lemma run_iter_reverse:
  assumes "list_all loggable its" and "content f = A @ log_image crc None p its @ tail"
    and "p = length A" and "0 < p" and "p + log_len its < 2 ^ 63" and "length its < fuel"
  shows "content (rd_file r) = content f \<Longrightarrow> unat (rd_offset r) = pos (rd_file r) \<Longrightarrow>
    pos (rd_file r) < 2 ^ 63 \<Longrightarrow> rd_prev_item r = last_pos None p its \<Longrightarrow>
    run_iter (read_prev_item crc) fuel r = (rev (log_entries p its), Ok ())"
  using assms
proof (induction its arbitrary: fuel r tail rule: rev_induct)
  case Nil
  then obtain n where "fuel = Suc n" by (cases fuel) auto
  then show ?case using Nil.prems by (simp add: read_prev_item_def prog_simps)
next
  case (snoc it its)
  obtain n where fuel: "fuel = Suc n" using snoc.prems by (cases fuel) auto
  define q where "q = p + log_len its"
  define prev where "prev = last_pos None p its"
  let ?img = "item_image crc prev q it"
  have its: "list_all loggable its" and it: "loggable it" using snoc.prems(5) by simp_all
  have q: "0 < q" "q + item_len it < 2 ^ 63" using snoc.prems(8,9) by (simp_all add: q_def)
  have uq: "unat (word_of_nat q :: u64) = q" using q by (simp add: unat_of_nat)
  have nz: "prev \<noteq> Some 0"
    unfolding prev_def by (rule last_pos_nonzero) (use snoc.prems(8,9) in simp_all)
  have len: "length (log_image crc None p its) = log_len its" using its by (rule length_log_image)
  have cont: "content f = (A @ log_image crc None p its) @ ?img @ tail"
    using snoc.prems(6) by (simp add: log_image_append q_def prev_def)
  have last: "rd_prev_item r = Some (word_of_nat q)"
    using snoc.prems(4) by (simp add: last_pos_append q_def)
  let ?r0 = "r\<lparr>rd_file := (rd_file r)\<lparr>pos := q\<rparr>, rd_offset := word_of_nat q\<rparr>"
  have at: "at_pos (rd_file ?r0) q ?img"
    using at_posI [where f = "(rd_file r)\<lparr>pos := q\<rparr>" and A = "A @ log_image crc None p its"
        and bs = ?img and B = tail] cont snoc.prems(1,7) len by (simp add: q_def)
  have "read_item crc ?r0 = (Ok (Some (word_of_nat q, it)),
      \<lparr>rd_offset = word_of_nat (q + item_len it),
       rd_file = (rd_file r)\<lparr>pos := q + item_len it\<rparr>, rd_prev_item = prev\<rparr>)" (is "_ = (_, ?r1)")
    using read_item_image [OF it at] q nz by simp
  moreover have "\<bar>int q - int (unat (rd_offset r))\<bar> < 2 ^ 63"
    using q snoc.prems(2,3) by simp
  ultimately have rd: "read_prev_item crc r = (Ok (Some (word_of_nat q, it)), ?r1)"
    using seek_relative_to [OF snoc.prems(2), of q] q
    by (simp add: read_prev_item_def last uq prog_simps bindp_Ok)
  have "unat (word_of_nat (q + item_len it) :: u64) = q + item_len it"
    using q by (simp add: unat_of_nat del: of_nat_add)
  then have "run_iter (read_prev_item crc) n ?r1 = (rev (log_entries p its), Ok ())"
    by (intro snoc.IH [where tail = "?img @ tail"])
      (use snoc.prems its q cont fuel in \<open>simp_all add: prev_def\<close>)
  then show ?case
    using rd fuel by (simp add: log_entries_append q_def)
qed


section \<open>The invariant of a log file\<close>

text \<open>
  \<open>wal_inv crc its w\<close>: the file is the header followed by the images of the items \<open>its\<close>,
  the fields of the handle agree with it, and nothing is left in the write buffer.
\<close>

definition log_start :: nat where "log_start = GENERIC_HEADER_SIZE"

definition wal_inv :: "(byte list \<Rightarrow> u32) \<Rightarrow> item list \<Rightarrow> wal_file \<Rightarrow> bool" where
  "wal_inv crc its w \<longleftrightarrow> list_all loggable its \<and> log_start + log_len its < 2 ^ 63
     \<and> content (wfile w) = enc_generic_header wal_header @ log_image crc None log_start its
     \<and> body_start w = word_of_nat log_start \<and> write_buf w = []
     \<and> prev_item w = last_pos None log_start its
     \<and> next_offset w = word_of_nat (log_start + log_len its)"

lemma wal_inv_length:
  "wal_inv crc its w \<Longrightarrow> length (content (wfile w)) = log_start + log_len its"
  by (simp add: wal_inv_def length_log_image log_start_def)

lemma wal_inv_next_offset:
  assumes "wal_inv crc its w"
  shows "unat (next_offset w) = log_start + log_len its" and "next_offset w \<noteq> 0"
proof -
  show u: "unat (next_offset w) = log_start + log_len its"
    using assms by (simp add: wal_inv_def unat_of_nat del: of_nat_add)
  show "next_offset w \<noteq> 0"
    using u by (auto simp: log_start_def GENERIC_HEADER_SIZE_def)
qed

lemma wal_inv_pos: "wal_inv crc its w \<Longrightarrow> wal_inv crc its (w\<lparr>wfile := (wfile w)\<lparr>pos := p\<rparr>\<rparr>)"
  by (simp add: wal_inv_def)

lemma wal_flush_empty: "write_buf w = [] \<Longrightarrow> wal_flush w = (Ok (), w)"
  by (simp add: wal_flush_def prog_simps file_write_all_def on_file_def bindp_Ok)

text \<open>What appending does to any file whose handle knows its length.\<close>

lemma wal_push_item_append:
  assumes it: "loggable it" and wb: "write_buf w = []"
    and off: "off = length (content (wfile w))" and no: "next_offset w = word_of_nat off"
    and room: "off + item_len it < 2 ^ 63"
  shows "wal_push_item crc it w = (Ok (word_of_nat off), w\<lparr>prev_item := Some (word_of_nat off),
    wfile := \<lparr>content = content (wfile w) @ item_image crc (prev_item w) off it, pos = off + item_len it\<rparr>,
    next_offset := word_of_nat (off + item_len it)\<rparr>)"
proof -
  obtain k fl b where enc: "encode_body it = Ok (k, fl, b)" and lb: "length b = body_length it"
    and tr: "try_u16 (length b) = Some (word_of_nat (length b))"
    using it by (rule loggable_encode)
  define img where "img = item_image crc (prev_item w) off it"
  have img': "img = enc_item_header \<lparr>ih_kind = k, ih_flags = fl, ih_body_length = word_of_nat (length b),
      ih_crc = crc b, ih_prev_item = prev_item w\<rparr> @ b @ enc_item_footer (word_of_nat off)"
    by (simp add: img_def item_image_def enc)
  have li: "length img = item_len it" using it by (simp add: img_def length_item_image)
  have small: "item_len it < WRITE_BUF_LIMIT"
    using it by (simp add: loggable_def item_len_def WRITE_BUF_LIMIT_def block_sizes)
  have ne: "img \<noteq> []" using li item_len_ge [of it] by auto
  have nz: "(word_of_nat (off + item_len it) :: u64) \<noteq> 0"
  proof -
    have "unat (word_of_nat (off + item_len it) :: u64) = off + item_len it"
      using room by (simp add: unat_of_nat del: of_nat_add)
    moreover have "off + item_len it \<noteq> 0" using item_len_ge [of it] by simp
    ultimately show ?thesis by (metis unat_eq_0)
  qed
  define f' where "f' = \<lparr>content = content (wfile w) @ img, pos = off + item_len it\<rparr>"
  define w' where "w' = w\<lparr>write_buf := [], wfile := f', prev_item := Some (word_of_nat off),
      next_offset := word_of_nat (off + item_len it)\<rparr>"
  let ?w1 = "w\<lparr>write_buf := img, prev_item := Some (word_of_nat off),
      wfile := (wfile w)\<lparr>pos := off\<rparr>\<rparr>"
  have flush: "wal_flush (?w1\<lparr>next_offset := word_of_nat (off + item_len it)\<rparr>) = (Ok (), w')"
    using ne off li by (simp add: wal_flush_def prog_simps on_file_def bindp_Ok file_write_all_def
        w'_def f'_def)
  have sk: "on_file (file_seek_end 0) (w\<lparr>write_buf := img, prev_item := Some (word_of_nat off)\<rparr>)
      = (Ok off, ?w1)"
    by (simp add: on_file_def file_seek_end_def off)
  have buf: "((enc_item_header \<lparr>ih_kind = k, ih_flags = fl, ih_body_length = word_of_nat (length b),
      ih_crc = crc b, ih_prev_item = prev_item w\<rparr>) @ b) @ enc_item_footer (word_of_nat off) = img"
    by (simp add: img')
  have "wal_push_item crc it w = (Ok (word_of_nat off), w')"
    unfolding wal_push_item_def Let_def
    by (simp add: prog_simps enc tr serialize_def buf_push_def no wb buf [simplified] bindp_Ok sk
        li small nz [simplified] flush [simplified])
  then show ?thesis using wb by (simp add: w'_def f'_def img_def)
qed

lemma wal_push_item_run:
  assumes inv: "wal_inv crc its w" and it: "loggable it"
    and room: "log_start + log_len its + item_len it < 2 ^ 63"
  shows "\<exists>w'. wal_push_item crc it w = (Ok (next_offset w), w') \<and> wal_inv crc (its @ [it]) w'"
proof -
  have no: "next_offset w = word_of_nat (log_start + log_len its)" "write_buf w = []"
    using inv by (simp_all add: wal_inv_def)
  from wal_push_item_append [OF it no(2) wal_inv_length [OF inv, symmetric] no(1) room, of crc]
  show ?thesis
    using inv it room no by (simp add: wal_inv_def log_image_append last_pos_append add.assoc del: of_nat_add)
qed


section \<open>Iterating over a well-formed log\<close>

definition wal_entries :: "(byte list \<Rightarrow> u32) \<Rightarrow> wal_file \<Rightarrow> (u64 \<times> item) list" where
  "wal_entries crc w = fst (run_iter (read_item crc) (iter_fuel (wfile w))
     (item_reader_new ((wfile w)\<lparr>pos := unat (body_start w)\<rparr>) None))"

lemma log_start_facts:
  "0 < log_start" "GENERIC_HEADER_SIZE = log_start"
  "unat (word_of_nat log_start :: u64) = log_start"
  by (simp_all add: log_start_def GENERIC_HEADER_SIZE_def unat_of_nat)

lemma iter_fuel_pos [simp]: "iter_fuel (f\<lparr>pos := p\<rparr>) = iter_fuel f"
  by (simp add: iter_fuel_def)

lemma iter_fuel_enough:
  assumes "wal_inv crc its w"
  shows "length its < iter_fuel (wfile w)"
proof -
  have "length its \<le> length (content (wfile w))"
    using length_le_log_len [of its] wal_inv_length [OF assms] by linarith
  then show ?thesis by (simp add: iter_fuel_def)
qed

lemma wal_inv_run_iter:
  assumes "wal_inv crc its w"
  shows "run_iter (read_item crc) (iter_fuel (wfile w))
      (item_reader_new ((wfile w)\<lparr>pos := unat (body_start w)\<rparr>) None)
    = (log_entries log_start its, Ok ())"
proof (rule run_iter_forward [where f = "wfile w" and A = "enc_generic_header wal_header"
      and prev = None and tail = "[]"])
  fix r :: item_reader
  assume "content (rd_file r) = content (wfile w)" "pos (rd_file r) = log_start + log_len its"
  then show "\<exists>r'. read_item crc r = (Ok None, r')"
    using wal_inv_length [OF assms] by (intro read_item_eof) (simp add: ITEM_HEADER_SIZE_def)
qed (use assms iter_fuel_enough [OF assms] in \<open>simp_all add: wal_inv_def log_start_facts
    item_reader_new_def\<close>)

lemma wal_entries_inv: "wal_inv crc its w \<Longrightarrow> wal_entries crc w = log_entries log_start its"
  by (simp add: wal_entries_def wal_inv_run_iter)

lemma wal_iter_items_run:
  assumes "wal_inv crc its w"
  shows "wal_iter_items crc w = (Ok (log_entries log_start its, Ok ()),
     w\<lparr>wfile := (wfile w)\<lparr>pos := log_start\<rparr>\<rparr>)"
proof -
  have "write_buf w = []" and bs: "unat (body_start w) = log_start"
    using assms by (simp_all add: wal_inv_def log_start_facts)
  then show ?thesis
    using wal_inv_run_iter [OF assms]
    by (simp add: wal_iter_items_def bindp_Ok wal_flush_empty prog_simps)
qed

lemma wal_iter_items_reverse_run:
  assumes "wal_inv crc its w"
  shows "wal_iter_items_reverse crc w = (Ok (rev (log_entries log_start its), Ok ()),
     w\<lparr>wfile := (wfile w)\<lparr>pos := length (content (wfile w))\<rparr>\<rparr>)"
proof -
  define len where "len = length (content (wfile w))"
  define r where "r = item_reader_new ((wfile w)\<lparr>pos := len\<rparr>) (prev_item w)"
  have wb: "write_buf w = []" using assms by (simp add: wal_inv_def)
  have len: "len < 2 ^ 63"
    using wal_inv_length [OF assms] assms by (simp add: wal_inv_def len_def)
  have "run_iter (read_prev_item crc) (iter_fuel (wfile w)) r = (rev (log_entries log_start its), Ok ())"
  proof (rule run_iter_reverse [where f = "wfile w" and A = "enc_generic_header wal_header" and tail = "[]"])
    have "unat (word_of_nat len :: u64) = len" using len by (simp add: unat_of_nat)
    then show "unat (rd_offset r) = pos (rd_file r)" by (simp add: r_def item_reader_new_def)
  qed (use assms iter_fuel_enough [OF assms] len in \<open>simp_all add: wal_inv_def log_start_facts
      item_reader_new_def r_def\<close>)
  then show ?thesis
    using wb by (simp add: wal_iter_items_reverse_def bindp_Ok wal_flush_empty prog_simps
        r_def len_def)
qed

section \<open>The interface of a log file\<close>

text \<open>
  The trait \<open>WalFileApi\<close> as a record of operations: the log above is written against it.
\<close>

record 'f wal_file_api =
  api_push_item :: "item \<Rightarrow> ('f, file_error, u64) prog"
  api_flush :: "('f, file_error, unit) prog"
  api_read_item_at :: "u64 \<Rightarrow> ('f, file_error, item) prog"
  api_iter_items :: "('f, file_error, item_iter) prog"
  api_iter_items_reverse :: "('f, file_error, item_iter) prog"
  api_next_offset :: "'f \<Rightarrow> u64"
  api_size :: "'f \<Rightarrow> nat"

definition wal_file_impl :: "(byte list \<Rightarrow> u32) \<Rightarrow> wal_file wal_file_api" where
  "wal_file_impl crc =
     \<lparr>api_push_item = wal_push_item crc, api_flush = wal_flush,
      api_read_item_at = wal_read_item_at crc, api_iter_items = wal_iter_items crc,
      api_iter_items_reverse = wal_iter_items_reverse crc, api_next_offset = next_offset,
      api_size = wal_size\<rparr>"

text \<open>
  Its contract: the file is a sequence of items at increasing positions; appending adds one
  at the position announced, and the iterators yield the sequence.
\<close>

locale wal_log =
  fixes api :: "'f wal_file_api"
    and entries :: "'f \<Rightarrow> (u64 \<times> item) list"
    and inv :: "'f \<Rightarrow> bool"
  assumes push_ok: "inv f \<Longrightarrow> loggable it \<Longrightarrow> api_size api f + item_len it < 2 ^ 63 \<Longrightarrow>
      \<exists>f'. api_push_item api it f = (Ok (api_next_offset api f), f') \<and> inv f'
        \<and> entries f' = entries f @ [(api_next_offset api f, it)]
        \<and> api_size api f' = api_size api f + item_len it"
    and flush_ok: "inv f \<Longrightarrow> \<exists>f'. api_flush api f = (Ok (), f') \<and> inv f'
        \<and> entries f' = entries f \<and> api_size api f' = api_size api f"
    and iter_ok: "inv f \<Longrightarrow> \<exists>f'. api_iter_items api f = (Ok (entries f, Ok ()), f') \<and> inv f'
        \<and> entries f' = entries f \<and> api_size api f' = api_size api f"
    and iter_rev_ok: "inv f \<Longrightarrow> \<exists>f'. api_iter_items_reverse api f = (Ok (rev (entries f), Ok ()), f')
        \<and> inv f' \<and> entries f' = entries f \<and> api_size api f' = api_size api f"
    and next_offset_size: "inv f \<Longrightarrow> unat (api_next_offset api f) = api_size api f"
    and next_offset_nonzero: "inv f \<Longrightarrow> api_next_offset api f \<noteq> 0"
    and entries_below: "inv f \<Longrightarrow> (p, it) \<in> set (entries f) \<Longrightarrow>
        p \<noteq> 0 \<and> unat p + item_len it \<le> api_size api f"
    and entries_sorted: "inv f \<Longrightarrow> sorted_wrt (<) (map fst (entries f))"
    and entries_loggable: "inv f \<Longrightarrow> (p, it) \<in> set (entries f) \<Longrightarrow> loggable it"
begin

lemma push_all_ok:
  assumes "inv f" and "list_all loggable its" and "api_size api f + log_len its < 2 ^ 63"
  shows "\<exists>f'. for_each (\<lambda>it. bindp (api_push_item api it) (\<lambda>_. ret ())) its f = (Ok (), f')
    \<and> inv f' \<and> map snd (entries f') = map snd (entries f) @ its"
  using assms
proof (induction its arbitrary: f)
  case Nil
  then show ?case by (auto simp: prog_simps)
next
  case (Cons it its)
  then obtain f1 where f1: "api_push_item api it f = (Ok (api_next_offset api f), f1)" "inv f1"
      "entries f1 = entries f @ [(api_next_offset api f, it)]"
      "api_size api f1 = api_size api f + item_len it"
    using push_ok [of f it] by auto
  then have "bindp (api_push_item api it) (\<lambda>_. ret ()) f = (Ok (), f1)"
    by (simp add: bindp_Ok ret_def)
  moreover from f1 Cons obtain f2 where "for_each (\<lambda>it. bindp (api_push_item api it) (\<lambda>_. ret ())) its f1 = (Ok (), f2)"
      "inv f2" "map snd (entries f2) = map snd (entries f1) @ its"
    using Cons.IH [of f1] by auto
  ultimately show ?case using f1(3) by (auto simp: bindp_Ok)
qed

lemma next_offset_fresh:
  assumes "inv f"
  shows "api_next_offset api f \<notin> fst ` set (entries f)"
proof
  assume "api_next_offset api f \<in> fst ` set (entries f)"
  then obtain it where "(api_next_offset api f, it) \<in> set (entries f)" by auto
  from entries_below [OF assms this] next_offset_size [OF assms] item_len_ge [of it]
  show False by simp
qed

end

lemma log_entries_items: "map snd (log_entries off its) = its"
  by (induction its arbitrary: off) auto

lemma log_entries_sorted:
  "off + log_len its < 2 ^ 63 \<Longrightarrow> sorted_wrt (<) (map fst (log_entries off its))"
proof (induction its arbitrary: off)
  case Nil
  show ?case by simp
next
  case (Cons it its)
  have lt: "off + item_len it + log_len its < 2 ^ 63" using Cons.prems by simp
  have u: "unat (word_of_nat off :: u64) = off" using lt by (simp add: unat_of_nat)
  have "(word_of_nat off :: u64) < p" if p: "p \<in> fst ` set (log_entries (off + item_len it) its)" for p
  proof -
    obtain x where x: "x \<in> set (log_entries (off + item_len it) its)" "p = fst x"
      using p by blast
    have "(p, snd x) \<in> set (log_entries (off + item_len it) its)" using x by simp
    from log_entries_offsets [OF this] have "off + item_len it \<le> unat p" using lt by simp
    then show ?thesis using item_len_ge [of it] u by (simp add: word_less_nat_alt)
  qed
  then show ?case using Cons.IH [OF lt] by auto
qed

interpretation wlog: wal_log "wal_file_impl crc" "wal_entries crc" "\<lambda>w. \<exists>its. wal_inv crc its w"
  for crc
proof (unfold_locales, goal_cases)
  case (1 f it)
  then obtain its where inv: "wal_inv crc its f" by blast
  have sz: "wal_size f = log_start + log_len its"
    using wal_inv_next_offset(1) [OF inv] by (simp add: wal_size_def)
  with 1 inv obtain f' where f': "wal_push_item crc it f = (Ok (next_offset f), f')"
      "wal_inv crc (its @ [it]) f'"
    using wal_push_item_run [of crc its f it] by (auto simp: wal_file_impl_def)
  moreover have "next_offset f = word_of_nat (log_start + log_len its)"
    using inv by (simp add: wal_inv_def)
  ultimately show ?case
    using inv wal_inv_next_offset(1) [OF f'(2)] sz
    by (auto simp: wal_file_impl_def wal_entries_inv log_entries_append wal_size_def)
next
  case (2 f)
  then show ?case by (auto simp: wal_file_impl_def wal_flush_empty wal_inv_def)
next
  case (3 f)
  then obtain its where inv: "wal_inv crc its f" by blast
  from wal_inv_pos [OF this] show ?case
    using inv by (auto simp: wal_file_impl_def wal_iter_items_run wal_entries_inv wal_size_def)
next
  case (4 f)
  then obtain its where inv: "wal_inv crc its f" by blast
  from wal_inv_pos [OF this] show ?case
    using inv by (auto simp: wal_file_impl_def wal_iter_items_reverse_run wal_entries_inv wal_size_def)
next
  case (5 f)
  show ?case by (simp add: wal_file_impl_def wal_size_def)
next
  case (6 f)
  then show ?case by (auto simp: wal_file_impl_def dest: wal_inv_next_offset(2))
next
  case (7 f p it)
  then obtain its where inv: "wal_inv crc its f" by blast
  have "log_start \<le> unat p \<and> unat p + item_len it \<le> log_start + log_len its"
    using 7(2) inv by (intro log_entries_offsets) (simp_all add: wal_entries_inv, simp add: wal_inv_def)
  then show ?case
    using log_start_facts(1) wal_inv_next_offset(1) [OF inv]
    by (auto simp: wal_file_impl_def wal_size_def)
next
  case (8 f)
  then obtain its where inv: "wal_inv crc its f" by blast
  have "log_start + log_len its < 2 ^ 63" using inv by (simp add: wal_inv_def)
  then show ?case unfolding wal_entries_inv [OF inv] by (rule log_entries_sorted)
next
  case (9 f p it)
  then obtain its where inv: "wal_inv crc its f" by blast
  then have "it \<in> set its" using 9(2) log_entries_items [of log_start its]
    by (metis image_eqI list.set_map snd_conv wal_entries_inv)
  then show ?case using inv by (simp add: wal_inv_def list_all_iff)
qed


section \<open>Creating, reopening and appending\<close>

lemma wal_file_create_run:
  assumes "content f = []"
  shows "\<exists>w f'. wal_file_create f = (Ok w, f') \<and> wal_inv crc [] w"
proof -
  have "enc_generic_header wal_header \<noteq> []"
    by (metis enc_generic_header_length GENERIC_HEADER_SIZE_def list.size(3) zero_neq_numeral)
  then show ?thesis
    using assms by (simp add: wal_file_create_def serialize_def bindp_Ok prog_simps file_write_all_def
        wal_file_new_def file_seek_end_def block_sizes GENERIC_HEADER_SIZE_def wal_inv_def
        log_start_def)
qed

lemma last_footer:
  assumes "list_all loggable its" and "its \<noteq> []"
  shows "\<exists>A p. log_image crc prev off its = A @ enc_item_footer p \<and> last_pos prev off its = Some p"
  using assms
proof (induction its arbitrary: prev off)
  case Nil
  then show ?case by simp
next
  case (Cons it its)
  show ?case
  proof (cases its)
    case Nil
    then show ?thesis
      using Cons.prems by (auto simp: item_image_def elim!: loggable_encode)
  next
    case (Cons it' its')
    then show ?thesis
      using Cons.IH [of "Some (word_of_nat off)" "off + item_len it"] Cons.prems
      by (auto simp del: log_image.simps last_pos.simps simp: log_image.simps(2) last_pos.simps(2))
  qed
qed

lemma wal_file_open_header:
  assumes "content f = enc_generic_header wal_header @ rest"
  shows "wal_file_open f = wal_file_new (word_of_nat log_start) (f\<lparr>pos := log_start\<rparr>)"
proof -
  have "deserialize file_read_exact GENERIC_HEADER_SIZE dec_generic_header (f\<lparr>pos := 0\<rparr>)
      = (Ok wal_header, f\<lparr>pos := GENERIC_HEADER_SIZE\<rparr>)"
    using gh.file_deserialize [where v = wal_header and f = "f\<lparr>pos := 0\<rparr>"] assms
    by (simp add: slice_def log_start_facts)
  moreover have "ucast (gh_content_offset wal_header) = (word_of_nat log_start :: u64)"
    by (simp add: wal_header_def log_start_def GENERIC_HEADER_SIZE_def)
  moreover have "gh_file_type wal_header = Wal" "gh_version wal_header = WAL_FORMAT_VERSION"
    by (simp_all add: wal_header_def)
  ultimately show ?thesis
    by (simp add: wal_file_open_def file_seek_start_def bindp_Ok log_start_facts)
qed

lemma wal_file_open_run:
  assumes inv: "wal_inv crc its w" and f: "content f = content (wfile w)"
  shows "\<exists>w' f'. wal_file_open f = (Ok w', f') \<and> wal_inv crc its w'"
proof -
  define h where "h = enc_generic_header wal_header"
  have cont: "content f = h @ log_image crc None log_start its"
    using inv f by (simp add: wal_inv_def h_def)
  have len: "length (content f) = log_start + log_len its"
    using wal_inv_length [OF inv] f by simp
  have lh: "length h = log_start" by (simp add: h_def log_start_facts)
  have o: "wal_file_open f = wal_file_new (word_of_nat log_start) (f\<lparr>pos := log_start\<rparr>)"
    by (rule wal_file_open_header [OF cont [unfolded h_def]])
  have nz: "(word_of_nat (log_start + log_len its) :: u64) \<noteq> 0"
    using wal_inv_next_offset(2) [OF inv] inv by (simp add: wal_inv_def)
  let ?g = "f\<lparr>pos := log_start + log_len its - ITEM_FOOTER_SIZE\<rparr>"
  have "\<exists>f'. wal_file_new (word_of_nat log_start) (f\<lparr>pos := log_start\<rparr>)
    = (Ok \<lparr>body_start = word_of_nat log_start, prev_item = last_pos None log_start its, write_buf = [],
          wfile = f', next_offset = word_of_nat (log_start + log_len its)\<rparr>, f') \<and> content f' = content f"
  proof (cases "its = []")
    case True
    then show ?thesis
      using len nz by (simp add: wal_file_new_def prog_simps bindp_Ok file_seek_end_def
          log_start_def GENERIC_HEADER_SIZE_def ITEM_FOOTER_SIZE_def)
  next
    case False
    have ll: "list_all loggable its" and lt: "log_start + log_len its < 2 ^ 64"
      using inv by (simp_all add: wal_inv_def)
    obtain A p where A: "log_image crc None log_start its = A @ enc_item_footer p"
        "last_pos None log_start its = Some p"
      using last_footer [OF ll False] by blast
    have "p \<noteq> 0"
      using last_pos_nonzero [of None log_start its] A lt log_start_facts(1) by auto
    have big: "24 \<le> log_len its"
      using False item_len_ge by (cases its) (auto intro: trans_le_add1)
    have "slice (log_start + log_len its - 8) 8 (content f) = enc_item_footer p"
    proof -
      have "length (h @ A) + 8 = log_start + log_len its"
        using len cont A ifo.enc_length [of p] by (simp add: ITEM_FOOTER_SIZE_def)
      then have "log_start + log_len its - 8 = length (h @ A)" by simp
      then show ?thesis
        using cont A ifo.enc_length [of p] by (simp add: slice_def ITEM_FOOTER_SIZE_def)
    qed
    then have d: "deserialize file_read_exact ITEM_FOOTER_SIZE dec_item_footer ?g
        = (Ok p, ?g\<lparr>pos := log_start + log_len its\<rparr>)"
      using ifo.file_deserialize [where v = p and f = ?g] \<open>p \<noteq> 0\<close> len big
      by (simp add: ITEM_FOOTER_SIZE_def)
    show ?thesis
      using len nz A(2) big d
      by (simp add: wal_file_new_def prog_simps bindp_Ok file_seek_end_def log_start_facts(3)
          ITEM_FOOTER_SIZE_def del: of_nat_add)
  qed
  then show ?thesis
    using o inv cont by (auto simp: wal_inv_def h_def)
qed

lemma wal_read_item_at_run:
  assumes inv: "wal_inv crc its w" and mem: "(p, it) \<in> set (wal_entries crc w)"
  shows "\<exists>w'. wal_read_item_at crc p w = (Ok it, w') \<and> wal_inv crc its w'"
proof -
  have "(p, it) \<in> set (log_entries log_start its)"
    using mem inv by (simp add: wal_entries_inv)
  then obtain xs ys where its: "its = xs @ it # ys" and p: "p = word_of_nat (log_start + log_len xs)"
  proof (induction its arbitrary: thesis rule: rev_induct)
    case Nil
    then show ?case by simp
  next
    case (snoc x its)
    from snoc.prems(2) consider "(p, it) \<in> set (log_entries log_start its)"
      | "p = word_of_nat (log_start + log_len its)" "it = x"
      by (auto simp: log_entries_append)
    then show ?case
      using snoc by cases (metis append.assoc append_Cons append_Nil)+
  qed
  define q where "q = log_start + log_len xs"
  define prev where "prev = last_pos None log_start xs"
  have it: "loggable it" and xs: "list_all loggable xs" and lt: "q + item_len it < 2 ^ 63"
    using inv by (simp_all add: wal_inv_def its q_def)
  have up: "unat p = q" using lt by (simp add: p q_def [symmetric] unat_of_nat del: of_nat_add)
  let ?f = "(wfile w)\<lparr>pos := q\<rparr>"
  have "at_pos ?f q (item_image crc prev q it)"
    using at_posI [where f = ?f and A = "enc_generic_header wal_header @ log_image crc None log_start xs"]
      inv length_log_image [OF xs]
    by (simp add: wal_inv_def its log_image_append prev_def q_def log_start_facts)
  moreover have "prev \<noteq> Some 0"
    unfolding prev_def by (rule last_pos_nonzero) (use lt log_start_facts in \<open>simp_all add: q_def\<close>)
  ultimately have "\<exists>r'. read_item crc (item_reader_new ?f None) = (Ok (Some (word_of_nat q, it)), r')"
    using read_item_image [where it = it and r = "item_reader_new ?f None" and crc = crc and prev = prev and p = q] it lt log_start_facts(1)
    by (auto simp: item_reader_new_def q_def)
  moreover have "write_buf w = []" using inv by (simp add: wal_inv_def)
  ultimately have "wal_read_item_at crc p w = (Ok it, w\<lparr>wfile := ?f\<rparr>)"
    by (auto simp: wal_read_item_at_def bindp_Ok wal_flush_empty prog_simps up)
  then show ?thesis using wal_inv_pos [OF inv] by auto
qed

text \<open>
  An item body decodes to the item it was written from, whatever follows it, and the undo
  flag tells the two forms of a write apart.
\<close>

theorem item_body_roundtrip:
  assumes "wf_item it"
  shows "\<exists>k fl b. encode_body it = Ok (k, fl, b) \<and> length b = body_length it
    \<and> (\<forall>r. decode_body k (fl AND FLAG_UNDO \<noteq> 0) (b @ r) = (Ok it, r))"
  using encode_body_ok [OF assms] decode_encode_body [OF assms] encode_body_length by blast

definition example_write :: item where
  "example_write = Write \<lparr>wd_transaction_data = \<lparr>td_transaction_id = 25, td_prev_item = Some (WalIndex 123 24)\<rparr>,
     wd_page_address = PageAddress 123 456, wd_offset = 445, wd_from = None, wd_to = [4, 5, 6, 7]\<rparr>"

lemma example_write_loggable: "loggable example_write"
  by (simp add: example_write_def loggable_def wf_item_def wf_write_data_def wf_transaction_data_def
      wf_wal_index_def wf_page_address_def body_length_def)

theorem item_body_roundtrip_witness:
  "wf_item example_write \<and> (\<exists>k fl b. encode_body example_write = Ok (k, fl, b) \<and> length b = 38)"
proof -
  have wf: "wf_item example_write" using example_write_loggable by (simp add: loggable_def)
  show ?thesis
    using item_body_roundtrip [OF wf] wf by (auto simp: example_write_def body_length_def)
qed

text \<open>Appending items one after the other, with the positions that the appends return.\<close>

fun push_items :: "(byte list \<Rightarrow> u32) \<Rightarrow> item list \<Rightarrow> (wal_file, file_error, u64 list) prog" where
  "push_items crc [] = ret []"
| "push_items crc (it # its) =
     bindp (wal_push_item crc it) (\<lambda>off. bindp (push_items crc its) (\<lambda>offs. ret (off # offs)))"

lemma push_items_run:
  "list_all loggable xs \<Longrightarrow> log_start + log_len (ys @ xs) < 2 ^ 63 \<Longrightarrow> wal_inv crc ys w \<Longrightarrow>
   \<exists>w'. push_items crc xs w = (Ok (map fst (log_entries (log_start + log_len ys) xs)), w') \<and> wal_inv crc (ys @ xs) w'"
proof (induction xs arbitrary: ys w)
  case Nil
  then show ?case by (simp add: prog_simps)
next
  case (Cons x xs)
  obtain v where v: "wal_push_item crc x w = (Ok (next_offset w), v)" "wal_inv crc (ys @ [x]) v"
    using wal_push_item_run [OF Cons.prems(3), of x] Cons.prems by auto
  have "next_offset w = word_of_nat (log_start + log_len ys)" using Cons.prems(3) by (simp add: wal_inv_def)
  with v Cons.IH [of "ys @ [x]" v] Cons.prems(1,2) show ?case by (auto simp: bindp_Ok prog_simps add.assoc)
qed

text \<open>
  C13: A log file that is created empty and to which any list of items is appended yields, when
  iterated, exactly those items in order, and in the reverse order when iterated backwards,
  each with the position that its append returned; both iterations end without an error.
\<close>

theorem wal_file_log_roundtrip:
  assumes "content f = []" and "list_all loggable its" and "log_start + log_len its < 2 ^ 63"
  shows "\<exists>w f' w'. wal_file_create f = (Ok w, f')
    \<and> push_items crc its w = (Ok (map fst (log_entries log_start its)), w')
    \<and> fst (wal_iter_items crc w') = Ok (log_entries log_start its, Ok ())
    \<and> fst (wal_iter_items_reverse crc w') = Ok (rev (log_entries log_start its), Ok ())"
proof -
  obtain w f' where w: "wal_file_create f = (Ok w, f')" "wal_inv crc [] w"
    using wal_file_create_run [OF assms(1)] by blast
  obtain w' where "push_items crc its w = (Ok (map fst (log_entries log_start its)), w')" "wal_inv crc its w'"
    using push_items_run [OF assms(2), of "[]" crc w] w(2) assms(3) by auto
  then show ?thesis
    using w(1) by (simp add: wal_iter_items_run wal_iter_items_reverse_run)
qed

theorem wal_file_log_roundtrip_witness:
  "\<exists>w f' w'. wal_file_create \<lparr>content = [], pos = 0\<rparr> = (Ok w, f')
    \<and> push_items (\<lambda>_. 0) [example_write, example_write] w = (Ok [9, 71], w')
    \<and> fst (wal_iter_items (\<lambda>_. 0) w') = Ok ([(9, example_write), (71, example_write)], Ok ())"
  using wal_file_log_roundtrip [of "\<lparr>content = [], pos = 0\<rparr>" "[example_write, example_write]" "\<lambda>_. 0"]
    example_write_loggable
  by (auto simp del: push_items.simps simp: log_start_def GENERIC_HEADER_SIZE_def item_len_def block_sizes
      example_write_def body_length_def)

text \<open>
  C17: Opening the bytes of a log file that was written and closed gives back a handle that
  continues the log: it iterates over the same items, announces the same next position, and
  an item appended to it comes after all of them.
\<close>

theorem wal_file_reopen_continues:
  assumes "wal_inv crc its w" and "content f = content (wfile w)"
    and "loggable it" and "log_start + log_len its + item_len it < 2 ^ 63"
  shows "\<exists>w1 f' w2. wal_file_open f = (Ok w1, f') \<and> next_offset w1 = next_offset w
    \<and> fst (wal_iter_items crc w1) = Ok (log_entries log_start its, Ok ())
    \<and> wal_push_item crc it w1 = (Ok (next_offset w), w2)
    \<and> fst (wal_iter_items crc w2)
        = Ok (log_entries log_start its @ [(next_offset w, it)], Ok ())"
proof -
  obtain w1 f' where w1: "wal_file_open f = (Ok w1, f')" "wal_inv crc its w1"
    using wal_file_open_run [OF assms(1,2)] by blast
  obtain w2 where w2: "wal_push_item crc it w1 = (Ok (next_offset w1), w2)" "wal_inv crc (its @ [it]) w2"
    using wal_push_item_run [OF w1(2) assms(3,4)] by blast
  have "next_offset w1 = next_offset w" "next_offset w = word_of_nat (log_start + log_len its)"
    using assms(1) w1(2) by (simp_all add: wal_inv_def)
  then show ?thesis
    using w1 w2 by (auto simp: wal_iter_items_run log_entries_append)
qed

lemma example_wal_inv: "\<exists>w. wal_inv (\<lambda>_. 0) [example_write] w"
proof -
  obtain w where "wal_inv (\<lambda>_. 0) [] w"
    using wal_file_create_run [of "\<lparr>content = [], pos = 0\<rparr>"] by auto
  then show ?thesis
    using wal_push_item_run [of "\<lambda>_. 0" "[]" w example_write] example_write_loggable
    by (auto simp: log_start_def GENERIC_HEADER_SIZE_def item_len_def block_sizes
        example_write_def body_length_def)
qed

lemma example_room: "log_start + log_len [example_write] + item_len example_write < 2 ^ 63"
  by (simp add: log_start_def GENERIC_HEADER_SIZE_def item_len_def block_sizes
      example_write_def body_length_def)

theorem wal_file_reopen_continues_witness:
  "\<exists>w w1 f'. wal_inv (\<lambda>_. 0) [example_write] w \<and> wal_file_open (wfile w) = (Ok w1, f')
     \<and> fst (wal_iter_items (\<lambda>_. 0) w1) = Ok ([(9, example_write)], Ok ())"
proof -
  obtain w where w: "wal_inv (\<lambda>_. 0) [example_write] w" using example_wal_inv by blast
  show ?thesis
    using wal_file_reopen_continues [OF w refl example_write_loggable example_room] w
    by (auto simp: log_start_def GENERIC_HEADER_SIZE_def)
qed

text \<open>
  Random access: reading at the position of any item of the log returns that item.
\<close>

theorem wal_file_read_at:
  assumes "wal_inv crc its w" and "(p, it) \<in> set (log_entries log_start its)"
  shows "fst (wal_read_item_at crc p w) = Ok it"
  using wal_read_item_at_run [OF assms(1), of p it] assms by (auto simp: wal_entries_inv)

theorem wal_file_read_at_witness:
  "\<exists>w. wal_inv (\<lambda>_. 0) [example_write] w \<and> fst (wal_read_item_at (\<lambda>_. 0) 9 w) = Ok example_write"
proof -
  obtain w where w: "wal_inv (\<lambda>_. 0) [example_write] w" using example_wal_inv by blast
  have "(9, example_write) \<in> set (log_entries log_start [example_write])"
    by (simp add: log_start_def GENERIC_HEADER_SIZE_def)
  with wal_file_read_at [OF w] w show ?thesis by blast
qed

text \<open>
  C33: Crash consistency of reading: if the last append reached the disk only in part, up to
  any byte before the end of its body, iterating yields exactly the items before it and ends
  as at a normal end of the log.
\<close>

theorem wal_file_torn_append:
  assumes "wal_inv crc its w" and "loggable it" and "k < ITEM_HEADER_SIZE + body_length it"
    and "content f = content (wfile w)
           @ take k (item_image crc (prev_item w) (log_start + log_len its) it)"
  shows "fst (wal_iter_items crc (w\<lparr>wfile := f\<rparr>)) = Ok (log_entries log_start its, Ok ())"
proof -
  define t where "t = take k (item_image crc (prev_item w) (log_start + log_len its) it)"
  have lt: "length t = k"
    using assms(2,3) by (simp add: t_def length_item_image item_len_def)
  have ll: "length (content (wfile w)) = log_start + log_len its"
    by (rule wal_inv_length [OF assms(1)])
  have "run_iter (read_item crc) (iter_fuel f) (item_reader_new (f\<lparr>pos := unat (body_start w)\<rparr>) None)
      = (log_entries log_start its, Ok ())"
  proof (rule run_iter_forward [where f = f and A = "enc_generic_header wal_header"
        and prev = None and tail = t])
    fix r :: item_reader
    assume r: "content (rd_file r) = content f" "pos (rd_file r) = log_start + log_len its"
    show "\<exists>r'. read_item crc r = (Ok None, r')"
    proof (cases "k < ITEM_HEADER_SIZE")
      case True
      then show ?thesis
        using r lt ll assms(4) by (intro read_item_eof) (simp add: t_def)
    next
      case False
      have "prev_item w \<noteq> Some 0"
        using assms(1) last_pos_nonzero [of None log_start its] log_start_facts(1)
        by (simp add: wal_inv_def)
      with False show ?thesis
        using r assms ll by (intro read_item_torn_body [OF assms(2)]) auto
    qed
  next
    show "length its < iter_fuel f"
      using iter_fuel_enough [OF assms(1)] assms(4) by (simp add: iter_fuel_def)
  qed (use assms in \<open>simp_all add: wal_inv_def log_start_facts item_reader_new_def t_def\<close>)
  moreover have "write_buf (w\<lparr>wfile := f\<rparr>) = []" and "unat (body_start w) = log_start"
    using assms(1) by (simp_all add: wal_inv_def log_start_facts)
  ultimately show ?thesis
    by (simp add: wal_iter_items_def bindp_Ok wal_flush_empty prog_simps)
qed

theorem wal_file_torn_append_witness:
  "\<exists>w f. wal_inv (\<lambda>_. 0) [example_write] w
     \<and> content f = content (wfile w) @ take 20 (item_image (\<lambda>_. 0) (prev_item w) 71 example_write)
     \<and> fst (wal_iter_items (\<lambda>_. 0) (w\<lparr>wfile := f\<rparr>)) = Ok ([(9, example_write)], Ok ())"
proof -
  obtain w where w: "wal_inv (\<lambda>_. 0) [example_write] w" using example_wal_inv by blast
  have k: "20 < ITEM_HEADER_SIZE + body_length example_write"
    by (simp add: ITEM_HEADER_SIZE_def example_write_def body_length_def)
  have off: "log_start + log_len [example_write] = 71"
    by (simp add: log_start_def GENERIC_HEADER_SIZE_def item_len_def block_sizes
        example_write_def body_length_def)
  let ?f = "\<lparr>content = content (wfile w) @ take 20 (item_image (\<lambda>_. 0) (prev_item w) 71 example_write), pos = 0\<rparr>"
  have "fst (wal_iter_items (\<lambda>_. 0) (w\<lparr>wfile := ?f\<rparr>)) = Ok ([(9, example_write)], Ok ())"
    using wal_file_torn_append [OF w example_write_loggable k, of ?f] off
    by (simp add: log_start_def GENERIC_HEADER_SIZE_def)
  with w show ?thesis by (intro exI [of _ w] exI [of _ ?f]) simp
qed

text \<open>
  Opening after a torn append is not safe: if the very first append stopped right after
  its header, the eight bytes that \<open>open\<close> takes for the last footer are the empty
  previous-item field, and the whole log is rejected as corrupted.
\<close>

theorem wal_file_torn_header_rejected:
  assumes "ih_prev_item h = None"
    and "content f = enc_generic_header wal_header @ enc_item_header h"
  shows "fst (wal_file_open f) = Err (Corrupted ItemAtPositionZero)"
proof -
  have len: "length (content f) = 25"
    using assms(2) by (simp add: ih.enc_length block_sizes GENERIC_HEADER_SIZE_def)
  have o: "wal_file_open f = wal_file_new 9 (f\<lparr>pos := 9\<rparr>)"
    using wal_file_open_header [OF assms(2)] by (simp add: log_start_def GENERIC_HEADER_SIZE_def)
  have "slice 17 8 (content f) = enc_u64 0"
    using assms by (simp add: slice_def enc_item_header_def opt_to_u64_def GENERIC_HEADER_SIZE_def)
  then have "deserialize file_read_exact ITEM_FOOTER_SIZE dec_item_footer (f\<lparr>pos := 17\<rparr>)
      = (Err (Corrupted ItemAtPositionZero), f\<lparr>pos := 25\<rparr>)"
    using len by (simp add: deserialize_def file_read_exact_def bindp_def dec_item_footer_def
        lift_oc_def ITEM_FOOTER_SIZE_def)
  then show ?thesis
    using o len by (simp add: wal_file_new_def file_seek_end_def ITEM_FOOTER_SIZE_def bindp_def)
qed

theorem wal_file_torn_header_rejected_witness:
  "fst (wal_file_open \<lparr>content = enc_generic_header wal_header
      @ take 16 (item_image (\<lambda>_. 0) None 9 (Commit \<lparr>td_transaction_id = 1, td_prev_item = None\<rparr>)), pos = 0\<rparr>)
   = Err (Corrupted ItemAtPositionZero)"
proof -
  let ?h = "\<lparr>ih_kind = ItemCommit, ih_flags = 0, ih_body_length = 24, ih_crc = 0, ih_prev_item = None\<rparr>"
  have "take 16 (item_image (\<lambda>_. 0) None 9 (Commit \<lparr>td_transaction_id = 1, td_prev_item = None\<rparr>))
      = enc_item_header ?h"
    by (simp add: item_image_def encode_body_def write_transaction_block_def tb.enc_length
        ih.enc_length block_sizes)
  then show ?thesis
    using wal_file_torn_header_rejected [of ?h
        "\<lparr>content = enc_generic_header wal_header @ enc_item_header ?h, pos = 0\<rparr>"] by simp
qed

text \<open>
  The 16-bit body length: an item whose body does not fit panics before anything is
  written, and the handle is unchanged.
\<close>

theorem wal_push_too_large_panics:
  assumes "encode_body it = Ok (k, fl, b)" and "2 ^ 16 \<le> length b"
  shows "wal_push_item crc it w = (Panic, w)"
  using assms by (simp add: wal_push_item_def prog_simps try_u16_def Let_def)

theorem wal_push_too_large_panics_witness:
  "fst (wal_push_item (\<lambda>_. 0) (Write \<lparr>wd_transaction_data = \<lparr>td_transaction_id = 1, td_prev_item = None\<rparr>,
       wd_page_address = PageAddress 0 1, wd_offset = 0, wd_from = None,
       wd_to = replicate 65535 0\<rparr>)
     \<lparr>body_start = 9, prev_item = None, write_buf = [], wfile = \<lparr>content = [], pos = 0\<rparr>, next_offset = 9\<rparr>)
   = Panic"
proof -
  let ?it = "Write \<lparr>wd_transaction_data = \<lparr>td_transaction_id = 1, td_prev_item = None\<rparr>,
       wd_page_address = PageAddress 0 1, wd_offset = 0, wd_from = None, wd_to = replicate 65535 0\<rparr>"
  obtain b where "encode_body ?it = Ok (ItemWrite, FLAG_UNDO, b)"
    by (simp add: encode_body_def write_write_block_def try_u16_def)
  moreover from encode_body_length [OF this] have "2 ^ 16 \<le> length b"
    by (simp add: body_length_def)
  ultimately show ?thesis by (simp add: wal_push_too_large_panics)
qed

end
