(* ===== verification/DbFolder.thy ===== *)
theory DbFolder
  imports Segment WalFile "HOL-Library.Multiset"
begin

text \<open>
  The database folder of \<open>files/mod.rs\<close>: two directories, \<open>segments\<close> and \<open>wal\<close>, whose
  file names are segment and generation numbers in decimal, and \<open>DatabaseFolderApi\<close>.

  A directory is an association list from names to entries, in the order in which
  \<open>read_dir\<close> lists it; that order is the platform's choice, so what is stated of a listing
  holds for every permutation of the list. Both directories are created on demand by \<open>create_dir_all\<close>, so a
  missing directory is an empty one. An open handle owns the bytes of its file; the entry in
  the directory keeps the bytes it had when the handle was opened, and \<open>put_back\<close> is what
  a restart sees: the bytes of the handle under the file's name.
\<close>

section \<open>Numbers as file names\<close>

fun show_nat :: "nat \<Rightarrow> string" where
  "show_nat n = (if n < 10 then [char_of (48 + n)] else show_nat (n div 10) @ [char_of (48 + n mod 10)])"

declare show_nat.simps [simp del]

definition digit_value :: "char \<Rightarrow> nat option" where
  "digit_value c = (let k = of_char c :: nat in if 48 \<le> k \<and> k \<le> 57 then Some (k - 48) else None)"

fun parse_digits :: "nat \<Rightarrow> string \<Rightarrow> nat option" where
  "parse_digits acc [] = Some acc"
| "parse_digits acc (c # cs) = (case digit_value c of
     None \<Rightarrow> None
   | Some d \<Rightarrow> if 10 * acc + d < 2 ^ 64 then parse_digits (10 * acc + d) cs else None)"

text \<open>\<open>str::parse::<u64>\<close>: an optional plus sign and at least one digit, without overflow.\<close>

definition parse_u64 :: "string \<Rightarrow> u64 option" where
  "parse_u64 s = (let ds = (case s of c # cs \<Rightarrow> if c = CHR ''+'' then cs else s | [] \<Rightarrow> []) in
     if ds = [] then None else map_option word_of_nat (parse_digits 0 ds))"

lemma digit_value_digit: "d < 10 \<Longrightarrow> digit_value (char_of (48 + d)) = Some d"
  by (simp add: digit_value_def of_char_of Let_def)

lemma digit_value_plus: "digit_value CHR ''+'' = None"
  by (simp add: digit_value_def Let_def)

lemma parse_digits_append:
  "parse_digits acc (xs @ ys) = (case parse_digits acc xs of None \<Rightarrow> None | Some a \<Rightarrow> parse_digits a ys)"
  by (induction acc xs rule: parse_digits.induct) (simp_all split: option.split)

lemma parse_show_nat: "n < 2 ^ 64 \<Longrightarrow> parse_digits 0 (show_nat n) = Some n"
proof (induction n rule: show_nat.induct)
  case (1 n)
  show ?case
  proof (cases "n < 10")
    case True
    then show ?thesis using 1 by (subst show_nat.simps) (simp add: digit_value_digit)
  next
    case False
    then have "parse_digits 0 (show_nat (n div 10)) = Some (n div 10)" using 1 by simp
    then show ?thesis
      using False 1(2) by (subst show_nat.simps) (simp add: parse_digits_append digit_value_digit)
  qed
qed

lemma show_nat_not_Nil: "show_nat n \<noteq> []"
  by (subst show_nat.simps) simp

lemma hd_show_nat: "hd (show_nat n) \<noteq> CHR ''+''"
proof (induction n rule: show_nat.induct)
  case (1 n)
  have "char_of (48 + d) \<noteq> CHR ''+''" if "d < 10" for d :: nat
    using digit_value_digit [OF that] digit_value_plus by auto
  then show ?case
    using 1 show_nat_not_Nil by (subst show_nat.simps) auto
qed

lemma parse_u64_show: "parse_u64 (show_nat (unat g)) = Some g"
proof -
  have "unat g < 2 ^ 64" using unat_bound [of g] by simp
  then have "parse_digits 0 (show_nat (unat g)) = Some (unat g)" by (rule parse_show_nat)
  moreover have "(case show_nat (unat g) of c # cs \<Rightarrow> if c = CHR ''+'' then cs else show_nat (unat g)
      | [] \<Rightarrow> []) = show_nat (unat g)"
    using hd_show_nat [of "unat g"] by (auto split: list.split)
  ultimately show ?thesis
    by (simp add: parse_u64_def Let_def show_nat_not_Nil)
qed

lemma show_u64_inject [simp]: "show_nat (unat (g :: u64)) = show_nat (unat h) \<longleftrightarrow> g = h"
  by (metis parse_u64_show option.inject)

section \<open>The folder\<close>

datatype dir_entry = RegularFile "byte list" | SubDirectory

record database_folder =
  segments_dir :: "(string \<times> dir_entry) list"
  wal_dir :: "(string \<times> dir_entry) list"

definition segment_file_name :: "u32 \<Rightarrow> string" where "segment_file_name n = show_nat (unat n)"
definition wal_file_name :: "u64 \<Rightarrow> string" where "wal_file_name g = show_nat (unat g)"

text \<open>Opening an existing file: \<open>path.exists()\<close> holds for a directory too.\<close>

definition open_existing :: "(rfile, file_error, 'a) prog \<Rightarrow> dir_entry \<Rightarrow> (file_error, 'a) outcome" where
  "open_existing m e = (case e of
     RegularFile bs \<Rightarrow> fst (m \<lparr>content = bs, pos = 0\<rparr>) | SubDirectory \<Rightarrow> Err (Io IoOther))"

definition open_segment_file :: "u32 \<Rightarrow> (database_folder, file_error, rfile) prog" where
  "open_segment_file n d = (case map_of (segments_dir d) (segment_file_name n) of
     Some e \<Rightarrow> (open_existing (bindp segment_open_file (\<lambda>_. get_state)) e, d)
   | None \<Rightarrow> (case bindp segment_create_file (\<lambda>_. get_state) \<lparr>content = [], pos = 0\<rparr> of
       (r, f) \<Rightarrow> (r, d\<lparr>segments_dir := AList.update (segment_file_name n) (RegularFile (content f))
          (segments_dir d)\<rparr>)))"

definition open_wal_file :: "u64 \<Rightarrow> (database_folder, file_error, wal_file) prog" where
  "open_wal_file g d = (case map_of (wal_dir d) (wal_file_name g) of
     Some e \<Rightarrow> (open_existing wal_file_open e, d)
   | None \<Rightarrow> (case wal_file_create \<lparr>content = [], pos = 0\<rparr> of
       (r, f) \<Rightarrow> (r, d\<lparr>wal_dir := AList.update (wal_file_name g) (RegularFile (content f)) (wal_dir d)\<rparr>)))"

definition delete_wal_file :: "u64 \<Rightarrow> (database_folder, file_error, unit) prog" where
  "delete_wal_file g d = (case map_of (wal_dir d) (wal_file_name g) of
     None \<Rightarrow> (Err (Io IoNotFound), d)
   | Some SubDirectory \<Rightarrow> (Err (Io IoOther), d)
   | Some (RegularFile _) \<Rightarrow> (Ok (), d\<lparr>wal_dir := AList.delete (wal_file_name g) (wal_dir d)\<rparr>))"

definition clear_wal_files :: "(database_folder, file_error, unit) prog" where
  "clear_wal_files d = (Ok (), d\<lparr>wal_dir := []\<rparr>)"

text \<open>\<open>IterWalFiles\<close>: the file is opened before its name is parsed; directories are skipped.\<close>

fun iter_wal_entries :: "(string \<times> dir_entry) list \<Rightarrow> (file_error, u64 \<times> wal_file) outcome list" where
  "iter_wal_entries [] = []"
| "iter_wal_entries ((name, SubDirectory) # es) = iter_wal_entries es"
| "iter_wal_entries ((name, RegularFile bs) # es) =
     oc_bind (open_existing wal_file_open (RegularFile bs)) (\<lambda>file.
       case parse_u64 name of None \<Rightarrow> Err (UnexpectedFile name) | Some g \<Rightarrow> Ok (g, file))
     # iter_wal_entries es"

definition iter_wal_files ::
  "(database_folder, file_error, (file_error, u64 \<times> wal_file) outcome list) prog" where
  "iter_wal_files d = (Ok (iter_wal_entries (wal_dir d)), d)"

definition put_back :: "u64 \<Rightarrow> wal_file \<Rightarrow> database_folder \<Rightarrow> database_folder" where
  "put_back g w d = d\<lparr>wal_dir := AList.update (wal_file_name g) (RegularFile (content (wfile w))) (wal_dir d)\<rparr>"

definition empty_folder :: database_folder where
  "empty_folder = \<lparr>segments_dir = [], wal_dir = []\<rparr>"

section \<open>The interface of the folder\<close>

text \<open>The trait \<open>DatabaseFolderApi\<close>, by the operations the log uses.\<close>

record ('d, 'f) folder_api =
  fa_open_wal_file :: "u64 \<Rightarrow> ('d, file_error, 'f) prog"
  fa_delete_wal_file :: "u64 \<Rightarrow> ('d, file_error, unit) prog"
  fa_iter_wal_files :: "('d, file_error, (file_error, u64 \<times> 'f) outcome list) prog"
  fa_clear_wal_files :: "('d, file_error, unit) prog"

definition folder_impl :: "(database_folder, wal_file) folder_api" where
  "folder_impl = \<lparr>fa_open_wal_file = open_wal_file, fa_delete_wal_file = delete_wal_file,
     fa_iter_wal_files = iter_wal_files, fa_clear_wal_files = clear_wal_files\<rparr>"

text \<open>
  What the log relies on: a generation that has no file yet is opened as an empty log, an
  existing file can be deleted, and neither touches the other generations.
\<close>

locale wal_folder = wal_log api entries inv
  for api :: "'f wal_file_api" and entries :: "'f \<Rightarrow> (u64 \<times> item) list" and inv :: "'f \<Rightarrow> bool" +
  fixes fapi :: "('d, 'f) folder_api"
    and gen_files :: "'d \<Rightarrow> u64 set"
    and finv :: "'d \<Rightarrow> bool"
  assumes open_fresh: "finv d \<Longrightarrow> g \<notin> gen_files d \<Longrightarrow>
      \<exists>f d'. fa_open_wal_file fapi g d = (Ok f, d') \<and> finv d' \<and> gen_files d' = insert g (gen_files d)
        \<and> inv f \<and> entries f = [] \<and> api_size api f = log_start"
    and delete_ok: "finv d \<Longrightarrow> g \<in> gen_files d \<Longrightarrow>
      \<exists>d'. fa_delete_wal_file fapi g d = (Ok (), d') \<and> finv d' \<and> gen_files d' = gen_files d - {g}"
    and clear_ok: "finv d \<Longrightarrow> \<exists>d'. fa_clear_wal_files fapi d = (Ok (), d') \<and> finv d' \<and> gen_files d' = {}"
begin

lemma delete_all_ok:
  assumes "finv d" and "set gs \<subseteq> gen_files d" and "distinct gs"
  shows "\<exists>d'. for_each (fa_delete_wal_file fapi) gs d = (Ok (), d') \<and> finv d'
    \<and> gen_files d' = gen_files d - set gs"
  using assms
proof (induction gs arbitrary: d)
  case Nil
  then show ?case by (simp add: prog_simps)
next
  case (Cons g gs)
  then obtain d1 where d1: "fa_delete_wal_file fapi g d = (Ok (), d1)" "finv d1"
      "gen_files d1 = gen_files d - {g}"
    using delete_ok [of d g] by auto
  moreover from this have "set gs \<subseteq> gen_files d1" using Cons.prems by auto
  ultimately show ?case
    using Cons.IH [of d1] Cons.prems(3) by (auto simp: bindp_Ok Diff_insert2 [symmetric] insert_commute)
qed

end

definition folder_gens :: "database_folder \<Rightarrow> u64 set" where
  "folder_gens d = {g. wal_file_name g \<in> keys_of (wal_dir d)}"

definition folder_ok :: "database_folder \<Rightarrow> bool" where
  "folder_ok d \<longleftrightarrow> distinct_keys (wal_dir d) \<and> (\<forall>e \<in> snd ` set (wal_dir d). \<exists>bs. e = RegularFile bs)"

lemma folder_entry: "folder_ok d \<Longrightarrow> g \<in> folder_gens d \<Longrightarrow>
  \<exists>bs. map_of (wal_dir d) (wal_file_name g) = Some (RegularFile bs)"
  by (auto simp: folder_ok_def folder_gens_def distinct_keys_def) (metis image_iff map_of_is_SomeI snd_conv)

lemma folder_no_entry: "g \<notin> folder_gens d \<Longrightarrow> map_of (wal_dir d) (wal_file_name g) = None"
  by (simp add: folder_gens_def map_of_eq_None_iff)

lemma set_update_snd: "snd ` set (AList.update k v m) \<subseteq> insert v (snd ` set m)"
  by (induction m) auto

lemma set_delete_subset: "set (AList.delete k m) \<subseteq> set m"
  by (auto simp: AList.delete_eq)

interpretation wfolder: wal_folder "wal_file_impl crc" "wal_entries crc" "\<lambda>w. \<exists>its. wal_inv crc its w"
    folder_impl folder_gens folder_ok
  for crc
proof (unfold_locales, goal_cases)
  case (1 d g)
  obtain w f where w: "wal_file_create \<lparr>content = [], pos = 0\<rparr> = (Ok w, f)" "wal_inv crc [] w"
    using wal_file_create_run [of "\<lparr>content = [], pos = 0\<rparr>" crc] by auto
  have "wal_size w = log_start" "wal_entries crc w = []"
    using wal_inv_next_offset(1) [OF w(2)] wal_entries_inv [OF w(2)] by (simp_all add: wal_size_def)
  moreover have "folder_gens (d\<lparr>wal_dir := AList.update (wal_file_name g) e (wal_dir d)\<rparr>)
      = insert g (folder_gens d)" for e
    by (auto simp: folder_gens_def wal_file_name_def)
  moreover have "folder_ok (d\<lparr>wal_dir := AList.update (wal_file_name g) (RegularFile bs) (wal_dir d)\<rparr>)" for bs
    unfolding folder_ok_def
  proof (intro conjI ballI)
    show "distinct_keys (wal_dir (d\<lparr>wal_dir := AList.update (wal_file_name g) (RegularFile bs) (wal_dir d)\<rparr>))"
      using 1(1) by (simp add: folder_ok_def)
    fix e
    assume "e \<in> snd ` set (wal_dir (d\<lparr>wal_dir := AList.update (wal_file_name g) (RegularFile bs) (wal_dir d)\<rparr>))"
    then have "e \<in> insert (RegularFile bs) (snd ` set (wal_dir d))"
      using set_update_snd [of "wal_file_name g" "RegularFile bs" "wal_dir d"] by (simp add: subset_iff)
    then show "\<exists>bs. e = RegularFile bs" using 1(1) by (auto simp: folder_ok_def)
  qed
  ultimately show ?case
    using w folder_no_entry [OF 1(2)]
    by (auto simp: folder_impl_def open_wal_file_def wal_file_impl_def)
next
  case (2 d g)
  obtain bs where bs: "map_of (wal_dir d) (wal_file_name g) = Some (RegularFile bs)"
    using folder_entry [OF 2] by blast
  have "folder_gens (d\<lparr>wal_dir := AList.delete (wal_file_name g) (wal_dir d)\<rparr>) = folder_gens d - {g}"
    by (auto simp: folder_gens_def wal_file_name_def)
  moreover have "folder_ok (d\<lparr>wal_dir := AList.delete (wal_file_name g) (wal_dir d)\<rparr>)"
    using 2(1) set_delete_subset [of "wal_file_name g" "wal_dir d"] by (auto simp: folder_ok_def)
  ultimately show ?case
    using bs by (auto simp: folder_impl_def delete_wal_file_def)
next
  case (3 d)
  then show ?case
    by (auto simp: folder_impl_def clear_wal_files_def folder_ok_def folder_gens_def)
qed

text \<open>What the iteration gives for one entry.\<close>

definition entry_results :: "string \<times> dir_entry \<Rightarrow> (file_error, u64 \<times> wal_file) outcome list" where
  "entry_results e = iter_wal_entries [e]"

lemma iter_wal_entries_append: "iter_wal_entries (xs @ ys) = iter_wal_entries xs @ iter_wal_entries ys"
  by (induction xs rule: iter_wal_entries.induct) auto

lemma iter_wal_entries_sum: "mset (iter_wal_entries es) = (\<Sum>e \<in># mset es. mset (entry_results e))"
  by (induction es rule: iter_wal_entries.induct) (simp_all add: entry_results_def)

text \<open>
  C36: A log file that is written, closed and put under its generation's name is found again
  by the iteration over the folder. In whatever order the directory is listed then, the
  iteration gives what it gave before for each file already there, and exactly one result more:
  the generation the file was opened with, and a handle that holds the items that were written.
\<close>

theorem folder_iteration_finds_generation:
  assumes "wal_inv crc its w" and "g \<notin> folder_gens d" and "mset (wal_dir d') = mset (wal_dir (put_back g w d))"
  shows "\<exists>w' rs. iter_wal_files d' = (Ok rs, d') \<and> mset rs = add_mset (Ok (g, w')) (mset (iter_wal_entries (wal_dir d)))
    \<and> wal_entries crc w' = log_entries log_start its \<and> next_offset w' = next_offset w"
proof -
  obtain w' f where w': "wal_file_open \<lparr>content = content (wfile w), pos = 0\<rparr> = (Ok w', f)"
      "wal_inv crc its w'"
    using wal_file_open_run [OF assms(1), of "\<lparr>content = content (wfile w), pos = 0\<rparr>"] by auto
  have n: "next_offset w' = next_offset w" using assms(1) w'(2) by (simp add: wal_inv_def)
  have "wal_dir (put_back g w d) = wal_dir d @ [(wal_file_name g, RegularFile (content (wfile w)))]"
    using assms(2) by (simp add: put_back_def folder_gens_def update_fresh)
  then have "iter_wal_entries (wal_dir (put_back g w d)) = iter_wal_entries (wal_dir d) @ [Ok (g, w')]"
    using w'(1) by (simp add: iter_wal_entries_append open_existing_def parse_u64_show wal_file_name_def)
  then have "mset (iter_wal_entries (wal_dir d')) = add_mset (Ok (g, w')) (mset (iter_wal_entries (wal_dir d)))"
    by (metis add_mset_add_single assms(3) iter_wal_entries_sum mset_append mset_single_iff_right mset.simps)
  then show ?thesis using n wal_entries_inv [OF w'(2)] by (auto simp: iter_wal_files_def)
qed

theorem folder_iteration_finds_generation_witness:
  "\<exists>w w' w'' rs. let d = put_back 5 w empty_folder; d' = \<lparr>segments_dir = [], wal_dir = rev (wal_dir (put_back 7 w d))\<rparr> in
      iter_wal_files d' = (Ok rs, d') \<and> mset rs = {#Ok (7, w'), Ok (5, w'')#}
    \<and> wal_entries (\<lambda>_. 0) w' = [(9, example_write)]"
proof -
  obtain w where w: "wal_inv (\<lambda>_. 0) [example_write] w" using example_wal_inv by blast
  have g5: "5 \<notin> folder_gens empty_folder" by (simp add: folder_gens_def empty_folder_def)
  let ?d = "put_back 5 w empty_folder"
  let ?d' = "\<lparr>segments_dir = [], wal_dir = rev (wal_dir (put_back 7 w ?d))\<rparr>"
  have "(7 :: u64) \<notin> folder_gens ?d"
    using show_u64_inject [of 7 5] by (auto simp: folder_gens_def put_back_def empty_folder_def wal_file_name_def)
  from folder_iteration_finds_generation [OF w this, of ?d'] obtain w' rs where r: "iter_wal_files ?d' = (Ok rs, ?d')"
      "mset rs = add_mset (Ok (7, w')) (mset (iter_wal_entries (wal_dir ?d)))" "wal_entries (\<lambda>_. 0) w' = log_entries log_start [example_write]"
    by auto
  obtain w'' where "fst (wal_file_open \<lparr>content = content (wfile w), pos = 0\<rparr>) = Ok w''"
    using wal_file_open_run [OF w, of "\<lparr>content = content (wfile w), pos = 0\<rparr>"] by auto
  then have "iter_wal_entries (wal_dir ?d) = [Ok (5, w'')]"
    using parse_u64_show [of 5] by (auto simp: put_back_def empty_folder_def open_existing_def parse_u64_show wal_file_name_def)
  then show ?thesis using r
    by (intro exI [of _ w] exI [of _ w'] exI [of _ w''] exI [of _ rs]) (simp add: Let_def log_start_def GENERIC_HEADER_SIZE_def)
qed

end
