(* ===== verification/Wal.thy ===== *)
theory Wal
  imports StoreTypes DbFolder
begin

text \<open>
  The write-ahead log of \<open>page_store/wal.rs\<close>: a queue of log files (generations), the table
  of dirty pages and of transactions in flight, and the operations that log, check-point,
  undo and recover. It is generic in the log file and in the folder, as the source is.

  The state is behind one read-write lock and mutexes; a call holds them for as long as it
  runs, and no call takes one that it holds, so the locks do not appear. A check-point that
  \<open>push_raw_item\<close> spawns on the thread pool runs later: it is counted in \<open>spawned\<close>, and
  \<open>checkpoint\<close> is what such a task, like the periodic one, does.

  The callbacks of \<open>undo\<close> and \<open>recover\<close> change a state of their own (\<open>'h\<close>): these programs
  run on the pair of the log and that state.
\<close>

section \<open>Dirty pages and transactions\<close>

record wal_state =
  dirty_pages :: "(page_address \<times> wal_index) list"
  transactions :: "(u64 \<times> transaction_state) list"

definition state_default :: wal_state where
  "state_default = \<lparr>dirty_pages = [], transactions = []\<rparr>"

definition track_transaction :: "wal_index \<Rightarrow> u64 \<Rightarrow> wal_state \<Rightarrow> wal_state" where
  "track_transaction i t s = (case map_of (transactions s) t of
     None \<Rightarrow> s\<lparr>transactions := AList.update t \<lparr>first_gen = generation i, last_index = i\<rparr> (transactions s)\<rparr>
   | Some ts \<Rightarrow> s\<lparr>transactions := AList.update t (ts\<lparr>last_index := i\<rparr>) (transactions s)\<rparr>)"

definition complete_transaction :: "u64 \<Rightarrow> wal_state \<Rightarrow> wal_state" where
  "complete_transaction t s = s\<lparr>transactions := AList.delete t (transactions s)\<rparr>"

definition track_write :: "wal_index \<Rightarrow> write_data \<Rightarrow> wal_state \<Rightarrow> wal_state" where
  "track_write i d s = (let s1 = track_transaction i (td_transaction_id (wd_transaction_data d)) s in
     s1\<lparr>dirty_pages := or_insert (wd_page_address d) i (dirty_pages s1)\<rparr>)"

definition state_cache_did_flush :: "wal_state \<Rightarrow> wal_state" where
  "state_cache_did_flush s = s\<lparr>dirty_pages := []\<rparr>"

definition first_needed_generation :: "wal_state \<Rightarrow> u64" where
  "first_needed_generation s = (case map (\<lambda>(t, ts). first_gen ts) (transactions s) of
     [] \<Rightarrow> - 1
   | g # gs \<Rightarrow> fold min gs g)"

definition handle_item :: "wal_index \<Rightarrow> item \<Rightarrow> wal_state \<Rightarrow> wal_state" where
  "handle_item i it s = (case it of
     Write d \<Rightarrow> track_write i d s
   | Commit d \<Rightarrow> complete_transaction (td_transaction_id d) s
   | Checkpoint _ \<Rightarrow> s)"

section \<open>The queue of generations\<close>

record 'f wal_generation =
  gen_num :: u64
  gen_file :: 'f

record 'f generation_queue =
  generations :: "'f wal_generation list"
  current_gen_num :: u64

definition queue_new :: "'f generation_queue" where
  "queue_new = \<lparr>generations = [], current_gen_num = 0\<rparr>"

definition push_generation :: "u64 \<Rightarrow> 'f \<Rightarrow> 'f generation_queue \<Rightarrow> 'f generation_queue" where
  "push_generation g f q = \<lparr>generations = generations q @ [\<lparr>gen_num = g, gen_file = f\<rparr>],
     current_gen_num = max (current_gen_num q) g\<rparr>"

text \<open>\<open>current_generation\<close> asserts that the back of the queue has the current number.\<close>

definition current_generation :: "'f generation_queue \<Rightarrow> ('e, 'f option) outcome" where
  "current_generation q = (if generations q = [] then Ok None
     else if gen_num (last (generations q)) \<noteq> current_gen_num q then Panic
     else Ok (Some (gen_file (last (generations q)))))"

section \<open>The log\<close>

record ('d, 'f) wal =
  folder :: 'd
  gens :: "'f generation_queue"
  wstate :: wal_state
  max_generation_size :: nat
  spawned :: nat

type_synonym ('d, 'f, 'a) walp = "(('d, 'f) wal, storage_error, 'a) prog"

definition on_folder :: "('d, file_error, 'a) prog \<Rightarrow> ('d, 'f, 'a) walp" where
  "on_folder m w = (case m (folder w) of (r, d) \<Rightarrow> (oc_map_err File r, w\<lparr>folder := d\<rparr>))"

text \<open>A program on the file of generation number \<open>i\<close> of the queue, and of the last one.\<close>

definition on_gen :: "nat \<Rightarrow> ('f, file_error, 'a) prog \<Rightarrow> ('d, 'f, 'a) walp" where
  "on_gen i m w = (let gs = generations (gens w) in
     case m (gen_file (gs ! i)) of (r, f) \<Rightarrow>
       (oc_map_err File r, w\<lparr>gens := (gens w)\<lparr>generations := gs[i := (gs ! i)\<lparr>gen_file := f\<rparr>]\<rparr>\<rparr>))"

definition on_current :: "('f, file_error, 'a) prog \<Rightarrow> ('d, 'f, 'a) walp" where
  "on_current m w = on_gen (length (generations (gens w)) - 1) m w"

text \<open>\<open>let Some(file) = gens.current_generation() else { return Err(..) }\<close>\<close>

definition with_current :: "('f \<Rightarrow> ('d, 'f, 'a) walp) \<Rightarrow> ('d, 'f, 'a) walp" where
  "with_current k = bindp get_state (\<lambda>w.
     bindp (lift_oc (current_generation (gens w))) (\<lambda>c. case c of
       None \<Rightarrow> throw WalNotInitialized
     | Some f \<Rightarrow> k f))"

definition log_checkpoint :: "'f wal_file_api \<Rightarrow> ('d, 'f, unit) walp" where
  "log_checkpoint api = with_current (\<lambda>_.
     bindp get_state (\<lambda>w.
     bindp (on_current (api_push_item api (Checkpoint
       \<lparr>cd_transactions = transactions (wstate w), cd_dirty_pages = dirty_pages (wstate w)\<rparr>))) (\<lambda>_.
     ret ())))"

definition wal_new :: "'d \<Rightarrow> 'f generation_queue \<Rightarrow> wal_state \<Rightarrow> nat \<Rightarrow> ('d, 'f) wal" where
  "wal_new d q s n = \<lparr>folder = d, gens = q, wstate = s, max_generation_size = n, spawned = 0\<rparr>"

definition wal_create :: "'f wal_file_api \<Rightarrow> ('d, 'f) folder_api \<Rightarrow> nat \<Rightarrow>
    'd \<Rightarrow> (storage_error, ('d, 'f) wal) outcome \<times> 'd" where
  "wal_create api fapi n =
     bindp (from_file (fa_clear_wal_files fapi)) (\<lambda>_.
     bindp (from_file (fa_open_wal_file fapi 0)) (\<lambda>f.
     bindp get_state (\<lambda>d.
     case log_checkpoint api (wal_new d (push_generation 0 f queue_new) state_default n) of
       (r, w) \<Rightarrow> bindp (lift_oc r) (\<lambda>_. ret w))))"

text \<open>
  \<open>Result::from_iter\<close>: the first error, or all the values. The sort by number is stable, as
  \<open>sort_by\<close> is.
\<close>

fun collect_results :: "('e, 'a) outcome list \<Rightarrow> ('e, 'a list) outcome" where
  "collect_results [] = Ok []"
| "collect_results (r # rs) = oc_bind r (\<lambda>x. oc_bind (collect_results rs) (\<lambda>xs. Ok (x # xs)))"

definition wal_open :: "('d, 'f) folder_api \<Rightarrow> nat \<Rightarrow> 'd \<Rightarrow> (storage_error, ('d, 'f) wal) outcome \<times> 'd" where
  "wal_open fapi n =
     bindp (from_file (fa_iter_wal_files fapi)) (\<lambda>results.
     bindp (lift_oc (oc_map_err File (collect_results results))) (\<lambda>wal_files.
     bindp get_state (\<lambda>d.
       ret (wal_new d (fold (\<lambda>(g, f). push_generation g f) (sort_key fst wal_files) queue_new)
         state_default n))))"

text \<open>Generations below the first needed one go, up to the current one.\<close>

definition cleanup_generations :: "('d, 'f) folder_api \<Rightarrow> ('d, 'f, unit) walp" where
  "cleanup_generations fapi = bindp get_state (\<lambda>w.
     let first_needed = first_needed_generation (wstate w);
         delete_gens = map gen_num (takeWhile
           (\<lambda>g. \<not> (gen_num g \<ge> first_needed \<or> gen_num g = current_gen_num (gens w))) (generations (gens w)))
     in for_each (\<lambda>g.
          bindp (modify (\<lambda>w. w\<lparr>gens := (gens w)\<lparr>generations := tl (generations (gens w))\<rparr>\<rparr>)) (\<lambda>_.
            on_folder (fa_delete_wal_file fapi g))) delete_gens)"

definition flush_impl :: "'f wal_file_api \<Rightarrow> ('d, 'f, unit) walp" where
  "flush_impl api = bindp get_state (\<lambda>w.
     bindp (lift_oc (current_generation (gens w))) (\<lambda>c. case c of
       None \<Rightarrow> ret ()
     | Some _ \<Rightarrow> on_current (api_flush api)))"

text \<open>The generation number is incremented with overflow checks.\<close>

definition checkpoint :: "'f wal_file_api \<Rightarrow> ('d, 'f) folder_api \<Rightarrow> ('d, 'f, unit) walp" where
  "checkpoint api fapi =
     bindp (flush_impl api) (\<lambda>_.
     bindp get_state (\<lambda>w. case checked_add (current_gen_num (gens w)) 1 of
       None \<Rightarrow> panic
     | Some g \<Rightarrow>
         bindp (on_folder (fa_open_wal_file fapi g)) (\<lambda>f.
         bindp (modify (\<lambda>w. w\<lparr>gens := push_generation g f (gens w)\<rparr>)) (\<lambda>_.
         bindp (cleanup_generations fapi) (\<lambda>_. log_checkpoint api)))))"

text \<open>
  What a spawned check-point does (\<open>single_checkpoint_task\<close>, and each round of the periodic
  one): an error is logged and otherwise ignored.
\<close>

definition checkpoint_task :: "'f wal_file_api \<Rightarrow> ('d, 'f) folder_api \<Rightarrow> ('d, 'f, unit) walp" where
  "checkpoint_task api fapi w = (case checkpoint api fapi w of
     (Err _, w') \<Rightarrow> (Ok (), w')
   | res \<Rightarrow> res)"

definition push_raw_item :: "'f wal_file_api \<Rightarrow> item \<Rightarrow> ('d, 'f, wal_index) walp" where
  "push_raw_item api it = with_current (\<lambda>f.
     bindp get_state (\<lambda>w.
     let i = WalIndex (current_gen_num (gens w)) (api_next_offset api f) in
     bindp (modify (\<lambda>w. w\<lparr>wstate := handle_item i it (wstate w)\<rparr>)) (\<lambda>_.
     bindp (on_current (api_push_item api it)) (\<lambda>_.
     bindp (modify (\<lambda>w. if api_size api (gen_file (last (generations (gens w)))) \<ge> max_generation_size w
         then w\<lparr>spawned := Suc (spawned w)\<rparr> else w)) (\<lambda>_.
       ret i)))))"

definition create_transaction_data :: "u64 \<Rightarrow> ('d, 'f) wal \<Rightarrow> transaction_data" where
  "create_transaction_data t w =
     \<lparr>td_transaction_id = t, td_prev_item = map_option last_index (map_of (transactions (wstate w)) t)\<rparr>"

record write_log =
  wl_transaction_id :: u64
  wl_page_address :: page_address
  wl_offset :: u16
  wl_from :: "byte list"
  wl_to :: "byte list"

definition create_write_data :: "write_log \<Rightarrow> ('d, 'f) wal \<Rightarrow> write_data" where
  "create_write_data l w = \<lparr>wd_transaction_data = create_transaction_data (wl_transaction_id l) w,
     wd_page_address = wl_page_address l, wd_offset = wl_offset l, wd_from = Some (wl_from l),
     wd_to = wl_to l\<rparr>"

definition log_write :: "'f wal_file_api \<Rightarrow> write_log \<Rightarrow> ('d, 'f, wal_index) walp" where
  "log_write api l = bindp get_state (\<lambda>w. push_raw_item api (Write (create_write_data l w)))"

definition log_commit :: "'f wal_file_api \<Rightarrow> u64 \<Rightarrow> ('d, 'f, wal_index) walp" where
  "log_commit api t = bindp get_state (\<lambda>w.
     bindp (push_raw_item api (Commit (create_transaction_data t w))) (\<lambda>i.
     bindp (flush_impl api) (\<lambda>_. ret i)))"

definition cache_did_flush :: "('d, 'f) wal \<Rightarrow> ('d, 'f) wal" where
  "cache_did_flush w = w\<lparr>wstate := state_cache_did_flush (wstate w)\<rparr>"

section \<open>Undo\<close>

record undo_log =
  ul_transaction_id :: u64
  ul_page_address :: page_address
  ul_offset :: u16
  ul_to :: "byte list"

record partial_write_op =
  pw_index :: wal_index
  pw_page_address :: page_address
  pw_offset :: u16
  pw_buf :: "byte list"

type_synonym ('d, 'f, 'h, 'a) walhp = "(('d, 'f) wal \<times> 'h, storage_error, 'a) prog"

definition create_undo_log :: "write_data \<Rightarrow> undo_log option" where
  "create_undo_log d = map_option (\<lambda>from_buf.
     \<lparr>ul_transaction_id = td_transaction_id (wd_transaction_data d), ul_page_address = wd_page_address d,
      ul_offset = wd_offset d, ul_to = from_buf\<rparr>) (wd_from d)"

definition create_undo_write_data :: "undo_log \<Rightarrow> ('d, 'f) wal \<Rightarrow> write_data" where
  "create_undo_write_data u w = \<lparr>wd_transaction_data = create_transaction_data (ul_transaction_id u) w,
     wd_page_address = ul_page_address u, wd_offset = ul_offset u, wd_from = None, wd_to = ul_to u\<rparr>"

definition log_undo :: "'f wal_file_api \<Rightarrow> undo_log \<Rightarrow> ('d, 'f, wal_index) walp" where
  "log_undo api u = bindp get_state (\<lambda>w. push_raw_item api (Write (create_undo_write_data u w)))"

definition apply_undo_log :: "'f wal_file_api \<Rightarrow> (partial_write_op \<Rightarrow> ('h, storage_error, unit) prog) \<Rightarrow>
    undo_log \<Rightarrow> ('d, 'f, 'h, wal_index) walhp" where
  "apply_undo_log api handle u =
     bindp (on_fst (log_undo api u)) (\<lambda>i.
     bindp (on_snd (handle \<lparr>pw_index = i, pw_page_address = ul_page_address u, pw_offset = ul_offset u,
        pw_buf = ul_to u\<rparr>)) (\<lambda>_. ret i))"

text \<open>
  The inner loop of \<open>undo_all\<close> over the items of a generation, newest first: the
  compensation items it collects and whether it broke out of both loops.
\<close>

fun undo_scan :: "wal_index \<Rightarrow> u64 list \<Rightarrow> u64 \<Rightarrow> (u64 \<times> item) list \<Rightarrow> undo_log list \<times> bool" where
  "undo_scan lowest tids g [] = ([], False)"
| "undo_scan lowest tids g ((off, it) # xs) =
     (if WalIndex g off < lowest then ([], True)
      else case it of
        Write d \<Rightarrow>
          if td_transaction_id (wd_transaction_data d) \<notin> set tids then undo_scan lowest tids g xs
          else (case create_undo_log d of
              None \<Rightarrow> undo_scan lowest tids g xs
            | Some u \<Rightarrow> (case undo_scan lowest tids g xs of (us, b) \<Rightarrow> (u # us, b)))
      | _ \<Rightarrow> undo_scan lowest tids g xs)"

text \<open>The outer loop, over the positions of the generations in the queue, last first.\<close>

fun undo_collect :: "'f wal_file_api \<Rightarrow> wal_index \<Rightarrow> u64 list \<Rightarrow> nat list \<Rightarrow> ('d, 'f, undo_log list) walp" where
  "undo_collect api lowest tids [] = ret []"
| "undo_collect api lowest tids (i # is) =
     bindp get_state (\<lambda>w.
     bindp (on_gen i (api_iter_items_reverse api)) (\<lambda>(items, fin).
     case undo_scan lowest tids (gen_num (generations (gens w) ! i)) items of
       (us, True) \<Rightarrow> ret us
     | (us, False) \<Rightarrow>
         bindp (lift_oc (oc_map_err File fin)) (\<lambda>_.
         bindp (undo_collect api lowest tids is) (\<lambda>vs. ret (us @ vs)))))"

definition finish_undo :: "'f wal_file_api \<Rightarrow> u64 \<Rightarrow> ('d, 'f, unit) walp" where
  "finish_undo api t = bindp get_state (\<lambda>w.
     bindp (push_raw_item api (Commit (create_transaction_data t w))) (\<lambda>_.
       modify (\<lambda>w. w\<lparr>wstate := complete_transaction t (wstate w)\<rparr>)))"

definition last_indices :: "u64 list \<Rightarrow> wal_state \<Rightarrow> wal_index list" where
  "last_indices tids s = List.map_filter (\<lambda>t. map_option last_index (map_of (transactions s) t)) tids"

definition undo_all :: "'f wal_file_api \<Rightarrow> (partial_write_op \<Rightarrow> ('h, storage_error, unit) prog) \<Rightarrow>
    u64 list \<Rightarrow> ('d, 'f, 'h, unit) walhp" where
  "undo_all api handle tids =
     bindp (on_fst get_state) (\<lambda>w. case last_indices tids (wstate w) of
       [] \<Rightarrow> ret ()
     | i # is \<Rightarrow>
         bindp (on_fst (undo_collect api (fold min is i) tids
           (rev [0..<length (generations (gens w))]))) (\<lambda>us.
         bindp (for_each (\<lambda>u. bindp (apply_undo_log api handle u) (\<lambda>_. ret ())) us) (\<lambda>_.
           on_fst (for_each (finish_undo api) tids))))"

definition undo :: "'f wal_file_api \<Rightarrow> (partial_write_op \<Rightarrow> ('h, storage_error, unit) prog) \<Rightarrow>
    u64 \<Rightarrow> ('d, 'f, 'h, unit) walhp" where
  "undo api handle t = bindp (on_fst (flush_impl api)) (\<lambda>_. undo_all api handle [t])"

section \<open>Recovery\<close>

fun first_checkpoint :: "(u64 \<times> item) list \<Rightarrow> checkpoint_data option" where
  "first_checkpoint [] = None"
| "first_checkpoint ((_, Checkpoint d) # xs) = Some d"
| "first_checkpoint ((_, _) # xs) = first_checkpoint xs"

text \<open>An error of an item counts only when the loop gets that far.\<close>

definition read_initial_state :: "'f wal_file_api \<Rightarrow> ('d, 'f, unit) walp" where
  "read_initial_state api =
     bindp (on_current (api_iter_items api)) (\<lambda>(items, fin).
     case first_checkpoint items of
       Some d \<Rightarrow> modify (\<lambda>w. w\<lparr>wstate :=
         \<lparr>dirty_pages = cd_dirty_pages d, transactions = cd_transactions d\<rparr>\<rparr>)
     | None \<Rightarrow>
         bindp (lift_oc (oc_map_err File fin)) (\<lambda>_. modify (\<lambda>w. w\<lparr>wstate := state_default\<rparr>)))"

definition recover_state :: "'f wal_file_api \<Rightarrow> u64 \<Rightarrow> ('d, 'f, unit) walp" where
  "recover_state api g =
     bindp (on_current (api_iter_items api)) (\<lambda>(items, fin).
     bindp (modify (\<lambda>w. w\<lparr>wstate :=
       fold (\<lambda>(off, it). handle_item (WalIndex g off) it) items (wstate w)\<rparr>)) (\<lambda>_.
       lift_oc (oc_map_err File fin)))"

definition redo_write :: "(partial_write_op \<Rightarrow> ('h, storage_error, unit) prog) \<Rightarrow> wal_index \<Rightarrow>
    write_data \<Rightarrow> ('d, 'f, 'h, unit) walhp" where
  "redo_write handle i d =
     bindp (on_fst get_state) (\<lambda>w. case map_of (dirty_pages (wstate w)) (wd_page_address d) of
       None \<Rightarrow> ret ()
     | Some first_dirty \<Rightarrow>
         if i < first_dirty then ret ()
         else on_snd (handle \<lparr>pw_index = i, pw_page_address = wd_page_address d,
           pw_offset = wd_offset d, pw_buf = wd_to d\<rparr>))"

definition redo :: "'f wal_file_api \<Rightarrow> u64 \<Rightarrow> (partial_write_op \<Rightarrow> ('h, storage_error, unit) prog) \<Rightarrow>
    ('d, 'f, 'h, unit) walhp" where
  "redo api g handle =
     bindp (on_fst (on_current (api_iter_items api))) (\<lambda>(items, fin).
     bindp (for_each (\<lambda>(off, it). case it of
         Write d \<Rightarrow> redo_write handle (WalIndex g off) d
       | _ \<Rightarrow> ret ()) items) (\<lambda>_.
       lift_oc (oc_map_err File fin)))"

definition recover :: "'f wal_file_api \<Rightarrow> (partial_write_op \<Rightarrow> ('h, storage_error, unit) prog) \<Rightarrow>
    ('d, 'f, 'h, unit) walhp" where
  "recover api handle =
     bindp (on_fst (with_current (\<lambda>_. get_state))) (\<lambda>w.
     let g = current_gen_num (gens w) in
     bindp (on_fst (read_initial_state api)) (\<lambda>_.
     bindp (on_fst (recover_state api g)) (\<lambda>_.
     bindp (redo api g handle) (\<lambda>_.
     bindp (on_fst get_state) (\<lambda>w.
       undo_all api handle (map fst (transactions (wstate w))))))))"

end
