(* ===== verification/WalProofs.thy ===== *)
theory WalProofs
  imports Wal
begin

text \<open>
  What the log of \<open>Wal.thy\<close> does: the tables as a summary of the log, the contracts of
  \<open>log_write\<close>, \<open>log_commit\<close>, \<open>checkpoint\<close>, \<open>undo\<close> and \<open>recover\<close>. The contracts are
  proved from the interfaces of the log file and of the folder, and hold for the code's own
  file and folder by interpretation.
\<close>

section \<open>The tables summarise the log\<close>

type_synonym log = "(wal_index \<times> item) list"

fun item_tid :: "item \<Rightarrow> u64 option" where
  "item_tid (Write d) = Some (td_transaction_id (wd_transaction_data d))"
| "item_tid (Commit d) = Some (td_transaction_id d)"
| "item_tid (Checkpoint d) = None"

fun is_write :: "item \<Rightarrow> bool" where
  "is_write (Write d) = True"
| "is_write _ = False"

definition replay_state :: "log \<Rightarrow> wal_state \<Rightarrow> wal_state" where
  "replay_state l s = fold (\<lambda>(i, it). handle_item i it) l s"

text \<open>The indices of a transaction's writes after its last commit, newest first.\<close>

definition open_writes :: "u64 \<Rightarrow> log \<Rightarrow> wal_index list" where
  "open_writes t l = map fst (takeWhile (is_write \<circ> snd) (rev (filter (\<lambda>(i, it). item_tid it = Some t) l)))"

fun first_write :: "page_address \<Rightarrow> log \<Rightarrow> wal_index option" where
  "first_write p [] = None"
| "first_write p ((i, Write d) # l) = (if wd_page_address d = p then Some i else first_write p l)"
| "first_write p ((i, _) # l) = first_write p l"

definition transaction_of :: "wal_index list \<Rightarrow> transaction_state option" where
  "transaction_of is = (if is = [] then None
     else Some \<lparr>first_gen = generation (last is), last_index = hd is\<rparr>)"

lemma open_writes_snoc:
  "open_writes t (l @ [(i, it)]) =
     (if item_tid it = Some t then if is_write it then i # open_writes t l else [] else open_writes t l)"
  by (simp add: open_writes_def)

lemma first_write_snoc:
  "first_write p (l @ [(i, it)]) = (case first_write p l of Some j \<Rightarrow> Some j
     | None \<Rightarrow> (case it of Write d \<Rightarrow> if wd_page_address d = p then Some i else None | _ \<Rightarrow> None))"
  by (induction p l rule: first_write.induct) (auto split: item.split)

lemma replay_state_snoc: "replay_state (l @ [(i, it)]) s = handle_item i it (replay_state l s)"
  by (simp add: replay_state_def)

lemma handle_item_transactions:
  "map_of (transactions (handle_item i it s)) t =
     (if item_tid it = Some t then
        (if is_write it then Some (case map_of (transactions s) t of
             None \<Rightarrow> \<lparr>first_gen = generation i, last_index = i\<rparr> | Some ts \<Rightarrow> ts\<lparr>last_index := i\<rparr>)
         else None)
      else map_of (transactions s) t)"
  by (cases it) (auto simp: handle_item_def track_write_def track_transaction_def Let_def
      complete_transaction_def update_conv' delete_conv' split: option.splits)

lemma handle_item_dirty:
  "map_of (dirty_pages (handle_item i it s)) p = (case map_of (dirty_pages s) p of
     Some j \<Rightarrow> Some j
   | None \<Rightarrow> (case it of Write d \<Rightarrow> if wd_page_address d = p then Some i else None | _ \<Rightarrow> None))"
  by (cases it) (auto simp: handle_item_def track_write_def track_transaction_def Let_def
      complete_transaction_def map_of_or_insert split: option.splits)

lemma state_default_empty [simp]: "transactions state_default = []" "dirty_pages state_default = []"
  by (simp_all add: state_default_def)

lemma replay_transactions: "map_of (transactions (replay_state l state_default)) t = transaction_of (open_writes t l)"
proof (induction l rule: rev_induct)
  case Nil
  show ?case by (simp add: replay_state_def open_writes_def transaction_of_def)
next
  case (snoc x l)
  obtain i it where x: "x = (i, it)" by force
  show ?case
    using snoc by (auto simp: x replay_state_snoc handle_item_transactions open_writes_snoc transaction_of_def)
qed

lemma replay_dirty: "map_of (dirty_pages (replay_state l state_default)) p = first_write p l"
proof (induction l rule: rev_induct)
  case Nil
  show ?case by (simp add: replay_state_def)
next
  case (snoc x l)
  obtain i it where x: "x = (i, it)" by force
  show ?case
    using snoc by (simp add: x replay_state_snoc handle_item_dirty first_write_snoc)
qed

text \<open>
  C16: The tables that \<open>handle_item\<close> keeps are a summary of the log: a transaction is in
  flight exactly when the log has writes of it after its last commit, with the generation of
  the first of them and the index of the last; a page is dirty exactly when the log has a
  write to it, from the index of the first one on.
\<close>

theorem tables_summarise_log:
  "map_of (transactions (replay_state l state_default)) t = transaction_of (open_writes t l)
   \<and> map_of (dirty_pages (replay_state l state_default)) p = first_write p l"
  by (simp add: replay_transactions replay_dirty)

section \<open>Well-formed logs\<close>

definition queue_ok :: "'f generation_queue \<Rightarrow> bool" where
  "queue_ok q \<longleftrightarrow> generations q \<noteq> [] \<and> sorted_wrt (<) (map gen_num (generations q))
     \<and> current_gen_num q = gen_num (last (generations q))"

lemma queue_snoc: "queue_ok q \<Longrightarrow> \<exists>gs g. generations q = gs @ [g]"
  unfolding queue_ok_def by (metis append_butlast_last_id)

lemma push_generation_ok: "queue_ok q \<Longrightarrow> current_gen_num q < g \<Longrightarrow> queue_ok (push_generation g f q)"
proof -
  assume q: "queue_ok q" and g: "current_gen_num q < g"
  obtain gs x where gs: "generations q = gs @ [x]"
    using queue_snoc [OF q] by blast
  have "gen_num y < g" if "y \<in> set (generations q)" for y
    using that q g by (auto simp: gs queue_ok_def sorted_wrt_append)
  then show ?thesis
    using q less_imp_le [OF g]
    by (auto simp: queue_ok_def push_generation_def sorted_wrt_append max_absorb2)
qed

lemma current_generation_ok: "queue_ok q \<Longrightarrow> current_generation q = Ok (Some (gen_file (last (generations q))))"
  by (simp add: queue_ok_def current_generation_def)

definition current_file :: "('d, 'f) wal \<Rightarrow> 'f" where
  "current_file w = gen_file (last (generations (gens w)))"

definition set_current :: "'f \<Rightarrow> ('d, 'f) wal \<Rightarrow> ('d, 'f) wal" where
  "set_current f w = w\<lparr>gens := (gens w)\<lparr>generations := (generations (gens w))
     [length (generations (gens w)) - 1 := (last (generations (gens w)))\<lparr>gen_file := f\<rparr>]\<rparr>\<rparr>"

lemma on_current_run:
  "generations (gens w) \<noteq> [] \<Longrightarrow> m (current_file w) = (r, f) \<Longrightarrow>
   on_current m w = (oc_map_err File r, set_current f w)"
  by (simp add: on_current_def on_gen_def current_file_def set_current_def last_conv_nth Let_def)

definition gen_log :: "('f \<Rightarrow> (u64 \<times> item) list) \<Rightarrow> 'f wal_generation \<Rightarrow> log" where
  "gen_log es g = map (\<lambda>(off, it). (WalIndex (gen_num g) off, it)) (es (gen_file g))"

definition full_log :: "('f \<Rightarrow> (u64 \<times> item) list) \<Rightarrow> ('d, 'f) wal \<Rightarrow> log" where
  "full_log es w = concat (map (gen_log es) (generations (gens w)))"

definition wal_ok :: "('f \<Rightarrow> bool) \<Rightarrow> ('d, 'f) wal \<Rightarrow> bool" where
  "wal_ok fi w \<longleftrightarrow> queue_ok (gens w) \<and> (\<forall>g \<in> set (generations (gens w)). fi (gen_file g))"

lemma wal_ok_current: "wal_ok fi w \<Longrightarrow> fi (current_file w)"
  by (simp add: wal_ok_def queue_ok_def current_file_def)

lemma wal_ok_snoc: "wal_ok fi w \<Longrightarrow> \<exists>gs g. generations (gens w) = gs @ [g]"
  by (simp add: wal_ok_def queue_snoc)

lemma set_current_snoc:
  "generations (gens w) = gs @ [g] \<Longrightarrow>
   set_current f w = w\<lparr>gens := (gens w)\<lparr>generations := gs @ [g\<lparr>gen_file := f\<rparr>]\<rparr>\<rparr>"
  by (simp add: set_current_def)

lemma set_current_facts [simp]:
  "wstate (set_current f w) = wstate w" "folder (set_current f w) = folder w"
  "max_generation_size (set_current f w) = max_generation_size w" "spawned (set_current f w) = spawned w"
  "current_gen_num (gens (set_current f w)) = current_gen_num (gens w)"
  by (simp_all add: set_current_def)

lemma set_current_ok:
  assumes "wal_ok fi w" and "fi f"
  shows "wal_ok fi (set_current f w)" "current_file (set_current f w) = f"
    "map gen_num (generations (gens (set_current f w))) = map gen_num (generations (gens w))"
proof -
  obtain gs g where gs: "generations (gens w) = gs @ [g]"
    using wal_ok_snoc [OF assms(1)] by blast
  show "wal_ok fi (set_current f w)" "current_file (set_current f w) = f"
    "map gen_num (generations (gens (set_current f w))) = map gen_num (generations (gens w))"
    using assms by (auto simp: set_current_snoc [OF gs] gs wal_ok_def queue_ok_def current_file_def)
qed

lemma set_current_log:
  assumes "wal_ok fi w" and "es f = es (current_file w) @ xs"
  shows "full_log es (set_current f w)
    = full_log es w @ map (\<lambda>(off, it). (WalIndex (current_gen_num (gens w)) off, it)) xs"
proof -
  obtain gs g where gs: "generations (gens w) = gs @ [g]"
    using wal_ok_snoc [OF assms(1)] by blast
  show ?thesis
    using assms by (simp add: set_current_snoc [OF gs] gs full_log_def gen_log_def current_file_def
        wal_ok_def queue_ok_def)
qed

lemma wal_fields_simps [simp]:
  "full_log es (w\<lparr>wstate := s\<rparr>) = full_log es w" "full_log es (w\<lparr>spawned := n\<rparr>) = full_log es w"
  "full_log es (w\<lparr>folder := d\<rparr>) = full_log es w"
  "wal_ok fi (w\<lparr>wstate := s\<rparr>) = wal_ok fi w" "wal_ok fi (w\<lparr>spawned := n\<rparr>) = wal_ok fi w"
  "wal_ok fi (w\<lparr>folder := d\<rparr>) = wal_ok fi w"
  "current_file (w\<lparr>wstate := s\<rparr>) = current_file w" "current_file (w\<lparr>spawned := n\<rparr>) = current_file w"
  "current_file (w\<lparr>folder := d\<rparr>) = current_file w"
  by (simp_all add: full_log_def wal_ok_def current_file_def)

lemma with_current_run:
  "wal_ok fi w \<Longrightarrow> with_current k w = k (current_file w) w"
  by (simp add: with_current_def prog_simps wal_ok_def current_generation_ok current_file_def)


definition next_index :: "'f wal_file_api \<Rightarrow> ('d, 'f) wal \<Rightarrow> wal_index" where
  "next_index api w = WalIndex (current_gen_num (gens w)) (api_next_offset api (current_file w))"

definition log_size :: "'f wal_file_api \<Rightarrow> ('d, 'f) wal \<Rightarrow> nat" where
  "log_size api w = api_size api (current_file w)"

text \<open>What a call leaves alone.\<close>

definition same_shape :: "('d, 'f) wal \<Rightarrow> ('d, 'f) wal \<Rightarrow> bool" where
  "same_shape w w' \<longleftrightarrow> folder w' = folder w
     \<and> map gen_num (generations (gens w')) = map gen_num (generations (gens w))
     \<and> current_gen_num (gens w') = current_gen_num (gens w)
     \<and> max_generation_size w' = max_generation_size w"

lemma same_shape_refl [simp]: "same_shape w w"
  by (simp add: same_shape_def)

lemma same_shape_trans: "same_shape u v \<Longrightarrow> same_shape v w \<Longrightarrow> same_shape u w"
  by (simp add: same_shape_def)

lemma same_shape_set_current: "wal_ok fi w \<Longrightarrow> fi f \<Longrightarrow> same_shape w (set_current f w)"
  by (simp add: same_shape_def set_current_ok)

lemma same_shape_fields [simp]:
  "same_shape w (v\<lparr>wstate := s\<rparr>) = same_shape w v" "same_shape w (v\<lparr>spawned := n\<rparr>) = same_shape w v"
  "same_shape (v\<lparr>wstate := s\<rparr>) w = same_shape v w"
  by (simp_all add: same_shape_def)

section \<open>Appending to the log\<close>

context wal_log begin

lemma push_raw_ok:
  assumes ok: "wal_ok inv w" and it: "loggable it" and room: "log_size api w + item_len it < 2 ^ 63"
  shows "\<exists>w'. push_raw_item api it w = (Ok (next_index api w), w') \<and> wal_ok inv w'
    \<and> full_log entries w' = full_log entries w @ [(next_index api w, it)]
    \<and> wstate w' = handle_item (next_index api w) it (wstate w) \<and> same_shape w w'
    \<and> log_size api w' = log_size api w + item_len it"
proof -
  let ?i = "next_index api w"
  obtain f where f: "api_push_item api it (current_file w) = (Ok (api_next_offset api (current_file w)), f)"
      "inv f" "entries f = entries (current_file w) @ [(api_next_offset api (current_file w), it)]"
      "api_size api f = api_size api (current_file w) + item_len it"
    using push_ok [OF wal_ok_current [OF ok] it] room by (auto simp: log_size_def)
  define w1 where "w1 = w\<lparr>wstate := handle_item ?i it (wstate w)\<rparr>"
  have ok1: "wal_ok inv w1" and c1: "current_file w1 = current_file w" by (simp_all add: w1_def ok)
  have ne: "generations (gens w1) \<noteq> []" using ok1 by (simp add: wal_ok_def queue_ok_def)
  have oc: "on_current (api_push_item api it) w1 = (Ok (api_next_offset api (current_file w)), set_current f w1)"
    using on_current_run [OF ne, of "api_push_item api it"] f(1) c1 by simp
  define w2 where "w2 = set_current f w1"
  have w2: "wal_ok inv w2" "current_file w2 = f" "same_shape w1 w2"
    using set_current_ok [OF ok1 f(2)] same_shape_set_current [OF ok1 f(2)] by (simp_all add: w2_def)
  have l2: "full_log entries w2 = full_log entries w @ [(?i, it)]"
    using set_current_log [OF ok1, of entries f] f(3) c1 by (simp add: w2_def w1_def next_index_def)
  have sh: "same_shape w w2" and st: "wstate w2 = handle_item ?i it (wstate w)"
    using w2(3) by (simp_all add: w1_def w2_def)
  define w3 where "w3 = (if api_size api (gen_file (last (generations (gens w2)))) \<ge> max_generation_size w2
         then w2\<lparr>spawned := Suc (spawned w2)\<rparr> else w2)"
  have "push_raw_item api it w = (Ok ?i, w3)"
    using ok oc by (simp add: push_raw_item_def with_current_run prog_simps Let_def next_index_def [symmetric]
        w1_def [symmetric] bindp_Ok w2_def [symmetric] w3_def)
  moreover have "wal_ok inv w3" "full_log entries w3 = full_log entries w2" "wstate w3 = wstate w2"
      "same_shape w w3" "current_file w3 = f"
    using w2 sh by (simp_all add: w3_def)
  ultimately show ?thesis
    using l2 st f(4) by (simp add: log_size_def)
qed

lemma flush_impl_ok:
  assumes ok: "wal_ok inv w"
  shows "\<exists>w'. flush_impl api w = (Ok (), w') \<and> wal_ok inv w' \<and> full_log entries w' = full_log entries w
    \<and> wstate w' = wstate w \<and> same_shape w w' \<and> log_size api w' = log_size api w"
proof -
  obtain f where f: "api_flush api (current_file w) = (Ok (), f)" "inv f"
      "entries f = entries (current_file w)" "api_size api f = api_size api (current_file w)"
    using flush_ok [OF wal_ok_current [OF ok]] by blast
  have "on_current (api_flush api) w = (Ok (), set_current f w)"
    using on_current_run [of w "api_flush api"] f(1) ok by (simp add: wal_ok_def queue_ok_def)
  moreover have "current_generation (gens w) = (Ok (Some (current_file w)) :: (storage_error, 'f option) outcome)"
    using ok by (simp add: current_generation_ok wal_ok_def current_file_def)
  ultimately have "flush_impl api w = (Ok (), set_current f w)"
    by (simp add: flush_impl_def prog_simps)
  then show ?thesis
    using set_current_ok [OF ok f(2)] same_shape_set_current [OF ok f(2)]
      set_current_log [OF ok, of entries f "[]"] f by (simp add: log_size_def)
qed


lemma full_log_wf:
  assumes "wal_ok inv w" and "(i, it) \<in> set (full_log entries w)"
  shows "wf_wal_index i"
  using assms entries_below unfolding wal_ok_def full_log_def gen_log_def
  by (fastforce simp: wf_wal_index_def)

end

section \<open>Sessions of writes and commits\<close>

datatype log_op = OpWrite write_log | OpCommit u64

fun run_log_op :: "'f wal_file_api \<Rightarrow> log_op \<Rightarrow> ('d, 'f, unit) walp" where
  "run_log_op api (OpWrite l) = bindp (log_write api l) (\<lambda>_. ret ())"
| "run_log_op api (OpCommit t) = bindp (log_commit api t) (\<lambda>_. ret ())"

fun log_op_ok :: "log_op \<Rightarrow> bool" where
  "log_op_ok (OpWrite l) \<longleftrightarrow> wf_page_address (wl_page_address l)
     \<and> length (wl_from l) = length (wl_to l) \<and> 34 + 2 * length (wl_to l) < 2 ^ 16"
| "log_op_ok (OpCommit t) \<longleftrightarrow> True"

fun log_op_len :: "log_op \<Rightarrow> nat" where
  "log_op_len (OpWrite l) = 58 + 2 * length (wl_to l)"
| "log_op_len (OpCommit t) = 48"

text \<open>The item that an operation puts at the end of a log.\<close>

definition chain_data :: "u64 \<Rightarrow> log \<Rightarrow> transaction_data" where
  "chain_data t l = \<lparr>td_transaction_id = t,
     td_prev_item = (case open_writes t l of [] \<Rightarrow> None | i # _ \<Rightarrow> Some i)\<rparr>"

fun log_op_item :: "log_op \<Rightarrow> log \<Rightarrow> item" where
  "log_op_item (OpWrite w) l = Write \<lparr>wd_transaction_data = chain_data (wl_transaction_id w) l,
     wd_page_address = wl_page_address w, wd_offset = wl_offset w, wd_from = Some (wl_from w), wd_to = wl_to w\<rparr>"
| "log_op_item (OpCommit t) l = Commit (chain_data t l)"

text \<open>A log extended by operations: each item is the one its operation gives after the log so far.\<close>

fun log_ops_extend :: "log_op list \<Rightarrow> log \<Rightarrow> log \<Rightarrow> bool" where
  "log_ops_extend [] l l' \<longleftrightarrow> l' = l"
| "log_ops_extend (x # xs) l l' \<longleftrightarrow> (\<exists>i. log_ops_extend xs (l @ [(i, log_op_item x l)]) l')"

definition tables_ok :: "('f \<Rightarrow> (u64 \<times> item) list) \<Rightarrow> ('d, 'f) wal \<Rightarrow> bool" where
  "tables_ok es w \<longleftrightarrow> wstate w = replay_state (full_log es w) state_default"

lemma create_transaction_data_chain:
  "tables_ok es w \<Longrightarrow> create_transaction_data t w = chain_data t (full_log es w)"
  by (simp add: create_transaction_data_def chain_data_def tables_ok_def replay_transactions
      transaction_of_def split: list.split)

lemma open_writes_in_log: "i \<in> set (open_writes t l) \<Longrightarrow> \<exists>it. (i, it) \<in> set l"
  by (auto simp: open_writes_def dest!: set_takeWhileD)

context wal_log begin

lemma log_op_item_loggable:
  assumes "wal_ok inv w" and "log_op_ok x"
  shows "loggable (log_op_item x (full_log entries w))" "item_len (log_op_item x (full_log entries w)) = log_op_len x"
proof -
  have "wf_transaction_data (chain_data t (full_log entries w))" for t
    using full_log_wf [OF assms(1)] open_writes_in_log [of _ t "full_log entries w"]
    by (fastforce simp: wf_transaction_data_def chain_data_def split: list.split)
  then show "loggable (log_op_item x (full_log entries w))"
    using assms(2) by (cases x) (auto simp: loggable_def wf_item_def wf_write_data_def body_length_def)
  show "item_len (log_op_item x (full_log entries w)) = log_op_len x"
    using assms(2) by (cases x) (auto simp: item_len_def body_length_def block_sizes)
qed

lemma log_item_ok:
  assumes ok: "wal_ok inv w" and t: "tables_ok entries w" and x: "log_op_ok x"
    and room: "log_size api w + log_op_len x < 2 ^ 63"
  shows "\<exists>w'. push_raw_item api (log_op_item x (full_log entries w)) w = (Ok (next_index api w), w')
    \<and> wal_ok inv w' \<and> tables_ok entries w' \<and> same_shape w w'
    \<and> full_log entries w' = full_log entries w @ [(next_index api w, log_op_item x (full_log entries w))]
    \<and> log_size api w' = log_size api w + log_op_len x"
proof -
  let ?it = "log_op_item x (full_log entries w)"
  obtain w1 where w1: "push_raw_item api ?it w = (Ok (next_index api w), w1)" "wal_ok inv w1"
      "full_log entries w1 = full_log entries w @ [(next_index api w, ?it)]"
      "wstate w1 = handle_item (next_index api w) ?it (wstate w)" "same_shape w w1"
      "log_size api w1 = log_size api w + log_op_len x"
    using push_raw_ok [OF ok log_op_item_loggable(1) [OF ok x]] room log_op_item_loggable(2) [OF ok x] by auto
  have "tables_ok entries w1" using w1(3,4) t by (simp add: tables_ok_def replay_state_snoc)
  then show ?thesis using w1 by blast
qed

lemma log_write_ok:
  assumes "wal_ok inv w" and t: "tables_ok entries w" and "log_op_ok (OpWrite l)"
    and "log_size api w + log_op_len (OpWrite l) < 2 ^ 63"
  shows "\<exists>w'. log_write api l w = (Ok (next_index api w), w') \<and> wal_ok inv w' \<and> tables_ok entries w' \<and> same_shape w w'
    \<and> full_log entries w' = full_log entries w @ [(next_index api w, log_op_item (OpWrite l) (full_log entries w))]
    \<and> log_size api w' = log_size api w + log_op_len (OpWrite l)"
proof -
  have "log_write api l w = push_raw_item api (log_op_item (OpWrite l) (full_log entries w)) w"
    by (simp add: log_write_def create_write_data_def prog_simps create_transaction_data_chain [OF t])
  then show ?thesis using log_item_ok [OF assms] by simp
qed

lemma log_commit_ok:
  assumes ok: "wal_ok inv w" and t: "tables_ok entries w" and room: "log_size api w + log_op_len (OpCommit n) < 2 ^ 63"
  shows "\<exists>w'. log_commit api n w = (Ok (next_index api w), w') \<and> wal_ok inv w' \<and> tables_ok entries w' \<and> same_shape w w'
    \<and> full_log entries w' = full_log entries w @ [(next_index api w, log_op_item (OpCommit n) (full_log entries w))]
    \<and> log_size api w' = log_size api w + log_op_len (OpCommit n)"
proof -
  let ?it = "log_op_item (OpCommit n) (full_log entries w)"
  obtain w1 where w1: "push_raw_item api ?it w = (Ok (next_index api w), w1)" "wal_ok inv w1" "tables_ok entries w1"
      "same_shape w w1" "full_log entries w1 = full_log entries w @ [(next_index api w, ?it)]"
      "log_size api w1 = log_size api w + log_op_len (OpCommit n)"
    using log_item_ok [OF ok t _ room] by auto
  obtain w2 where w2: "flush_impl api w1 = (Ok (), w2)" "wal_ok inv w2" "full_log entries w2 = full_log entries w1"
      "wstate w2 = wstate w1" "same_shape w1 w2" "log_size api w2 = log_size api w1"
    using flush_impl_ok [OF w1(2)] by blast
  have "tables_ok entries w2" using w1(3) w2 by (simp add: tables_ok_def)
  moreover have "log_commit api n w = (Ok (next_index api w), w2)"
    using w1(1) w2(1) by (simp add: log_commit_def prog_simps create_transaction_data_chain [OF t] bindp_Ok)
  ultimately show ?thesis using w1 w2 same_shape_trans [OF w1(4) w2(5)] by auto
qed

lemma run_log_op_ok:
  assumes ok: "wal_ok inv w" and t: "tables_ok entries w" and x: "log_op_ok x"
    and room: "log_size api w + log_op_len x < 2 ^ 63"
  shows "\<exists>w'. run_log_op api x w = (Ok (), w') \<and> wal_ok inv w' \<and> tables_ok entries w' \<and> same_shape w w'
    \<and> full_log entries w' = full_log entries w @ [(next_index api w, log_op_item x (full_log entries w))]
    \<and> log_size api w' = log_size api w + log_op_len x"
proof (cases x)
  case (OpWrite l)
  then obtain w' where "log_write api l w = (Ok (next_index api w), w')" "wal_ok inv w' \<and> tables_ok entries w'
      \<and> same_shape w w' \<and> full_log entries w' = full_log entries w @ [(next_index api w, log_op_item x (full_log entries w))]
      \<and> log_size api w' = log_size api w + log_op_len x"
    using log_write_ok [OF ok t, of l] x room by auto
  then show ?thesis using OpWrite by (simp add: bindp_Ok prog_simps)
next
  case (OpCommit n)
  then obtain w' where "log_commit api n w = (Ok (next_index api w), w')" "wal_ok inv w' \<and> tables_ok entries w'
      \<and> same_shape w w' \<and> full_log entries w' = full_log entries w @ [(next_index api w, log_op_item x (full_log entries w))]
      \<and> log_size api w' = log_size api w + log_op_len x"
    using log_commit_ok [OF ok t, of n] room by auto
  then show ?thesis using OpCommit by (simp add: bindp_Ok prog_simps)
qed

lemma run_log_ops_ok:
  assumes "wal_ok inv w" and "tables_ok entries w" and "list_all log_op_ok xs"
    and "log_size api w + sum_list (map log_op_len xs) < 2 ^ 63"
  shows "\<exists>w'. for_each (run_log_op api) xs w = (Ok (), w') \<and> wal_ok inv w' \<and> tables_ok entries w'
    \<and> same_shape w w' \<and> log_ops_extend xs (full_log entries w) (full_log entries w')
    \<and> log_size api w' = log_size api w + sum_list (map log_op_len xs)"
  using assms
proof (induction xs arbitrary: w)
  case Nil
  then show ?case by (simp add: prog_simps)
next
  case (Cons x xs)
  obtain w1 where w1: "run_log_op api x w = (Ok (), w1)" "wal_ok inv w1" "tables_ok entries w1" "same_shape w w1"
      "full_log entries w1 = full_log entries w @ [(next_index api w, log_op_item x (full_log entries w))]"
      "log_size api w1 = log_size api w + log_op_len x"
    using run_log_op_ok [of w x] Cons.prems by auto
  obtain w2 where w2: "for_each (run_log_op api) xs w1 = (Ok (), w2)" "wal_ok inv w2" "tables_ok entries w2"
      "same_shape w1 w2" "log_ops_extend xs (full_log entries w1) (full_log entries w2)"
      "log_size api w2 = log_size api w1 + sum_list (map log_op_len xs)"
    using Cons.IH [OF w1(2,3)] Cons.prems w1(6) by auto
  show ?case
    using w1 w2 same_shape_trans [OF w1(4) w2(4)] by (auto simp: bindp_Ok)
qed

end

section \<open>Undo\<close>

definition undo_pick :: "u64 list \<Rightarrow> item \<Rightarrow> undo_log option" where
  "undo_pick tids it = (case it of
     Write d \<Rightarrow> if td_transaction_id (wd_transaction_data d) \<in> set tids then create_undo_log d else None
   | _ \<Rightarrow> None)"

text \<open>What the loops of \<open>undo_all\<close> collect from a log, newest first.\<close>

definition undo_list :: "wal_index \<Rightarrow> u64 list \<Rightarrow> log \<Rightarrow> undo_log list" where
  "undo_list lowest tids l =
     List.map_filter (undo_pick tids \<circ> snd) (takeWhile (\<lambda>(i, _). \<not> i < lowest) (rev l))"

lemma map_filter_Cons: "List.map_filter f (x # xs) =
  (case f x of None \<Rightarrow> List.map_filter f xs | Some y \<Rightarrow> y # List.map_filter f xs)"
  by (simp add: List.map_filter_def split: option.split)

lemma set_map_filter_iff: "y \<in> set (List.map_filter f xs) \<longleftrightarrow> (\<exists>x \<in> set xs. f x = Some y)"
  by (induction xs) (auto simp: map_filter_Cons List.map_filter_def split: option.splits)

lemma undo_scan_list:
  "undo_scan lowest tids g xs = (us, b) \<Longrightarrow>
   us = List.map_filter (undo_pick tids \<circ> snd)
      (takeWhile (\<lambda>(i, _). \<not> i < lowest) (map (\<lambda>(off, it). (WalIndex g off, it)) xs))
   \<and> b = (\<exists>x \<in> set xs. WalIndex g (fst x) < lowest)"
proof (induction xs arbitrary: us b)
  case Nil
  then show ?case by simp
next
  case (Cons x xs)
  obtain off it where x: "x = (off, it)" by force
  obtain vs c where r: "undo_scan lowest tids g xs = (vs, c)" by force
  show ?case
    using Cons.prems Cons.IH [OF r] r
    by (auto simp: x map_filter_Cons undo_pick_def split: if_splits item.splits option.splits)
qed

lemma takeWhile_append_none: "(\<exists>x \<in> set xs. \<not> P x) \<Longrightarrow> takeWhile P (xs @ ys) = takeWhile P xs"
  by auto

lemma undo_list_append:
  "undo_list lowest tids (l @ k) = undo_list lowest tids k
     @ (if \<exists>x \<in> set k. fst x < lowest then [] else undo_list lowest tids l)"
proof (cases "\<exists>x \<in> set k. fst x < lowest")
  case True
  then have "\<exists>x \<in> set (rev k). \<not> (case x of (i, _) \<Rightarrow> \<not> i < lowest)" by auto
  from takeWhile_append_none [OF this] show ?thesis using True by (simp add: undo_list_def)
next
  case False
  then have a: "takeWhile (\<lambda>(i, _). \<not> i < lowest) (rev k) = rev k"
    unfolding takeWhile_eq_all_conv by auto
  have b: "takeWhile (\<lambda>(i, _). \<not> i < lowest) (rev k @ rev l)
      = rev k @ takeWhile (\<lambda>(i, _). \<not> i < lowest) (rev l)"
    using False by (intro takeWhile_append2) auto
  have "undo_list lowest tids (l @ k) = undo_list lowest tids k @ undo_list lowest tids l"
    unfolding undo_list_def rev_append b a by (simp add: List.map_filter_def)
  then show ?thesis using False by simp
qed

definition set_gen :: "nat \<Rightarrow> 'f \<Rightarrow> ('d, 'f) wal \<Rightarrow> ('d, 'f) wal" where
  "set_gen i f w = w\<lparr>gens := (gens w)\<lparr>generations :=
     (generations (gens w))[i := (generations (gens w) ! i)\<lparr>gen_file := f\<rparr>]\<rparr>\<rparr>"

lemma on_gen_run:
  "m (gen_file (generations (gens w) ! i)) = (r, f) \<Longrightarrow> on_gen i m w = (oc_map_err File r, set_gen i f w)"
  by (simp add: on_gen_def set_gen_def Let_def)

lemma set_gen_facts:
  assumes i: "i < length (generations (gens w))" and f: "es f = es (gen_file (generations (gens w) ! i))"
    and ok: "wal_ok fi w" and fi: "fi f"
  shows "map (gen_log es) (generations (gens (set_gen i f w))) = map (gen_log es) (generations (gens w))"
    and "full_log es (set_gen i f w) = full_log es w" and "wal_ok fi (set_gen i f w)"
    and "same_shape w (set_gen i f w)" and "wstate (set_gen i f w) = wstate w"
proof -
  let ?gs = "generations (gens w)"
  have n: "map gen_num (?gs[i := (?gs ! i)\<lparr>gen_file := f\<rparr>]) = map gen_num ?gs"
    using i by (simp add: map_update) (metis list_update_id nth_map)
  have "gen_log es ((?gs ! i)\<lparr>gen_file := f\<rparr>) = gen_log es (?gs ! i)"
    using f by (simp add: gen_log_def)
  then show l: "map (gen_log es) (generations (gens (set_gen i f w))) = map (gen_log es) (generations (gens w))"
    using i by (simp add: set_gen_def map_update) (metis list_update_id nth_map)
  then show "full_log es (set_gen i f w) = full_log es w" by (simp add: full_log_def)
  show "same_shape w (set_gen i f w)" using n by (simp add: same_shape_def set_gen_def)
  show "wstate (set_gen i f w) = wstate w" by (simp add: set_gen_def)
  have "?gs \<noteq> []" using i by auto
  then have "gen_num (last (?gs[i := (?gs ! i)\<lparr>gen_file := f\<rparr>])) = gen_num (last ?gs)"
    using arg_cong [OF n, of last] by (simp add: last_map)
  then show "wal_ok fi (set_gen i f w)"
    using ok n fi i set_update_subset_insert [of ?gs i "(?gs ! i)\<lparr>gen_file := f\<rparr>"]
    by (auto simp: wal_ok_def queue_ok_def set_gen_def)
qed

context wal_log begin

lemma undo_collect_ok:
  assumes "wal_ok inv w" and "n \<le> length (generations (gens w))"
  shows "\<exists>w'. undo_collect api lowest tids (rev [0..<n]) w
      = (Ok (undo_list lowest tids (concat (map (gen_log entries) (take n (generations (gens w)))))), w')
    \<and> wal_ok inv w' \<and> same_shape w w' \<and> wstate w' = wstate w
    \<and> full_log entries w' = full_log entries w \<and> log_size api w' = log_size api w"
  using assms
proof (induction n arbitrary: w)
  case 0
  then show ?case by (simp add: prog_simps undo_list_def map_filter_def)
next
  case (Suc n)
  let ?g = "generations (gens w) ! n"
  have n: "n < length (generations (gens w))" using Suc.prems by simp
  then have gi: "inv (gen_file ?g)" using Suc.prems by (simp add: wal_ok_def)
  obtain f where f: "api_iter_items_reverse api (gen_file ?g) = (Ok (rev (entries (gen_file ?g)), Ok ()), f)"
      "inv f" "entries f = entries (gen_file ?g)" "api_size api f = api_size api (gen_file ?g)"
    using iter_rev_ok [OF gi] by blast
  define w1 where "w1 = set_gen n f w"
  have og: "on_gen n (api_iter_items_reverse api) w = (Ok (rev (entries (gen_file ?g)), Ok ()), w1)"
    using on_gen_run [where m = "api_iter_items_reverse api" and w = w and i = n] f(1)
    by (simp add: w1_def)
  note sf = set_gen_facts [OF n f(3) Suc.prems(1) f(2), folded w1_def]
  have ls: "log_size api w1 = log_size api w"
    using f(4) n by (cases "generations (gens w) = []")
      (auto simp: w1_def set_gen_def log_size_def current_file_def last_conv_nth nth_list_update)
  have len: "length (generations (gens w1)) = length (generations (gens w))"
    by (simp add: w1_def set_gen_def)
  obtain us b where us: "undo_scan lowest tids (gen_num ?g) (rev (entries (gen_file ?g))) = (us, b)" by force
  have us': "us = undo_list lowest tids (gen_log entries ?g)"
      "b = (\<exists>x \<in> set (gen_log entries ?g). fst x < lowest)"
    using undo_scan_list [OF us] by (simp_all add: undo_list_def gen_log_def rev_map case_prod_unfold)
  have tk: "concat (map (gen_log entries) (take (Suc n) (generations (gens w))))
      = concat (map (gen_log entries) (take n (generations (gens w)))) @ gen_log entries ?g"
    using n by (simp add: take_Suc_conv_app_nth)
  have tk1: "map (gen_log entries) (take n (generations (gens w1))) = map (gen_log entries) (take n (generations (gens w)))"
    by (metis sf(1) take_map)
  show ?case
  proof (cases b)
    case True
    then show ?thesis
      using og us us' sf ls by (simp add: prog_simps tk undo_list_append)
  next
    case False
    obtain w2 where w2: "undo_collect api lowest tids (rev [0..<n]) w1
        = (Ok (undo_list lowest tids (concat (map (gen_log entries) (take n (generations (gens w)))))), w2)"
        "wal_ok inv w2" "same_shape w1 w2" "wstate w2 = wstate w1" "full_log entries w2 = full_log entries w1"
        "log_size api w2 = log_size api w1"
      using Suc.IH [OF sf(3)] n len tk1 by auto
    then show ?thesis
      using og us us' sf ls False same_shape_trans [OF sf(4) w2(3)]
      by (simp add: prog_simps tk undo_list_append bindp_Ok)
  qed
qed


lemma full_log_sorted:
  assumes "wal_ok inv w"
  shows "sorted_wrt (<) (map fst (full_log entries w))"
proof -
  have "sorted_wrt (<) (map fst (concat (map (gen_log entries) gs)))"
    if "sorted_wrt (<) (map gen_num gs)" "\<forall>g \<in> set gs. inv (gen_file g)" for gs
    using that
  proof (induction gs)
    case Nil
    show ?case by simp
  next
    case (Cons g gs)
    have "sorted_wrt (<) (map fst (gen_log entries g))"
      using entries_sorted [of "gen_file g"] Cons.prems(2)
      by (simp add: gen_log_def sorted_wrt_map case_prod_unfold)
    moreover have "i < j" if "i \<in> fst ` set (gen_log entries g)"
      "j \<in> fst ` set (concat (map (gen_log entries) gs))" for i j
      using that Cons.prems(1) by (auto simp: gen_log_def)
    ultimately show ?case
      using Cons by (auto simp: sorted_wrt_append)
  qed
  then show ?thesis using assms by (simp add: full_log_def wal_ok_def queue_ok_def)
qed

lemma full_log_loggable: "wal_ok inv w \<Longrightarrow> (i, it) \<in> set (full_log entries w) \<Longrightarrow> loggable it"
  using entries_loggable unfolding wal_ok_def full_log_def gen_log_def by fastforce

end

text \<open>The log grew by \<open>l\<close>, and the tables with it.\<close>

definition log_grew :: "('f \<Rightarrow> (u64 \<times> item) list) \<Rightarrow> log \<Rightarrow> ('d, 'f) wal \<Rightarrow> ('d, 'f) wal \<Rightarrow> bool" where
  "log_grew es l w w' \<longleftrightarrow> full_log es w' = full_log es w @ l
     \<and> wstate w' = replay_state l (wstate w) \<and> same_shape w w'"

lemma log_grew_trans: "log_grew es l u v \<Longrightarrow> log_grew es k v w \<Longrightarrow> log_grew es (l @ k) u w"
  by (auto simp: log_grew_def replay_state_def intro: same_shape_trans)

lemma log_grew_refl: "log_grew es [] w w"
  by (simp add: log_grew_def replay_state_def)

definition tables_wf :: "wal_state \<Rightarrow> bool" where
  "tables_wf s \<longleftrightarrow> (\<forall>t ts. map_of (transactions s) t = Some ts \<longrightarrow> wf_wal_index (last_index ts))"

lemma tables_wf_handle: "tables_wf s \<Longrightarrow> wf_wal_index i \<Longrightarrow> tables_wf (handle_item i it s)"
  by (auto simp: tables_wf_def handle_item_transactions split: if_splits option.splits)

lemma create_transaction_data_wf: "tables_wf (wstate w) \<Longrightarrow> wf_transaction_data (create_transaction_data t w)"
  by (auto simp: tables_wf_def wf_transaction_data_def create_transaction_data_def split: option.splits)

text \<open>The item logged for an undo, and the operation handed to the callback.\<close>

definition compensates :: "undo_log \<Rightarrow> item \<Rightarrow> bool" where
  "compensates u it \<longleftrightarrow> (\<exists>p. it = Write \<lparr>wd_transaction_data = \<lparr>td_transaction_id = ul_transaction_id u, td_prev_item = p\<rparr>,
     wd_page_address = ul_page_address u, wd_offset = ul_offset u, wd_from = None, wd_to = ul_to u\<rparr>)"

definition undo_op :: "wal_index \<Rightarrow> undo_log \<Rightarrow> partial_write_op" where
  "undo_op i u = \<lparr>pw_index = i, pw_page_address = ul_page_address u, pw_offset = ul_offset u, pw_buf = ul_to u\<rparr>"

text \<open>A callback that does not fail on given operations, whatever positions they get.\<close>

primrec undoes :: "(partial_write_op \<Rightarrow> ('h, storage_error, unit) prog) \<Rightarrow> (partial_write_op \<Rightarrow> 'h \<Rightarrow> 'h) \<Rightarrow> undo_log list \<Rightarrow> 'h \<Rightarrow> bool" where
  "undoes handle upd [] h \<longleftrightarrow> True"
| "undoes handle upd (u # us) h \<longleftrightarrow> (\<forall>i. wf_wal_index i \<longrightarrow>
     handle (undo_op i u) h = (Ok (), upd (undo_op i u) h) \<and> undoes handle upd us (upd (undo_op i u) h))"

lemma undoes_total: "(\<And>op h. handle op h = (Ok (), upd op h)) \<Longrightarrow> undoes handle upd us h"
  by (induction us arbitrary: h) simp_all

definition undo_log_ok :: "undo_log \<Rightarrow> bool" where
  "undo_log_ok u \<longleftrightarrow> wf_page_address (ul_page_address u) \<and> 34 + length (ul_to u) < 2 ^ 16"

context wal_log begin

lemma next_index_wf: "wal_ok inv w \<Longrightarrow> wf_wal_index (next_index api w)"
  using next_offset_nonzero wal_ok_current by (auto simp: next_index_def wf_wal_index_def)

lemma push_raw_grew:
  assumes ok: "wal_ok inv w" and it: "loggable it" and room: "log_size api w + item_len it < 2 ^ 63"
    and t: "tables_wf (wstate w)"
  shows "\<exists>w'. push_raw_item api it w = (Ok (next_index api w), w') \<and> wal_ok inv w' \<and> tables_wf (wstate w')
    \<and> log_grew entries [(next_index api w, it)] w w' \<and> log_size api w' = log_size api w + item_len it"
  using push_raw_ok [OF ok it room] tables_wf_handle [OF t next_index_wf [OF ok]]
  by (force simp: log_grew_def replay_state_def)

lemma apply_undos_ok:
  assumes "undoes handle upd us h" and "wal_ok inv w" and "tables_wf (wstate w)" and "list_all undo_log_ok us"
    and "log_size api w + sum_list (map (\<lambda>u. 58 + length (ul_to u)) us) < 2 ^ 63"
  shows "\<exists>w' is its. for_each (\<lambda>u. bindp (apply_undo_log api handle u) (\<lambda>_. ret ())) us (w, h)
      = (Ok (), (w', fold upd (map2 undo_op is us) h))
    \<and> wal_ok inv w' \<and> tables_wf (wstate w') \<and> length is = length us \<and> list_all wf_wal_index is \<and> list_all2 compensates us its
    \<and> log_grew entries (zip is its) w w'
    \<and> log_size api w' = log_size api w + sum_list (map (\<lambda>u. 58 + length (ul_to u)) us)"
  using assms
proof (induction us arbitrary: w h)
  case Nil
  then show ?case by (auto simp: prog_simps log_grew_refl intro!: exI [of _ w])
next
  case (Cons u us)
  let ?it = "Write (create_undo_write_data u w)"
  have it: "loggable ?it" "item_len ?it = 58 + length (ul_to u)"
    using Cons.prems create_transaction_data_wf [OF Cons.prems(3), of "ul_transaction_id u"]
    by (auto simp: loggable_def wf_item_def wf_write_data_def create_undo_write_data_def body_length_def
        undo_log_ok_def item_len_def block_sizes)
  obtain w1 where w1: "push_raw_item api ?it w = (Ok (next_index api w), w1)" "wal_ok inv w1" "tables_wf (wstate w1)"
      "log_grew entries [(next_index api w, ?it)] w w1" "log_size api w1 = log_size api w + 58 + length (ul_to u)"
    using push_raw_grew [OF Cons.prems(2) it(1) _ Cons.prems(3)] Cons.prems(5) it(2) by auto
  have wf: "wf_wal_index (next_index api w)" by (rule next_index_wf [OF Cons.prems(2)])
  then have h: "handle (undo_op (next_index api w) u) h = (Ok (), upd (undo_op (next_index api w) u) h)"
      "undoes handle upd us (upd (undo_op (next_index api w) u) h)"
    using Cons.prems(1) by simp_all
  have a: "apply_undo_log api handle u (w, h)
      = (Ok (next_index api w), (w1, upd (undo_op (next_index api w) u) h))"
    using w1(1) h(1) by (simp add: apply_undo_log_def log_undo_def prog_simps bindp_Ok undo_op_def)
  obtain w2 "is" its where w2: "for_each (\<lambda>u. bindp (apply_undo_log api handle u) (\<lambda>_. ret ())) us
        (w1, upd (undo_op (next_index api w) u) h)
      = (Ok (), (w2, fold upd (map2 undo_op is us) (upd (undo_op (next_index api w) u) h)))"
      "wal_ok inv w2" "tables_wf (wstate w2)" "length is = length us" "list_all wf_wal_index is" "list_all2 compensates us its"
      "log_grew entries (zip is its) w1 w2"
      "log_size api w2 = log_size api w1 + sum_list (map (\<lambda>u. 58 + length (ul_to u)) us)"
    using Cons.IH [OF h(2) w1(2,3)] Cons.prems(4,5) w1(5) by fastforce
  have "compensates u ?it"
    by (simp add: compensates_def create_undo_write_data_def create_transaction_data_def)
  moreover have "log_grew entries (zip (next_index api w # is) (?it # its)) w w2"
    using log_grew_trans [OF w1(4) w2(7)] by simp
  moreover have "for_each (\<lambda>u. bindp (apply_undo_log api handle u) (\<lambda>_. ret ())) (u # us) (w, h)
      = (Ok (), (w2, fold upd (map2 undo_op (next_index api w # is) (u # us)) h))"
    using a w2(1) by (simp add: bindp_Ok prog_simps)
  ultimately show ?case
    using w2 w1(5) wf by (intro exI [of _ w2] exI [of _ "next_index api w # is"] exI [of _ "?it # its"]) auto
qed

lemma finish_undos_ok:
  assumes "wal_ok inv w" and "tables_wf (wstate w)" and "log_size api w + 48 * length tids < 2 ^ 63"
  shows "\<exists>w' ks. for_each (finish_undo api) tids w = (Ok (), w')
    \<and> wal_ok inv w' \<and> tables_wf (wstate w') \<and> log_grew entries ks w w'
    \<and> map (item_tid \<circ> snd) ks = map Some tids \<and> list_all (\<lambda>(i, it). \<not> is_write it) ks"
  using assms
proof (induction tids arbitrary: w)
  case Nil
  then show ?case by (auto simp: prog_simps log_grew_refl intro!: exI [of _ w])
next
  case (Cons t tids)
  let ?it = "Commit (create_transaction_data t w)"
  have it: "loggable ?it" "item_len ?it = 48"
    using create_transaction_data_wf [OF Cons.prems(2), of t]
    by (auto simp: loggable_def wf_item_def body_length_def item_len_def block_sizes)
  obtain w1 where w1: "push_raw_item api ?it w = (Ok (next_index api w), w1)" "wal_ok inv w1" "tables_wf (wstate w1)"
      "log_grew entries [(next_index api w, ?it)] w w1" "log_size api w1 = log_size api w + 48"
    using push_raw_grew [OF Cons.prems(1) it(1) _ Cons.prems(2)] Cons.prems(3) it(2) by auto
  have "complete_transaction t (wstate w1) = wstate w1"
    using w1(4) by (simp add: log_grew_def replay_state_def handle_item_def complete_transaction_def
        create_transaction_data_def delete_idem)
  then have f: "finish_undo api t w = (Ok (), w1)"
    using w1(1) by (simp add: finish_undo_def prog_simps bindp_Ok)
  have "log_size api w1 + 48 * length tids < 2 ^ 63" using Cons.prems(3) w1(5) by simp
  from Cons.IH [OF w1(2,3) this]
  obtain w2 ks where w2: "for_each (finish_undo api) tids w1 = (Ok (), w2)"
    "wal_ok inv w2" "tables_wf (wstate w2)" "log_grew entries ks w1 w2"
    "map (item_tid \<circ> snd) ks = map Some tids" "list_all (\<lambda>(i, it). \<not> is_write it) ks"
    by blast
  show ?case
    using f w2 log_grew_trans [OF w1(4) w2(4)]
    by (intro exI [of _ w2] exI [of _ "(next_index api w, ?it) # ks"])
      (simp add: bindp_Ok create_transaction_data_def comp_def)
qed

lemma undo_list_ok:
  assumes "wal_ok inv w"
  shows "list_all undo_log_ok (undo_list lowest tids (full_log entries w))"
proof -
  have "undo_log_ok u" if "undo_pick tids it = Some u" "loggable it" for it u
    using that by (auto simp: undo_pick_def create_undo_log_def undo_log_ok_def loggable_def wf_item_def
        wf_write_data_def body_length_def split: item.splits if_splits)
  then show ?thesis
    using full_log_loggable [OF assms]
    by (fastforce simp: undo_list_def list_all_iff List.map_filter_def dest!: set_takeWhileD)
qed

text \<open>The whole of \<open>undo_all\<close>, for a callback that does not fail.\<close>

lemma undo_all_ok:
  assumes h: "undoes handle upd us h"
    and ok: "wal_ok inv w" and t: "tables_wf (wstate w)"
    and li: "last_indices tids (wstate w) = i # is"
    and us: "us = undo_list (fold min is i) tids (full_log entries w)"
    and room: "log_size api w + sum_list (map (\<lambda>u. 58 + length (ul_to u)) us) + 48 * length tids < 2 ^ 63"
  shows "\<exists>w' ns its ks. undo_all api handle tids (w, h) = (Ok (), (w', fold upd (map2 undo_op ns us) h))
    \<and> wal_ok inv w' \<and> length ns = length us \<and> list_all wf_wal_index ns \<and> list_all2 compensates us its
    \<and> log_grew entries (zip ns its @ ks) w w' \<and> map (item_tid \<circ> snd) ks = map Some tids
    \<and> list_all (\<lambda>(i, it). \<not> is_write it) ks"
proof -
  obtain w1 where w1: "undo_collect api (fold min is i) tids (rev [0..<length (generations (gens w))]) w = (Ok us, w1)"
      "wal_ok inv w1" "same_shape w w1" "wstate w1 = wstate w" "full_log entries w1 = full_log entries w"
      "log_size api w1 = log_size api w"
    using undo_collect_ok [OF ok, of "length (generations (gens w))" "fold min is i" tids] us
    by (auto simp: full_log_def)
  have ul: "list_all undo_log_ok us" using undo_list_ok [OF ok] us by simp
  obtain w2 ns its where w2: "for_each (\<lambda>u. bindp (apply_undo_log api handle u) (\<lambda>_. ret ())) us (w1, h)
      = (Ok (), (w2, fold upd (map2 undo_op ns us) h))"
      "wal_ok inv w2" "tables_wf (wstate w2)" "length ns = length us" "list_all wf_wal_index ns" "list_all2 compensates us its"
      "log_grew entries (zip ns its) w1 w2"
      "log_size api w2 = log_size api w1 + sum_list (map (\<lambda>u. 58 + length (ul_to u)) us)"
    using apply_undos_ok [where handle = handle and upd = upd and w = w1 and us = us, OF h w1(2) _ ul]
      w1(4,6) t room by fastforce
  have "log_size api w2 + 48 * length tids < 2 ^ 63" using w2(8) w1(6) room by simp
  from finish_undos_ok [OF w2(2,3) this]
  obtain w3 ks where w3: "for_each (finish_undo api) tids w2 = (Ok (), w3)"
      "wal_ok inv w3" "tables_wf (wstate w3)" "log_grew entries ks w2 w3"
      "map (item_tid \<circ> snd) ks = map Some tids" "list_all (\<lambda>(i, it). \<not> is_write it) ks"
    by blast
  have g: "log_grew entries (zip ns its @ ks) w w3"
    using log_grew_trans [OF w2(7) w3(4)] w1 by (auto simp: log_grew_def intro: same_shape_trans)
  have "undo_all api handle tids (w, h) = (Ok (), (w3, fold upd (map2 undo_op ns us) h))"
    using li w1(1) w2(1) w3(1) by (simp add: undo_all_def prog_simps bindp_Ok)
  then show ?thesis using w2(4-6) w3 g by blast
qed

end

section \<open>Creation and check-points\<close>

definition checkpoint_item :: "wal_state \<Rightarrow> item" where
  "checkpoint_item s = Checkpoint \<lparr>cd_transactions = transactions s, cd_dirty_pages = dirty_pages s\<rparr>"

lemma handle_checkpoint_item [simp]: "handle_item i (checkpoint_item s) t = t"
  by (simp add: handle_item_def checkpoint_item_def)

lemma loggable_checkpoint_default: "loggable (checkpoint_item state_default)"
  by (simp add: checkpoint_item_def loggable_def wf_item_def wf_checkpoint_data_def body_length_def)

lemma item_len_checkpoint:
  "item_len (checkpoint_item s) = 40 + 22 * length (dirty_pages s) + 32 * length (transactions s)"
  by (simp add: checkpoint_item_def item_len_def body_length_def block_sizes)

lemma replay_checkpoint [simp]: "replay_state [(i, checkpoint_item s)] t = t"
  by (simp add: replay_state_def)

lemma word_nat_cast_inverse: "word_of_nat (unat w) = (w :: u64)"
  by simp

lemma log_start_less: "log_start < 2 ^ 16"
  by (simp add: log_start_def GENERIC_HEADER_SIZE_def)

context wal_log begin

lemma log_checkpoint_ok:
  assumes ok: "wal_ok inv w" and it: "loggable (checkpoint_item (wstate w))"
    and room: "log_size api w + item_len (checkpoint_item (wstate w)) < 2 ^ 63"
  shows "\<exists>w'. log_checkpoint api w = (Ok (), w') \<and> wal_ok inv w'
    \<and> log_grew entries [(next_index api w, checkpoint_item (wstate w))] w w'
    \<and> log_size api w' = log_size api w + item_len (checkpoint_item (wstate w)) \<and> wstate w' = wstate w
    \<and> entries (current_file w') = entries (current_file w) @ [(offset (next_index api w), checkpoint_item (wstate w))]"
proof -
  let ?it = "checkpoint_item (wstate w)"
  obtain f where f: "api_push_item api ?it (current_file w) = (Ok (api_next_offset api (current_file w)), f)"
      "inv f" "entries f = entries (current_file w) @ [(api_next_offset api (current_file w), ?it)]"
      "api_size api f = api_size api (current_file w) + item_len ?it"
    using push_ok [OF wal_ok_current [OF ok] it] room by (auto simp: log_size_def)
  have "generations (gens w) \<noteq> []" using ok by (simp add: wal_ok_def queue_ok_def)
  from on_current_run [OF this, of "api_push_item api ?it"] f(1)
  have "on_current (api_push_item api ?it) w = (Ok (api_next_offset api (current_file w)), set_current f w)"
    by simp
  then have "log_checkpoint api w = (Ok (), set_current f w)"
    using ok by (simp add: log_checkpoint_def with_current_run prog_simps bindp_Ok checkpoint_item_def)
  moreover have "log_grew entries [(next_index api w, ?it)] w (set_current f w)"
    using set_current_log [OF ok, of entries f] f(3) same_shape_set_current [OF ok f(2)]
    by (simp add: log_grew_def next_index_def)
  ultimately show ?thesis
    using set_current_ok [OF ok f(2)] f(3,4) by (simp add: log_size_def next_index_def)
qed

end

lemma single_generation:
  "fi f \<Longrightarrow> wal_ok fi (wal_new d (push_generation g f queue_new) s n)"
  "full_log es (wal_new d (push_generation g f queue_new) s n) = map (\<lambda>(off, it). (WalIndex g off, it)) (es f)"
  "current_file (wal_new d (push_generation g f queue_new) s n) = f"
  by (simp_all add: wal_ok_def queue_ok_def wal_new_def push_generation_def queue_new_def full_log_def
      gen_log_def current_file_def)

context wal_folder begin

lemma wal_create_ok:
  assumes "finv d"
  shows "\<exists>w d'. wal_create api fapi n d = (Ok w, d') \<and> folder w = d' \<and> finv d' \<and> gen_files d' = {0}
    \<and> wal_ok inv w \<and> wstate w = state_default \<and> tables_ok entries w
    \<and> full_log entries w = [(WalIndex 0 (word_of_nat log_start), checkpoint_item state_default)]
    \<and> log_size api w = log_start + 40 \<and> max_generation_size w = n
    \<and> map gen_num (generations (gens w)) = [0] \<and> current_gen_num (gens w) = 0"
proof -
  obtain d1 where d1: "fa_clear_wal_files fapi d = (Ok (), d1)" "finv d1" "gen_files d1 = {}"
    using clear_ok [OF assms] by blast
  obtain f d2 where f: "fa_open_wal_file fapi 0 d1 = (Ok f, d2)" "finv d2" "gen_files d2 = {0}"
      "inv f" "entries f = []" "api_size api f = log_start"
    using open_fresh [OF d1(2), of 0] d1(3) by auto
  define w0 where "w0 = wal_new d2 (push_generation 0 f queue_new) state_default n"
  have w0: "wal_ok inv w0" "full_log entries w0 = []" "current_file w0 = f" "wstate w0 = state_default"
    "folder w0 = d2" "max_generation_size w0 = n" "current_gen_num (gens w0) = 0"
    "map gen_num (generations (gens w0)) = [0]"
    using single_generation(1) [of inv f] f
    by (simp_all add: w0_def single_generation) (simp_all add: wal_new_def push_generation_def queue_new_def)
  have "log_size api w0 + item_len (checkpoint_item (wstate w0)) < 2 ^ 63"
    using f(6) w0(3,4) log_start_less by (simp add: log_size_def item_len_checkpoint)
  then obtain w where w: "log_checkpoint api w0 = (Ok (), w)" "wal_ok inv w"
      "log_grew entries [(next_index api w0, checkpoint_item state_default)] w0 w"
      "log_size api w = log_start + 40" "wstate w = state_default"
    using log_checkpoint_ok [OF w0(1)] w0(3,4) f(6) loggable_checkpoint_default
    by (auto simp: log_size_def item_len_checkpoint)
  have "api_next_offset api f = word_of_nat log_start"
    using next_offset_size [OF f(4)] f(6) by (metis word_nat_cast_inverse)
  then have ni: "next_index api w0 = WalIndex 0 (word_of_nat log_start)"
    using w0(3,7) by (simp add: next_index_def)
  have "wal_create api fapi n d = (Ok w, d2)"
    using d1(1) f(1) w(1) by (simp add: wal_create_def prog_simps bindp_Ok w0_def)
  then show ?thesis
    using w w0 f(2,3) ni by (auto simp: log_grew_def tables_ok_def same_shape_def replay_state_def)
qed

end

definition folder_matches :: "('d \<Rightarrow> bool) \<Rightarrow> ('d \<Rightarrow> u64 set) \<Rightarrow> ('d, 'f) wal \<Rightarrow> bool" where
  "folder_matches fok gf w \<longleftrightarrow> fok (folder w) \<and> gf (folder w) = set (map gen_num (generations (gens w)))"

definition kept_log :: "wal_state \<Rightarrow> log \<Rightarrow> log" where
  "kept_log s l = filter (\<lambda>(i, it). first_needed_generation s \<le> generation i) l"

lemma cleanup_loop:
  assumes "generations (gens w) = dels @ rest"
    and "for_each (fa_delete_wal_file fapi) (map gen_num dels) (folder w) = (Ok (), d')"
  shows "for_each (\<lambda>g.
          bindp (modify (\<lambda>w. w\<lparr>gens := (gens w)\<lparr>generations := tl (generations (gens w))\<rparr>\<rparr>)) (\<lambda>_.
            on_folder (fa_delete_wal_file fapi g))) (map gen_num dels) w
    = (Ok (), w\<lparr>gens := (gens w)\<lparr>generations := rest\<rparr>, folder := d'\<rparr>)"
  using assms
proof (induction dels arbitrary: w)
  case Nil
  then have "w = w\<lparr>gens := (gens w)\<lparr>generations := rest\<rparr>, folder := d'\<rparr>" by (simp add: prog_simps)
  then show ?case by (simp add: prog_simps)
next
  case (Cons x dels)
  obtain d1 where d1: "fa_delete_wal_file fapi (gen_num x) (folder w) = (Ok (), d1)"
      "for_each (fa_delete_wal_file fapi) (map gen_num dels) d1 = (Ok (), d')"
    using Cons.prems(2) by (auto elim: bindp_OkD)
  let ?w1 = "w\<lparr>gens := (gens w)\<lparr>generations := dels @ rest\<rparr>, folder := d1\<rparr>"
  have "bindp (modify (\<lambda>w. w\<lparr>gens := (gens w)\<lparr>generations := tl (generations (gens w))\<rparr>\<rparr>)) (\<lambda>_.
            on_folder (fa_delete_wal_file fapi (gen_num x))) w = (Ok (), ?w1)"
    using d1(1) Cons.prems(1) by (simp add: prog_simps on_folder_def)
  then show ?case
    using Cons.IH [of ?w1] d1(2) by (simp add: bindp_Ok)
qed

lemma sorted_prefix_filter:
  "sorted_wrt (<) (map (f :: 'b \<Rightarrow> 'a::linorder) xs) \<Longrightarrow>
   dropWhile (\<lambda>x. f x < n) xs = filter (\<lambda>x. n \<le> f x) xs"
proof (induction xs)
  case (Cons a xs)
  then have "filter (\<lambda>x. n \<le> f x) xs = xs" if "n \<le> f a"
    using that by (auto simp: filter_id_conv intro: order_trans [OF _ less_imp_le])
  then show ?case using Cons by (auto simp: not_less)
qed simp

lemma kept_log_gen: "filter (\<lambda>(i, it). n \<le> generation i) (gen_log es g) = (if n \<le> gen_num g then gen_log es g else [])"
  by (auto simp: gen_log_def filter_map comp_def case_prod_unfold)

lemma kept_log_gens:
  "filter (\<lambda>(i, it). n \<le> generation i) (concat (map (gen_log es) gs))
   = concat (map (gen_log es) (filter (\<lambda>g. n \<le> gen_num g) gs))"
  by (induction gs) (auto simp: kept_log_gen)

lemma first_needed_le:
  assumes "map_of (transactions s) t = Some ts"
  shows "first_needed_generation s \<le> first_gen ts"
proof -
  have "first_gen ts \<in> set (map (\<lambda>(t, ts). first_gen ts) (transactions s))"
    using map_of_SomeD [OF assms] by force
  moreover have "fold min gs (g :: u64) \<le> x" if "x \<in> set (g # gs)" for g gs x
    using that by (metis Min.set_eq_fold Min_le List.finite_set)
  ultimately show ?thesis
    unfolding first_needed_generation_def by (cases "map (\<lambda>(t, ts). first_gen ts) (transactions s)") simp_all
qed

context wal_folder begin

lemma cleanup_ok:
  assumes q: "queue_ok (gens w)" and m: "folder_matches finv gen_files w"
    and gs: "generations (gens w) = gs @ [g]"
  shows "\<exists>d'. cleanup_generations fapi w = (Ok (), w\<lparr>gens := (gens w)\<lparr>generations :=
        filter (\<lambda>g. first_needed_generation (wstate w) \<le> gen_num g) gs @ [g]\<rparr>, folder := d'\<rparr>)
    \<and> finv d' \<and> gen_files d' = set (map gen_num (filter (\<lambda>g. first_needed_generation (wstate w) \<le> gen_num g) gs @ [g]))"
proof -
  let ?n = "first_needed_generation (wstate w)"
  let ?keep = "filter (\<lambda>g. ?n \<le> gen_num g) gs"
  let ?P = "\<lambda>g'. \<not> (gen_num g' \<ge> ?n \<or> gen_num g' = current_gen_num (gens w))"
  have srt: "sorted_wrt (<) (map gen_num (gs @ [g]))" and cur: "current_gen_num (gens w) = gen_num g"
    using q gs by (simp_all add: queue_ok_def)
  have less: "\<forall>x \<in> set gs. gen_num x < gen_num g" using srt by (simp add: sorted_wrt_append)
  have "takeWhile ?P (gs @ [g]) = takeWhile ?P gs" using cur by (simp add: takeWhile_tail)
  also have "\<dots> = takeWhile (\<lambda>x. gen_num x < ?n) gs"
    using less cur by (intro takeWhile_cong) auto
  finally have tw: "takeWhile ?P (gs @ [g]) = takeWhile (\<lambda>x. gen_num x < ?n) gs" .
  define dels where "dels = takeWhile (\<lambda>x. gen_num x < ?n) gs"
  have split: "gs = dels @ ?keep"
    using sorted_prefix_filter [of gen_num gs ?n] srt takeWhile_dropWhile_id [of "\<lambda>x. gen_num x < ?n" gs]
    by (simp add: dels_def sorted_wrt_append)
  have "set (map gen_num dels) \<subseteq> gen_files (folder w)"
  proof -
    have "gen_files (folder w) = set (map gen_num ((dels @ ?keep) @ [g]))"
      using m gs split by (simp add: folder_matches_def)
    then show ?thesis by auto
  qed
  moreover have dis: "distinct (map gen_num (gs @ [g]))" using srt by (simp only: strict_sorted_iff)
  ultimately obtain d' where d': "for_each (fa_delete_wal_file fapi) (map gen_num dels) (folder w) = (Ok (), d')"
      "finv d'" "gen_files d' = gen_files (folder w) - set (map gen_num dels)"
    using delete_all_ok [of "folder w" "map gen_num dels"] m split
    by (metis distinct_append folder_matches_def map_append)
  have "cleanup_generations fapi w
      = (Ok (), w\<lparr>gens := (gens w)\<lparr>generations := ?keep @ [g]\<rparr>, folder := d'\<rparr>)"
    using cleanup_loop [of w dels "?keep @ [g]" fapi d'] gs split d'(1) tw
    by (simp add: cleanup_generations_def prog_simps Let_def dels_def [symmetric])
  moreover have "gen_files d' = set (map gen_num (?keep @ [g]))"
  proof -
    have "generations (gens w) = dels @ ?keep @ [g]" using gs split by (metis append_assoc)
    then have "gen_files (folder w) = set (map gen_num (dels @ ?keep @ [g]))"
      using m by (simp only: folder_matches_def)
    moreover have "distinct (map gen_num (dels @ ?keep @ [g]))"
      using dis split by (metis append_assoc)
    ultimately show ?thesis using d'(3) by auto
  qed
  ultimately show ?thesis using d'(2) by blast
qed


lemma checkpoint_ok:
  assumes ok: "wal_ok inv w" and m: "folder_matches finv gen_files w"
    and it: "loggable (checkpoint_item (wstate w))" and g: "current_gen_num (gens w) < - 1"
  shows "\<exists>w'. checkpoint api fapi w = (Ok (), w') \<and> wal_ok inv w' \<and> folder_matches finv gen_files w'
    \<and> wstate w' = wstate w \<and> current_gen_num (gens w') = current_gen_num (gens w) + 1
    \<and> full_log entries w' = kept_log (wstate w) (full_log entries w)
        @ [(WalIndex (current_gen_num (gens w) + 1) (word_of_nat log_start), checkpoint_item (wstate w))]
    \<and> entries (current_file w') = [(word_of_nat log_start, checkpoint_item (wstate w))]"
proof -
  let ?g = "current_gen_num (gens w) + 1" and ?n = "first_needed_generation (wstate w)"
  obtain w1 where w1: "flush_impl api w = (Ok (), w1)" "wal_ok inv w1" "full_log entries w1 = full_log entries w"
      "wstate w1 = wstate w" "same_shape w w1"
    using flush_impl_ok [OF ok] by blast
  have sh: "folder w1 = folder w" "map gen_num (generations (gens w1)) = map gen_num (generations (gens w))"
    "current_gen_num (gens w1) = current_gen_num (gens w)"
    using w1(5) by (simp_all add: same_shape_def)
  have gl: "current_gen_num (gens w) < ?g" and ca: "checked_add (current_gen_num (gens w1)) 1 = Some ?g"
  proof -
    have "unat (current_gen_num (gens w)) + 1 < 2 ^ 64"
      using g by (simp add: word_less_nat_alt unsigned_minus_1_eq_mask mask_eq_exp_minus_1)
    then show "checked_add (current_gen_num (gens w1)) 1 = Some ?g" by (simp add: checked_add_def sh)
    from \<open>unat (current_gen_num (gens w)) + 1 < 2 ^ 64\<close>
    show "current_gen_num (gens w) < ?g" by (simp add: word_less_nat_alt unat_word_ariths)
  qed
  have q: "queue_ok (gens w1)" using w1(2) by (simp add: wal_ok_def)
  have "?g \<notin> gen_files (folder w1)"
  proof
    assume "?g \<in> gen_files (folder w1)"
    then have "?g \<in> set (map gen_num (generations (gens w)))"
      using m sh by (simp add: folder_matches_def)
    moreover have "x \<le> current_gen_num (gens w1)" if "x \<in> set (map gen_num (generations (gens w1)))" for x
    proof -
      obtain gs y where gs: "generations (gens w1) = gs @ [y]" using queue_snoc [OF q] by blast
      show ?thesis using that q by (auto simp: gs queue_ok_def sorted_wrt_append intro: less_imp_le)
    qed
    ultimately show False using gl sh by (metis leD)
  qed
  moreover have "finv (folder w1)" using m sh by (simp add: folder_matches_def)
  ultimately obtain f d where f: "fa_open_wal_file fapi ?g (folder w1) = (Ok f, d)" "finv d"
      "gen_files d = insert ?g (gen_files (folder w1))" "inv f" "entries f = []" "api_size api f = log_start"
    using open_fresh by blast
  define w2 where "w2 = w1\<lparr>folder := d\<rparr>"
  define w3 where "w3 = w2\<lparr>gens := push_generation ?g f (gens w2)\<rparr>"
  have of: "on_folder (fa_open_wal_file fapi ?g) w1 = (Ok f, w2)"
    using f(1) by (simp add: on_folder_def w2_def)
  have g3: "generations (gens w3) = generations (gens w1) @ [\<lparr>gen_num = ?g, gen_file = f\<rparr>]"
    "current_gen_num (gens w3) = ?g"
    using gl sh by (simp_all add: w3_def w2_def push_generation_def)
  have q3: "queue_ok (gens w3)"
    using push_generation_ok [OF q, of ?g f] gl sh by (simp add: w3_def w2_def)
  have m3: "folder_matches finv gen_files w3"
    using m f sh g3 by (simp add: folder_matches_def) (simp add: w3_def w2_def)
  have s3: "wstate w3 = wstate w" using w1 by (simp add: w3_def w2_def)
  let ?keep = "filter (\<lambda>g. ?n \<le> gen_num g) (generations (gens w1))"
  obtain d' where d': "cleanup_generations fapi w3 = (Ok (), w3\<lparr>gens := (gens w3)\<lparr>generations :=
        ?keep @ [\<lparr>gen_num = ?g, gen_file = f\<rparr>]\<rparr>, folder := d'\<rparr>)"
      "finv d'" "gen_files d' = set (map gen_num (?keep @ [\<lparr>gen_num = ?g, gen_file = f\<rparr>]))"
    using cleanup_ok [OF q3 m3 g3(1)] s3 by auto
  define w4 where "w4 = w3\<lparr>gens := (gens w3)\<lparr>generations :=
        ?keep @ [\<lparr>gen_num = ?g, gen_file = f\<rparr>]\<rparr>, folder := d'\<rparr>"
  have srt: "sorted_wrt (<) (map gen_num (generations (gens w3)))" using q3 by (simp add: queue_ok_def)
  have ok4: "wal_ok inv w4"
    using srt w1(2) f(4) g3
    by (auto simp: wal_ok_def w4_def queue_ok_def sorted_wrt_append sorted_wrt_map sorted_wrt_filter)
  have cf4: "current_file w4 = f" "wstate w4 = wstate w" "current_gen_num (gens w4) = ?g"
    using g3 s3 by (simp_all add: w4_def current_file_def)
  have l4: "full_log entries w4 = kept_log (wstate w) (full_log entries w)"
  proof -
    have "gen_log entries \<lparr>gen_num = ?g, gen_file = f\<rparr> = []" using f(5) by (simp add: gen_log_def)
    then have "full_log entries w4 = kept_log (wstate w) (full_log entries w1)"
      by (simp add: w4_def full_log_def kept_log_def kept_log_gens)
    then show ?thesis using w1(3) by simp
  qed
  have ni: "next_index api w4 = WalIndex ?g (word_of_nat log_start)"
    using next_offset_size [OF f(4)] f(6) cf4 by (metis next_index_def word_nat_cast_inverse)
  have "log_size api w4 + item_len (checkpoint_item (wstate w4)) < 2 ^ 63"
    using it cf4 f(6) log_start_less by (simp add: log_size_def loggable_def item_len_def block_sizes)
  from log_checkpoint_ok [OF ok4 _ this]
  obtain w5 where w5: "log_checkpoint api w4 = (Ok (), w5)" "wal_ok inv w5"
      "log_grew entries [(next_index api w4, checkpoint_item (wstate w))] w4 w5" "wstate w5 = wstate w"
      "entries (current_file w5) = [(word_of_nat log_start, checkpoint_item (wstate w))]"
    using it cf4 f(5) ni by auto
  have "checkpoint api fapi w = (Ok (), w5)"
    using w1(1) ca of d'(1) w5(1)
    by (simp add: checkpoint_def prog_simps bindp_Ok w3_def [symmetric] w4_def [symmetric])
  moreover have sh5: "same_shape w4 w5" using w5(3) by (simp add: log_grew_def)
  then have "folder_matches finv gen_files w5"
    using d' by (simp add: same_shape_def folder_matches_def w4_def)
  moreover have "full_log entries w5 = kept_log (wstate w) (full_log entries w)
      @ [(WalIndex ?g (word_of_nat log_start), checkpoint_item (wstate w))]"
    using w5(3) l4 ni by (simp add: log_grew_def)
  ultimately show ?thesis using w5 sh5 cf4 by (auto simp: same_shape_def)
qed

end

section \<open>Recovery\<close>

definition initial_tables :: "(u64 \<times> item) list \<Rightarrow> wal_state" where
  "initial_tables es = (case first_checkpoint es of
     None \<Rightarrow> state_default
   | Some d \<Rightarrow> \<lparr>dirty_pages = cd_dirty_pages d, transactions = cd_transactions d\<rparr>)"

definition index_entries :: "u64 \<Rightarrow> (u64 \<times> item) list \<Rightarrow> log" where
  "index_entries g es = map (\<lambda>(off, it). (WalIndex g off, it)) es"

definition recovered_tables :: "u64 \<Rightarrow> (u64 \<times> item) list \<Rightarrow> wal_state" where
  "recovered_tables g es = replay_state (index_entries g es) (initial_tables es)"

definition write_op :: "wal_index \<Rightarrow> write_data \<Rightarrow> partial_write_op" where
  "write_op i d = \<lparr>pw_index = i, pw_page_address = wd_page_address d, pw_offset = wd_offset d, pw_buf = wd_to d\<rparr>"

text \<open>The writes that recovery repeats: those to a page in the table, from its first entry on.\<close>

definition redo_pick :: "wal_state \<Rightarrow> wal_index \<times> item \<Rightarrow> partial_write_op option" where
  "redo_pick s = (\<lambda>(i, it). case it of
     Write d \<Rightarrow> (case map_of (dirty_pages s) (wd_page_address d) of
         None \<Rightarrow> None | Some j \<Rightarrow> if i < j then None else Some (write_op i d))
   | _ \<Rightarrow> None)"

definition redo_list :: "wal_state \<Rightarrow> log \<Rightarrow> partial_write_op list" where
  "redo_list s l = List.map_filter (redo_pick s) l"

lemma for_each_total:
  assumes total: "\<And>op h. handle op h = (Ok (), upd op h)"
  shows "for_each handle ops h = (Ok (), fold upd ops h)"
  by (induction ops arbitrary: h) (simp_all add: prog_simps bindp_Ok [where m = "handle x" for x, OF total])

lemma redo_loop:
  "for_each (\<lambda>(off, it). case it of Write d \<Rightarrow> redo_write handle (WalIndex g off) d | _ \<Rightarrow> ret ()) es (w, h)
    = on_snd (for_each handle (redo_list (wstate w) (index_entries g es))) (w, h)"
proof (induction es arbitrary: h)
  case Nil
  show ?case by (simp add: prog_simps redo_list_def index_entries_def map_filter_def on_snd_def)
next
  case (Cons x es)
  obtain off it where x: "x = (off, it)" by force
  let ?f = "\<lambda>(off, it). case it of Write d \<Rightarrow> redo_write handle (WalIndex g off) d | _ \<Rightarrow> ret ()"
  have one: "?f (off, it) (w, h) = (case redo_pick (wstate w) (WalIndex g off, it) of
      None \<Rightarrow> (Ok (), (w, h)) | Some op \<Rightarrow> on_snd (handle op) (w, h))"
    by (auto simp: redo_write_def prog_simps redo_pick_def write_op_def on_fst_def split: item.split option.split)
  have r: "redo_list (wstate w) (index_entries g ((off, it) # es)) = (case redo_pick (wstate w) (WalIndex g off, it) of
      None \<Rightarrow> [] | Some op \<Rightarrow> [op]) @ redo_list (wstate w) (index_entries g es)"
    by (simp add: redo_list_def index_entries_def map_filter_Cons split: option.split)
  show ?case
  proof (cases "redo_pick (wstate w) (WalIndex g off, it)")
    case None
    then show ?thesis using one Cons.IH [of h] unfolding x r by (simp add: bindp_Ok)
  next
    case (Some op)
    obtain q h1 where q: "handle op h = (q, h1)" by force
    then have "on_snd (handle op) (w, h) = (q, (w, h1))" by (simp add: on_snd_def)
    then show ?thesis
      using one Some Cons.IH [of h1] q unfolding x r by (cases q) (simp_all add: bindp_def on_snd_def)
  qed
qed

lemma replay_other:
  "\<forall>(i, it) \<in> set l. item_tid it \<noteq> Some t \<Longrightarrow>
   map_of (transactions (replay_state l s)) t = map_of (transactions s) t"
proof (induction l arbitrary: s)
  case (Cons x l)
  then show ?case by (cases x) (simp add: replay_state_def handle_item_transactions)
qed (simp add: replay_state_def)

lemma replay_commits:
  "list_all (\<lambda>(i, it). \<not> is_write it) ks \<Longrightarrow> map_of (transactions (replay_state ks s)) t
   = (if Some t \<in> set (map (item_tid \<circ> snd) ks) then None else map_of (transactions s) t)"
proof (induction ks arbitrary: s)
  case (Cons x ks)
  then show ?case by (cases x) (auto simp: replay_state_def handle_item_transactions)
qed (simp add: replay_state_def)

lemma replay_append: "replay_state (l @ k) s = replay_state k (replay_state l s)"
  by (simp add: replay_state_def)

lemma undo_pick_tid: "undo_pick tids it = Some u \<Longrightarrow> ul_transaction_id u \<in> set tids"
  by (cases it) (auto simp: undo_pick_def create_undo_log_def split: if_splits)

lemma undo_list_tids: "u \<in> set (undo_list lo tids l) \<Longrightarrow> ul_transaction_id u \<in> set tids"
  by (auto simp: undo_list_def set_map_filter_iff dest: undo_pick_tid)

lemma list_all2_in_right: "list_all2 P xs ys \<Longrightarrow> y \<in> set ys \<Longrightarrow> \<exists>x \<in> set xs. P x y"
  by (induction rule: list_all2_induct) auto

lemma compensates_tid: "compensates u it \<Longrightarrow> item_tid it = Some (ul_transaction_id u)"
  by (auto simp: compensates_def)

text \<open>After the undo and its commits nothing is in flight any more.\<close>

lemma undone_transactions:
  assumes "list_all2 compensates us its" and "length ns = length us"
    and "\<And>u. u \<in> set us \<Longrightarrow> ul_transaction_id u \<in> set tids"
    and "map (item_tid \<circ> snd) ks = map Some tids" and "list_all (\<lambda>(i, it). \<not> is_write it) ks"
    and "set tids = keys_of (transactions s)"
  shows "transactions (replay_state (zip ns its @ ks) s) = []"
proof -
  have "map_of (transactions (replay_state (zip ns its @ ks) s)) t = None" for t
  proof (cases "t \<in> set tids")
    case True
    then show ?thesis by (simp only: replay_append replay_commits [OF assms(5)] assms(4)) simp
  next
    case False
    have "item_tid it \<noteq> Some t" if "it \<in> set its" for it
      using list_all2_in_right [OF assms(1) that] assms(3) False by (auto dest!: compensates_tid)
    then have "\<forall>(i, it) \<in> set (zip ns its). item_tid it \<noteq> Some t" by (auto dest: set_zip_rightD)
    from replay_other [OF this] show ?thesis
      using False assms(6) by (simp only: replay_append replay_commits [OF assms(5)] assms(4))
        (simp add: map_of_eq_None_iff)
  qed
  then show ?thesis by (metis map_of_eq_empty_iff ext)
qed

text \<open>The undo part of recovery, for the tables that were recovered.\<close>

definition recovery_undos :: "wal_state \<Rightarrow> log \<Rightarrow> undo_log list" where
  "recovery_undos s l = (case last_indices (map fst (transactions s)) s of
     [] \<Rightarrow> [] | i # is \<Rightarrow> undo_list (fold min is i) (map fst (transactions s)) l)"

lemma map_of_key_Some: "k \<in> fst ` set m \<Longrightarrow> \<exists>v. map_of m k = Some v"
  by (metis map_of_eq_None_iff option.exhaust)

lemma last_indices_empty:
  "last_indices (map fst (transactions s)) s = [] \<Longrightarrow> transactions s = []"
proof (rule ccontr)
  assume l: "last_indices (map fst (transactions s)) s = []" and "transactions s \<noteq> []"
  then obtain t ts xs where "transactions s = (t, ts) # xs" by (cases "transactions s") auto
  then show False using l by (simp add: last_indices_def map_filter_Cons)
qed

context wal_log begin

lemma current_iter_run:
  assumes ok: "wal_ok inv w"
  shows "\<exists>w'. on_current (api_iter_items api) w = (Ok (entries (current_file w), Ok ()), w')
    \<and> wal_ok inv w' \<and> full_log entries w' = full_log entries w \<and> same_shape w w' \<and> wstate w' = wstate w
    \<and> log_size api w' = log_size api w \<and> entries (current_file w') = entries (current_file w)"
proof -
  obtain f where f: "api_iter_items api (current_file w) = (Ok (entries (current_file w), Ok ()), f)" "inv f"
      "entries f = entries (current_file w)" "api_size api f = api_size api (current_file w)"
    using iter_ok [OF wal_ok_current [OF ok]] by blast
  have "generations (gens w) \<noteq> []" using ok by (simp add: wal_ok_def queue_ok_def)
  from on_current_run [OF this, of "api_iter_items api"] f(1)
  have "on_current (api_iter_items api) w = (Ok (entries (current_file w), Ok ()), set_current f w)" by simp
  then show ?thesis
    using set_current_ok [OF ok f(2)] same_shape_set_current [OF ok f(2)]
      set_current_log [OF ok, of entries f "[]"] f by (simp add: log_size_def)
qed

lemma current_entries_in_log:
  assumes "wal_ok inv w" and "(off, it) \<in> set (entries (current_file w))"
  shows "(WalIndex (current_gen_num (gens w)) off, it) \<in> set (full_log entries w)"
  using assms by (force simp: wal_ok_def queue_ok_def full_log_def gen_log_def current_file_def
      intro!: bexI [of _ "last (generations (gens w))"])

lemma first_checkpoint_in: "first_checkpoint es = Some d \<Longrightarrow> \<exists>off. (off, Checkpoint d) \<in> set es"
  by (induction es rule: first_checkpoint.induct) auto

lemma recovered_tables_wf:
  assumes ok: "wal_ok inv w"
  shows "tables_wf (recovered_tables (current_gen_num (gens w)) (entries (current_file w)))"
proof -
  let ?es = "entries (current_file w)" and ?g = "current_gen_num (gens w)"
  have "tables_wf (initial_tables ?es)"
  proof (cases "first_checkpoint ?es")
    case None
    then show ?thesis by (simp add: initial_tables_def tables_wf_def)
  next
    case (Some d)
    obtain off where "(off, Checkpoint d) \<in> set ?es" using first_checkpoint_in [OF Some] by blast
    from full_log_loggable [OF ok current_entries_in_log [OF ok this]]
    have "list_all (\<lambda>(_, s). wf_transaction_state s) (cd_transactions d)"
      by (simp add: loggable_def wf_item_def wf_checkpoint_data_def)
    then show ?thesis
      using Some by (auto simp: initial_tables_def tables_wf_def list_all_iff wf_transaction_state_def
          dest!: map_of_SomeD)
  qed
  moreover have "tables_wf (replay_state l s)"
    if "tables_wf s" "\<forall>(i, it) \<in> set l. wf_wal_index i" for l s
    using that
  proof (induction l arbitrary: s)
    case (Cons x l)
    then show ?case by (cases x) (simp add: replay_state_def tables_wf_handle)
  qed (simp add: replay_state_def)
  moreover have "\<forall>(i, it) \<in> set (index_entries ?g ?es). wf_wal_index i"
    using full_log_wf [OF ok] current_entries_in_log [OF ok] by (auto simp: index_entries_def)
  ultimately show ?thesis by (simp add: recovered_tables_def)
qed

text \<open>Recovery up to its last step, for a callback that takes what the redo hands out.\<close>

lemma recover_until_undo:
  fixes w :: "('d, 'f) wal"
  assumes ok: "wal_ok inv w"
    and s: "s = recovered_tables (current_gen_num (gens w)) (entries (current_file w))"
    and run: "for_each handle (redo_list s (index_entries (current_gen_num (gens w)) (entries (current_file w)))) h = (Ok (), h')"
  shows "\<exists>w'. recover api handle (w, h) = undo_all api handle (map fst (transactions s)) (w', h')
    \<and> wal_ok inv w' \<and> wstate w' = s \<and> full_log entries w' = full_log entries w \<and> same_shape w w'
    \<and> log_size api w' = log_size api w"
proof -
  let ?es = "entries (current_file w)" and ?g = "current_gen_num (gens w)"
  obtain w1 where w1: "on_current (api_iter_items api) w = (Ok (?es, Ok ()), w1)" "wal_ok inv w1"
      "full_log entries w1 = full_log entries w" "same_shape w w1" "wstate w1 = wstate w"
      "log_size api w1 = log_size api w" "entries (current_file w1) = ?es"
    using current_iter_run [OF ok] by blast
  define w2 where "w2 = w1\<lparr>wstate := initial_tables ?es\<rparr>"
  have r2: "read_initial_state api w = (Ok (), w2)"
    using w1(1) by (simp add: read_initial_state_def bindp_Ok prog_simps w2_def initial_tables_def
        state_default_def split: option.split)
  have ok2: "wal_ok inv w2" using w1(2) by (simp add: w2_def)
  obtain w3 where w3: "on_current (api_iter_items api) w2 = (Ok (entries (current_file w2), Ok ()), w3)" "wal_ok inv w3"
      "full_log entries w3 = full_log entries w2" "same_shape w2 w3" "wstate w3 = wstate w2"
      "log_size api w3 = log_size api w2" "entries (current_file w3) = entries (current_file w2)"
    using current_iter_run [OF ok2] by blast
  have e2: "entries (current_file w2) = ?es" "log_size api w2 = log_size api w"
    using w1(6,7) by (simp_all add: w2_def log_size_def)
  define w4 where "w4 = w3\<lparr>wstate := s\<rparr>"
  have r4: "recover_state api ?g w2 = (Ok (), w4)"
    using w3(1,5) e2 by (simp add: recover_state_def bindp_Ok prog_simps w4_def s recovered_tables_def
        replay_state_def index_entries_def w2_def fold_map comp_def case_prod_unfold)
  have ok4: "wal_ok inv w4" using w3(2) by (simp add: w4_def)
  obtain w5 where w5: "on_current (api_iter_items api) w4 = (Ok (entries (current_file w4), Ok ()), w5)" "wal_ok inv w5"
      "full_log entries w5 = full_log entries w4" "same_shape w4 w5" "wstate w5 = wstate w4"
      "log_size api w5 = log_size api w4" "entries (current_file w5) = entries (current_file w4)"
    using current_iter_run [OF ok4] by blast
  have e4: "entries (current_file w4) = ?es" using w3(7) e2 by (simp add: w4_def)
  have r5: "redo api ?g handle (w4, h) = (Ok (), (w5, h'))"
    using w5(1,5) e4 redo_loop [of handle ?g ?es w5 h] run
    by (simp add: redo_def bindp_Ok prog_simps w4_def on_snd_def)
  have st5: "wstate w5 = s" using w5(5) by (simp add: w4_def)
  have f5: "full_log entries w5 = full_log entries w"
    using w1(3) w3(3) w5(3) by (simp add: w2_def w4_def)
  have "same_shape w1 w3" using w3(4) by (simp add: w2_def)
  moreover have "same_shape w3 w5" using w5(4) by (simp add: w4_def)
  ultimately have sh5: "same_shape w w5" using w1(4) by (blast intro: same_shape_trans)
  have ls5: "log_size api w5 = log_size api w"
    using w5(6) w3(6) e2 by (simp add: w4_def log_size_def)
  have pre: "recover api handle (w, h) = undo_all api handle (map fst (transactions s)) (w5, h')"
    using ok r2 r4 r5 st5
    by (simp add: recover_def prog_simps bindp_Ok on_fst_def with_current_run Let_def)
  then show ?thesis using w5(2) st5 f5 sh5 ls5 by blast
qed

text \<open>Recovery, for a callback that takes the writes to repeat and then those that undo.\<close>

lemma recover_run:
  fixes w :: "('d, 'f) wal"
  assumes run: "for_each handle (redo_list s (index_entries (current_gen_num (gens w)) (entries (current_file w)))) h = (Ok (), h1)"
    and un: "undoes handle upd us h1" and ok: "wal_ok inv w"
    and s: "s = recovered_tables (current_gen_num (gens w)) (entries (current_file w))"
    and us: "us = recovery_undos s (full_log entries w)"
    and room: "log_size api w + sum_list (map (\<lambda>u. 58 + length (ul_to u)) us) + 48 * length (transactions s) < 2 ^ 63"
  shows "\<exists>w' ns its ks. recover api handle (w, h) = (Ok (), (w', fold upd (map2 undo_op ns us) h1))
    \<and> wal_ok inv w' \<and> length ns = length us \<and> list_all wf_wal_index ns \<and> list_all2 compensates us its
    \<and> full_log entries w' = full_log entries w @ zip ns its @ ks \<and> same_shape w w'
    \<and> map (item_tid \<circ> snd) ks = map (Some \<circ> fst) (transactions s) \<and> list_all (\<lambda>(i, it). \<not> is_write it) ks
    \<and> transactions (wstate w') = [] \<and> (us = [] \<and> ks = [] \<longrightarrow> wstate w' = s)"
proof -
  obtain w5 where pre: "recover api handle (w, h) = undo_all api handle (map fst (transactions s)) (w5, h1)"
    and w5: "wal_ok inv w5" and st5: "wstate w5 = s" and f5: "full_log entries w5 = full_log entries w"
    and sh5: "same_shape w w5" and ls5: "log_size api w5 = log_size api w"
    using recover_until_undo [OF ok s run] by blast
  show ?thesis
  proof (cases "last_indices (map fst (transactions s)) s")
    case Nil
    have "transactions s = []" using last_indices_empty [OF Nil] .
    moreover have "us = []" using us Nil by (simp add: recovery_undos_def)
    moreover have "recover api handle (w, h) = (Ok (), (w5, h1))"
      using pre Nil st5 by (simp add: undo_all_def prog_simps)
    ultimately show ?thesis
      using w5 f5 sh5 st5 by (intro exI [of _ w5] exI [of _ "[]"]) simp
  next
    case (Cons i "is")
    have us': "us = undo_list (fold min is i) (map fst (transactions s)) (full_log entries w5)"
      using us Cons f5 by (simp add: recovery_undos_def)
    have t5: "tables_wf (wstate w5)" using recovered_tables_wf [OF ok] st5 s by simp
    have li: "last_indices (map fst (transactions s)) (wstate w5) = i # is" using Cons st5 by simp
    have rm: "log_size api w5 + sum_list (map (\<lambda>u. 58 + length (ul_to u)) us)
        + 48 * length (map fst (transactions s)) < 2 ^ 63"
      using room ls5 by simp
    obtain w6 ns its ks where w6: "undo_all api handle (map fst (transactions s)) (w5, h1)
        = (Ok (), (w6, fold upd (map2 undo_op ns us) h1))"
        "wal_ok inv w6" "length ns = length us" "list_all wf_wal_index ns" "list_all2 compensates us its"
        "log_grew entries (zip ns its @ ks) w5 w6" "map (item_tid \<circ> snd) ks = map Some (map fst (transactions s))"
        "list_all (\<lambda>(i, it). \<not> is_write it) ks"
      using undo_all_ok [where handle = handle and upd = upd, OF un w5 t5 li us' rm] by blast
    have "ul_transaction_id u \<in> set (map fst (transactions s))" if "u \<in> set us" for u
      using that unfolding us' by (rule undo_list_tids)
    from undone_transactions [OF w6(5,3) this w6(7,8), of s]
    have "transactions (wstate w6) = []"
      using w6(6) st5 by (simp add: log_grew_def)
    moreover have "ks \<noteq> []" using w6(7) Cons by (auto simp: last_indices_def List.map_filter_def)
    ultimately show ?thesis
      using pre w6 f5 same_shape_trans [OF sh5] by (force simp: log_grew_def comp_def)
  qed
qed

lemma recover_ok:
  fixes w :: "('d, 'f) wal"
  assumes total: "\<And>op h. handle op h = (Ok (), upd op h)"
    and ok: "wal_ok inv w"
    and s: "s = recovered_tables (current_gen_num (gens w)) (entries (current_file w))"
    and us: "us = recovery_undos s (full_log entries w)"
    and room: "log_size api w + sum_list (map (\<lambda>u. 58 + length (ul_to u)) us) + 48 * length (transactions s) < 2 ^ 63"
  shows "\<exists>w' ns its ks. recover api handle (w, h) = (Ok (), (w', fold upd
        (redo_list s (index_entries (current_gen_num (gens w)) (entries (current_file w))) @ map2 undo_op ns us) h))
    \<and> wal_ok inv w' \<and> length ns = length us \<and> list_all2 compensates us its
    \<and> full_log entries w' = full_log entries w @ zip ns its @ ks \<and> same_shape w w'
    \<and> map (item_tid \<circ> snd) ks = map (Some \<circ> fst) (transactions s) \<and> list_all (\<lambda>(i, it). \<not> is_write it) ks
    \<and> transactions (wstate w') = [] \<and> (us = [] \<and> ks = [] \<longrightarrow> wstate w' = s)"
  using recover_run [OF for_each_total [where handle = handle and upd = upd, OF total] undoes_total [where handle = handle and upd = upd, OF total]
      ok s us room, of h] by fastforce

end

end
