(* ===== verification/WalTheorems.thy ===== *)
theory WalTheorems
  imports WalProofs
begin

text \<open>
  The properties of the log, on the code's own log file (\<open>wal_file_impl\<close>, for any CRC) and
  folder (\<open>folder_impl\<close>).
\<close>

definition sound_wal :: "(byte list \<Rightarrow> u32) \<Rightarrow> (database_folder, wal_file) wal \<Rightarrow> bool" where
  "sound_wal crc w \<longleftrightarrow> wal_ok (\<lambda>f. \<exists>its. wal_inv crc its f) w \<and> folder_matches folder_ok folder_gens w"

lemma sound_walD: "sound_wal crc w \<Longrightarrow> wal_ok (\<lambda>f. \<exists>its. wal_inv crc its f) w"
  by (simp add: sound_wal_def)

abbreviation fresh_log :: log where
  "fresh_log \<equiv> [(WalIndex 0 (word_of_nat log_start), checkpoint_item state_default)]"

lemma session_ok:
  assumes "folder_ok d" and "list_all log_op_ok xs" and "2 ^ 17 + sum_list (map log_op_len xs) < 2 ^ 63"
  shows "\<exists>w d' w'. wal_create (wal_file_impl crc) folder_impl n d = (Ok w, d')
    \<and> for_each (run_log_op (wal_file_impl crc)) xs w = (Ok (), w') \<and> sound_wal crc w'
    \<and> log_ops_extend xs fresh_log (full_log (wal_entries crc) w') \<and> tables_ok (wal_entries crc) w'
    \<and> current_gen_num (gens w') = 0 \<and> length (generations (gens w')) = 1
    \<and> log_size (wal_file_impl crc) w' = log_start + 40 + sum_list (map log_op_len xs)"
proof -
  obtain w d' where w: "wal_create (wal_file_impl crc) folder_impl n d = (Ok w, d')" "folder w = d'"
      "folder_ok d'" "folder_gens d' = {0}" "wal_ok (\<lambda>f. \<exists>its. wal_inv crc its f) w"
      "tables_ok (wal_entries crc) w" "full_log (wal_entries crc) w = fresh_log"
      "log_size (wal_file_impl crc) w = log_start + 40"
      "map gen_num (generations (gens w)) = [0]" "current_gen_num (gens w) = 0"
    using wfolder.wal_create_ok [OF assms(1), of crc n] by (elim exE conjE) (rule that)
  have "log_size (wal_file_impl crc) w + sum_list (map log_op_len xs) < 2 ^ 63"
    using w(8) assms(3) log_start_less by simp
  from wlog.run_log_ops_ok [OF w(5,6) assms(2) this]
  obtain w' where w': "for_each (run_log_op (wal_file_impl crc)) xs w = (Ok (), w')"
      "wal_ok (\<lambda>f. \<exists>its. wal_inv crc its f) w'" "tables_ok (wal_entries crc) w'" "same_shape w w'"
      "log_ops_extend xs (full_log (wal_entries crc) w) (full_log (wal_entries crc) w')"
      "log_size (wal_file_impl crc) w' = log_size (wal_file_impl crc) w + sum_list (map log_op_len xs)"
    by blast
  have "map gen_num (generations (gens w')) = [0]" "current_gen_num (gens w') = 0" "folder w' = folder w"
    using w'(4) w(9,10) by (simp_all add: same_shape_def)
  moreover from this have "length (generations (gens w')) = 1" by (metis length_map length_Cons list.size(3) One_nat_def)
  moreover have "sound_wal crc w'"
    using w'(2) w(2-4) calculation by (simp add: sound_wal_def folder_matches_def)
  ultimately show ?thesis using w w' by auto
qed

text \<open>
  From an empty folder, any sequence of writes and commits whose sizes the format can hold
  succeeds. The log is then the initial check-point followed by one item per operation, each
  with the operation's data and, as its previous item, the last write that its transaction has
  made since its last commit; positions increase, and the tables summarise the log.
\<close>

theorem wal_session:
  assumes "folder_ok d" and "list_all log_op_ok xs" and "2 ^ 17 + sum_list (map log_op_len xs) < 2 ^ 63"
  shows "\<exists>w d' w'. wal_create (wal_file_impl crc) folder_impl n d = (Ok w, d')
    \<and> for_each (run_log_op (wal_file_impl crc)) xs w = (Ok (), w')
    \<and> log_ops_extend xs fresh_log (full_log (wal_entries crc) w')
    \<and> sorted_wrt (<) (map fst (full_log (wal_entries crc) w'))
    \<and> wstate w' = replay_state (full_log (wal_entries crc) w') state_default"
  using session_ok [OF assms, of crc n] by (auto simp: tables_ok_def dest!: sound_walD wlog.full_log_sorted)

section \<open>A session of two writes\<close>

definition two_writes :: "log_op list" where
  "two_writes =
     [OpWrite \<lparr>wl_transaction_id = 5, wl_page_address = PageAddress 0 1, wl_offset = 0, wl_from = [0], wl_to = [1]\<rparr>,
      OpWrite \<lparr>wl_transaction_id = 5, wl_page_address = PageAddress 0 2, wl_offset = 7, wl_from = [0], wl_to = [2]\<rparr>]"

lemma empty_folder_ok: "folder_ok empty_folder"
  by (simp add: empty_folder_def folder_ok_def)

lemma two_writes_ok:
  "list_all log_op_ok two_writes" "sum_list (map log_op_len two_writes) = 120"
  by (simp_all add: two_writes_def wf_page_address_def)

theorem wal_session_witness:
  "\<exists>w d' w'. wal_create (wal_file_impl (\<lambda>_. 0)) folder_impl 100 empty_folder = (Ok w, d')
    \<and> for_each (run_log_op (wal_file_impl (\<lambda>_. 0))) two_writes w = (Ok (), w')
    \<and> length (full_log (wal_entries (\<lambda>_. 0)) w') = 3"
proof -
  have "2 ^ 17 + sum_list (map log_op_len two_writes) < 2 ^ 63" by (simp add: two_writes_ok)
  from wal_session [OF empty_folder_ok two_writes_ok(1) this, of "\<lambda>_. 0" 100]
  show ?thesis by (force simp: two_writes_def)
qed

lemma two_writes_session:
  "\<exists>w i j. sound_wal (\<lambda>_. 0) w \<and> tables_ok (wal_entries (\<lambda>_. 0)) w
    \<and> full_log (wal_entries (\<lambda>_. 0)) w = fresh_log @ [(i, log_op_item (two_writes ! 0) fresh_log),
        (j, log_op_item (two_writes ! 1) (fresh_log @ [(i, log_op_item (two_writes ! 0) fresh_log)]))]
    \<and> log_size (wal_file_impl (\<lambda>_. 0)) w < 2 ^ 17 \<and> length (generations (gens w)) = 1"
proof -
  have "2 ^ 17 + sum_list (map log_op_len two_writes) < 2 ^ 63" by (simp add: two_writes_ok)
  from session_ok [OF empty_folder_ok two_writes_ok(1) this, of "\<lambda>_. 0" 100]
  obtain w where w: "sound_wal (\<lambda>_. 0) w" "tables_ok (wal_entries (\<lambda>_. 0)) w"
      "log_ops_extend two_writes fresh_log (full_log (wal_entries (\<lambda>_. 0)) w)" "length (generations (gens w)) = 1"
      "log_size (wal_file_impl (\<lambda>_. 0)) w = log_start + 40 + sum_list (map log_op_len two_writes)"
    by blast
  moreover have "two_writes = [two_writes ! 0, two_writes ! 1]" by (simp add: two_writes_def)
  then have "log_ops_extend [two_writes ! 0, two_writes ! 1] fresh_log (full_log (wal_entries (\<lambda>_. 0)) w)"
    using w(3) by simp
  moreover have "log_size (wal_file_impl (\<lambda>_. 0)) w < 2 ^ 17"
    using w(5) log_start_less two_writes_ok(2) by simp
  ultimately show ?thesis by auto
qed

section \<open>Check-points\<close>

text \<open>
  C10: A check-point starts a new generation whose first item holds the tables, and deletes
  the log files below the first generation that a transaction in flight needs: the items of
  those transactions stay in the log, the files in the folder are exactly the queue's, and the
  tables do not change. This is so as long as the tables, with as many transactions and dirty pages as they
  have, fit into one item, whose body is shorter than \<open>2^16\<close> bytes, and the number of the
  current generation is not the greatest one; nothing is said of a check-point of larger tables,
  whose length does not fit the header of an item.
\<close>

theorem checkpoint_contract:
  assumes "sound_wal crc w" and "loggable (checkpoint_item (wstate w))" and "current_gen_num (gens w) < - 1"
  shows "\<exists>w'. checkpoint (wal_file_impl crc) folder_impl w = (Ok (), w') \<and> sound_wal crc w' \<and> wstate w' = wstate w
    \<and> full_log (wal_entries crc) w' = kept_log (wstate w) (full_log (wal_entries crc) w)
        @ [(WalIndex (current_gen_num (gens w) + 1) (word_of_nat log_start), checkpoint_item (wstate w))]
    \<and> (\<forall>e t ts. e \<in> set (full_log (wal_entries crc) w) \<and> map_of (transactions (wstate w)) t = Some ts
         \<and> first_gen ts \<le> generation (fst e) \<longrightarrow> e \<in> set (full_log (wal_entries crc) w'))"
proof -
  have m: "wal_ok (\<lambda>f. \<exists>its. wal_inv crc its f) w" "folder_matches folder_ok folder_gens w"
    using assms(1) by (simp_all add: sound_wal_def)
  obtain w' where w': "checkpoint (wal_file_impl crc) folder_impl w = (Ok (), w')" "sound_wal crc w'"
      "wstate w' = wstate w"
      "full_log (wal_entries crc) w' = kept_log (wstate w) (full_log (wal_entries crc) w)
        @ [(WalIndex (current_gen_num (gens w) + 1) (word_of_nat log_start), checkpoint_item (wstate w))]"
    using wfolder.checkpoint_ok [OF m assms(2,3)] by (auto simp: sound_wal_def)
  moreover have "e \<in> set (full_log (wal_entries crc) w')"
    if "e \<in> set (full_log (wal_entries crc) w)" "map_of (transactions (wstate w)) t = Some ts"
      "first_gen ts \<le> generation (fst e)" for e t ts
    using that w'(4) order_trans [OF first_needed_le [OF that(2)] that(3)]
    by (auto simp: kept_log_def)
  ultimately show ?thesis by blast
qed

lemma two_writes_items:
  "item_tid (log_op_item (two_writes ! 0) l) = Some 5" "item_tid (log_op_item (two_writes ! 1) l) = Some 5"
  "is_write (log_op_item (two_writes ! 0) l)" "is_write (log_op_item (two_writes ! 1) l)"
  by (simp_all add: two_writes_def chain_data_def)

lemma fresh_log_no_tid: "open_writes t fresh_log = []"
  by (simp add: open_writes_def checkpoint_item_def)

theorem checkpoint_contract_witness:
  "\<exists>w w'. checkpoint (wal_file_impl (\<lambda>_. 0)) folder_impl w = (Ok (), w')
     \<and> full_log (wal_entries (\<lambda>_. 0)) w = fresh_log
     \<and> full_log (wal_entries (\<lambda>_. 0)) w' = [(WalIndex 1 (word_of_nat log_start), checkpoint_item state_default)]"
proof -
  obtain w where w: "sound_wal (\<lambda>_. 0) w" "full_log (wal_entries (\<lambda>_. 0)) w = fresh_log"
      "tables_ok (wal_entries (\<lambda>_. 0)) w" "current_gen_num (gens w) = 0"
    using session_ok [OF empty_folder_ok, of "[]" "\<lambda>_. 0" 100] by auto
  have st: "wstate w = state_default" using w(2,3) by (simp add: tables_ok_def replay_state_def)
  have "loggable (checkpoint_item (wstate w))" using st loggable_checkpoint_default by simp
  moreover have "current_gen_num (gens w) < - 1"
    using w(4) by (simp add: word_less_nat_alt unsigned_minus_1_eq_mask mask_eq_exp_minus_1)
  ultimately obtain w' where "checkpoint (wal_file_impl (\<lambda>_. 0)) folder_impl w = (Ok (), w')"
      "full_log (wal_entries (\<lambda>_. 0)) w' = kept_log state_default fresh_log
        @ [(WalIndex 1 (word_of_nat log_start), checkpoint_item state_default)]"
    using checkpoint_contract [OF w(1)] w(2,4) st by auto
  moreover have "kept_log state_default fresh_log = []"
    by (simp add: kept_log_def first_needed_generation_def)
  ultimately show ?thesis using w(2) by auto
qed

section \<open>Undo\<close>

lemma undo_pick_other: "item_tid it \<noteq> Some t \<Longrightarrow> undo_pick [t] it = None"
  by (cases it) (auto simp: undo_pick_def)

lemma map_filter_none: "\<forall>x \<in> set xs. f x = None \<Longrightarrow> List.map_filter f (xs @ ys) = List.map_filter f ys"
  by (induction xs) (auto simp: map_filter_Cons)

lemma undo_list_last:
  assumes srt: "sorted_wrt (<) (map fst l)" and ow: "open_writes t l = i # is"
  shows "\<exists>d. (i, Write d) \<in> set l \<and> td_transaction_id (wd_transaction_data d) = t
    \<and> undo_list i [t] l = (case create_undo_log d of None \<Rightarrow> [] | Some u \<Rightarrow> [u])"
proof -
  let ?P = "\<lambda>(i, it). item_tid it = Some t"
  obtain x zs where x: "filter ?P (rev l) = x # zs" "fst x = i" "is_write (snd x)"
    using ow by (cases "filter ?P (rev l)") (auto simp: open_writes_def rev_filter split: if_splits)
  obtain us vs where l: "rev l = us @ x # vs" "\<forall>u \<in> set us. \<not> ?P u" "?P x"
    using filter_eq_ConsD [OF x(1)] by blast
  obtain d where d: "x = (i, Write d)" "td_transaction_id (wd_transaction_data d) = t"
    using x(2,3) l(3) by (cases x; cases "snd x") auto
  have l': "l = rev vs @ x # rev us" using l(1) by (metis append.assoc append_Cons append_Nil rev.simps(2) rev_append rev_rev_ident)
  have less: "\<forall>u \<in> set us. i < fst u" "\<forall>v \<in> set vs. fst v < i"
    using srt d by (auto simp: l' sorted_wrt_append)
  have "takeWhile (\<lambda>(j, _). \<not> j < i) (us @ x # vs) = us @ takeWhile (\<lambda>(j, _). \<not> j < i) (x # vs)"
    using less(1) by (intro takeWhile_append2) (metis case_prod_beta order_less_asym)
  also have "takeWhile (\<lambda>(j, _). \<not> j < i) (x # vs) = [x]"
    using less(2) d by (cases vs) auto
  finally have "undo_list i [t] l = List.map_filter (undo_pick [t] \<circ> snd) (us @ [x])"
    by (simp add: undo_list_def l(1))
  also have "\<dots> = List.map_filter (undo_pick [t] \<circ> snd) [x]"
    using l(2) undo_pick_other by (intro map_filter_none) auto
  also have "\<dots> = (case create_undo_log d of None \<Rightarrow> [] | Some u \<Rightarrow> [u])"
    using d by (simp add: map_filter_Cons undo_pick_def List.map_filter_def split: option.split)
  finally show ?thesis using d l' by auto
qed

lemma undo_log_small:
  assumes "wal_ok (\<lambda>f. \<exists>its. wal_inv crc its f) w"
    and "(i, Write d) \<in> set (full_log (wal_entries crc) w)" and "create_undo_log d = Some u"
  shows "length (ul_to u) < 2 ^ 16"
  using wlog.full_log_loggable [OF assms(1,2)] assms(3)
  by (auto simp: loggable_def wf_item_def wf_write_data_def create_undo_log_def)

lemma tables_ok_wf:
  assumes "wal_ok (\<lambda>f. \<exists>its. wal_inv crc its f) w" and "tables_ok (wal_entries crc) w"
  shows "tables_wf (wstate w)"
  unfolding tables_wf_def
proof (intro allI impI)
  fix t ts
  assume "map_of (transactions (wstate w)) t = Some ts"
  then have "last_index ts \<in> set (open_writes t (full_log (wal_entries crc) w))"
    using assms(2) by (auto simp: tables_ok_def replay_transactions transaction_of_def split: if_splits)
  then show "wf_wal_index (last_index ts)"
    using open_writes_in_log wlog.full_log_wf [OF assms(1)] by blast
qed

text \<open>Undo of a transaction whose last write is known, for a callback that takes its old bytes.\<close>

lemma undo_last:
  assumes w: "sound_wal crc w" "tables_ok (wal_entries crc) w" and o: "open_writes t (full_log (wal_entries crc) w) = i # is"
    and d: "(i, Write d) \<in> set (full_log (wal_entries crc) w)" and us: "us = (case create_undo_log d of None \<Rightarrow> [] | Some u \<Rightarrow> [u])"
    and h: "undoes handle upd us h" and sz: "log_size (wal_file_impl crc) w + 2 ^ 17 < 2 ^ 63"
  shows "\<exists>w' ns. undo (wal_file_impl crc) handle t (w, h) = (Ok (), (w', fold upd (map2 undo_op ns us) h))
    \<and> length ns = length us \<and> list_all wf_wal_index ns \<and> map_of (transactions (wstate w')) t = None"
proof -
  let ?api = "wal_file_impl crc" and ?es = "wal_entries crc"
  have ok: "wal_ok (\<lambda>f. \<exists>its. wal_inv crc its f) w" using w(1) by (rule sound_walD)
  obtain w1 where w1: "flush_impl ?api w = (Ok (), w1)" "wal_ok (\<lambda>f. \<exists>its. wal_inv crc its f) w1"
      "full_log ?es w1 = full_log ?es w" "wstate w1 = wstate w" "log_size ?api w1 = log_size ?api w"
    using wlog.flush_impl_ok [OF ok] by blast
  have t1: "tables_wf (wstate w1)" using tables_ok_wf [OF ok w(2)] w1(4) by simp
  have "map_of (transactions (wstate w)) t = Some \<lparr>first_gen = generation (last (i # is)), last_index = i\<rparr>"
    using w(2) o by (simp add: tables_ok_def replay_transactions transaction_of_def)
  then have li: "last_indices [t] (wstate w1) = [i]"
    using w1(4) by (simp add: last_indices_def map_filter_Cons List.map_filter_def)
  obtain e where e: "(i, Write e) \<in> set (full_log ?es w)"
      "undo_list i [t] (full_log ?es w) = (case create_undo_log e of None \<Rightarrow> [] | Some u \<Rightarrow> [u])"
    using undo_list_last [OF wlog.full_log_sorted [OF ok] o] by blast
  have "distinct (map fst (full_log ?es w))" using wlog.full_log_sorted [OF ok] by (simp add: strict_sorted_iff)
  then have "e = d" using eq_key_imp_eq_value [OF _ e(1) d] by simp
  then have us': "us = undo_list (fold min [] i) [t] (full_log ?es w1)" using us e(2) w1(3) by simp
  have "sum_list (map (\<lambda>u. 58 + length (ul_to u)) us) < 58 + 2 ^ 16"
    using undo_log_small [OF ok d] by (auto simp: us split: option.split)
  then have room: "log_size ?api w1 + sum_list (map (\<lambda>u. 58 + length (ul_to u)) us) + 48 * length [t] < 2 ^ 63"
    using sz w1(5) by simp
  obtain w' ns its ks where w': "undo_all ?api handle [t] (w1, h) = (Ok (), (w', fold upd (map2 undo_op ns us) h))"
      "length ns = length us" "list_all wf_wal_index ns" "log_grew ?es (zip ns its @ ks) w1 w'" "map (item_tid \<circ> snd) ks = map Some [t]"
      "list_all (\<lambda>(i, it). \<not> is_write it) ks"
    using wlog.undo_all_ok [where handle = handle and upd = upd, OF h w1(2) t1 li us' room] by blast
  have "undo ?api handle t (w, h) = (Ok (), (w', fold upd (map2 undo_op ns us) h))"
    using w1(1) w'(1) by (simp add: undo_def prog_simps bindp_Ok)
  moreover have "map_of (transactions (wstate w')) t = None"
    using w'(4,5) by (simp add: log_grew_def replay_append replay_commits [OF w'(6)] del: map_map)
  ultimately show ?thesis using w'(2,3) by blast
qed

text \<open>
  \<open>undo\<close> reverts one write only, the last one that the transaction made: the callback is
  called once, with the old bytes of that write, however many writes the transaction has in
  the log, and then the transaction counts as finished. The scan is bounded by the
  transaction's last index, where its first one would be needed.
\<close>

theorem undo_reverts_only_last_write:
  assumes "sound_wal crc w" and "tables_ok (wal_entries crc) w"
    and "open_writes t (full_log (wal_entries crc) w) = i # is"
    and "\<And>op h. handle op h = (Ok (), upd op h)"
    and "log_size (wal_file_impl crc) w + 2 ^ 17 < 2 ^ 63"
  shows "\<exists>d w' n. (i, Write d) \<in> set (full_log (wal_entries crc) w)
    \<and> td_transaction_id (wd_transaction_data d) = t
    \<and> undo (wal_file_impl crc) handle t (w, h) = (Ok (), (w', case wd_from d of
        None \<Rightarrow> h
      | Some old \<Rightarrow> upd \<lparr>pw_index = n, pw_page_address = wd_page_address d, pw_offset = wd_offset d, pw_buf = old\<rparr> h))
    \<and> map_of (transactions (wstate w')) t = None"
proof -
  obtain d where d: "(i, Write d) \<in> set (full_log (wal_entries crc) w)" "td_transaction_id (wd_transaction_data d) = t"
    using undo_list_last [OF wlog.full_log_sorted [OF sound_walD [OF assms(1)]] assms(3)] by blast
  define us where "us = (case create_undo_log d of None \<Rightarrow> [] | Some u \<Rightarrow> [u])"
  obtain w' ns where w': "undo (wal_file_impl crc) handle t (w, h) = (Ok (), (w', fold upd (map2 undo_op ns us) h))"
      "length ns = length us" "map_of (transactions (wstate w')) t = None"
    using undo_last [OF assms(1-3) d(1) us_def undoes_total [where handle = handle and upd = upd, OF assms(4)] assms(5)] by blast
  moreover have "fold upd (map2 undo_op ns us) h = (case wd_from d of None \<Rightarrow> h
      | Some old \<Rightarrow> upd \<lparr>pw_index = hd ns, pw_page_address = wd_page_address d, pw_offset = wd_offset d, pw_buf = old\<rparr> h)"
    using w'(2) by (cases ns) (auto simp: us_def create_undo_log_def undo_op_def split: option.splits)
  ultimately show ?thesis using d by auto
qed

text \<open>Two writes of one transaction, undone: the callback sees one operation.\<close>

theorem undo_reverts_only_last_write_witness:
  "\<exists>(w :: (database_folder, wal_file) wal) w' n. length (full_log (wal_entries (\<lambda>_. 0)) w) = 3
    \<and> undo (wal_file_impl (\<lambda>_. 0)) (\<lambda>op h. (Ok (), h @ [op])) 5 (w, [])
      = (Ok (), (w', [\<lparr>pw_index = n, pw_page_address = PageAddress 0 2, pw_offset = 7, pw_buf = [0]\<rparr>]))"
proof -
  obtain w i j where w: "sound_wal (\<lambda>_. 0) w" "tables_ok (wal_entries (\<lambda>_. 0)) w"
    "full_log (wal_entries (\<lambda>_. 0)) w = fresh_log @ [(i, log_op_item (two_writes ! 0) fresh_log),
        (j, log_op_item (two_writes ! 1) (fresh_log @ [(i, log_op_item (two_writes ! 0) fresh_log)]))]" (is "_ = ?l")
    "log_size (wal_file_impl (\<lambda>_. 0)) w < 2 ^ 17"
    using two_writes_session by blast
  have ow: "open_writes 5 (full_log (wal_entries (\<lambda>_. 0)) w) = j # [i]"
    unfolding w(3)
    by (simp add: open_writes_def two_writes_items [unfolded One_nat_def] checkpoint_item_def)
  have s: "log_size (wal_file_impl (\<lambda>_. 0)) w + 2 ^ 17 < 2 ^ 63" using w(4) by simp
  obtain d w' n where d: "(j, Write d) \<in> set (full_log (wal_entries (\<lambda>_. 0)) w)"
    "undo (wal_file_impl (\<lambda>_. 0)) (\<lambda>op h. (Ok (), h @ [op])) 5 (w, []) = (Ok (), (w', case wd_from d of
        None \<Rightarrow> [] | Some old \<Rightarrow> [] @ [\<lparr>pw_index = n, pw_page_address = wd_page_address d, pw_offset = wd_offset d, pw_buf = old\<rparr>]))"
    using undo_reverts_only_last_write [where handle = "\<lambda>op h. (Ok (), h @ [op])"
        and upd = "\<lambda>op h. h @ [op]" and h = "[]", OF w(1,2) ow refl s] by blast
  have "sorted_wrt (<) (map fst ?l)" using wlog.full_log_sorted [OF sound_walD [OF w(1)]] w(3) by simp
  then have "i < j" "WalIndex 0 (word_of_nat log_start) < j" by auto
  then have "Write d = log_op_item (two_writes ! 1) (fresh_log @ [(i, log_op_item (two_writes ! 0) fresh_log)])"
    using d(1) by (auto simp: w(3))
  then have "d = \<lparr>wd_transaction_data = wd_transaction_data d, wd_page_address = PageAddress 0 2, wd_offset = 7,
      wd_from = Some [0], wd_to = [2]\<rparr>"
    by (simp add: two_writes_def)
  then have "wd_from d = Some [0]" "wd_page_address d = PageAddress 0 2" "wd_offset d = 7"
    by (metis write_data.select_convs)+
  then have "undo (wal_file_impl (\<lambda>_. 0)) (\<lambda>op h. (Ok (), h @ [op])) 5 (w, [])
      = (Ok (), (w', [\<lparr>pw_index = n, pw_page_address = PageAddress 0 2, pw_offset = 7, pw_buf = [0]\<rparr>]))"
    using d(2) by simp
  moreover have "length (full_log (wal_entries (\<lambda>_. 0)) w) = 3" by (simp add: w(3))
  ultimately show ?thesis by blast
qed

section \<open>Recovery\<close>

text \<open>
  C11: Recovery, for a callback that does not fail: the tables are rebuilt from the current
  generation alone (its first check-point, then all its items); the writes of the current
  generation to dirty pages are repeated in log order; then the old bytes of the writes that
  \<open>recovery_undos\<close> selects are handed out newest first, each under a new log entry that is
  marked as an undo; every transaction gets a commit item, and none is in flight any more.
\<close>

theorem recover_contract:
  assumes "\<And>op h. handle op h = (Ok (), upd op h)" and "sound_wal crc w"
    and "s = recovered_tables (current_gen_num (gens w)) (wal_entries crc (current_file w))"
    and "us = recovery_undos s (full_log (wal_entries crc) w)"
    and "log_size (wal_file_impl crc) w + sum_list (map (\<lambda>u. 58 + length (ul_to u)) us)
      + 48 * length (transactions s) < 2 ^ 63"
  shows "\<exists>w' ns its ks. recover (wal_file_impl crc) handle (w, h) = (Ok (), (w', fold upd
        (redo_list s (index_entries (current_gen_num (gens w)) (wal_entries crc (current_file w)))
          @ map2 undo_op ns us) h))
    \<and> length ns = length us \<and> list_all2 compensates us its
    \<and> full_log (wal_entries crc) w' = full_log (wal_entries crc) w @ zip ns its @ ks
    \<and> map (item_tid \<circ> snd) ks = map (Some \<circ> fst) (transactions s)
    \<and> transactions (wstate w') = []"
  using wlog.recover_ok [where handle = handle and upd = upd and h = h, OF assms(1) sound_walD [OF assms(2)] assms(3-5)]
  by blast

lemma single_gen_entries:
  assumes "wal_ok fi w" and "length (generations (gens w)) = 1"
  shows "index_entries (current_gen_num (gens w)) (es (current_file w)) = full_log es w"
proof -
  obtain g where "generations (gens w) = [g]" using assms(2) by (auto simp: length_Suc_conv)
  then show ?thesis
    using assms(1) by (simp add: wal_ok_def queue_ok_def current_file_def full_log_def gen_log_def index_entries_def)
qed

lemma first_checkpoint_entries:
  "index_entries g es = (i, Checkpoint d) # l \<Longrightarrow> first_checkpoint es = Some d"
  by (cases es rule: first_checkpoint.cases) (auto simp: index_entries_def)

lemma redo_list_all:
  assumes srt: "sorted_wrt (<) (map fst l)"
    and d: "\<And>p. map_of (dirty_pages s) p = first_write p l"
  shows "redo_list s l = List.map_filter (\<lambda>(i, it). case it of Write d \<Rightarrow> Some (write_op i d) | _ \<Rightarrow> None) l"
proof -
  have fw: "\<exists>j. first_write (wd_page_address d) l = Some j \<and> \<not> i < j" if "(i, Write d) \<in> set l" "sorted_wrt (<) (map fst l)" for i d l
    using that
  proof (induction "wd_page_address d" l rule: first_write.induct)
    case (2 k e l)
    then show ?case by (auto dest: order_less_imp_not_less)
  qed auto
  have "redo_pick s x = (case x of (i, it) \<Rightarrow> case it of Write d \<Rightarrow> Some (write_op i d) | _ \<Rightarrow> None)"
    if "x \<in> set l" for x
  proof (cases x)
    case (Pair i it)
    then show ?thesis
      using that fw [OF _ srt] d by (cases it) (fastforce simp: redo_pick_def)+
  qed
  then show ?thesis
    unfolding redo_list_def by (simp add: List.map_filter_def cong: map_cong filter_cong)
qed

lemma log_ops_extend_append: "log_ops_extend xs l l' \<Longrightarrow> \<exists>k. l' = l @ k"
  by (induction xs arbitrary: l) force+

definition all_writes :: "log \<Rightarrow> partial_write_op list" where
  "all_writes l = List.map_filter (\<lambda>(i, it). case it of Write d \<Rightarrow> Some (write_op i d) | _ \<Rightarrow> None) l"

lemma log_size_bound:
  assumes "wal_ok (\<lambda>f. \<exists>its. wal_inv crc its f) w"
  shows "log_size (wal_file_impl crc) w < 2 ^ 63"
proof -
  obtain its where inv: "wal_inv crc its (current_file w)" using wal_ok_current [OF assms] by blast
  have "log_start + log_len its < 2 ^ 63" using inv by (simp add: wal_inv_def)
  then show ?thesis
    using wal_inv_next_offset(1) [OF inv] by (simp add: log_size_def wal_file_impl_def wal_size_def)
qed

lemma recover_quiet_run:
  assumes ok: "wal_ok (\<lambda>f. \<exists>its. wal_inv crc its f) w"
    and s: "s = recovered_tables (current_gen_num (gens w)) (wal_entries crc (current_file w))"
    and t: "transactions s = []"
    and run: "for_each handle (redo_list s (index_entries (current_gen_num (gens w)) (wal_entries crc (current_file w)))) h = (Ok (), h')"
  shows "\<exists>w'. recover (wal_file_impl crc) handle (w, h) = (Ok (), (w', h'))
    \<and> wstate w' = s \<and> full_log (wal_entries crc) w' = full_log (wal_entries crc) w"
proof -
  obtain w' where w': "recover (wal_file_impl crc) handle (w, h) = undo_all (wal_file_impl crc) handle [] (w', h')"
      "wstate w' = s" "full_log (wal_entries crc) w' = full_log (wal_entries crc) w"
    using wlog.recover_until_undo [OF ok s run] t by auto
  have "undo_all (wal_file_impl crc) handle [] (w', h') = (Ok (), (w', h'))"
    by (simp add: undo_all_def on_fst_def prog_simps bindp_def last_indices_def List.map_filter_def)
  then show ?thesis using w' by metis
qed

lemma recover_quiet:
  assumes total: "\<And>op h. handle op h = (Ok (), upd op h)"
    and ok: "wal_ok (\<lambda>f. \<exists>its. wal_inv crc its f) w"
    and s: "s = recovered_tables (current_gen_num (gens w)) (wal_entries crc (current_file w))"
    and t: "transactions s = []"
  shows "\<exists>w'. recover (wal_file_impl crc) handle (w, h) = (Ok (), (w', fold upd
        (redo_list s (index_entries (current_gen_num (gens w)) (wal_entries crc (current_file w)))) h))
    \<and> wstate w' = s \<and> full_log (wal_entries crc) w' = full_log (wal_entries crc) w"
  by (rule recover_quiet_run [OF ok s t for_each_total [where handle = handle and upd = upd, OF total]])

text \<open>A log of one generation in which every transaction has committed.\<close>

lemma recover_committed:
  assumes ok: "wal_ok (\<lambda>f. \<exists>its. wal_inv crc its f) w" and one: "length (generations (gens w)) = 1"
    and l: "full_log (wal_entries crc) w = fresh_log @ k" and c: "\<forall>t. open_writes t (full_log (wal_entries crc) w) = []"
    and run: "for_each handle (all_writes (full_log (wal_entries crc) w)) h = (Ok (), h')"
  shows "\<exists>w'. recover (wal_file_impl crc) handle (w, h) = (Ok (), (w', h'))
    \<and> wstate w' = replay_state (full_log (wal_entries crc) w) state_default
    \<and> full_log (wal_entries crc) w' = full_log (wal_entries crc) w"
proof -
  let ?l = "full_log (wal_entries crc) w" and ?es = "wal_entries crc (current_file w)"
  have ie: "index_entries (current_gen_num (gens w)) ?es = ?l" by (rule single_gen_entries [OF ok one])
  have "first_checkpoint ?es = Some \<lparr>cd_transactions = [], cd_dirty_pages = []\<rparr>"
    using ie l by (intro first_checkpoint_entries) (simp add: checkpoint_item_def)
  then have rt: "replay_state ?l state_default = recovered_tables (current_gen_num (gens w)) ?es"
    using ie by (simp add: recovered_tables_def initial_tables_def state_default_def)
  have dp: "map_of (dirty_pages (replay_state ?l state_default)) p = first_write p ?l" for p
    by (rule replay_dirty)
  have "map_of (transactions (replay_state ?l state_default)) t = None" for t
    using c by (simp add: replay_transactions transaction_of_def)
  then have tr: "transactions (replay_state ?l state_default) = []" by (metis map_of_eq_empty_iff ext)
  have "redo_list (replay_state ?l state_default) ?l = all_writes ?l"
    unfolding all_writes_def by (rule redo_list_all [OF wlog.full_log_sorted [OF ok] dp])
  then show ?thesis
    using recover_quiet_run [where handle = handle and h = h, OF ok rt tr] run ie by simp
qed

text \<open>
  What a session of writes and commits leaves behind survives the loss of the tables: if
  every transaction has committed, recovery hands out every write of the log, completely and
  in the order in which they were logged, and ends with the tables from before the crash.
\<close>

theorem session_recovery:
  assumes "folder_ok d" and "list_all log_op_ok xs" and "2 ^ 17 + sum_list (map log_op_len xs) < 2 ^ 63"
    and "\<And>op h. handle op h = (Ok (), upd op h)"
  shows "\<exists>w d' w'. wal_create (wal_file_impl crc) folder_impl n d = (Ok w, d')
    \<and> for_each (run_log_op (wal_file_impl crc)) xs w = (Ok (), w')
    \<and> ((\<forall>t. open_writes t (full_log (wal_entries crc) w') = []) \<longrightarrow>
        (\<exists>w2. recover (wal_file_impl crc) handle (w'\<lparr>wstate := lost\<rparr>, h)
            = (Ok (), (w2, fold upd (all_writes (full_log (wal_entries crc) w')) h))
          \<and> wstate w2 = wstate w'))"
proof -
  obtain w d' w' where w: "wal_create (wal_file_impl crc) folder_impl n d = (Ok w, d')"
    "for_each (run_log_op (wal_file_impl crc)) xs w = (Ok (), w')" "sound_wal crc w'"
    "log_ops_extend xs fresh_log (full_log (wal_entries crc) w')" "tables_ok (wal_entries crc) w'"
    "length (generations (gens w')) = 1"
    using session_ok [OF assms(1-3), of crc n] by blast
  let ?l = "full_log (wal_entries crc) w'" and ?w = "w'\<lparr>wstate := lost\<rparr>"
  have ok: "wal_ok (\<lambda>f. \<exists>its. wal_inv crc its f) ?w" using w(3) by (simp add: sound_walD)
  obtain k where k: "full_log (wal_entries crc) ?w = fresh_log @ k" using log_ops_extend_append [OF w(4)] by auto
  have "\<exists>w2. recover (wal_file_impl crc) handle (?w, h) = (Ok (), (w2, fold upd (all_writes ?l) h)) \<and> wstate w2 = wstate w'"
    if "\<forall>t. open_writes t ?l = []"
    using recover_committed [OF ok _ k _ for_each_total [where handle = handle and upd = upd, OF assms(4)]] w(5,6) that
    by (auto simp: tables_ok_def)
  then show ?thesis using w by blast
qed

definition write_and_commit :: "log_op list" where
  "write_and_commit =
     [OpWrite \<lparr>wl_transaction_id = 5, wl_page_address = PageAddress 0 1, wl_offset = 3, wl_from = [0], wl_to = [9]\<rparr>,
      OpCommit 5]"

lemma write_and_commit_ok:
  "list_all log_op_ok write_and_commit" "2 ^ 17 + sum_list (map log_op_len write_and_commit) < 2 ^ 63"
  by (simp_all add: write_and_commit_def wf_page_address_def)

theorem session_recovery_witness:
  "\<exists>(w :: (database_folder, wal_file) wal) w2 i. recover (wal_file_impl (\<lambda>_. 0)) (\<lambda>op h. (Ok (), h @ [op])) (w, [])
    = (Ok (), (w2, [\<lparr>pw_index = i, pw_page_address = PageAddress 0 1, pw_offset = 3, pw_buf = [9]\<rparr>]))"
proof -
  obtain w0 d' w where w: "wal_create (wal_file_impl (\<lambda>_. 0)) folder_impl 100 empty_folder = (Ok w0, d')"
    "for_each (run_log_op (wal_file_impl (\<lambda>_. 0))) write_and_commit w0 = (Ok (), w)"
    "(\<forall>t. open_writes t (full_log (wal_entries (\<lambda>_. 0)) w) = []) \<longrightarrow>
        (\<exists>w2. recover (wal_file_impl (\<lambda>_. 0)) (\<lambda>op h. (Ok (), h @ [op])) (w\<lparr>wstate := state_default\<rparr>, [])
            = (Ok (), (w2, fold (\<lambda>op h. h @ [op]) (all_writes (full_log (wal_entries (\<lambda>_. 0)) w)) []))
          \<and> wstate w2 = wstate w)"
    using session_recovery [where handle = "\<lambda>op h. (Ok (), h @ [op])" and upd = "\<lambda>op h. h @ [op]" and h = "[]"
        and lost = state_default and crc = "\<lambda>_. 0" and n = 100, OF empty_folder_ok write_and_commit_ok refl] by blast
  from session_ok [OF empty_folder_ok write_and_commit_ok, of "\<lambda>_. 0" 100] w(1,2)
  have "log_ops_extend write_and_commit fresh_log (full_log (wal_entries (\<lambda>_. 0)) w)" by auto
  then obtain i j where l: "full_log (wal_entries (\<lambda>_. 0)) w = fresh_log @
      [(i, log_op_item (write_and_commit ! 0) fresh_log),
       (j, Commit (chain_data 5 (fresh_log @ [(i, log_op_item (write_and_commit ! 0) fresh_log)])))]"
    by (auto simp: write_and_commit_def)
  have "open_writes t (full_log (wal_entries (\<lambda>_. 0)) w) = []" for t
    unfolding l by (simp add: open_writes_def write_and_commit_def chain_data_def checkpoint_item_def)
  moreover have "all_writes (full_log (wal_entries (\<lambda>_. 0)) w)
      = [\<lparr>pw_index = i, pw_page_address = PageAddress 0 1, pw_offset = 3, pw_buf = [9]\<rparr>]"
    unfolding l by (simp add: all_writes_def write_and_commit_def checkpoint_item_def map_filter_Cons
        write_op_def List.map_filter_def)
  ultimately show ?thesis using w(3) by auto
qed

text \<open>
  C27: A check-point forgets committed writes that have not reached the page files. When no
  transaction is in flight, the table of dirty pages fits into one item, whose body is shorter than
  \<open>2^16\<close> bytes, and the number of the current generation is not the greatest one,
  the check-point succeeds and leaves a log without a single write, although the table of
  dirty pages still names the pages, and a recovery after it, from whatever tables, hands nothing to its
  callback and succeeds. Only the
  transactions in flight decide which generations are kept, and only the current generation is
  repeated.
\<close>

theorem checkpoint_forgets_committed_writes:
  assumes "sound_wal crc w" and "transactions (wstate w) = []" and "loggable (checkpoint_item (wstate w))"
    and "current_gen_num (gens w) < - 1" and "\<And>op h. handle op h = (Ok (), upd op h)"
  shows "\<exists>w1 w2. checkpoint (wal_file_impl crc) folder_impl w = (Ok (), w1)
    \<and> (\<forall>e \<in> set (full_log (wal_entries crc) w1). \<not> is_write (snd e))
    \<and> recover (wal_file_impl crc) handle (w1\<lparr>wstate := lost\<rparr>, h) = (Ok (), (w2, h))
    \<and> dirty_pages (wstate w2) = dirty_pages (wstate w)"
proof -
  have m: "wal_ok (\<lambda>f. \<exists>its. wal_inv crc its f) w" "folder_matches folder_ok folder_gens w"
    using assms(1) by (simp_all add: sound_wal_def)
  let ?it = "checkpoint_item (wstate w)" and ?g = "current_gen_num (gens w) + 1"
  obtain w1 where w1: "checkpoint (wal_file_impl crc) folder_impl w = (Ok (), w1)"
      "wal_ok (\<lambda>f. \<exists>its. wal_inv crc its f) w1" "current_gen_num (gens w1) = ?g"
      "full_log (wal_entries crc) w1 = kept_log (wstate w) (full_log (wal_entries crc) w)
        @ [(WalIndex ?g (word_of_nat log_start), ?it)]"
      "wal_entries crc (current_file w1) = [(word_of_nat log_start, ?it)]"
    using wfolder.checkpoint_ok [OF m assms(3,4)] by blast
  have "generation (fst e) \<le> current_gen_num (gens w)" if e: "e \<in> set (full_log (wal_entries crc) w)" for e
  proof -
    obtain gs y where gs: "generations (gens w) = gs @ [y]" using wal_ok_snoc [OF m(1)] by blast
    show ?thesis
      using e m(1) by (auto simp: full_log_def gen_log_def gs wal_ok_def queue_ok_def sorted_wrt_append
          intro: less_imp_le)
  qed
  then have "kept_log (wstate w) (full_log (wal_entries crc) w) = []"
    using assms(2,4) by (fastforce simp: kept_log_def first_needed_generation_def filter_empty_conv)
  then have l1: "\<forall>e \<in> set (full_log (wal_entries crc) w1). \<not> is_write (snd e)"
    using w1(4) by (simp add: checkpoint_item_def)
  let ?w = "w1\<lparr>wstate := lost\<rparr>"
  have rt: "wstate w = recovered_tables (current_gen_num (gens ?w)) (wal_entries crc (current_file ?w))"
    using w1(3,5) by (simp add: recovered_tables_def index_entries_def initial_tables_def checkpoint_item_def
        replay_state_def handle_item_def)
  have ok: "wal_ok (\<lambda>f. \<exists>its. wal_inv crc its f) ?w" using w1(2) by simp
  have "redo_list (wstate w) (index_entries (current_gen_num (gens ?w)) (wal_entries crc (current_file ?w))) = []"
    using w1(5) by (simp add: redo_list_def index_entries_def redo_pick_def checkpoint_item_def map_filter_Cons
        List.map_filter_def)
  then obtain w2 where "recover (wal_file_impl crc) handle (?w, h) = (Ok (), (w2, h))" "wstate w2 = wstate w"
    using recover_quiet [where handle = handle and upd = upd and h = h, OF assms(5) ok rt assms(2)] by auto
  then show ?thesis using w1(1) l1 by auto
qed

theorem checkpoint_forgets_committed_writes_witness:
  "\<exists>w w1 w2. (\<exists>e \<in> set (full_log (wal_entries (\<lambda>_. 0)) w). is_write (snd e)) \<and> transactions (wstate w) = []
    \<and> checkpoint (wal_file_impl (\<lambda>_. 0)) folder_impl w = (Ok (), w1)
    \<and> recover (wal_file_impl (\<lambda>_. 0)) (\<lambda>op h. (Ok (), h @ [op])) (w1\<lparr>wstate := state_default\<rparr>, []) = (Ok (), (w2, []))"
proof -
  obtain w where w: "sound_wal (\<lambda>_. 0) w" "tables_ok (wal_entries (\<lambda>_. 0)) w"
      "log_ops_extend write_and_commit fresh_log (full_log (wal_entries (\<lambda>_. 0)) w)" "current_gen_num (gens w) = 0"
    using session_ok [OF empty_folder_ok write_and_commit_ok, of "\<lambda>_. 0" 100] by blast
  obtain i j where l: "full_log (wal_entries (\<lambda>_. 0)) w = fresh_log @
      [(i, log_op_item (write_and_commit ! 0) fresh_log),
       (j, Commit (chain_data 5 (fresh_log @ [(i, log_op_item (write_and_commit ! 0) fresh_log)])))]"
    using w(3) by (auto simp: write_and_commit_def)
  have st: "wstate w = \<lparr>dirty_pages = [(PageAddress 0 1, i)], transactions = []\<rparr>"
    using w(2) unfolding tables_ok_def l
    by (simp add: replay_state_def write_and_commit_def handle_item_def checkpoint_item_def track_write_def
        track_transaction_def Let_def or_insert_def complete_transaction_def chain_data_def state_default_def)
  have "(i, log_op_item (write_and_commit ! 0) fresh_log) \<in> set (full_log (wal_entries (\<lambda>_. 0)) w)"
    by (simp add: l)
  then have "wf_wal_index i" by (rule wlog.full_log_wf [OF sound_walD [OF w(1)]])
  then have c: "loggable (checkpoint_item (wstate w))"
    by (simp add: st checkpoint_item_def loggable_def wf_item_def wf_checkpoint_data_def body_length_def
        wf_page_address_def distinct_keys_def)
  have g: "current_gen_num (gens w) < - 1"
    using w(4) by (simp add: word_less_nat_alt unsigned_minus_1_eq_mask mask_eq_exp_minus_1)
  have t: "transactions (wstate w) = []" by (simp add: st)
  have "\<exists>e \<in> set (full_log (wal_entries (\<lambda>_. 0)) w). is_write (snd e)"
    by (simp add: l write_and_commit_def)
  then show ?thesis
    using checkpoint_forgets_committed_writes [where handle = "\<lambda>op h. (Ok (), h @ [op])" and upd = "\<lambda>op h. h @ [op]"
        and lost = state_default and h = "[]", OF w(1) t c g refl] t by blast
qed

text \<open>
  Two writes of a transaction that never committed: recovery repeats both and takes back the
  second only.
\<close>

theorem recover_contract_witness:
  "\<exists>(w :: (database_folder, wal_file) wal) w' i j n.
    recover (wal_file_impl (\<lambda>_. 0)) (\<lambda>op h. (Ok (), h @ [op])) (w, []) = (Ok (), (w',
      [\<lparr>pw_index = i, pw_page_address = PageAddress 0 1, pw_offset = 0, pw_buf = [1]\<rparr>,
       \<lparr>pw_index = j, pw_page_address = PageAddress 0 2, pw_offset = 7, pw_buf = [2]\<rparr>,
       \<lparr>pw_index = n, pw_page_address = PageAddress 0 2, pw_offset = 7, pw_buf = [0]\<rparr>]))"
proof -
  obtain w i j where w: "sound_wal (\<lambda>_. 0) w" "tables_ok (wal_entries (\<lambda>_. 0)) w"
    "full_log (wal_entries (\<lambda>_. 0)) w = fresh_log @ [(i, log_op_item (two_writes ! 0) fresh_log),
        (j, log_op_item (two_writes ! 1) (fresh_log @ [(i, log_op_item (two_writes ! 0) fresh_log)]))]" (is "_ = ?l")
    "log_size (wal_file_impl (\<lambda>_. 0)) w < 2 ^ 17" "length (generations (gens w)) = 1"
    using two_writes_session by blast
  have ok: "wal_ok (\<lambda>f. \<exists>its. wal_inv (\<lambda>_. 0) its f) w" using w(1) by (rule sound_walD)
  let ?es = "wal_entries (\<lambda>_. 0) (current_file w)" and ?g = "current_gen_num (gens w)"
  define s where "s = recovered_tables ?g ?es"
  have ie: "index_entries ?g ?es = ?l" using single_gen_entries [OF ok w(5), of "wal_entries (\<lambda>_. 0)"] w(3) by simp
  have "first_checkpoint ?es = Some \<lparr>cd_transactions = [], cd_dirty_pages = []\<rparr>"
    using ie by (intro first_checkpoint_entries) (simp add: checkpoint_item_def)
  then have "s = replay_state ?l state_default"
    using ie by (simp add: s_def recovered_tables_def initial_tables_def state_default_def)
  then have tr: "transactions s = [(5, \<lparr>first_gen = generation i, last_index = j\<rparr>)]"
    and dp: "\<And>p. map_of (dirty_pages s) p = first_write p ?l"
    by (simp_all only: replay_dirty) (simp add: replay_state_def two_writes_def handle_item_def checkpoint_item_def
        track_write_def track_transaction_def Let_def chain_data_def)
  have srt: "sorted_wrt (<) (map fst ?l)" using wlog.full_log_sorted [OF ok] w(3) by simp
  have "redo_list s ?l = all_writes ?l"
    unfolding all_writes_def by (rule redo_list_all [OF srt dp])
  moreover have "all_writes ?l = [\<lparr>pw_index = i, pw_page_address = PageAddress 0 1, pw_offset = 0, pw_buf = [1]\<rparr>,
       \<lparr>pw_index = j, pw_page_address = PageAddress 0 2, pw_offset = 7, pw_buf = [2]\<rparr>]"
    by (simp add: all_writes_def two_writes_def checkpoint_item_def map_filter_Cons write_op_def List.map_filter_def)
  moreover have us: "recovery_undos s ?l = [\<lparr>ul_transaction_id = 5, ul_page_address = PageAddress 0 2,
      ul_offset = 7, ul_to = [0]\<rparr>]" (is "_ = ?us")
    using srt by (auto simp: recovery_undos_def tr last_indices_def map_filter_Cons List.map_filter_def
        undo_list_def undo_pick_def create_undo_log_def two_writes_def chain_data_def)
  moreover have rm: "log_size (wal_file_impl (\<lambda>_. 0)) w + sum_list (map (\<lambda>u. 58 + length (ul_to u)) ?us)
      + 48 * length (transactions s) < 2 ^ 63"
    using w(4) by (simp add: tr)
  obtain w' ns where r: "recover (wal_file_impl (\<lambda>_. 0)) (\<lambda>op h. (Ok (), h @ [op])) (w, [])
      = (Ok (), (w', fold (\<lambda>op h. h @ [op]) (redo_list s (index_entries ?g ?es) @ map2 undo_op ns ?us) []))"
      "length ns = length ?us"
    using recover_contract [where handle = "\<lambda>op h. (Ok (), h @ [op])" and upd = "\<lambda>op h. h @ [op]" and h = "[]",
        OF refl w(1) s_def _ rm] us w(3) by auto
  obtain n where "ns = [n]" using r(2) by (auto simp: length_Suc_conv)
  ultimately have "recover (wal_file_impl (\<lambda>_. 0)) (\<lambda>op h. (Ok (), h @ [op])) (w, []) = (Ok (), (w',
      [\<lparr>pw_index = i, pw_page_address = PageAddress 0 1, pw_offset = 0, pw_buf = [1]\<rparr>,
       \<lparr>pw_index = j, pw_page_address = PageAddress 0 2, pw_offset = 7, pw_buf = [2]\<rparr>,
       \<lparr>pw_index = n, pw_page_address = PageAddress 0 2, pw_offset = 7, pw_buf = [0]\<rparr>]))"
    using r(1) unfolding ie by (simp add: undo_op_def)
  then show ?thesis by blast
qed

end
