(* ===== verification/Replacer.thy ===== *)
theory Replacer
  imports Prelude "HOL-Library.Multiset"
begin

text \<open>
  The cache replacement policy of \<open>utils/cache.rs\<close>, after the CAR algorithm: two clocks of
  cached values (\<open>recent\<close>, \<open>frequent\<close>) and two histories of evicted ones. The head of a
  list is the front of the \<open>VecDeque\<close>. The reference bits are atomics that \<open>access\<close> sets
  through a shared reference, so \<open>access\<close> returns a new state here.

  The \<open>debug_assert\<close> of \<open>evict_replace\<close> (the value is not cached yet) is a hypothesis of
  its contract.
\<close>

section \<open>Clocks and histories\<close>

datatype 'a clock_item = ClockItem (item_value: 'a) (was_referenced: bool)

type_synonym 'a clock = "'a clock_item list"

definition clock_insert :: "'a \<Rightarrow> 'a clock \<Rightarrow> 'a clock" where
  "clock_insert v c = c @ [ClockItem v False]"

fun clock_remove :: "'a clock \<Rightarrow> ('a clock_item \<times> 'a clock) option" where
  "clock_remove [] = None"
| "clock_remove (x # xs) = Some (x, xs)"

fun clock_access :: "'a \<Rightarrow> 'a clock \<Rightarrow> bool \<times> 'a clock" where
  "clock_access v [] = (False, [])"
| "clock_access v (x # xs) =
     (if item_value x = v then (True, ClockItem (item_value x) True # xs)
      else (case clock_access v xs of (b, ys) \<Rightarrow> (b, x # ys)))"

fun clock_contains :: "'a \<Rightarrow> 'a clock \<Rightarrow> bool" where
  "clock_contains v [] = False"
| "clock_contains v (x # xs) = (item_value x = v \<or> clock_contains v xs)"

record 'a lru =
  lru_items :: "'a list"
  lru_set :: "'a set"

definition lru_new :: "'a lru" where
  "lru_new = \<lparr>lru_items = [], lru_set = {}\<rparr>"

definition lru_len :: "'a lru \<Rightarrow> nat" where
  "lru_len l = length (lru_items l)"

definition enqueue :: "'a \<Rightarrow> 'a lru \<Rightarrow> 'a lru" where
  "enqueue v l = \<lparr>lru_items = lru_items l @ [v], lru_set = insert v (lru_set l)\<rparr>"

definition dequeue :: "'a lru \<Rightarrow> 'a option \<times> 'a lru" where
  "dequeue l = (case lru_items l of
     [] \<Rightarrow> (None, l)
   | v # vs \<Rightarrow> (Some v, \<lparr>lru_items = vs, lru_set = lru_set l - {v}\<rparr>))"

definition lru_contains :: "'a \<Rightarrow> 'a lru \<Rightarrow> bool" where
  "lru_contains v l \<longleftrightarrow> v \<in> lru_set l"

section \<open>The replacer\<close>

record 'a replacer =
  recent :: "'a clock"
  recent_history :: "'a lru"
  frequent :: "'a clock"
  frequent_history :: "'a lru"
  recent_target_size :: nat
  rsize :: nat

definition replacer_new :: "nat \<Rightarrow> 'a replacer" where
  "replacer_new n = \<lparr>recent = [], recent_history = lru_new, frequent = [], frequent_history = lru_new,
     recent_target_size = 0, rsize = n\<rparr>"

text \<open>\<open>self.recent.access(value) || self.frequent.access(value)\<close>, short-circuiting.\<close>

definition replacer_access :: "'a \<Rightarrow> 'a replacer \<Rightarrow> bool \<times> 'a replacer" where
  "replacer_access v r = (case clock_access v (recent r) of
     (True, c) \<Rightarrow> (True, r\<lparr>recent := c\<rparr>)
   | (False, c) \<Rightarrow> (case clock_access v (frequent r) of (b, d) \<Rightarrow> (b, r\<lparr>recent := c, frequent := d\<rparr>)))"

definition value_in_history :: "'a \<Rightarrow> 'a replacer \<Rightarrow> bool" where
  "value_in_history v r \<longleftrightarrow> lru_contains v (recent_history r) \<or> lru_contains v (frequent_history r)"

definition cache_is_full :: "'a replacer \<Rightarrow> bool" where
  "cache_is_full r \<longleftrightarrow> length (recent r) + length (frequent r) \<ge> rsize r"

definition recent_cache_is_full :: "'a replacer \<Rightarrow> bool" where
  "recent_cache_is_full r \<longleftrightarrow> recent r \<noteq> [] \<and> length (recent r) \<ge> recent_target_size r"

definition recent_history_is_full :: "'a replacer \<Rightarrow> bool" where
  "recent_history_is_full r \<longleftrightarrow> length (recent r) + lru_len (recent_history r) \<ge> rsize r"

definition frequent_history_is_full :: "'a replacer \<Rightarrow> bool" where
  "frequent_history_is_full r \<longleftrightarrow> length (recent r) + length (frequent r)
     + lru_len (recent_history r) + lru_len (frequent_history r) \<ge> rsize r * 2"

definition evict_measure :: "'a replacer \<Rightarrow> nat" where
  "evict_measure r = length (recent r) + length (filter was_referenced (frequent r))"

lemma clock_remove_Some: "clock_remove c = Some (x, xs) \<longleftrightarrow> c = x # xs"
  by (cases c) auto

text \<open>
  The loop of \<open>evict\<close>. Each turn that does not return takes an item out of \<open>recent\<close> or
  clears a reference bit in \<open>frequent\<close>.
\<close>

function evict :: "'a replacer \<Rightarrow> 'a option \<times> 'a replacer" where
  "evict r =
     (if recent_cache_is_full r then
        (case clock_remove (recent r) of
           None \<Rightarrow> (None, r)
         | Some (hd_item, rest) \<Rightarrow>
             if \<not> was_referenced hd_item then
               (Some (item_value hd_item), r\<lparr>recent := rest,
                  frequent_history := enqueue (item_value hd_item) (frequent_history r)\<rparr>)
             else evict (r\<lparr>recent := rest, frequent := clock_insert (item_value hd_item) (frequent r)\<rparr>))
      else
        (case clock_remove (frequent r) of
           None \<Rightarrow> (None, r)
         | Some (hd_item, rest) \<Rightarrow>
             if \<not> was_referenced hd_item then
               (Some (item_value hd_item), r\<lparr>frequent := rest,
                  frequent_history := enqueue (item_value hd_item) (frequent_history r)\<rparr>)
             else evict (r\<lparr>frequent := clock_insert (item_value hd_item) rest\<rparr>)))"
  by pat_completeness auto

termination
  by (relation "measure evict_measure")
    (auto simp: evict_measure_def clock_insert_def clock_remove_Some)

declare evict.simps [simp del]

definition maybe_evict_history :: "'a replacer \<Rightarrow> 'a replacer" where
  "maybe_evict_history r =
     (if recent_history_is_full r then r\<lparr>recent_history := snd (dequeue (recent_history r))\<rparr>
      else if frequent_history_is_full r then r\<lparr>frequent_history := snd (dequeue (frequent_history r))\<rparr>
      else r)"

definition recent_target_delta :: "'a replacer \<Rightarrow> nat" where
  "recent_target_delta r =
     (if lru_len (recent_history r) = 0 then 1
      else max 1 (lru_len (frequent_history r) div lru_len (recent_history r)))"

definition increase_recent_target :: "'a replacer \<Rightarrow> 'a replacer" where
  "increase_recent_target r =
     r\<lparr>recent_target_size := min (recent_target_size r + recent_target_delta r) (rsize r)\<rparr>"

definition decrease_recent_target :: "'a replacer \<Rightarrow> 'a replacer" where
  "decrease_recent_target r =
     r\<lparr>recent_target_size := recent_target_size r - recent_target_delta r\<rparr>"

definition replacer_insert :: "'a \<Rightarrow> 'a replacer \<Rightarrow> 'a replacer" where
  "replacer_insert v r =
     (if lru_contains v (recent_history r) then
        (let r' = increase_recent_target r in r'\<lparr>frequent := clock_insert v (frequent r')\<rparr>)
      else if lru_contains v (frequent_history r) then
        (let r' = decrease_recent_target r in r'\<lparr>frequent := clock_insert v (frequent r')\<rparr>)
      else r\<lparr>recent := clock_insert v (recent r)\<rparr>)"

definition evict_replace :: "'a \<Rightarrow> 'a replacer \<Rightarrow> 'a option \<times> 'a replacer" where
  "evict_replace v r =
     (if cache_is_full r then
        (case evict r of (evicted, r1) \<Rightarrow>
           let r2 = (if value_in_history v r1 then r1 else maybe_evict_history r1)
           in (evicted, replacer_insert v r2))
      else (None, replacer_insert v r))"

section \<open>What is cached\<close>

definition cached_list :: "'a replacer \<Rightarrow> 'a list" where
  "cached_list r = map item_value (recent r) @ map item_value (frequent r)"

definition cached :: "'a replacer \<Rightarrow> 'a set" where
  "cached r = set (cached_list r)"

definition replacer_inv :: "'a replacer \<Rightarrow> bool" where
  "replacer_inv r \<longleftrightarrow> distinct (cached_list r) \<and> length (cached_list r) \<le> rsize r
     \<and> recent_target_size r \<le> rsize r \<and> 0 < rsize r"

lemma clock_access_values [simp]: "map item_value (snd (clock_access v c)) = map item_value c"
  by (induction c) (auto split: prod.splits)

lemma clock_access_found [simp]: "fst (clock_access v c) \<longleftrightarrow> v \<in> item_value ` set c"
  by (induction c) (auto split: prod.splits)

lemma clock_contains_iff: "clock_contains v c \<longleftrightarrow> v \<in> item_value ` set c"
  by (induction c) auto

lemma replacer_access_facts:
  assumes "replacer_access v r = (b, r')"
  shows "cached_list r' = cached_list r" "b \<longleftrightarrow> v \<in> cached r" "rsize r' = rsize r"
    "recent_target_size r' = recent_target_size r" "recent_history r' = recent_history r"
    "frequent_history r' = frequent_history r"
proof -
  obtain b1 c where 1: "clock_access v (recent r) = (b1, c)" by force
  obtain b2 d where 2: "clock_access v (frequent r) = (b2, d)" by force
  have f: "b1 \<longleftrightarrow> v \<in> item_value ` set (recent r)" "map item_value c = map item_value (recent r)"
    "b2 \<longleftrightarrow> v \<in> item_value ` set (frequent r)" "map item_value d = map item_value (frequent r)"
    using 1 2 clock_access_found clock_access_values by (metis fst_conv snd_conv)+
  show "cached_list r' = cached_list r" "b \<longleftrightarrow> v \<in> cached r" "rsize r' = rsize r"
    "recent_target_size r' = recent_target_size r" "recent_history r' = recent_history r"
    "frequent_history r' = frequent_history r"
    using assms 1 2 f by (cases b1; auto simp: replacer_access_def cached_list_def cached_def)+
qed

text \<open>The five ways a turn of the loop can go, and the induction along them.\<close>

lemma evict_recent:
  "recent_cache_is_full r \<Longrightarrow> recent r = ClockItem v False # c \<Longrightarrow>
   evict r = (Some v, r\<lparr>recent := c, frequent_history := enqueue v (frequent_history r)\<rparr>)"
  by (subst evict.simps) simp

lemma evict_promote:
  "recent_cache_is_full r \<Longrightarrow> recent r = ClockItem v True # c \<Longrightarrow>
   evict r = evict (r\<lparr>recent := c, frequent := clock_insert v (frequent r)\<rparr>)"
  by (subst evict.simps) simp

lemma evict_empty: "\<not> recent_cache_is_full r \<Longrightarrow> frequent r = [] \<Longrightarrow> evict r = (None, r)"
  by (subst evict.simps) simp

lemma evict_frequent:
  "\<not> recent_cache_is_full r \<Longrightarrow> frequent r = ClockItem v False # c \<Longrightarrow>
   evict r = (Some v, r\<lparr>frequent := c, frequent_history := enqueue v (frequent_history r)\<rparr>)"
  by (subst evict.simps) simp

lemma evict_requeue:
  "\<not> recent_cache_is_full r \<Longrightarrow> frequent r = ClockItem v True # c \<Longrightarrow>
   evict r = evict (r\<lparr>frequent := clock_insert v c\<rparr>)"
  by (subst evict.simps) simp

lemma evict_rule [case_names recent promote empty frequent requeue]:
  assumes recent: "\<And>r v c. recent_cache_is_full r \<Longrightarrow> recent r = ClockItem v False # c \<Longrightarrow>
      P r (Some v) (r\<lparr>recent := c, frequent_history := enqueue v (frequent_history r)\<rparr>)"
    and promote: "\<And>r v c ev r'. recent_cache_is_full r \<Longrightarrow> recent r = ClockItem v True # c \<Longrightarrow>
      P (r\<lparr>recent := c, frequent := clock_insert v (frequent r)\<rparr>) ev r' \<Longrightarrow> P r ev r'"
    and empty: "\<And>r. \<not> recent_cache_is_full r \<Longrightarrow> frequent r = [] \<Longrightarrow> P r None r"
    and frequent: "\<And>r v c. \<not> recent_cache_is_full r \<Longrightarrow> frequent r = ClockItem v False # c \<Longrightarrow>
      P r (Some v) (r\<lparr>frequent := c, frequent_history := enqueue v (frequent_history r)\<rparr>)"
    and requeue: "\<And>r v c ev r'. \<not> recent_cache_is_full r \<Longrightarrow> frequent r = ClockItem v True # c \<Longrightarrow>
      P (r\<lparr>frequent := clock_insert v c\<rparr>) ev r' \<Longrightarrow> P r ev r'"
  shows "evict r = (ev, r') \<Longrightarrow> P r ev r'"
proof (induction r arbitrary: ev r' rule: evict.induct)
  case (1 r)
  show ?case
  proof (cases "recent_cache_is_full r")
    case True
    then obtain x c where x: "recent r = x # c"
      by (auto simp: recent_cache_is_full_def neq_Nil_conv)
    show ?thesis
    proof (cases x)
      case (ClockItem v b)
      show ?thesis
      proof (cases b)
        case True
        have e: "evict (r\<lparr>recent := c, frequent := clock_insert (item_value x) (frequent r)\<rparr>) = (ev, r')"
          using evict_promote [of r v c] \<open>recent_cache_is_full r\<close> x ClockItem True "1.prems" by simp
        have "P (r\<lparr>recent := c, frequent := clock_insert (item_value x) (frequent r)\<rparr>) ev r'"
          by (rule "1.IH"(1) [OF \<open>recent_cache_is_full r\<close> _ refl _ e]) (simp_all add: x ClockItem True)
        then have "P (r\<lparr>recent := c, frequent := clock_insert v (frequent r)\<rparr>) ev r'"
          by (simp add: ClockItem)
        then show ?thesis
          using promote [of r v c] \<open>recent_cache_is_full r\<close> x ClockItem True by simp
      next
        case False
        then show ?thesis
          using evict_recent recent \<open>recent_cache_is_full r\<close> x ClockItem "1.prems" by force
      qed
    qed
  next
    case nf: False
    show ?thesis
    proof (cases "frequent r")
      case Nil
      then show ?thesis using nf empty evict_empty "1.prems" by force
    next
      case (Cons x c)
      show ?thesis
      proof (cases x)
        case (ClockItem v b)
        show ?thesis
        proof (cases b)
          case True
          have e: "evict (r\<lparr>frequent := clock_insert (item_value x) c\<rparr>) = (ev, r')"
            using evict_requeue [of r v c] nf Cons ClockItem True "1.prems" by simp
          have "P (r\<lparr>frequent := clock_insert (item_value x) c\<rparr>) ev r'"
            by (rule "1.IH"(2) [OF nf _ refl _ e]) (simp_all add: Cons ClockItem True)
          then have "P (r\<lparr>frequent := clock_insert v c\<rparr>) ev r'"
            by (simp add: ClockItem)
          then show ?thesis
            using requeue [of r v c] nf Cons ClockItem True by simp
        next
          case False
          then show ?thesis
            using evict_frequent frequent nf Cons ClockItem "1.prems" by force
        qed
      qed
    qed
  qed
qed

text \<open>
  \<open>evict\<close> keeps size, target and the history of \<open>recent\<close>, and it takes exactly the value it
  returns out of the cache and into \<open>frequent_history\<close>.
\<close>

lemma evict_frame:
  "evict r = (ev, r') \<Longrightarrow> rsize r' = rsize r \<and> recent_target_size r' = recent_target_size r
     \<and> recent_history r' = recent_history r"
  by (rule evict_rule [where P = "\<lambda>r ev r'. rsize r' = rsize r
        \<and> recent_target_size r' = recent_target_size r \<and> recent_history r' = recent_history r"])
    simp_all

lemma evict_Some:
  "evict r = (ev, r') \<Longrightarrow> ev = Some e \<Longrightarrow>
     mset (cached_list r) = add_mset e (mset (cached_list r'))
     \<and> frequent_history r' = enqueue e (frequent_history r)"
  by (rule evict_rule [where P = "\<lambda>r ev r'. ev = Some e \<longrightarrow>
        mset (cached_list r) = add_mset e (mset (cached_list r'))
        \<and> frequent_history r' = enqueue e (frequent_history r)", THEN mp])
    (auto simp: cached_list_def clock_insert_def)

lemma evict_None:
  "evict r = (ev, r') \<Longrightarrow> ev = None \<Longrightarrow> mset (cached_list r') = mset (cached_list r)
     \<and> frequent r' = [] \<and> \<not> recent_cache_is_full r' \<and> frequent_history r' = frequent_history r"
  by (rule evict_rule [where P = "\<lambda>r ev r'. ev = None \<longrightarrow> mset (cached_list r') = mset (cached_list r)
        \<and> frequent r' = [] \<and> \<not> recent_cache_is_full r' \<and> frequent_history r' = frequent_history r",
      THEN mp])
    (auto simp: cached_list_def clock_insert_def)

text \<open>A full cache always gives up a value: the target never exceeds the size.\<close>

lemma evict_full:
  assumes "evict r = (ev, r')" and "replacer_inv r" and "cache_is_full r"
  shows "\<exists>e. ev = Some e"
proof (cases ev)
  case None
  have m: "mset (cached_list r') = mset (cached_list r)" and f: "frequent r' = []"
    and nf: "\<not> recent_cache_is_full r'"
    using evict_None [OF assms(1) None] by simp_all
  have fr: "rsize r' = rsize r" "recent_target_size r' = recent_target_size r"
    using evict_frame [OF assms(1)] by simp_all
  have "length (cached_list r') = length (cached_list r)"
    using m by (metis size_mset)
  then have "length (recent r') \<ge> rsize r'"
    using f assms(3) fr by (simp add: cached_list_def cache_is_full_def)
  then show ?thesis
    using nf fr assms(2) by (auto simp: recent_cache_is_full_def replacer_inv_def)
qed simp

lemma replacer_insert_facts:
  "cached (replacer_insert v r) = insert v (cached r)"
  "mset (cached_list (replacer_insert v r)) = add_mset v (mset (cached_list r))"
  "rsize (replacer_insert v r) = rsize r"
  "recent_target_size r \<le> rsize r \<Longrightarrow> recent_target_size (replacer_insert v r) \<le> rsize r"
  "recent_history (replacer_insert v r) = recent_history r"
  "frequent_history (replacer_insert v r) = frequent_history r"
  by (auto simp: replacer_insert_def Let_def cached_def cached_list_def clock_insert_def
      increase_recent_target_def decrease_recent_target_def)

lemma maybe_evict_history_facts [simp]:
  "cached_list (maybe_evict_history r) = cached_list r"
  "rsize (maybe_evict_history r) = rsize r"
  "recent_target_size (maybe_evict_history r) = recent_target_size r"
  by (auto simp: maybe_evict_history_def cached_list_def)


lemma evict_replace_inv:
  assumes inv: "replacer_inv r" and v: "v \<notin> cached r" and er: "evict_replace v r = (ev, r')"
  shows "replacer_inv r' \<and> rsize r' = rsize r
    \<and> (case ev of None \<Rightarrow> cached r' = insert v (cached r) \<and> card (cached r) < rsize r
       | Some x \<Rightarrow> x \<in> cached r \<and> cached r' = insert v (cached r - {x}))"
proof (cases "cache_is_full r")
  case False
  then have "ev = None" and r': "r' = replacer_insert v r"
    using er by (simp_all add: evict_replace_def)
  have "length (cached_list r) < rsize r"
    using False by (simp add: cache_is_full_def cached_list_def)
  moreover have "card (cached r) \<le> length (cached_list r)"
    by (simp add: cached_def card_length)
  moreover have "length (cached_list r') = Suc (length (cached_list r))"
    using arg_cong [OF replacer_insert_facts(2) [where v = v and r = r], of size] r' by simp
  moreover have "distinct (cached_list r')"
    using inv v replacer_insert_facts(2) [where v = v and r = r] r'
    by (metis cached_def distinct.simps(2) mset.simps(2) mset_eq_imp_distinct_iff replacer_inv_def)
  ultimately show ?thesis
    using inv \<open>ev = None\<close> r' replacer_insert_facts [where v = v and r = r] by (simp add: replacer_inv_def)
next
  case True
  obtain ev1 r1 where e: "evict r = (ev1, r1)" by force
  obtain x where x: "ev1 = Some x" using evict_full [OF e inv True] by blast
  define r2 where "r2 = (if value_in_history v r1 then r1 else maybe_evict_history r1)"
  have r': "ev = Some x" "r' = replacer_insert v r2"
    using er e x True by (simp_all add: evict_replace_def r2_def Let_def)
  have c2: "cached_list r2 = cached_list r1" "rsize r2 = rsize r" "recent_target_size r2 = recent_target_size r"
    using evict_frame [OF e] by (simp_all add: r2_def)
  have m: "mset (cached_list r) = add_mset x (mset (cached_list r1))"
    using evict_Some [OF e x] by simp
  then have "distinct (x # cached_list r1)"
    using inv by (metis mset.simps(2) mset_eq_imp_distinct_iff replacer_inv_def)
  then have d: "distinct (cached_list r1)" and xn: "x \<notin> cached r1" by (simp_all add: cached_def)
  have cr: "cached r = insert x (cached r1)"
    using arg_cong [OF m, of set_mset] by (simp add: cached_def)
  then have vn: "v \<notin> cached r1" using v by simp
  have m': "mset (cached_list r') = add_mset v (mset (cached_list r1))"
    using r'(2) replacer_insert_facts(2) [where v = v and r = r2] c2(1) by simp
  have "distinct (cached_list r')"
    using m' d vn by (metis cached_def distinct.simps(2) mset.simps(2) mset_eq_imp_distinct_iff)
  moreover have "length (cached_list r') = length (cached_list r)"
    using arg_cong [OF m, of size] arg_cong [OF m', of size] by simp
  moreover have "cached r' = insert v (cached r1)"
    using arg_cong [OF m', of set_mset] by (simp add: cached_def)
  ultimately show ?thesis
    using inv r' c2 cr xn replacer_insert_facts(3,4) [where v = v and r = r2] by (auto simp: replacer_inv_def)
qed

section \<open>The interface of a replacement policy\<close>

text \<open>
  What a table of bounded size needs from the policy that chooses what to drop; the
  descriptor cache and the page cache are its clients.
\<close>

locale cache_policy =
  fixes ev_replace :: "'a \<Rightarrow> 'r \<Rightarrow> 'a option \<times> 'r"
    and access_val :: "'a \<Rightarrow> 'r \<Rightarrow> bool \<times> 'r"
    and tracked :: "'r \<Rightarrow> 'a set"
    and cap :: "'r \<Rightarrow> nat"
    and pinv :: "'r \<Rightarrow> bool"
  assumes replace_ok: "pinv r \<Longrightarrow> v \<notin> tracked r \<Longrightarrow> ev_replace v r = (e, r') \<Longrightarrow>
      pinv r' \<and> cap r' = cap r \<and> (case e of
          None \<Rightarrow> tracked r' = insert v (tracked r) \<and> card (tracked r) < cap r
        | Some x \<Rightarrow> x \<in> tracked r \<and> tracked r' = insert v (tracked r - {x}))"
    and access_ok: "pinv r \<Longrightarrow> access_val v r = (b, r') \<Longrightarrow>
      pinv r' \<and> cap r' = cap r \<and> tracked r' = tracked r \<and> (b \<longleftrightarrow> v \<in> tracked r)"
    and bounded: "pinv r \<Longrightarrow> finite (tracked r) \<and> card (tracked r) \<le> cap r"
begin

lemma replace_tracks_new:
  "pinv r \<Longrightarrow> v \<notin> tracked r \<Longrightarrow> ev_replace v r = (e, r') \<Longrightarrow> v \<in> tracked r'"
  using replace_ok [of r v e r'] by (cases e) simp_all

lemma table_replace:
  assumes "pinv r" and "keys_of m = tracked r" and "v \<notin> tracked r" and "ev_replace v r = (e, r')"
  shows "keys_of (AList.update v x (case e of None \<Rightarrow> m | Some k \<Rightarrow> AList.delete k m)) = tracked r'"
  using replace_ok [OF assms(1,3,4)] assms(2) by (cases e) simp_all

lemma table_bounded:
  assumes "pinv r" and "keys_of m = tracked r" and "distinct_keys m"
  shows "length m \<le> cap r"
proof -
  have "card (tracked r) = length m"
    using assms(2,3) by (metis distinct_card distinct_keys_def length_map list.set_map)
  then show ?thesis using bounded [OF assms(1)] by simp
qed

end

interpretation car: cache_policy evict_replace replacer_access cached rsize replacer_inv
proof (unfold_locales, goal_cases)
  case (1 r v e r')
  then show ?case by (rule evict_replace_inv)
next
  case (2 r v b r')
  then show ?case
    using replacer_access_facts [of v r b r'] by (auto simp: replacer_inv_def cached_def)
next
  case (3 r)
  then show ?case
    by (auto simp: replacer_inv_def cached_def intro: order_trans [OF card_length])
qed

lemma evict_replace_full:
  assumes "replacer_inv r" and "evict_replace v r = (Some x, r')"
  shows "card (cached r) = rsize r"
proof -
  have "cache_is_full r"
    using assms(2) by (auto simp: evict_replace_def split: if_splits)
  then show ?thesis
    using assms(1) by (simp add: cache_is_full_def replacer_inv_def cached_def cached_list_def
        distinct_card del: set_append set_map)
qed

lemma replacer_inv_new: "0 < n \<Longrightarrow> replacer_inv (replacer_new n)"
  by (simp add: replacer_inv_def replacer_new_def cached_list_def)

lemma rsize_new [simp]: "rsize (replacer_new n) = n"
  by (simp add: replacer_new_def)

lemma cached_new [simp]: "cached (replacer_new n) = {}"
  by (simp add: cached_def cached_list_def replacer_new_def)

text \<open>
  C22: Inserting a value that is not cached keeps the replacer consistent and within its size;
  it evicts nothing while there is room, otherwise exactly one cached value, which is no
  longer cached afterwards while every other value still is.
\<close>

theorem evict_replace_contract:
  assumes "replacer_inv r" and "v \<notin> cached r" and "evict_replace v r = (ev, r')"
  shows "replacer_inv r' \<and> (case ev of
      None \<Rightarrow> cached r' = insert v (cached r) \<and> card (cached r) < rsize r
    | Some x \<Rightarrow> x \<in> cached r \<and> card (cached r) = rsize r \<and> cached r' = insert v (cached r - {x}))"
  using car.replace_ok [OF assms] evict_replace_full [OF assms(1)] assms(3) by (auto split: option.splits)

theorem evict_replace_contract_witness:
  "\<exists>r'. evict_replace (5::nat) (snd (evict_replace 3 (replacer_new 1))) = (Some 3, r') \<and> cached r' = {5}"
proof -
  have i: "replacer_inv (replacer_new 1 :: nat replacer)" by (simp add: replacer_inv_new)
  obtain e1 r1 where r1: "evict_replace (3::nat) (replacer_new 1) = (e1, r1)" by force
  have c1: "e1 = None" "cached r1 = {3}" "replacer_inv r1" "rsize r1 = 1"
    using evict_replace_contract [OF i _ r1] car.replace_ok [OF i _ r1]
    by (auto split: option.splits)
  obtain e2 r2 where r2: "evict_replace 5 r1 = (e2, r2)" by force
  show ?thesis
    using evict_replace_contract [OF c1(3) _ r2] c1 r1 r2 by (auto split: option.splits)
qed

text \<open>
  Second chance: with the target size that every reachable replacer has (see the next
  property), a value of \<open>recent\<close> that was accessed is never evicted while an unaccessed one is
  behind it; the first unaccessed value is.
\<close>

theorem evict_second_chance:
  assumes "recent_target_size r = 0" and "dropWhile was_referenced (recent r) = x # xs"
  shows "fst (evict r) = Some (item_value x)"
  using assms
proof (induction "recent r" arbitrary: r)
  case Nil
  then show ?case by (metis dropWhile.simps(1) list.distinct(1))
next
  case (Cons y ys)
  obtain v b where y: "y = ClockItem v b" by (cases y)
  have full: "recent_cache_is_full r"
    using Cons.hyps(2) Cons.prems(1) by (auto simp: recent_cache_is_full_def)
  note rec = Cons.hyps(2) [symmetric, unfolded y]
  show ?case
  proof (cases b)
    case True
    let ?r1 = "r\<lparr>recent := ys, frequent := clock_insert v (frequent r)\<rparr>"
    have "fst (evict ?r1) = Some (item_value x)"
      using Cons.hyps(1) [of ?r1] Cons.prems rec True by simp
    then show ?thesis using evict_promote [OF full] rec True by simp
  next
    case False
    then show ?thesis using evict_recent [OF full] rec Cons.prems(2) by auto
  qed
qed

theorem evict_second_chance_witness:
  "fst (evict ((replacer_new 3)\<lparr>recent := [ClockItem (1::nat) True, ClockItem 2 False, ClockItem 3 True]\<rparr>)) = Some 2"
  using evict_second_chance [of "(replacer_new 3)\<lparr>recent := [ClockItem (1::nat) True, ClockItem 2 False, ClockItem 3 True]\<rparr>"]
  by (simp add: replacer_new_def)

section \<open>The history of recent values is dead\<close>

text \<open>The states a replacer can be in: its operations in any order.\<close>

inductive replacer_reach :: "nat \<Rightarrow> 'a replacer \<Rightarrow> bool" for n where
  new: "replacer_reach n (replacer_new n)"
| access: "replacer_reach n r \<Longrightarrow> replacer_reach n (snd (replacer_access v r))"
| replace: "replacer_reach n r \<Longrightarrow> v \<notin> cached r \<Longrightarrow> replacer_reach n (snd (evict_replace v r))"

lemma evict_replace_recent_history:
  assumes "recent_history r = lru_new" and "recent_target_size r = 0"
  shows "recent_history (snd (evict_replace v r)) = lru_new"
    and "recent_target_size (snd (evict_replace v r)) = 0"
proof -
  obtain ev r1 where e: "evict r = (ev, r1)" by force
  have fr: "recent_history r1 = lru_new" "recent_target_size r1 = 0"
    using evict_frame [OF e] assms by simp_all
  define r2 where "r2 = (if value_in_history v r1 then r1 else maybe_evict_history r1)"
  have r2: "recent_history r2 = lru_new" "recent_target_size r2 = 0"
    using fr by (simp_all add: r2_def maybe_evict_history_def dequeue_def lru_new_def)
  have ins: "recent_history (replacer_insert v q) = lru_new \<and> recent_target_size (replacer_insert v q) = 0"
    if "recent_history q = lru_new" "recent_target_size q = 0" for q
    using that by (simp add: replacer_insert_def Let_def lru_contains_def lru_new_def
        decrease_recent_target_def)
  show "recent_history (snd (evict_replace v r)) = lru_new"
    and "recent_target_size (snd (evict_replace v r)) = 0"
    using ins [OF r2] ins [OF assms] by (simp_all add: evict_replace_def e r2_def Let_def)
qed

lemma reach_not_adapting:
  assumes "replacer_reach n r"
  shows "recent_history r = lru_new \<and> recent_target_size r = 0"
  using assms
proof (induction rule: replacer_reach.induct)
  case new
  show ?case by (simp add: replacer_new_def)
next
  case (access r v)
  then show ?case
    by (simp add: replacer_access_facts [OF prod.collapse [symmetric]])
next
  case (replace r v)
  then show ?case by (simp add: evict_replace_recent_history)
qed

text \<open>
  C40: The adaptive part of the policy never acts: in every reachable state the history of
  \<open>recent\<close> is empty and the target size of \<open>recent\<close> is 0, because \<open>evict\<close> files the values it
  drops from \<open>recent\<close> into the history of \<open>frequent\<close>.
\<close>

theorem replacer_never_adapts:
  assumes "replacer_reach n r"
  shows "recent_history r = lru_new \<and> recent_target_size r = 0"
  by (rule reach_not_adapting [OF assms])

theorem replacer_never_adapts_witness:
  "recent_target_size (snd (evict_replace (2::nat) (snd (evict_replace 1 (replacer_new 1))))) = 0"
proof -
  have "(1::nat) \<notin> cached (replacer_new 1)" by simp
  then have 1: "replacer_reach 1 (snd (evict_replace (1::nat) (replacer_new 1)))"
    by (rule replacer_reach.replace [OF replacer_reach.new])
  have "2 \<notin> cached (snd (evict_replace (1::nat) (replacer_new 1)))"
    by (simp add: evict_replace_def cache_is_full_def replacer_new_def cached_def cached_list_def
        replacer_insert_def lru_contains_def lru_new_def clock_insert_def)
  from replacer_never_adapts [OF replacer_reach.replace [OF 1 this]] show ?thesis ..
qed

section \<open>The histories are not bounded\<close>

text \<open>Two values taking turns in a cache of one.\<close>

fun take_turns :: "nat \<Rightarrow> bool replacer" where
  "take_turns 0 = snd (evict_replace False (snd (evict_replace True (replacer_new 1))))"
| "take_turns (Suc k) = snd (evict_replace False (snd (evict_replace True (take_turns k))))"

definition holds_one :: "bool \<Rightarrow> nat \<Rightarrow> bool replacer \<Rightarrow> bool" where
  "holds_one b n r \<longleftrightarrow> rsize r = 1 \<and> recent_target_size r = 0 \<and> recent_history r = lru_new
     \<and> (\<not> b) \<in> lru_set (frequent_history r) \<and> lru_len (frequent_history r) = n
     \<and> (recent r = [ClockItem b False] \<and> frequent r = [] \<or> recent r = [] \<and> frequent r = [ClockItem b False])"

lemma holds_one_cached: "holds_one b n r \<Longrightarrow> cached r = {b}"
  by (auto simp: holds_one_def cached_def cached_list_def)

lemma holds_one_step:
  assumes "holds_one b n r"
  shows "holds_one (\<not> b) (Suc n) (snd (evict_replace (\<not> b) r))"
proof -
  have full: "cache_is_full r"
    using assms by (auto simp: holds_one_def cache_is_full_def)
  have "\<exists>r1. evict r = (Some b, r1) \<and> recent r1 = [] \<and> frequent r1 = [] \<and> rsize r1 = 1
      \<and> recent_target_size r1 = 0 \<and> recent_history r1 = lru_new
      \<and> frequent_history r1 = enqueue b (frequent_history r)"
    using assms evict_recent [of r b "[]"] evict_frequent [of r b "[]"]
    by (auto simp: holds_one_def recent_cache_is_full_def)
  then obtain r1 where r1: "evict r = (Some b, r1)" "recent r1 = []" "frequent r1 = []" "rsize r1 = 1"
      "recent_target_size r1 = 0" "recent_history r1 = lru_new"
      "frequent_history r1 = enqueue b (frequent_history r)"
    by blast
  have "value_in_history (\<not> b) r1"
    using assms r1 by (simp add: value_in_history_def lru_contains_def enqueue_def holds_one_def)
  then show ?thesis
    using assms r1 full
    by (simp add: evict_replace_def holds_one_def replacer_insert_def Let_def lru_contains_def
        lru_new_def enqueue_def decrease_recent_target_def clock_insert_def lru_len_def)
qed

lemma holds_one_start: "holds_one False 1 (take_turns 0)"
proof -
  have 1: "evict_replace True (replacer_new 1)
      = (None, replacer_new 1 \<lparr>recent := [ClockItem True False]\<rparr>)" (is "_ = (None, ?r)")
    by (simp add: evict_replace_def cache_is_full_def replacer_new_def replacer_insert_def
        lru_contains_def lru_new_def clock_insert_def)
  let ?q = "?r\<lparr>recent := [], frequent_history := enqueue True lru_new\<rparr>"
  have 2: "evict ?r = (Some True, ?q)"
    using evict_recent [of ?r True "[]"] by (simp add: recent_cache_is_full_def replacer_new_def lru_new_def)
  have "maybe_evict_history ?q = ?q"
    by (simp add: maybe_evict_history_def recent_history_is_full_def frequent_history_is_full_def
        lru_len_def lru_new_def enqueue_def replacer_new_def)
  moreover have "\<not> value_in_history False ?q"
    by (simp add: value_in_history_def lru_contains_def lru_new_def enqueue_def replacer_new_def)
  moreover have "cache_is_full ?r" by (simp add: cache_is_full_def replacer_new_def)
  ultimately have 3: "snd (evict_replace False ?r) = replacer_insert False ?q"
    by (simp only: evict_replace_def 2 Let_def if_True if_False prod.case snd_conv)
  have "take_turns 0 = replacer_insert False ?q"
    by (simp only: take_turns.simps 1 snd_conv 3)
  then show ?thesis
    by (simp add: holds_one_def replacer_insert_def lru_contains_def lru_new_def clock_insert_def
        replacer_new_def enqueue_def lru_len_def)
qed

lemma take_turns_holds: "holds_one False (2 * k + 1) (take_turns k)"
proof (induction k)
  case 0
  show ?case using holds_one_start by simp
next
  case (Suc k)
  from holds_one_step [OF holds_one_step [OF Suc]] show ?case by simp
qed

lemma take_turns_reach: "replacer_reach 1 (take_turns k)"
proof (induction k)
  case 0
  have "True \<notin> cached (replacer_new 1)" by simp
  from replacer_reach.replace [OF replacer_reach.new this]
  have 1: "replacer_reach 1 (snd (evict_replace True (replacer_new 1)))" .
  have "False \<notin> cached (snd (evict_replace True (replacer_new 1)))"
    by (simp add: evict_replace_def cache_is_full_def replacer_new_def replacer_insert_facts(1)
        del: One_nat_def) (simp add: cached_def cached_list_def)
  from replacer_reach.replace [OF 1 this] show ?case by simp
next
  case (Suc k)
  have h: "holds_one True (Suc (2 * k + 1)) (snd (evict_replace True (take_turns k)))"
    using holds_one_step [OF take_turns_holds [of k]] by simp
  have "True \<notin> cached (take_turns k)" using holds_one_cached [OF take_turns_holds] by simp
  from replacer_reach.replace [OF Suc this]
  have 1: "replacer_reach 1 (snd (evict_replace True (take_turns k)))" .
  have "False \<notin> cached (snd (evict_replace True (take_turns k)))"
    using holds_one_cached [OF h] by simp
  from replacer_reach.replace [OF 1 this] show ?case by simp
qed

text \<open>
  The histories have no bound, although the documented requirement is
  \<open>|recent| + |frequent| + |recent_history| + |frequent_history| <= 2 * size\<close>: a cache of size
  one that two values use in turns has a history longer than any number given, because a value
  that is found in the history is enqueued again later without having been taken out.
\<close>

theorem history_unbounded: "\<exists>r :: bool replacer. replacer_reach 1 r \<and> b < lru_len (frequent_history r)"
proof (intro exI conjI)
  show "replacer_reach 1 (take_turns b)" by (rule take_turns_reach)
  show "b < lru_len (frequent_history (take_turns b))"
    using take_turns_holds [of b] by (simp add: holds_one_def)
qed

end
