(* ===== verification/Physical.thy ===== *)
theory Physical
  imports StoreTypes DbFolder Replacer
begin

text \<open>
  The physical storage of \<open>page_store/physical.rs\<close>: pages addressed by segment and page
  number, on segment files that are opened on demand and kept open in a cache of descriptors
  of bounded size.

  Segment files are read and written at explicit positions and are never deleted, so an open
  descriptor is a handle on the file in the folder: all handles of a segment see the same
  bytes, and closing one loses nothing. The debug assertions of \<open>DescriptorCache\<close> hold by
  the invariant below.
\<close>

section \<open>Segment files behind handles\<close>

text \<open>The operations of \<open>SegmentFileApi\<close> and \<open>open_segment_file\<close>, on the state of the folder.\<close>

record ('s, 'h) segment_api =
  sa_open :: "u32 \<Rightarrow> ('s, file_error, 'h) prog"
  sa_read :: "'h \<Rightarrow> u16 \<Rightarrow> ('s, file_error, page_read) prog"
  sa_write :: "'h \<Rightarrow> segment_write_op \<Rightarrow> ('s, file_error, unit) prog"
  sa_batch :: "'h \<Rightarrow> segment_op list \<Rightarrow> ('s, file_error, page_read option list) prog"

definition on_segment_file :: "u32 \<Rightarrow> (rfile, file_error, 'a) prog \<Rightarrow> (database_folder, file_error, 'a) prog" where
  "on_segment_file n m d = (case map_of (segments_dir d) (segment_file_name n) of
     Some (RegularFile bs) \<Rightarrow> (case m \<lparr>content = bs, pos = 0\<rparr> of (r, f) \<Rightarrow>
       (r, d\<lparr>segments_dir := AList.update (segment_file_name n) (RegularFile (content f)) (segments_dir d)\<rparr>))
   | _ \<Rightarrow> (Panic, d))"

definition segment_api_impl :: "(byte list \<Rightarrow> u16) \<Rightarrow> (database_folder, u32) segment_api" where
  "segment_api_impl crc = \<lparr>sa_open = (\<lambda>n. bindp (open_segment_file n) (\<lambda>_. ret n)),
     sa_read = (\<lambda>n p. on_segment_file n (segment_read crc p)),
     sa_write = (\<lambda>n w. on_segment_file n (segment_write crc w)),
     sa_batch = (\<lambda>n ops. on_segment_file n (segment_batch crc ops))\<rparr>"

section \<open>The storage\<close>

record ('s, 'h) descriptor_cache =
  descriptors :: "(u32 \<times> 'h) list"
  dreplacer :: "u32 replacer"
  max_num_open_segments :: nat

text \<open>
  The state between calls. While a call opens a file that is not in the table it holds that file
  too, until the table has taken it.
\<close>

record ('s, 'h) physical_storage =
  pfolder :: 's
  descriptor_cache :: "('s, 'h) descriptor_cache"

definition descriptor_cache_new :: "nat \<Rightarrow> ('s, 'h) descriptor_cache" where
  "descriptor_cache_new n = \<lparr>descriptors = [], dreplacer = replacer_new n, max_num_open_segments = n\<rparr>"

definition physical_storage_new :: "'s \<Rightarrow> nat \<Rightarrow> ('s, 'h) physical_storage" where
  "physical_storage_new s n = \<lparr>pfolder = s, descriptor_cache = descriptor_cache_new n\<rparr>"

definition get_descriptor :: "u32 \<Rightarrow> ('s, 'h) descriptor_cache \<Rightarrow> 'h option \<times> ('s, 'h) descriptor_cache" where
  "get_descriptor n c = (case map_of (descriptors c) n of
     None \<Rightarrow> (None, c)
   | Some h \<Rightarrow> (Some h, c\<lparr>dreplacer := snd (replacer_access n (dreplacer c))\<rparr>))"

definition store_descriptor :: "u32 \<Rightarrow> 'h \<Rightarrow> ('s, 'h) descriptor_cache \<Rightarrow> ('s, 'h) descriptor_cache" where
  "store_descriptor n h c = (case evict_replace n (dreplacer c) of (e, r) \<Rightarrow>
     c\<lparr>dreplacer := r, descriptors := AList.update n h
        (case e of None \<Rightarrow> descriptors c | Some k \<Rightarrow> AList.delete k (descriptors c))\<rparr>)"

definition on_pfolder :: "('s, file_error, 'a) prog \<Rightarrow> (('s, 'h) physical_storage, storage_error, 'a) prog" where
  "on_pfolder m ps = (case m (pfolder ps) of (r, s) \<Rightarrow> (oc_map_err File r, ps\<lparr>pfolder := s\<rparr>))"

definition use_segment :: "('s, 'h) segment_api \<Rightarrow> u32 \<Rightarrow> ('h \<Rightarrow> ('s, file_error, 'a) prog)
    \<Rightarrow> (('s, 'h) physical_storage, storage_error, 'a) prog" where
  "use_segment sapi n handler =
     bindp get_state (\<lambda>ps. case get_descriptor n (descriptor_cache ps) of
       (Some h, c) \<Rightarrow> bindp (modify (\<lambda>ps. ps\<lparr>descriptor_cache := c\<rparr>)) (\<lambda>_. on_pfolder (handler h))
     | (None, _) \<Rightarrow>
         bindp (on_pfolder (sa_open sapi n)) (\<lambda>h.
         bindp (modify (\<lambda>ps. ps\<lparr>descriptor_cache := store_descriptor n h (descriptor_cache ps)\<rparr>)) (\<lambda>_.
           on_pfolder (handler h))))"

record write_op =
  wo_wal_index :: wal_index
  wo_page_address :: page_address
  wo_buf :: "byte list"

datatype storage_op = OpRead page_address | OpStore write_op

definition write_op_into :: "write_op \<Rightarrow> segment_write_op" where
  "write_op_into op = \<lparr>swo_page_num = page_num (wo_page_address op), swo_wal_index = wo_wal_index op,
     swo_buf = wo_buf op\<rparr>"

definition physical_read :: "('s, 'h) segment_api \<Rightarrow> page_address
    \<Rightarrow> (('s, 'h) physical_storage, storage_error, page_read) prog" where
  "physical_read sapi a = use_segment sapi (segment_num a) (\<lambda>h. sa_read sapi h (page_num a))"

definition physical_write :: "('s, 'h) segment_api \<Rightarrow> write_op
    \<Rightarrow> (('s, 'h) physical_storage, storage_error, unit) prog" where
  "physical_write sapi op = use_segment sapi (segment_num (wo_page_address op))
     (\<lambda>h. sa_write sapi h (write_op_into op))"

fun storage_op_into :: "storage_op \<Rightarrow> u32 \<times> segment_op" where
  "storage_op_into (OpRead a) = (segment_num a, SegRead (page_num a))"
| "storage_op_into (OpStore w) = (segment_num (wo_page_address w), SegWrite (write_op_into w))"

text \<open>\<open>entry(segment_num).or_default().push(op)\<close>\<close>

definition push_batch :: "u32 \<times> 'o \<Rightarrow> (u32 \<times> 'o list) list \<Rightarrow> (u32 \<times> 'o list) list" where
  "push_batch so bs = (case map_of bs (fst so) of
     None \<Rightarrow> AList.update (fst so) [snd so] bs
   | Some ops \<Rightarrow> AList.update (fst so) (ops @ [snd so]) bs)"

definition segment_batches :: "storage_op list \<Rightarrow> (u32 \<times> segment_op list) list" where
  "segment_batches ops = fold (\<lambda>op. push_batch (storage_op_into op)) ops []"

definition physical_batch :: "('s, 'h) segment_api \<Rightarrow> storage_op list
    \<Rightarrow> (('s, 'h) physical_storage, storage_error, unit) prog" where
  "physical_batch sapi ops =
     for_each (\<lambda>(n, sops). bindp (use_segment sapi n (\<lambda>h. sa_batch sapi h sops)) (\<lambda>_. ret ()))
       (segment_batches ops)"

section \<open>The interface of segment files\<close>

text \<open>
  \<open>view s n\<close> is what reading the pages of segment \<open>n\<close> gives; \<open>hnd s h n\<close> that \<open>h\<close> is an
  open handle on it.
\<close>

locale segment_store =
  fixes sapi :: "('s, 'h) segment_api"
    and view :: "'s \<Rightarrow> u32 \<Rightarrow> u16 \<Rightarrow> (file_error, page_read) outcome"
    and hnd :: "'s \<Rightarrow> 'h \<Rightarrow> u32 \<Rightarrow> bool"
    and sinv :: "'s \<Rightarrow> bool"
  assumes open_ok: "sinv s \<Longrightarrow> \<exists>h s'. sa_open sapi n s = (Ok h, s') \<and> sinv s' \<and> view s' = view s
        \<and> hnd s' h n \<and> (\<forall>h' m. hnd s h' m \<longrightarrow> hnd s' h' m)"
    and read_ok: "sinv s \<Longrightarrow> hnd s h n \<Longrightarrow> p \<noteq> 0 \<Longrightarrow> \<exists>s'. sa_read sapi h p s = (view s n p, s') \<and> sinv s'
        \<and> view s' = view s \<and> (\<forall>h' m. hnd s h' m \<longrightarrow> hnd s' h' m)"
    and write_ok: "sinv s \<Longrightarrow> hnd s h n \<Longrightarrow> swo_page_num w \<noteq> 0 \<Longrightarrow> wf_wal_index (swo_wal_index w) \<Longrightarrow>
        length (swo_buf w) = PAGE_BODY_SIZE \<Longrightarrow> \<exists>s'. sa_write sapi h w s = (Ok (), s') \<and> sinv s'
        \<and> view s' = (view s)(n := (view s n)(swo_page_num w := Ok (Some (swo_wal_index w), swo_buf w)))
        \<and> (\<forall>h' m. hnd s h' m \<longrightarrow> hnd s' h' m)"
    and batch_ok: "sinv s \<Longrightarrow> hnd s h n \<Longrightarrow> \<forall>w \<in> set ws. swo_page_num w \<noteq> 0 \<and> wf_wal_index (swo_wal_index w)
        \<and> length (swo_buf w) = PAGE_BODY_SIZE \<Longrightarrow>
        \<exists>rs s'. sa_batch sapi h (map SegWrite ws) s = (Ok rs, s') \<and> sinv s'
        \<and> view s' = (view s)(n := fold (\<lambda>w v. v(swo_page_num w := Ok (Some (swo_wal_index w), swo_buf w))) ws (view s n))
        \<and> (\<forall>h' m. hnd s h' m \<longrightarrow> hnd s' h' m)"

text \<open>
  The invariant of the storage: the descriptor table holds what the replacement policy tracks,
  and every descriptor is an open handle on its segment.
\<close>

definition physical_inv :: "('s \<Rightarrow> 'h \<Rightarrow> u32 \<Rightarrow> bool) \<Rightarrow> ('s \<Rightarrow> bool) \<Rightarrow> ('s, 'h) physical_storage \<Rightarrow> bool" where
  "physical_inv hnd sinv ps \<longleftrightarrow> sinv (pfolder ps)
     \<and> replacer_inv (dreplacer (descriptor_cache ps))
     \<and> rsize (dreplacer (descriptor_cache ps)) = max_num_open_segments (descriptor_cache ps)
     \<and> keys_of (descriptors (descriptor_cache ps)) = cached (dreplacer (descriptor_cache ps))
     \<and> distinct_keys (descriptors (descriptor_cache ps))
     \<and> (\<forall>(n, h) \<in> set (descriptors (descriptor_cache ps)). hnd (pfolder ps) h n)"

lemma set_update_pairs: "set (AList.update k v m) \<subseteq> insert (k, v) (set m)"
  by (induction m) auto

lemma set_delete_subset': "set (AList.delete k m) \<subseteq> set m"
  by (auto simp: AList.delete_eq)

text \<open>Running a program through \<open>use_segment\<close>: on an open handle, with the invariant kept.\<close>

context segment_store begin

lemma use_segment_ok:
  assumes pinv: "physical_inv hnd sinv ps"
    and m: "\<And>h s. sinv s \<Longrightarrow> hnd s h n \<Longrightarrow> view s = view (pfolder ps) \<Longrightarrow>
      \<exists>x s'. m h s = (x, s') \<and> sinv s' \<and> R x s' \<and> (\<forall>h' k. hnd s h' k \<longrightarrow> hnd s' h' k)"
  shows "\<exists>x ps'. use_segment sapi n m ps = (oc_map_err File x, ps') \<and> physical_inv hnd sinv ps'
    \<and> R x (pfolder ps')
    \<and> rsize (dreplacer (descriptor_cache ps')) = rsize (dreplacer (descriptor_cache ps))"
proof -
  let ?c = "descriptor_cache ps"
  have inv: "replacer_inv (dreplacer ?c)" "keys_of (descriptors ?c) = cached (dreplacer ?c)"
    "distinct_keys (descriptors ?c)" "\<forall>(k, h) \<in> set (descriptors ?c). hnd (pfolder ps) h k" "sinv (pfolder ps)"
    and size: "rsize (dreplacer ?c) = max_num_open_segments ?c"
    using pinv by (simp_all add: physical_inv_def)
  show ?thesis
  proof (cases "map_of (descriptors ?c) n")
    case (Some h)
    obtain b rr where acc: "replacer_access n (dreplacer ?c) = (b, rr)" by force
    have rr: "replacer_inv rr" "cached rr = cached (dreplacer ?c)" "rsize rr = rsize (dreplacer ?c)"
      using car.access_ok [OF inv(1) acc] by simp_all
    have h: "hnd (pfolder ps) h n" using inv(4) map_of_SomeD [OF Some] by auto
    obtain x s' where s': "m h (pfolder ps) = (x, s')" "sinv s'" "R x s'"
        "\<forall>h' k. hnd (pfolder ps) h' k \<longrightarrow> hnd s' h' k"
      using m [OF inv(5) h refl] by blast
    let ?ps = "ps\<lparr>descriptor_cache := ?c\<lparr>dreplacer := rr\<rparr>, pfolder := s'\<rparr>"
    have "use_segment sapi n m ps = (oc_map_err File x, ?ps)"
      using Some acc s'(1) by (simp add: use_segment_def prog_simps get_descriptor_def on_pfolder_def)
    moreover have "physical_inv hnd sinv ?ps"
      using inv size rr s' by (auto simp: physical_inv_def)
    ultimately show ?thesis using s'(3) rr(3) by force
  next
    case None
    obtain h s where s: "sa_open sapi n (pfolder ps) = (Ok h, s)" "sinv s" "view s = view (pfolder ps)"
        "hnd s h n" "\<forall>h' k. hnd (pfolder ps) h' k \<longrightarrow> hnd s h' k"
      using open_ok [OF inv(5)] by blast
    obtain e rr where er: "evict_replace n (dreplacer ?c) = (e, rr)" by force
    have nc: "n \<notin> cached (dreplacer ?c)"
      using None inv(2) by (simp add: map_of_eq_None_iff)
    have rr: "replacer_inv rr" "rsize rr = rsize (dreplacer ?c)"
      using car.replace_ok [OF inv(1) nc er] by simp_all
    define ds where "ds = (case e of None \<Rightarrow> descriptors ?c | Some k \<Rightarrow> AList.delete k (descriptors ?c))"
    have ds: "set ds \<subseteq> set (descriptors ?c)" "distinct_keys ds"
      using inv(3) by (cases e; simp add: ds_def set_delete_subset')+
    have keys: "keys_of (AList.update n h ds) = cached rr"
      using car.table_replace [OF inv(1,2) nc er] by (simp add: ds_def)
    obtain x s' where s': "m h s = (x, s')" "sinv s'" "R x s'" "\<forall>h' k. hnd s h' k \<longrightarrow> hnd s' h' k"
      using m [OF s(2,4,3)] by blast
    let ?ps = "ps\<lparr>pfolder := s', descriptor_cache := ?c\<lparr>dreplacer := rr, descriptors := AList.update n h ds\<rparr>\<rparr>"
    have "use_segment sapi n m ps = (oc_map_err File x, ?ps)"
      using None s(1) er s'(1) by (cases e) (simp_all add: use_segment_def prog_simps get_descriptor_def
          on_pfolder_def bindp_Ok store_descriptor_def ds_def)
    moreover have "hnd s' h' k" if "(k, h') \<in> set (AList.update n h ds)" for k h'
    proof -
      have "(k, h') = (n, h) \<or> (k, h') \<in> set (descriptors ?c)"
        using that set_update_pairs [of n h ds] ds(1) by blast
      then show ?thesis using s(4,5) s'(4) inv(4) by auto
    qed
    then have "physical_inv hnd sinv ?ps"
      using rr size keys ds(2) s'(2) by (auto simp: physical_inv_def)
    ultimately show ?thesis using s'(3) rr(2) by force
  qed
qed

end

definition phys_view :: "('s \<Rightarrow> u32 \<Rightarrow> u16 \<Rightarrow> (file_error, page_read) outcome) \<Rightarrow> ('s, 'h) physical_storage
    \<Rightarrow> page_address \<Rightarrow> (storage_error, page_read) outcome" where
  "phys_view view ps a = oc_map_err File (view (pfolder ps) (segment_num a) (page_num a))"

definition physical_write_at :: "('s, 'h) segment_api \<Rightarrow> page_address \<Rightarrow> wal_index \<Rightarrow> byte list
    \<Rightarrow> (('s, 'h) physical_storage, storage_error, unit) prog" where
  "physical_write_at sapi a i b =
     physical_write sapi \<lparr>wo_wal_index = i, wo_page_address = a, wo_buf = b\<rparr>"

lemma page_address_update:
  "(\<lambda>a. oc_map_err File ((v(segment_num b := (v (segment_num b))(page_num b := Ok x))) (segment_num a) (page_num a)))
   = (\<lambda>a. oc_map_err File (v (segment_num a) (page_num a)))(b := Ok x)"
  by (rule ext) (auto simp: page_address.expand)

text \<open>A storage on segment files is a page device addressed by segment and page.\<close>

sublocale segment_store \<subseteq> phys: page_device "physical_read sapi" "physical_write_at sapi" "phys_view view"
    "physical_inv hnd sinv" wf_page_address
proof (unfold_locales, goal_cases)
  case (1 ps a)
  have p: "page_num a \<noteq> 0" using 1(2) by (simp add: wf_page_address_def)
  have m: "\<exists>x s'. sa_read sapi h (page_num a) s = (x, s') \<and> sinv s'
      \<and> (x = view (pfolder ps) (segment_num a) (page_num a) \<and> view s' = view (pfolder ps)) \<and> (\<forall>h' k. hnd s h' k \<longrightarrow> hnd s' h' k)"
    if "sinv s" "hnd s h (segment_num a)" "view s = view (pfolder ps)" for h s
    using read_ok [OF that(1,2) p] that(3) by simp
  show ?case
    using use_segment_ok [where m = "\<lambda>h. sa_read sapi h (page_num a)" and n = "segment_num a"
        and R = "\<lambda>x s'. x = view (pfolder ps) (segment_num a) (page_num a) \<and> view s' = view (pfolder ps)", OF 1(1) m]
    by (auto simp: physical_read_def phys_view_def fun_eq_iff)
next
  case (2 ps a i b)
  have p: "page_num a \<noteq> 0" using 2(2) by (simp add: wf_page_address_def)
  let ?w = "\<lparr>swo_page_num = page_num a, swo_wal_index = i, swo_buf = b\<rparr>"
  let ?v = "(view (pfolder ps))(segment_num a := (view (pfolder ps) (segment_num a))(page_num a := Ok (Some i, b)))"
  have m: "\<exists>x s'. sa_write sapi h ?w s = (x, s') \<and> sinv s' \<and> (x = Ok () \<and> view s' = ?v)
      \<and> (\<forall>h' k. hnd s h' k \<longrightarrow> hnd s' h' k)"
    if t: "sinv s" "hnd s h (segment_num a)" "view s = view (pfolder ps)" for h s
  proof -
    have "\<exists>s'. sa_write sapi h ?w s = (Ok (), s') \<and> sinv s'
        \<and> view s' = (view s)(segment_num a := (view s (segment_num a))(page_num a := Ok (Some i, b)))
        \<and> (\<forall>h' k. hnd s h' k \<longrightarrow> hnd s' h' k)"
      using write_ok [OF t(1,2), of ?w] p 2(3,4) by simp
    then show ?thesis unfolding t(3) by blast
  qed
  from use_segment_ok [where m = "\<lambda>h. sa_write sapi h ?w" and n = "segment_num a"
      and R = "\<lambda>x s'. x = Ok () \<and> view s' = ?v", OF 2(1) m]
  obtain x ps' where u: "use_segment sapi (segment_num a) (\<lambda>h. sa_write sapi h ?w) ps = (oc_map_err File x, ps')"
      "x = Ok ()" "physical_inv hnd sinv ps'" "view (pfolder ps') = ?v"
    by blast
  have ps': "use_segment sapi (segment_num a) (\<lambda>h. sa_write sapi h ?w) ps = (Ok (), ps')"
      "physical_inv hnd sinv ps'" "view (pfolder ps') = ?v"
    using u(1) by (simp only: u(2) oc_map_err.simps) (fact u(3,4))+
  have "phys_view view ps' = (phys_view view ps)(a := Ok (Some i, b))"
    using page_address_update [of "view (pfolder ps)" a "(Some i, b)"] ps'(3)
    unfolding phys_view_def [abs_def] by (simp only:)
  then show ?case
    using ps'(1,2) by (simp add: physical_write_at_def physical_write_def write_op_into_def)
qed

section \<open>Batches\<close>

lemma push_batch_map_of:
  "map_of (push_batch so bs) n = (if n = fst so then Some ((case map_of bs n of None \<Rightarrow> [] | Some ops \<Rightarrow> ops) @ [snd so])
     else map_of bs n)"
  by (auto simp: push_batch_def update_conv' split: option.split)

lemma distinct_push_batch: "distinct_keys bs \<Longrightarrow> distinct_keys (push_batch so bs)"
  by (simp add: push_batch_def split: option.split)

definition group_of :: "u32 \<Rightarrow> storage_op list \<Rightarrow> segment_op list" where
  "group_of n ops = map snd (filter (\<lambda>x. fst x = n) (map storage_op_into ops))"

lemma group_of_snoc:
  "group_of n (ops @ [op]) = group_of n ops @ (if fst (storage_op_into op) = n then [snd (storage_op_into op)] else [])"
  by (simp add: group_of_def)

lemma segment_batches_snoc:
  "segment_batches (ops @ [op]) = push_batch (storage_op_into op) (segment_batches ops)"
  by (simp add: segment_batches_def)

lemma distinct_segment_batches: "distinct_keys (segment_batches ops)"
  by (induction ops rule: rev_induct)
    (simp_all add: segment_batches_snoc distinct_push_batch, simp add: segment_batches_def)

lemma segment_batches_map_of:
  "map_of (segment_batches ops) n = (if group_of n ops = [] then None else Some (group_of n ops))"
proof (induction ops rule: rev_induct)
  case Nil
  show ?case by (simp add: segment_batches_def group_of_def)
next
  case (snoc op ops)
  then show ?case
    by (auto simp: segment_batches_snoc group_of_snoc push_batch_map_of)
qed

definition seg_apply :: "segment_op list \<Rightarrow> (u16 \<Rightarrow> (file_error, page_read) outcome)
    \<Rightarrow> u16 \<Rightarrow> (file_error, page_read) outcome" where
  "seg_apply ops v = fold (\<lambda>op v. case op of
     SegWrite w \<Rightarrow> v(swo_page_num w := Ok (Some (swo_wal_index w), swo_buf w)) | SegRead _ \<Rightarrow> v) ops v"

definition valid_write :: "write_op \<Rightarrow> bool" where
  "valid_write w \<longleftrightarrow> wf_page_address (wo_page_address w) \<and> wf_wal_index (wo_wal_index w)
     \<and> length (wo_buf w) = PAGE_BODY_SIZE"

lemma seg_apply_groups:
  "(\<lambda>a. oc_map_err File (seg_apply (group_of (segment_num a) (map OpStore ws)) (v (segment_num a)) (page_num a)))
   = fold (\<lambda>w f. f(wo_page_address w := Ok (Some (wo_wal_index w), wo_buf w))) ws
       (\<lambda>a. oc_map_err File (v (segment_num a) (page_num a)))"
proof (induction ws arbitrary: v)
  case Nil
  show ?case by (simp add: seg_apply_def group_of_def)
next
  case (Cons w ws)
  let ?a = "wo_page_address w" and ?x = "(Some (wo_wal_index w), wo_buf w)"
  let ?v = "v(segment_num ?a := (v (segment_num ?a))(page_num ?a := Ok ?x))"
  have "seg_apply (group_of n (map OpStore (w # ws))) (v n) = seg_apply (group_of n (map OpStore ws)) (?v n)" for n
    by (simp add: seg_apply_def group_of_def write_op_into_def)
  then have "(\<lambda>a. oc_map_err File (seg_apply (group_of (segment_num a) (map OpStore (w # ws))) (v (segment_num a)) (page_num a)))
      = fold (\<lambda>w f. f(wo_page_address w := Ok (Some (wo_wal_index w), wo_buf w))) ws
       (\<lambda>a. oc_map_err File (?v (segment_num a) (page_num a)))"
    by (simp only: Cons.IH [of ?v])
  also have "(\<lambda>a. oc_map_err File (?v (segment_num a) (page_num a)))
      = (\<lambda>a. oc_map_err File (v (segment_num a) (page_num a)))(?a := Ok ?x)"
    by (rule page_address_update)
  finally show ?case by simp
qed

context segment_store begin

lemma batch_groups_ok:
  assumes "physical_inv hnd sinv ps" and "distinct_keys bs"
    and "\<forall>(n, ops) \<in> set bs. \<exists>ws. ops = map SegWrite ws \<and> (\<forall>w \<in> set ws. swo_page_num w \<noteq> 0
      \<and> wf_wal_index (swo_wal_index w) \<and> length (swo_buf w) = PAGE_BODY_SIZE)"
  shows "\<exists>ps'. for_each (\<lambda>(n, sops). bindp (use_segment sapi n (\<lambda>h. sa_batch sapi h sops)) (\<lambda>_. ret ())) bs ps = (Ok (), ps')
    \<and> physical_inv hnd sinv ps' \<and> view (pfolder ps') = (\<lambda>n. case map_of bs n of
         None \<Rightarrow> view (pfolder ps) n | Some ops \<Rightarrow> seg_apply ops (view (pfolder ps) n))"
  using assms
proof (induction bs arbitrary: ps)
  case Nil
  then show ?case by (auto simp: prog_simps)
next
  case (Cons b bs)
  obtain n ws where b: "b = (n, map SegWrite ws)" and ws: "\<forall>w \<in> set ws. swo_page_num w \<noteq> 0
      \<and> wf_wal_index (swo_wal_index w) \<and> length (swo_buf w) = PAGE_BODY_SIZE"
    using Cons.prems(3) by (cases b) auto
  have sa: "fold (\<lambda>w v. v(swo_page_num w := Ok (Some (swo_wal_index w), swo_buf w))) ws v = seg_apply (map SegWrite ws) v" for v
    by (simp add: seg_apply_def fold_map comp_def)
  let ?v = "(view (pfolder ps))(n := seg_apply (map SegWrite ws) (view (pfolder ps) n))"
  have m: "\<exists>x s'. sa_batch sapi h (map SegWrite ws) s = (x, s') \<and> sinv s'
      \<and> ((\<exists>rs. x = Ok rs) \<and> view s' = ?v) \<and> (\<forall>h' k. hnd s h' k \<longrightarrow> hnd s' h' k)"
    if t: "sinv s" "hnd s h n" "view s = view (pfolder ps)" for h s
  proof -
    obtain rs s' where "sa_batch sapi h (map SegWrite ws) s = (Ok rs, s')" "sinv s'"
        "view s' = (view s)(n := seg_apply (map SegWrite ws) (view s n))" "\<forall>h' k. hnd s h' k \<longrightarrow> hnd s' h' k"
      using batch_ok [OF t(1,2) ws, unfolded sa] by blast
    then show ?thesis unfolding t(3) by blast
  qed
  from use_segment_ok [where m = "\<lambda>h. sa_batch sapi h (map SegWrite ws)" and n = n
      and R = "\<lambda>x s'. (\<exists>rs. x = Ok rs) \<and> view s' = ?v", OF Cons.prems(1) m]
  obtain x rs ps1 where u: "use_segment sapi n (\<lambda>h. sa_batch sapi h (map SegWrite ws)) ps = (oc_map_err File x, ps1)"
      "x = Ok rs" "physical_inv hnd sinv ps1" "view (pfolder ps1) = ?v"
    by blast
  have ps1: "use_segment sapi n (\<lambda>h. sa_batch sapi h (map SegWrite ws)) ps = (Ok rs, ps1)"
      "physical_inv hnd sinv ps1" "view (pfolder ps1) = ?v"
    using u(1) by (simp only: u(2) oc_map_err.simps) (fact u(3,4))+
  have nk: "map_of bs n = None" and dk: "distinct_keys bs"
    using Cons.prems(2) b by (simp_all add: distinct_keys_def map_of_eq_None_iff)
  obtain ps2 where ps2: "for_each (\<lambda>(n, sops). bindp (use_segment sapi n (\<lambda>h. sa_batch sapi h sops)) (\<lambda>_. ret ())) bs ps1 = (Ok (), ps2)"
      "physical_inv hnd sinv ps2" "view (pfolder ps2) = (\<lambda>k. case map_of bs k of
         None \<Rightarrow> view (pfolder ps1) k | Some ops \<Rightarrow> seg_apply ops (view (pfolder ps1) k))"
    using Cons.IH [OF ps1(2) dk] Cons.prems(3) by auto
  have "view (pfolder ps2) = (\<lambda>k. case map_of (b # bs) k of
         None \<Rightarrow> view (pfolder ps) k | Some ops \<Rightarrow> seg_apply ops (view (pfolder ps) k))"
    (is "_ = ?rhs")
  proof
    fix k
    show "view (pfolder ps2) k = ?rhs k"
      using nk unfolding ps2(3) ps1(3) by (cases "k = n"; cases "map_of bs k") (simp_all add: b)
  qed
  moreover have "bindp (use_segment sapi n (\<lambda>h. sa_batch sapi h (map SegWrite ws))) (\<lambda>_. ret ()) ps = (Ok (), ps1)"
    using ps1(1) by (simp add: bindp_Ok ret_def)
  then have "for_each (\<lambda>(n, sops). bindp (use_segment sapi n (\<lambda>h. sa_batch sapi h sops)) (\<lambda>_. ret ())) (b # bs) ps = (Ok (), ps2)"
    using ps2(1) by (simp add: b bindp_Ok)
  ultimately show ?case using ps2(2) by blast
qed

lemma physical_batch_ok:
  assumes "physical_inv hnd sinv ps" and "\<forall>w \<in> set ws. valid_write w"
  shows "\<exists>ps'. physical_batch sapi (map OpStore ws) ps = (Ok (), ps') \<and> physical_inv hnd sinv ps'
    \<and> phys_view view ps' = fold (\<lambda>w f. f(wo_page_address w := Ok (Some (wo_wal_index w), wo_buf w))) ws (phys_view view ps)"
proof -
  let ?bs = "segment_batches (map OpStore ws)"
  have g: "\<exists>vs. group_of n (map OpStore ws) = map SegWrite vs \<and> (\<forall>w \<in> set vs. swo_page_num w \<noteq> 0
      \<and> wf_wal_index (swo_wal_index w) \<and> length (swo_buf w) = PAGE_BODY_SIZE)" for n
    using assms(2) by (intro exI [of _ "map write_op_into (filter (\<lambda>w. segment_num (wo_page_address w) = n) ws)"])
      (auto simp: group_of_def filter_map comp_def write_op_into_def valid_write_def wf_page_address_def)
  have "\<forall>(n, ops) \<in> set ?bs. \<exists>vs. ops = map SegWrite vs \<and> (\<forall>w \<in> set vs. swo_page_num w \<noteq> 0
      \<and> wf_wal_index (swo_wal_index w) \<and> length (swo_buf w) = PAGE_BODY_SIZE)"
  proof clarify
    fix n ops
    assume "(n, ops) \<in> set ?bs"
    then have "map_of ?bs n = Some ops"
      using distinct_segment_batches by (intro map_of_is_SomeI) (simp_all add: distinct_keys_def)
    then have "ops = group_of n (map OpStore ws)"
      by (simp add: segment_batches_map_of split: if_splits)
    then show "\<exists>vs. ops = map SegWrite vs \<and> (\<forall>w \<in> set vs. swo_page_num w \<noteq> 0
      \<and> wf_wal_index (swo_wal_index w) \<and> length (swo_buf w) = PAGE_BODY_SIZE)" using g by simp
  qed
  from batch_groups_ok [OF assms(1) _ this]
  obtain ps' where ps': "physical_batch sapi (map OpStore ws) ps = (Ok (), ps')" "physical_inv hnd sinv ps'"
      "view (pfolder ps') = (\<lambda>n. case map_of ?bs n of
         None \<Rightarrow> view (pfolder ps) n | Some ops \<Rightarrow> seg_apply ops (view (pfolder ps) n))"
    using distinct_segment_batches by (auto simp: physical_batch_def)
  have "view (pfolder ps') = (\<lambda>n. seg_apply (group_of n (map OpStore ws)) (view (pfolder ps) n))"
    unfolding ps'(3) by (rule ext) (simp add: segment_batches_map_of seg_apply_def)
  then have "phys_view view ps' = fold (\<lambda>w f. f(wo_page_address w := Ok (Some (wo_wal_index w), wo_buf w))) ws (phys_view view ps)"
    using seg_apply_groups [of ws "view (pfolder ps)"] by (simp add: phys_view_def [abs_def])
  then show ?thesis using ps' by blast
qed

end

section \<open>The segment files of the folder\<close>

lemma show_nat_inject: "m < 2 ^ 64 \<Longrightarrow> n < 2 ^ 64 \<Longrightarrow> show_nat m = show_nat n \<longleftrightarrow> m = n"
  by (metis parse_show_nat option.inject)

lemma segment_file_name_inject [simp]: "segment_file_name m = segment_file_name n \<longleftrightarrow> m = n"
proof -
  have "unat k < 2 ^ 64" for k :: u32 using unat_bound [of k] by simp
  then show ?thesis by (simp add: segment_file_name_def show_nat_inject word_unat_eq_iff)
qed

definition folder_segments_ok :: "database_folder \<Rightarrow> bool" where
  "folder_segments_ok d \<longleftrightarrow> (\<forall>n e. map_of (segments_dir d) (segment_file_name n) = Some e \<longrightarrow>
     (\<exists>bs. e = RegularFile bs \<and> wf_segment \<lparr>content = bs, pos = 0\<rparr>))"

definition folder_segment_view :: "(byte list \<Rightarrow> u16) \<Rightarrow> database_folder \<Rightarrow> u32 \<Rightarrow> u16
    \<Rightarrow> (file_error, page_read) outcome" where
  "folder_segment_view crc d n p = (case map_of (segments_dir d) (segment_file_name n) of
     Some (RegularFile bs) \<Rightarrow> if p = 0 then Ok (None, replicate PAGE_BODY_SIZE 0)
       else segment_view crc \<lparr>content = bs, pos = 0\<rparr> p
   | _ \<Rightarrow> Ok (None, replicate PAGE_BODY_SIZE 0))"

definition folder_handle :: "database_folder \<Rightarrow> u32 \<Rightarrow> u32 \<Rightarrow> bool" where
  "folder_handle d h n \<longleftrightarrow> h = n \<and> map_of (segments_dir d) (segment_file_name n) \<noteq> None"

lemma wf_segment_pos: "wf_segment (f\<lparr>pos := p\<rparr>) = wf_segment f"
  by (simp add: wf_segment_def)

lemma segment_view_content: "content f = content g \<Longrightarrow> segment_view crc f p = segment_view crc g p"
  by (simp add: segment_view_def slot_def)

lemma wf_segment_content: "content f = content g \<Longrightarrow> wf_segment f = wf_segment g"
  by (simp add: wf_segment_def)

text \<open>Running a segment program on the file behind a handle.\<close>

lemma on_segment_file_ok:
  assumes "folder_segments_ok d" and h: "folder_handle d n n"
    and m: "\<And>f. wf_segment f \<Longrightarrow> \<exists>f'. m f = (r f, f') \<and> wf_segment f' \<and> segment_view crc f' = V (segment_view crc f)"
  shows "\<exists>f d'. on_segment_file n m d = (r f, d') \<and> folder_segments_ok d' \<and> wf_segment f
    \<and> (\<forall>p. p \<noteq> 0 \<longrightarrow> segment_view crc f p = folder_segment_view crc d n p)
    \<and> (\<forall>k p. folder_segment_view crc d' k p = (if k = n \<and> p \<noteq> 0 then V (segment_view crc f) p else folder_segment_view crc d k p))
    \<and> (\<forall>h' k. folder_handle d h' k \<longrightarrow> folder_handle d' h' k)"
proof -
  obtain bs where bs: "map_of (segments_dir d) (segment_file_name n) = Some (RegularFile bs)"
      "wf_segment \<lparr>content = bs, pos = 0\<rparr>"
    using assms(1) h by (auto simp: folder_segments_ok_def folder_handle_def)
  let ?f = "\<lparr>content = bs, pos = 0\<rparr>"
  obtain f' where f': "m ?f = (r ?f, f')" "wf_segment f'" "segment_view crc f' = V (segment_view crc ?f)"
    using m [OF bs(2)] by blast
  let ?d = "d\<lparr>segments_dir := AList.update (segment_file_name n) (RegularFile (content f')) (segments_dir d)\<rparr>"
  have w: "wf_segment \<lparr>content = content f', pos = 0\<rparr>"
    using f'(2) by (simp add: wf_segment_def)
  have v: "segment_view crc \<lparr>content = content f', pos = 0\<rparr> = V (segment_view crc ?f)"
    using f'(3) segment_view_content [of "\<lparr>content = content f', pos = 0\<rparr>" f'] by (simp add: fun_eq_iff)
  have "on_segment_file n m d = (r ?f, ?d)" using bs(1) f'(1) by (simp add: on_segment_file_def)
  moreover have "folder_segments_ok ?d"
    using assms(1) w by (auto simp: folder_segments_ok_def update_conv' split: if_splits)
  moreover have "folder_segment_view crc ?d k p = (if k = n \<and> p \<noteq> 0 then V (segment_view crc ?f) p else folder_segment_view crc d k p)" for k p
    using bs(1) v by (simp add: folder_segment_view_def update_conv')
  moreover have "\<forall>p. p \<noteq> 0 \<longrightarrow> segment_view crc ?f p = folder_segment_view crc d n p"
    using bs(1) by (simp add: folder_segment_view_def)
  moreover have "\<forall>h' k. folder_handle d h' k \<longrightarrow> folder_handle ?d h' k"
    by (simp add: folder_handle_def update_conv')
  ultimately show ?thesis using bs(2) by blast
qed

lemma open_segment_file_ok:
  assumes "folder_segments_ok d"
  shows "\<exists>f d'. open_segment_file n d = (Ok f, d') \<and> folder_segments_ok d'
    \<and> folder_segment_view crc d' = folder_segment_view crc d \<and> folder_handle d' n n
    \<and> (\<forall>h' k. folder_handle d h' k \<longrightarrow> folder_handle d' h' k)"
proof (cases "map_of (segments_dir d) (segment_file_name n)")
  case (Some e)
  then obtain bs where e: "e = RegularFile bs" "wf_segment \<lparr>content = bs, pos = 0\<rparr>"
    using assms by (auto simp: folder_segments_ok_def)
  have "open_existing (bindp segment_open_file (\<lambda>_. get_state)) e = Ok \<lparr>content = bs, pos = GENERIC_HEADER_SIZE\<rparr>"
    using segment_open_wf [OF e(2)] by (simp add: e(1) open_existing_def bindp_Ok prog_simps)
  then show ?thesis
    using Some assms by (auto simp: open_segment_file_def folder_handle_def)
next
  case None
  obtain f where f: "segment_create_file \<lparr>content = [], pos = 0\<rparr> = (Ok (), f)"
    by (simp add: segment_create_run)
  have w: "wf_segment \<lparr>content = content f, pos = 0\<rparr>"
    using wf_segment_created [OF f] by (simp add: wf_segment_def)
  have z: "segment_view crc \<lparr>content = content f, pos = 0\<rparr> p = Ok (None, replicate PAGE_BODY_SIZE 0)" if "p \<noteq> 0" for p
  proof -
    have "slot f p = replicate PAGE_SIZE 0" by (rule slot_created [OF f that])
    moreover have "take PAGE_HEADER_SIZE (replicate PAGE_SIZE 0) = replicate PAGE_HEADER_SIZE (0::byte)"
      using page_sizes_add by (simp add: min_def)
    ultimately have "segment_view crc f p = Ok (None, replicate PAGE_BODY_SIZE 0)"
      by (simp add: segment_view_def raw_read_complete_def repr_from_bytes_def dec_page_header_zeros)
    then show ?thesis using segment_view_content [of "\<lparr>content = content f, pos = 0\<rparr>" f] by simp
  qed
  let ?d = "d\<lparr>segments_dir := AList.update (segment_file_name n) (RegularFile (content f)) (segments_dir d)\<rparr>"
  have "open_segment_file n d = (Ok f, ?d)"
    using None f by (simp add: open_segment_file_def bindp_Ok prog_simps)
  moreover have "folder_segments_ok ?d"
    using assms w by (auto simp: folder_segments_ok_def update_conv' split: if_splits)
  moreover have "folder_segment_view crc ?d = folder_segment_view crc d"
    using None z by (auto simp: fun_eq_iff folder_segment_view_def update_conv')
  ultimately show ?thesis by (auto simp: folder_handle_def update_conv')
qed

lemma fold_write_local:
  "u p = u' p \<Longrightarrow> fold (\<lambda>w v. v(swo_page_num w := Ok (Some (swo_wal_index w), swo_buf w))) vs u p
   = fold (\<lambda>w v. v(swo_page_num w := Ok (Some (swo_wal_index w), swo_buf w))) vs u' p"
proof (induction vs arbitrary: u u')
  case (Cons w vs)
  let ?x = "Ok (Some (swo_wal_index w), swo_buf w)"
  have "(u(swo_page_num w := ?x)) p = (u'(swo_page_num w := ?x)) p" using Cons.prems by simp
  from Cons.IH [where u = "u(swo_page_num w := ?x)" and u' = "u'(swo_page_num w := ?x)", OF this]
  show ?case by (simp del: fun_upd_apply)
qed simp

lemma fold_write_zero:
  "\<forall>w \<in> set vs. swo_page_num w \<noteq> 0 \<Longrightarrow>
   fold (\<lambda>w v. v(swo_page_num w := Ok (Some (swo_wal_index w), swo_buf w))) vs u 0 = u 0"
  by (induction vs arbitrary: u) simp_all

lemma segment_write_at_fields:
  "segment_write_at crc (swo_page_num w) (swo_wal_index w) (swo_buf w) = segment_write crc w"
  by (cases w) (simp add: segment_write_at_def)

interpretation fseg: segment_store "segment_api_impl crc" "folder_segment_view crc" folder_handle folder_segments_ok
  for crc
proof (unfold_locales, goal_cases)
  case (1 s n)
  from open_segment_file_ok [OF 1, of n crc] obtain f d' where
    o: "open_segment_file n s = (Ok f, d')" "folder_segments_ok d'"
    "folder_segment_view crc d' = folder_segment_view crc s" "folder_handle d' n n"
    "\<forall>h' k. folder_handle s h' k \<longrightarrow> folder_handle d' h' k"
    by blast
  have "sa_open (segment_api_impl crc) n s = (Ok n, d')"
    using o(1) by (simp add: segment_api_impl_def bindp_Ok prog_simps)
  with o show ?case by blast
next
  case (2 s h n p)
  have hn: "h = n" using 2(2) by (simp add: folder_handle_def)
  have m: "\<exists>f'. segment_read crc p f = (segment_view crc f p, f') \<and> wf_segment f'
      \<and> segment_view crc f' = id (segment_view crc f)" if "wf_segment f" for f
    using segment_read_view [OF that] that by auto
  obtain f d' where d: "on_segment_file n (segment_read crc p) s = (segment_view crc f p, d')" "folder_segments_ok d'"
    "\<forall>p. p \<noteq> 0 \<longrightarrow> segment_view crc f p = folder_segment_view crc s n p"
    "\<forall>k p. folder_segment_view crc d' k p = (if k = n \<and> p \<noteq> 0 then id (segment_view crc f) p else folder_segment_view crc s k p)"
    "\<forall>h' k. folder_handle s h' k \<longrightarrow> folder_handle d' h' k"
    using on_segment_file_ok [where m = "segment_read crc p" and r = "\<lambda>f. segment_view crc f p" and V = id and crc = crc,
        OF 2(1) _ m] 2(2) hn by blast
  have "folder_segment_view crc d' = folder_segment_view crc s"
    using d(3,4) by (simp add: fun_eq_iff)
  then show ?case
    using d 2(3) hn by (simp add: segment_api_impl_def)
next
  case (3 s h n w)
  have hn: "h = n" using 3(2) by (simp add: folder_handle_def)
  let ?V = "\<lambda>v. v(swo_page_num w := Ok (Some (swo_wal_index w), swo_buf w))"
  have m: "\<exists>f'. segment_write crc w f = (Ok (), f') \<and> wf_segment f' \<and> segment_view crc f' = ?V (segment_view crc f)"
    if "wf_segment f" for f
    using seg.write_ok [OF that 3(3,4,5), of crc] by (simp only: segment_write_at_fields)
  obtain f d' where d: "on_segment_file n (segment_write crc w) s = (Ok (), d')" "folder_segments_ok d'"
    "\<forall>p. p \<noteq> 0 \<longrightarrow> segment_view crc f p = folder_segment_view crc s n p"
    "\<forall>k p. folder_segment_view crc d' k p = (if k = n \<and> p \<noteq> 0 then ?V (segment_view crc f) p else folder_segment_view crc s k p)"
    "\<forall>h' k. folder_handle s h' k \<longrightarrow> folder_handle d' h' k"
    using on_segment_file_ok [where m = "segment_write crc w" and r = "\<lambda>f. Ok ()" and V = ?V and crc = crc,
        OF 3(1) _ m] 3(2) hn by blast
  have "folder_segment_view crc d' = (folder_segment_view crc s)(n := ?V (folder_segment_view crc s n))"
    using d(3,4) 3(3) by (auto simp: fun_eq_iff)
  then show ?case
    using d hn by (simp add: segment_api_impl_def)
next
  case (4 s h n ws)
  have hn: "h = n" using 4(2) by (simp add: folder_handle_def)
  let ?V = "fold (\<lambda>w v. v(swo_page_num w := Ok (Some (swo_wal_index w), swo_buf w))) ws"
  have seq: "\<exists>f'. segment_ops_seq crc (map SegWrite vs) f = (Ok (map (\<lambda>_. None) vs), f') \<and> wf_segment f'
      \<and> segment_view crc f' = fold (\<lambda>w v. v(swo_page_num w := Ok (Some (swo_wal_index w), swo_buf w))) vs (segment_view crc f)"
    if "wf_segment f" "set vs \<subseteq> set ws" for f vs
    using that
  proof (induction vs arbitrary: f)
    case Nil
    then show ?case by (simp add: prog_simps)
  next
    case (Cons v vs)
    then have v: "swo_page_num v \<noteq> 0" "wf_wal_index (swo_wal_index v)" "length (swo_buf v) = PAGE_BODY_SIZE"
      using 4(3) by auto
    obtain f1 where f1: "segment_write crc v f = (Ok (), f1)" "wf_segment f1"
        "segment_view crc f1 = (segment_view crc f)(swo_page_num v := Ok (Some (swo_wal_index v), swo_buf v))"
      using seg.write_ok [OF Cons.prems(1) v, of crc] by (auto simp only: segment_write_at_fields)
    then show ?case
      using Cons.IH [OF f1(2)] Cons.prems(2) by (auto simp: bindp_Ok prog_simps)
  qed
  have m: "\<exists>f'. segment_batch crc (map SegWrite ws) f = (Ok (map (\<lambda>_. None) ws), f') \<and> wf_segment f'
      \<and> segment_view crc f' = ?V (segment_view crc f)" if w: "wf_segment f" for f
  proof -
    obtain f' where f': "segment_ops_seq crc (map SegWrite ws) f = (Ok (map (\<lambda>_. None) ws), f')" "wf_segment f'"
        "segment_view crc f' = ?V (segment_view crc f)"
      using seq [OF w, of ws] by blast
    from segment_batch_seq_aux [OF f'(1)]
    have "segment_batch crc (map SegWrite ws) f = (Ok (map (\<lambda>_. None) ws), f')"
      by (auto simp: segment_batch_def prog_simps bindp_Ok)
    then show ?thesis using f' by blast
  qed
  obtain f d' where d: "on_segment_file n (segment_batch crc (map SegWrite ws)) s = (Ok (map (\<lambda>_. None) ws), d')"
    "folder_segments_ok d'" "\<forall>p. p \<noteq> 0 \<longrightarrow> segment_view crc f p = folder_segment_view crc s n p"
    "\<forall>k p. folder_segment_view crc d' k p = (if k = n \<and> p \<noteq> 0 then ?V (segment_view crc f) p else folder_segment_view crc s k p)"
    "\<forall>h' k. folder_handle s h' k \<longrightarrow> folder_handle d' h' k"
    using on_segment_file_ok [where m = "segment_batch crc (map SegWrite ws)" and r = "\<lambda>f. Ok (map (\<lambda>_. None) ws)"
        and V = ?V and crc = crc, OF 4(1) _ m] 4(2) hn by blast
  have "folder_segment_view crc d' k p = ((folder_segment_view crc s)(n := ?V (folder_segment_view crc s n))) k p" for k p
    using d(3,4) fold_write_local [of "segment_view crc f" p "folder_segment_view crc s n" ws]
      fold_write_zero [of ws "folder_segment_view crc s n"] 4(3)
    by (cases "k = n"; cases "p = 0") simp_all
  then have "folder_segment_view crc d' = (folder_segment_view crc s)(n := ?V (folder_segment_view crc s n))"
    by (intro ext)
  then show ?case
    using d hn by (simp add: segment_api_impl_def)
qed

section \<open>Properties\<close>

definition sound_storage :: "(database_folder, u32) physical_storage \<Rightarrow> bool" where
  "sound_storage ps \<longleftrightarrow> physical_inv folder_handle folder_segments_ok ps"

definition storage_view :: "(byte list \<Rightarrow> u16) \<Rightarrow> (database_folder, u32) physical_storage
    \<Rightarrow> page_address \<Rightarrow> (storage_error, page_read) outcome" where
  "storage_view crc = phys_view (folder_segment_view crc)"

lemma sound_storage_new: "folder_segments_ok d \<Longrightarrow> 0 < n \<Longrightarrow> sound_storage (physical_storage_new d n)"
  by (simp add: sound_storage_def physical_inv_def physical_storage_new_def descriptor_cache_new_def
      replacer_inv_new)

text \<open>The configured number of open files is never changed.\<close>

definition open_limit :: "('s, 'h) physical_storage \<Rightarrow> nat" where
  "open_limit ps = max_num_open_segments (descriptor_cache ps)"

lemma open_limit_use_segment: "open_limit (snd (use_segment sapi n m ps)) = open_limit ps"
  by (simp add: open_limit_def use_segment_def get_descriptor_def store_descriptor_def on_pfolder_def bindp_def
      get_state_def modify_def split: option.split prod.split outcome.split)

lemma open_limit_read:
  assumes "physical_read sapi a ps = (r, ps')"
  shows "open_limit ps' = open_limit ps"
  using open_limit_use_segment [of sapi "segment_num a" "\<lambda>h. sa_read sapi h (page_num a)" ps] assms
  by (simp add: physical_read_def)

lemma open_limit_write:
  assumes "physical_write_at sapi a i b ps = (r, ps')"
  shows "open_limit ps' = open_limit ps"
  using open_limit_use_segment [of sapi "segment_num a"
      "\<lambda>h. sa_write sapi h (write_op_into \<lparr>wo_wal_index = i, wo_page_address = a, wo_buf = b\<rparr>)" ps] assms
  by (simp add: physical_write_at_def physical_write_def)

lemma open_limit_writes:
  "for_each (\<lambda>(a, i, b). physical_write_at sapi a i b) ws ps = (r, ps') \<Longrightarrow> open_limit ps' = open_limit ps"
proof (induction ws arbitrary: ps)
  case (Cons w ws)
  obtain a i b where w: "w = (a, i, b)" by (cases w) auto
  obtain r1 ps1 where p: "physical_write_at sapi a i b ps = (r1, ps1)" by force
  then show ?case
    using Cons.prems Cons.IH [of ps1] open_limit_write [OF p] w by (cases r1) (auto simp: bindp_def)
qed (simp add: prog_simps)

lemma sound_storage_bounded: "sound_storage ps \<Longrightarrow> length (descriptors (descriptor_cache ps)) \<le> open_limit ps"
  using car.table_bounded [of "dreplacer (descriptor_cache ps)" "descriptors (descriptor_cache ps)"]
  by (simp add: sound_storage_def open_limit_def physical_inv_def)

text \<open>
  C8: The storage is a map from page addresses to pages: after any list of writes, whatever
  segments they are in and however few descriptors may be kept at once, reading a page gives
  the last write to it, and what it gave before if there was none; descriptors that were
  closed and opened again in between lose nothing. After the writes and after the read the table
  of open files has no more entries than the configured number (\<open>max_num_open_segments\<close>), which
  does not change.
\<close>

theorem physical_storage_is_page_map:
  assumes "sound_storage ps" and "\<forall>(a, i, b) \<in> set ws. wf_page_address a \<and> wf_wal_index i \<and> length b = PAGE_BODY_SIZE"
    and "wf_page_address a"
  shows "\<exists>ps' ps''. for_each (\<lambda>(a, i, b). physical_write_at (segment_api_impl crc) a i b) ws ps = (Ok (), ps')
    \<and> physical_read (segment_api_impl crc) a ps'
        = (fold (\<lambda>(a, i, b) v. v(a := Ok (Some i, b))) ws (storage_view crc ps) a, ps'')
    \<and> sound_storage ps' \<and> length (descriptors (descriptor_cache ps')) \<le> max_num_open_segments (descriptor_cache ps)
    \<and> sound_storage ps'' \<and> length (descriptors (descriptor_cache ps'')) \<le> max_num_open_segments (descriptor_cache ps)
    \<and> max_num_open_segments (descriptor_cache ps'') = max_num_open_segments (descriptor_cache ps)"
proof -
  have inv: "physical_inv folder_handle folder_segments_ok ps" using assms(1) by (simp add: sound_storage_def)
  obtain ps' where ps': "for_each (\<lambda>(a, i, b). physical_write_at (segment_api_impl crc) a i b) ws ps = (Ok (), ps')"
      "physical_inv folder_handle folder_segments_ok ps'"
      "phys_view (folder_segment_view crc) ps' = fold (\<lambda>(a, i, b) v. v(a := Ok (Some i, b))) ws (phys_view (folder_segment_view crc) ps)"
    using fseg.phys.write_all_ok [OF inv assms(2)] by blast
  obtain ps'' where ps'': "physical_read (segment_api_impl crc) a ps' = (phys_view (folder_segment_view crc) ps' a, ps'')"
      "physical_inv folder_handle folder_segments_ok ps''"
    using fseg.phys.read_ok [OF ps'(2) assms(3)] by blast
  have so: "sound_storage ps'" "sound_storage ps''" using ps'(2) ps''(2) by (simp_all add: sound_storage_def)
  have "open_limit ps' = open_limit ps" by (rule open_limit_writes [OF ps'(1)])
  moreover have "open_limit ps'' = open_limit ps'" by (rule open_limit_read [OF ps''(1)])
  ultimately show ?thesis
    using ps'(1,3) ps''(1) so sound_storage_bounded [OF so(1)] sound_storage_bounded [OF so(2)]
    by (simp add: open_limit_def storage_view_def)
qed

lemma empty_segments_ok: "folder_segments_ok empty_folder"
  by (simp add: folder_segments_ok_def empty_folder_def)

lemma storage_view_empty: "storage_view crc (physical_storage_new empty_folder n) a = Ok (None, replicate PAGE_BODY_SIZE 0)"
  by (simp add: storage_view_def phys_view_def folder_segment_view_def physical_storage_new_def empty_folder_def)

text \<open>One descriptor, three segments, and the first page written is read last.\<close>

theorem physical_storage_is_page_map_witness:
  "\<exists>ps' ps''. for_each (\<lambda>(a, i, b). physical_write_at (segment_api_impl (\<lambda>_. 0)) a i b)
      [(PageAddress 1 7, WalIndex 0 9, replicate PAGE_BODY_SIZE 3), (PageAddress 2 7, WalIndex 0 50, replicate PAGE_BODY_SIZE 4),
       (PageAddress 3 7, WalIndex 0 90, replicate PAGE_BODY_SIZE 5)] (physical_storage_new empty_folder 1) = (Ok (), ps')
    \<and> physical_read (segment_api_impl (\<lambda>_. 0)) (PageAddress 1 7) ps' = (Ok (Some (WalIndex 0 9), replicate PAGE_BODY_SIZE 3), ps'')
    \<and> length (descriptors (descriptor_cache ps')) \<le> 1 \<and> length (descriptors (descriptor_cache ps'')) \<le> 1"
proof -
  have s: "sound_storage (physical_storage_new empty_folder 1)"
    using sound_storage_new [OF empty_segments_ok, of 1] by simp
  have w: "\<forall>(a, i, b) \<in> set [(PageAddress 1 7, WalIndex 0 9, replicate PAGE_BODY_SIZE 3), (PageAddress 2 7, WalIndex 0 50, replicate PAGE_BODY_SIZE 4),
       (PageAddress 3 7, WalIndex 0 90, replicate PAGE_BODY_SIZE (5::byte))]. wf_page_address a \<and> wf_wal_index i \<and> length b = PAGE_BODY_SIZE"
    by (simp add: wf_page_address_def wf_wal_index_def)
  have a: "wf_page_address (PageAddress 1 7)" by (simp add: wf_page_address_def)
  have m: "max_num_open_segments (descriptor_cache (physical_storage_new empty_folder 1)) = 1"
    by (simp add: physical_storage_new_def descriptor_cache_new_def)
  show ?thesis using physical_storage_is_page_map [OF s w a, of "\<lambda>_. 0", unfolded m] by auto
qed

text \<open>
  A batch of writes, which is regrouped by segment and handed to each segment file as a
  batch of its own, has the effect of the writes one after the other in the given order.
\<close>

theorem physical_batch_is_sequence:
  assumes "sound_storage ps" and "\<forall>w \<in> set ws. valid_write w"
  shows "\<exists>ps' ps''. physical_batch (segment_api_impl crc) (map OpStore ws) ps = (Ok (), ps') \<and> sound_storage ps'
    \<and> for_each (physical_write (segment_api_impl crc)) ws ps = (Ok (), ps'')
    \<and> storage_view crc ps' = storage_view crc ps''"
proof -
  have inv: "physical_inv folder_handle folder_segments_ok ps" using assms(1) by (simp add: sound_storage_def)
  obtain ps' where ps': "physical_batch (segment_api_impl crc) (map OpStore ws) ps = (Ok (), ps')"
      "physical_inv folder_handle folder_segments_ok ps'"
      "phys_view (folder_segment_view crc) ps' = fold (\<lambda>w f. f(wo_page_address w := Ok (Some (wo_wal_index w), wo_buf w))) ws
          (phys_view (folder_segment_view crc) ps)"
    using fseg.physical_batch_ok [OF inv assms(2)] by blast
  have "\<exists>ps''. for_each (physical_write (segment_api_impl crc)) ws ps = (Ok (), ps'')
      \<and> phys_view (folder_segment_view crc) ps'' = fold (\<lambda>w f. f(wo_page_address w := Ok (Some (wo_wal_index w), wo_buf w))) ws
          (phys_view (folder_segment_view crc) ps)"
    using inv assms(2)
  proof (induction ws arbitrary: ps)
    case Nil
    then show ?case by (simp add: prog_simps)
  next
    case (Cons w ws)
    have w: "wf_page_address (wo_page_address w)" "wf_wal_index (wo_wal_index w)" "length (wo_buf w) = PAGE_BODY_SIZE"
      using Cons.prems(2) by (simp_all add: valid_write_def)
    have "physical_write_at (segment_api_impl crc) (wo_page_address w) (wo_wal_index w) (wo_buf w) = physical_write (segment_api_impl crc) w"
      by (cases w) (simp add: physical_write_at_def)
    then obtain ps1 where ps1: "physical_write (segment_api_impl crc) w ps = (Ok (), ps1)"
        "physical_inv folder_handle folder_segments_ok ps1"
        "phys_view (folder_segment_view crc) ps1 = (phys_view (folder_segment_view crc) ps)(wo_page_address w := Ok (Some (wo_wal_index w), wo_buf w))"
      using fseg.phys.write_ok [OF Cons.prems(1) w, of crc] by auto
    then show ?case using Cons.IH [OF ps1(2)] Cons.prems(2) by (auto simp: bindp_Ok)
  qed
  then show ?thesis using ps' by (auto simp: sound_storage_def storage_view_def)
qed

theorem physical_batch_is_sequence_witness:
  "\<exists>ps'. physical_batch (segment_api_impl (\<lambda>_. 0)) (map OpStore
      [\<lparr>wo_wal_index = WalIndex 0 9, wo_page_address = PageAddress 1 7, wo_buf = replicate PAGE_BODY_SIZE 3\<rparr>,
       \<lparr>wo_wal_index = WalIndex 0 50, wo_page_address = PageAddress 0 1, wo_buf = replicate PAGE_BODY_SIZE 4\<rparr>])
      (physical_storage_new empty_folder 1) = (Ok (), ps') \<and> sound_storage ps'"
proof -
  have s: "sound_storage (physical_storage_new empty_folder 1)"
    using sound_storage_new [OF empty_segments_ok, of 1] by simp
  have "\<forall>w \<in> set [\<lparr>wo_wal_index = WalIndex 0 9, wo_page_address = PageAddress 1 7, wo_buf = replicate PAGE_BODY_SIZE (3::byte)\<rparr>,
       \<lparr>wo_wal_index = WalIndex 0 50, wo_page_address = PageAddress 0 1, wo_buf = replicate PAGE_BODY_SIZE 4\<rparr>]. valid_write w"
    by (simp add: valid_write_def wf_page_address_def wf_wal_index_def)
  from physical_batch_is_sequence [OF s this, of "\<lambda>_. 0"] show ?thesis by blast
qed

end
