(* ===== verification/PageCache.thy ===== *)
theory PageCache
  imports StoreTypes Physical
begin

text \<open>
  The page cache of \<open>page_store/cache.rs\<close>: a fixed number of page buffers, the index of
  cached pages, the replacement policy, one lock per buffer, the list of dirty pages and the
  slots that were scrapped.

  A guard is the index of its buffer; what makes it valid is the state of the lock, which the
  model keeps. A call that waits for a lock that a guard of the same caller holds does not
  return (\<open>Stuck\<close>). The locks around the tables are held within one call only and do not
  appear. Flushes spawned on the thread pool are counted in \<open>flush_spawned\<close>; \<open>cache_flush\<close> is
  what each of them does. \<open>evict_for\<close> loops until it finds an unlocked page and is a partial
  function: \<open>None\<close> is a loop that does not end.
\<close>

section \<open>Buffered pages\<close>

text \<open>\<open>BufferedPageHeader\<close> and the body that follows it in the buffer.\<close>

record buffered_page =
  wal_generation :: u64
  wal_offset :: u64
  dirty_byte :: byte
  page_body :: "byte list"

definition zeroed_page :: buffered_page where
  "zeroed_page = \<lparr>wal_generation = 0, wal_offset = 0, dirty_byte = 0, page_body = replicate PAGE_BODY_SIZE 0\<rparr>"

definition header_wal_index :: "buffered_page \<Rightarrow> ('e, wal_index) outcome" where
  "header_wal_index p = (if wal_offset p = 0 then Panic else Ok (WalIndex (wal_generation p) (wal_offset p)))"

definition set_wal_index :: "wal_index \<Rightarrow> buffered_page \<Rightarrow> buffered_page" where
  "set_wal_index i p = p\<lparr>wal_offset := offset i, wal_generation := generation i\<rparr>"

definition is_dirty :: "buffered_page \<Rightarrow> bool" where
  "is_dirty p \<longleftrightarrow> dirty_byte p \<noteq> 0"

definition set_dirty :: "bool \<Rightarrow> buffered_page \<Rightarrow> buffered_page" where
  "set_dirty b p = p\<lparr>dirty_byte := (if b then 1 else 0)\<rparr>"

definition HEADER_SIZE :: nat where "HEADER_SIZE = 17"
definition BUFFERED_PAGE_SIZE :: nat where "BUFFERED_PAGE_SIZE = PAGE_BODY_SIZE + HEADER_SIZE"

record page_buffer =
  pages :: "buffered_page list"
  num_filled :: nat

definition page_buffer_new :: "nat \<Rightarrow> page_buffer" where
  "page_buffer_new n = \<lparr>pages = replicate n zeroed_page, num_filled = 0\<rparr>"

definition push_page :: "page_buffer \<Rightarrow> nat option \<times> page_buffer" where
  "push_page b = (if num_filled b = length (pages b) then (None, b)
     else (Some (num_filled b), b\<lparr>num_filled := num_filled b + 1\<rparr>))"

section \<open>The cache\<close>

datatype rw_lock = Unlocked | SharedBy nat | Exclusive

record page_cache =
  buf :: page_buffer
  indices :: "(page_address \<times> nat) list"
  creplacer :: "page_address replacer"
  scrap_slots :: "nat list"
  has_scrap :: bool
  dirty_list :: "page_address list"
  locks :: "rw_lock list"
  max_num_dirty :: nat
  flush_spawned :: nat

type_synonym 'a cachep = "(page_cache, storage_error, 'a) prog"

text \<open>The product of the size with a float is the parameter \<open>dirty_limit\<close>.\<close>

definition page_cache_new :: "nat \<Rightarrow> nat \<Rightarrow> page_cache" where
  "page_cache_new cache_size dirty_limit = (let n = cache_size div BUFFERED_PAGE_SIZE in
     \<lparr>buf = page_buffer_new n, indices = [], creplacer = replacer_new n, scrap_slots = [], has_scrap = False,
      dirty_list = [], locks = replicate n Unlocked, max_num_dirty = max dirty_limit 1, flush_spawned = 0\<rparr>)"

text \<open>\<open>Vec\<close> and slice indexing panics outside the range.\<close>

definition get_lock :: "nat \<Rightarrow> rw_lock cachep" where
  "get_lock i c = (if i < length (locks c) then (Ok (locks c ! i), c) else (Panic, c))"

definition set_lock :: "nat \<Rightarrow> rw_lock \<Rightarrow> page_cache \<Rightarrow> page_cache" where
  "set_lock i l c = c\<lparr>locks := (locks c)[i := l]\<rparr>"

definition page_at :: "nat \<Rightarrow> page_cache \<Rightarrow> buffered_page" where
  "page_at i c = pages (buf c) ! i"

definition set_page :: "nat \<Rightarrow> buffered_page \<Rightarrow> page_cache \<Rightarrow> page_cache" where
  "set_page i p c = c\<lparr>buf := (buf c)\<lparr>pages := (pages (buf c))[i := p]\<rparr>\<rparr>"

definition has_page :: "page_address \<Rightarrow> page_cache \<Rightarrow> bool" where
  "has_page a c \<longleftrightarrow> map_of (indices c) a \<noteq> None"

section \<open>Guards\<close>

definition load_direct :: "nat \<Rightarrow> nat cachep" where
  "load_direct i = bindp (get_lock i) (\<lambda>l.
     case l of
       Exclusive \<Rightarrow> stuck
     | Unlocked \<Rightarrow> bindp (modify (set_lock i (SharedBy 1))) (\<lambda>_.
         bindp get_state (\<lambda>c. if i < length (pages (buf c)) then ret i else panic))
     | SharedBy n \<Rightarrow> bindp (modify (set_lock i (SharedBy (Suc n)))) (\<lambda>_.
         bindp get_state (\<lambda>c. if i < length (pages (buf c)) then ret i else panic)))"

definition load_mut_direct :: "nat \<Rightarrow> nat cachep" where
  "load_mut_direct i = bindp (get_lock i) (\<lambda>l.
     case l of
       Unlocked \<Rightarrow> bindp (modify (set_lock i Exclusive)) (\<lambda>_.
         bindp get_state (\<lambda>c. if i < length (pages (buf c)) then ret i else panic))
     | _ \<Rightarrow> stuck)"

text \<open>Dropping a guard; the guard's existence means that its lock is held.\<close>

definition drop_read_guard :: "nat \<Rightarrow> page_cache \<Rightarrow> page_cache" where
  "drop_read_guard i c = (case locks c ! i of
     SharedBy n \<Rightarrow> set_lock i (if n \<le> 1 then Unlocked else SharedBy (n - 1)) c
   | _ \<Rightarrow> c)"

definition drop_write_guard :: "nat \<Rightarrow> page_cache \<Rightarrow> page_cache" where
  "drop_write_guard i c = set_lock i Unlocked c"

definition downgrade_guard :: "nat \<Rightarrow> page_cache \<Rightarrow> nat \<times> page_cache" where
  "downgrade_guard i c = (i, set_lock i (SharedBy 1) c)"

definition guard_read :: "nat \<Rightarrow> nat \<Rightarrow> nat \<Rightarrow> byte list cachep" where
  "guard_read i off n c = (if off + n \<le> length (page_body (page_at i c))
     then (Ok (slice off n (page_body (page_at i c))), c) else (Panic, c))"

definition guard_write :: "nat \<Rightarrow> nat \<Rightarrow> byte list \<Rightarrow> wal_index \<Rightarrow> unit cachep" where
  "guard_write i off bs idx c = (let p = set_dirty True (set_wal_index idx (page_at i c)) in
     if off + length bs \<le> length (page_body p)
     then (Ok (), set_page i (p\<lparr>page_body := patch off bs (page_body p)\<rparr>) c)
     else (Panic, set_page i p c))"

section \<open>Choosing a slot\<close>

text \<open>
  The loop of \<open>evict_for\<close>: a candidate that is the inserted page itself or that is locked
  goes back into the replacer, which gives the next candidate.
\<close>

partial_function (option) evict_loop ::
  "page_address \<Rightarrow> page_address option \<Rightarrow> page_cache \<Rightarrow> ((storage_error, page_address option) outcome \<times> page_cache) option" where
  "evict_loop a m c = (case m of
     None \<Rightarrow> Some (Ok None, c)
   | Some e \<Rightarrow> (case map_of (indices c) e of
       None \<Rightarrow> Some (Panic, c)
     | Some i \<Rightarrow>
         if i < length (locks c) then
           (if e = a \<or> locks c ! i \<noteq> Unlocked then
              (case evict_replace e (creplacer c) of (m', r) \<Rightarrow> evict_loop a m' (c\<lparr>creplacer := r\<rparr>))
            else Some (Ok (Some e), c))
         else Some (Panic, c)))"

definition evict_for :: "page_address \<Rightarrow> page_address option cachep" where
  "evict_for a c = (case evict_replace a (creplacer c) of (m, r) \<Rightarrow>
     (case evict_loop a m (c\<lparr>creplacer := r\<rparr>) of None \<Rightarrow> (Stuck, c) | Some res \<Rightarrow> res))"

text \<open>\<open>Vec::pop\<close> takes the last element.\<close>

definition get_store_index :: "page_address \<Rightarrow> nat cachep" where
  "get_store_index a = bindp get_state (\<lambda>c.
     case map_of (indices c) a of
       Some i \<Rightarrow> ret i
     | None \<Rightarrow>
         if has_scrap c \<and> scrap_slots c \<noteq> [] then
           bindp (modify (\<lambda>c. c\<lparr>scrap_slots := butlast (scrap_slots c)\<rparr>)) (\<lambda>_. ret (last (scrap_slots c)))
         else bindp (evict_for a) (\<lambda>m. bindp get_state (\<lambda>c.
           case m of
             Some e \<Rightarrow> (case map_of (indices c) e of
                 None \<Rightarrow> panic
               | Some i \<Rightarrow> bindp (modify (\<lambda>c. c\<lparr>indices := AList.update a i (AList.delete e (indices c))\<rparr>))
                   (\<lambda>_. ret i))
           | None \<Rightarrow> (case push_page (buf c) of
                 (None, _) \<Rightarrow> panic
               | (Some i, b) \<Rightarrow> bindp (modify (\<lambda>c. c\<lparr>buf := b, indices := AList.update a i (indices c)\<rparr>))
                   (\<lambda>_. ret i)))))"

definition get_load_index :: "page_address \<Rightarrow> nat option cachep" where
  "get_load_index a = bindp get_state (\<lambda>c.
     case map_of (indices c) a of
       None \<Rightarrow> ret None
     | Some i \<Rightarrow> bindp (modify (\<lambda>c. c\<lparr>creplacer := snd (replacer_access a (creplacer c))\<rparr>)) (\<lambda>_. ret (Some i)))"

section \<open>Operations\<close>

definition cache_load :: "page_address \<Rightarrow> nat option cachep" where
  "cache_load a = bindp (get_load_index a) (\<lambda>m.
     case m of None \<Rightarrow> ret None | Some i \<Rightarrow> bindp (load_direct i) (\<lambda>g. ret (Some g)))"

definition cache_load_mut :: "page_address \<Rightarrow> nat option cachep" where
  "cache_load_mut a = bindp (get_load_index a) (\<lambda>m.
     case m of None \<Rightarrow> ret None | Some i \<Rightarrow> bindp (load_mut_direct i) (\<lambda>g. ret (Some g)))"

definition cache_store :: "page_address \<Rightarrow> nat cachep" where
  "cache_store a =
     bindp (modify (\<lambda>c. c\<lparr>dirty_list := dirty_list c @ [a]\<rparr>)) (\<lambda>_.
     bindp (modify (\<lambda>c. if length (dirty_list c) \<ge> max_num_dirty c
        then c\<lparr>flush_spawned := Suc (flush_spawned c)\<rparr> else c)) (\<lambda>_.
     bindp (get_store_index a) load_mut_direct))"

definition cache_scrap :: "page_address \<Rightarrow> page_cache \<Rightarrow> page_cache" where
  "cache_scrap a c = (case map_of (indices c) a of
     None \<Rightarrow> c
   | Some i \<Rightarrow> c\<lparr>indices := AList.delete a (indices c), has_scrap := True,
        scrap_slots := scrap_slots c @ [i]\<rparr>)"

section \<open>Flushing\<close>

text \<open>The interface \<open>PhysicalStorageApi\<close>.\<close>

record 'ps physical_api =
  pa_read :: "page_address \<Rightarrow> ('ps, storage_error, page_read) prog"
  pa_write :: "write_op \<Rightarrow> ('ps, storage_error, unit) prog"
  pa_batch :: "storage_op list \<Rightarrow> ('ps, storage_error, unit) prog"

definition physical_impl :: "(byte list \<Rightarrow> u16) \<Rightarrow> (database_folder, u32) physical_storage physical_api" where
  "physical_impl crc = \<lparr>pa_read = physical_read (segment_api_impl crc),
     pa_write = physical_write (segment_api_impl crc), pa_batch = physical_batch (segment_api_impl crc)\<rparr>"

record dirty_page =
  dp_page_address :: page_address
  dp_index :: nat

text \<open>The first loop of \<open>flush\<close>: shared guards on the pages of the list that are cached and dirty.\<close>

fun collect_dirty :: "page_address list \<Rightarrow> dirty_page list \<Rightarrow> dirty_page list cachep" where
  "collect_dirty [] dps = ret dps"
| "collect_dirty (a # as) dps = bindp get_state (\<lambda>c.
     case map_of (indices c) a of
       None \<Rightarrow> collect_dirty as dps
     | Some i \<Rightarrow> bindp (load_direct i) (\<lambda>g. bindp get_state (\<lambda>c.
         if \<not> is_dirty (page_at g c) then bindp (modify (drop_read_guard g)) (\<lambda>_. collect_dirty as dps)
         else collect_dirty as (dps @ [\<lparr>dp_page_address = a, dp_index = i\<rparr>]))))"

fun flush_ops :: "page_cache \<Rightarrow> dirty_page list \<Rightarrow> (storage_error, storage_op list) outcome" where
  "flush_ops c [] = Ok []"
| "flush_ops c (dp # dps) = oc_bind (header_wal_index (page_at (dp_index dp) c)) (\<lambda>i.
     oc_bind (flush_ops c dps) (\<lambda>ops. Ok (OpStore \<lparr>wo_wal_index = i, wo_page_address = dp_page_address dp,
       wo_buf = page_body (page_at (dp_index dp) c)\<rparr> # ops)))"

definition clear_dirty :: "dirty_page \<Rightarrow> unit cachep" where
  "clear_dirty dp =
     bindp (modify (drop_read_guard (dp_index dp))) (\<lambda>_.
     bindp (load_mut_direct (dp_index dp)) (\<lambda>g.
     bindp (modify (\<lambda>c. set_page g (set_dirty False (page_at g c)) c)) (\<lambda>_.
       modify (drop_write_guard g))))"

definition cache_flush :: "'ps physical_api \<Rightarrow> (page_cache \<times> 'ps, storage_error, unit) prog" where
  "cache_flush api =
     bindp (on_fst get_state) (\<lambda>c0.
     let dirty_list_copy = dirty_list c0 in
     bindp (on_fst (modify (\<lambda>c. c\<lparr>dirty_list := []\<rparr>))) (\<lambda>_.
     bindp (on_fst (collect_dirty dirty_list_copy [])) (\<lambda>dps.
     bindp (on_fst get_state) (\<lambda>c.
     bindp (lift_oc (flush_ops c dps)) (\<lambda>ops s.
     case on_snd (pa_batch api ops) s of
       (Panic, s1) \<Rightarrow> (Panic, s1)
     | (Stuck, s1) \<Rightarrow> (Stuck, s1)
     | (Ok _, s1) \<Rightarrow> on_fst (for_each clear_dirty dps) s1
     | (Err e, s1) \<Rightarrow> bindp (on_fst (for_each clear_dirty dps)) (\<lambda>_.
         bindp (on_fst (modify (\<lambda>c. c\<lparr>dirty_list := dirty_list c @ dirty_list_copy\<rparr>))) (\<lambda>_.
           throw e)) s1)))))"

end
