(* ===== verification/CacheProofs.thy ===== *)
theory CacheProofs
  imports PageCache
begin

text \<open>
  What the cache of \<open>PageCache.thy\<close> does: the invariant that ties the index, the replacement
  policy and the buffer together, which pages \<open>store\<close> may evict, and what a flush writes.
\<close>

section \<open>The invariant\<close>

definition cache_inv :: "page_cache \<Rightarrow> bool" where
  "cache_inv c \<longleftrightarrow> length (locks c) = length (pages (buf c)) \<and> rsize (creplacer c) = length (pages (buf c))
     \<and> replacer_inv (creplacer c) \<and> distinct_keys (indices c) \<and> keys_of (indices c) = cached (creplacer c)
     \<and> distinct (map snd (indices c)) \<and> snd ` set (indices c) = {..<num_filled (buf c)}
     \<and> num_filled (buf c) \<le> length (pages (buf c)) \<and> scrap_slots c = []
     \<and> (\<forall>p \<in> set (pages (buf c)). length (page_body p) = PAGE_BODY_SIZE)"

definition all_unlocked :: "page_cache \<Rightarrow> bool" where
  "all_unlocked c \<longleftrightarrow> (\<forall>l \<in> set (locks c). l = Unlocked)"

lemma cache_inv_new: "BUFFERED_PAGE_SIZE \<le> n \<Longrightarrow> cache_inv (page_cache_new n k)"
proof -
  assume "BUFFERED_PAGE_SIZE \<le> n"
  then have "0 < n div BUFFERED_PAGE_SIZE"
    by (simp add: div_greater_zero_iff BUFFERED_PAGE_SIZE_def HEADER_SIZE_def)
  then show ?thesis
    by (auto simp: cache_inv_def page_cache_new_def Let_def page_buffer_new_def zeroed_page_def replacer_inv_new)
qed

lemma all_unlocked_new: "all_unlocked (page_cache_new n k)"
  by (simp add: all_unlocked_def page_cache_new_def Let_def)

lemma cache_index:
  assumes "cache_inv c" and "map_of (indices c) a = Some i"
  shows "i < length (locks c)" "i < length (pages (buf c))" "length (page_body (page_at i c)) = PAGE_BODY_SIZE"
proof -
  have "i \<in> snd ` set (indices c)" using map_of_SomeD [OF assms(2)] by force
  then have i: "i < length (pages (buf c))" using assms(1) by (auto simp: cache_inv_def)
  then show "i < length (locks c)" "i < length (pages (buf c))" "length (page_body (page_at i c)) = PAGE_BODY_SIZE"
    using assms(1) by (simp_all add: cache_inv_def page_at_def)
qed

lemma index_filled:
  assumes "cache_inv c" and "map_of (indices c) a = Some i"
  shows "i < num_filled (buf c)"
proof -
  have "i \<in> snd ` set (indices c)" using map_of_SomeD [OF assms(2)] by force
  then show ?thesis using assms(1) by (simp add: cache_inv_def)
qed

lemma cache_index_inject:
  assumes "cache_inv c" and "map_of (indices c) a = Some i" and "map_of (indices c) b = Some i"
  shows "a = b"
proof -
  have "(a, i) \<in> set (indices c)" "(b, i) \<in> set (indices c)"
    using map_of_SomeD [OF assms(2)] map_of_SomeD [OF assms(3)] by simp_all
  moreover have "inj_on snd (set (indices c))" using assms(1) by (simp add: cache_inv_def distinct_map)
  ultimately show ?thesis by (metis inj_onD prod.inject snd_conv)
qed

lemma all_unlocked_nth: "all_unlocked c \<Longrightarrow> i < length (locks c) \<Longrightarrow> locks c ! i = Unlocked"
  by (simp add: all_unlocked_def)

lemma cache_count:
  assumes "cache_inv c"
  shows "card (cached (creplacer c)) = num_filled (buf c)" "length (indices c) = num_filled (buf c)"
proof -
  have l: "length (indices c) = card (snd ` set (indices c))"
    using assms by (metis cache_inv_def distinct_card length_map list.set_map)
  then show "length (indices c) = num_filled (buf c)" using assms by (simp add: cache_inv_def)
  have "card (cached (creplacer c)) = length (indices c)"
    using assms by (metis cache_inv_def distinct_card distinct_keys_def length_map list.set_map)
  then show "card (cached (creplacer c)) = num_filled (buf c)" using l assms by (simp add: cache_inv_def)
qed

section \<open>Eviction\<close>

text \<open>
  The loop keeps the replacer in step with the index: what it tracks is the index with the
  new page and without the candidate.
\<close>

definition evicting :: "page_cache \<Rightarrow> page_address \<Rightarrow> page_address \<Rightarrow> page_address replacer \<Rightarrow> bool" where
  "evicting c a e r \<longleftrightarrow> replacer_inv r \<and> rsize r = length (pages (buf c))
     \<and> e \<in> insert a (keys_of (indices c)) \<and> cached r = insert a (keys_of (indices c)) - {e}"

lemma evict_step:
  assumes ev: "evicting c a e r" and a: "a \<notin> keys_of (indices c)"
    and full: "card (keys_of (indices c)) = length (pages (buf c))" and er: "evict_replace e r = (m, r')"
  shows "\<exists>x. m = Some x \<and> evicting c a x r'"
proof -
  have ri: "replacer_inv r" "e \<notin> cached r" "rsize r = length (pages (buf c))"
    using ev by (simp_all add: evicting_def)
  note ok = car.replace_ok [OF ri(1,2) er]
  have fin: "finite (keys_of (indices c))" by simp
  have "card (cached r) = card (insert a (keys_of (indices c))) - 1"
    using ev by (simp add: evicting_def card_Diff_singleton_if)
  then have "card (cached r) = rsize r" using a full fin ri(3) by simp
  then obtain x where x: "m = Some x" using ok by (cases m) auto
  have "x \<in> cached r" "cached r' = insert e (cached r - {x})" "replacer_inv r'" "rsize r' = rsize r"
    using ok x by simp_all
  then have "evicting c a x r'"
    using ev by (auto simp: evicting_def)
  then show ?thesis using x by simp
qed

lemma evict_loop_spec:
  assumes a: "a \<notin> keys_of (indices c0)" and full: "card (keys_of (indices c0)) = length (pages (buf c0))"
    and "evict_loop a m c = Some y"
    and "m = Some e" and "\<exists>r. c = c0\<lparr>creplacer := r\<rparr> \<and> evicting c0 a e r"
  shows "\<exists>r. snd y = c0\<lparr>creplacer := r\<rparr>
    \<and> (fst y = Panic \<or> (\<exists>x i. fst y = Ok (Some x) \<and> x \<noteq> a \<and> map_of (indices c0) x = Some i
         \<and> locks c0 ! i = Unlocked \<and> evicting c0 a x r))"
  using assms(3-)
proof (induction a\<equiv>a m c y arbitrary: e rule: evict_loop.raw_induct [rotated, consumes 1])
  case (1 f m c y)
  note run = "1.hyps"(2) and me = "1.prems"(1)
  obtain r where r: "c = c0\<lparr>creplacer := r\<rparr>" "evicting c0 a e r" using "1.prems"(2) by blast
  show ?case
  proof (cases "map_of (indices c0) e")
    case None
    then show ?thesis using run me r by auto
  next
    case (Some i)
    show ?thesis
    proof (cases "i < length (locks c0) \<and> (e = a \<or> locks c0 ! i \<noteq> Unlocked)")
      case True
      obtain m' r' where er: "evict_replace e r = (m', r')" by force
      obtain x where x: "m' = Some x" "evicting c0 a x r'" using evict_step [OF r(2) a full er] by blast
      have "f a m' (c\<lparr>creplacer := r'\<rparr>) = Some y"
        using run me r Some True er by simp
      from "1.hyps"(1) [OF this x(1)] x(2) r(1) show ?thesis by auto
    next
      case False
      then show ?thesis using run me r Some by (auto split: if_splits)
    qed
  qed
qed

lemma snd_delete:
  assumes "distinct (map snd m)" and "(e, i) \<in> set m" and "distinct_keys m"
  shows "snd ` set (AList.delete e m) = snd ` set m - {i}" and "distinct (map snd (AList.delete e m))"
proof -
  have inj: "inj_on snd (set m)" using assms(1) by (simp add: distinct_map)
  have u: "\<And>j. (e, j) \<in> set m \<Longrightarrow> j = i"
    using assms(2,3) unfolding distinct_keys_def by (meson eq_key_imp_eq_value)
  have s: "set (AList.delete e m) = set m - {(e, i)}"
  proof (rule set_eqI)
    fix p :: "'b \<times> 'a"
    show "p \<in> set (AList.delete e m) \<longleftrightarrow> p \<in> set m - {(e, i)}"
      using u by (cases p) (auto simp: AList.delete_eq)
  qed
  have "snd ` (set m - {(e, i)}) = snd ` set m - snd ` {(e, i)}"
    by (rule inj_on_image_set_diff [OF inj]) (use assms(2) in auto)
  then show "snd ` set (AList.delete e m) = snd ` set m - {i}" using s by simp
  show "distinct (map snd (AList.delete e m))"
    using assms(1) by (simp add: AList.delete_eq distinct_map_filter)
qed

lemma evict_for_fits:
  assumes "cache_inv c" and "a \<notin> keys_of (indices c)" and "num_filled (buf c) < length (pages (buf c))"
  shows "\<exists>r. evict_for a c = (Ok None, c\<lparr>creplacer := r\<rparr>) \<and> replacer_inv r
    \<and> rsize r = length (pages (buf c)) \<and> cached r = insert a (keys_of (indices c))"
proof -
  obtain m r where e: "evict_replace a (creplacer c) = (m, r)" by force
  have i: "replacer_inv (creplacer c)" "a \<notin> cached (creplacer c)"
    using assms(1,2) by (simp_all add: cache_inv_def)
  have "m = None"
  proof (rule ccontr)
    assume "m \<noteq> None"
    then have "card (cached (creplacer c)) = rsize (creplacer c)" using evict_replace_full [OF i(1)] e by auto
    then show False using cache_count [OF assms(1)] assms(1,3) by (simp add: cache_inv_def)
  qed
  then show ?thesis
    using car.replace_ok [OF i e] assms(1) e
    by (intro exI [of _ r]) (simp add: evict_for_def evict_loop.simps cache_inv_def)
qed

lemma evict_for_full:
  assumes "cache_inv c" and "a \<notin> keys_of (indices c)" and "num_filled (buf c) = length (pages (buf c))"
    and ef: "evict_for a c = (Ok m, c')"
  shows "\<exists>r x i. c' = c\<lparr>creplacer := r\<rparr> \<and> m = Some x \<and> x \<noteq> a \<and> map_of (indices c) x = Some i
    \<and> locks c ! i = Unlocked \<and> evicting c a x r"
proof -
  obtain m0 r0 where e: "evict_replace a (creplacer c) = (m0, r0)" by force
  have i: "replacer_inv (creplacer c)" "a \<notin> cached (creplacer c)"
    using assms(1,2) by (simp_all add: cache_inv_def)
  have full: "card (keys_of (indices c)) = length (pages (buf c))"
    using cache_count [OF assms(1)] assms(1,3) by (simp add: cache_inv_def)
  have m0: "m0 \<noteq> None"
    using car.replace_ok [OF i e] full assms(1) by (cases m0) (auto simp: cache_inv_def)
  then obtain x0 where x0: "m0 = Some x0" by blast
  have ev: "evicting c a x0 r0"
    using car.replace_ok [OF i e] x0 assms(1,2) by (auto simp: evicting_def cache_inv_def)
  obtain y where y: "evict_loop a m0 (c\<lparr>creplacer := r0\<rparr>) = Some y" "y = (Ok m, c')"
    using ef e by (auto simp: evict_for_def split: option.splits)
  from evict_loop_spec [OF assms(2) full y(1) x0] ev y(2) show ?thesis by auto
qed

lemma evict_for_unlocked:
  assumes "cache_inv c" and "a \<notin> keys_of (indices c)" and "all_unlocked c"
  shows "\<exists>m c'. evict_for a c = (Ok m, c')"
proof -
  obtain m0 r0 where e: "evict_replace a (creplacer c) = (m0, r0)" by force
  have i: "replacer_inv (creplacer c)" "a \<notin> cached (creplacer c)"
    using assms(1,2) by (simp_all add: cache_inv_def)
  show ?thesis
  proof (cases m0)
    case None
    then show ?thesis using e by (simp add: evict_for_def evict_loop.simps)
  next
    case (Some x)
    have "x \<in> keys_of (indices c)" "x \<noteq> a"
      using car.replace_ok [OF i e] Some assms(1,2) by (auto simp: cache_inv_def)
    then obtain j where j: "map_of (indices c) x = Some j" by (auto simp: keys_of_map_of)
    then show ?thesis
      using cache_index(1) [OF assms(1) j] all_unlocked_nth [OF assms(3)] e Some \<open>x \<noteq> a\<close>
      by (simp add: evict_for_def evict_loop.simps)
  qed
qed

section \<open>Storing a page\<close>

text \<open>What taking a slot for the page \<open>a\<close> leaves: the slot \<open>i\<close> is \<open>a\<close>'s and was not locked by others.\<close>

definition slot_taken :: "page_address \<Rightarrow> nat \<Rightarrow> page_cache \<Rightarrow> page_cache \<Rightarrow> bool" where
  "slot_taken a i c c' \<longleftrightarrow> cache_inv c' \<and> map_of (indices c') a = Some i
     \<and> (\<forall>b j. b \<noteq> a \<longrightarrow> map_of (indices c') b = Some j \<longrightarrow> map_of (indices c) b = Some j)
     \<and> (\<forall>b j. map_of (indices c) b = Some j \<longrightarrow> locks c ! j \<noteq> Unlocked \<longrightarrow> map_of (indices c') b = Some j)
     \<and> (\<exists>e. keys_of (indices c) \<subseteq> insert e (keys_of (indices c')))
     \<and> locks c' = locks c \<and> pages (buf c') = pages (buf c) \<and> dirty_list c' = dirty_list c"

lemma slot_takenD:
  assumes "slot_taken a i c c'"
  shows "map_of (indices c') a = Some i"
    and "\<forall>b j. b \<noteq> a \<longrightarrow> map_of (indices c') b = Some j \<longrightarrow> map_of (indices c) b = Some j"
    and "\<forall>b j. map_of (indices c) b = Some j \<longrightarrow> locks c ! j \<noteq> Unlocked \<longrightarrow> map_of (indices c') b = Some j"
    and "\<exists>e. keys_of (indices c) \<subseteq> insert e (keys_of (indices c'))"
    and "locks c' = locks c" and "pages (buf c') = pages (buf c)" and "dirty_list c' = dirty_list c"
  using assms unfolding slot_taken_def by blast+

lemma get_store_index_fits:
  assumes ok: "cache_inv c" and a: "map_of (indices c) a = None" and room: "num_filled (buf c) < length (pages (buf c))"
  shows "\<exists>r. get_store_index a c = (Ok (num_filled (buf c)), c\<lparr>creplacer := r,
      buf := (buf c)\<lparr>num_filled := num_filled (buf c) + 1\<rparr>, indices := indices c @ [(a, num_filled (buf c))]\<rparr>)
    \<and> replacer_inv r \<and> rsize r = length (pages (buf c)) \<and> cached r = insert a (keys_of (indices c))"
proof -
  have nk: "a \<notin> keys_of (indices c)" using a by (simp add: map_of_eq_None_iff)
  obtain r where ef: "evict_for a c = (Ok None, c\<lparr>creplacer := r\<rparr>)" "replacer_inv r"
      "rsize r = length (pages (buf c))" "cached r = insert a (keys_of (indices c))"
    using evict_for_fits [OF ok nk room] by blast
  have "scrap_slots c = []" using ok by (simp add: cache_inv_def)
  then have "get_store_index a c = (Ok (num_filled (buf c)), c\<lparr>creplacer := r,
      buf := (buf c)\<lparr>num_filled := num_filled (buf c) + 1\<rparr>, indices := indices c @ [(a, num_filled (buf c))]\<rparr>)"
    using a room update_fresh [OF nk]
    by (simp add: get_store_index_def prog_simps bindp_Ok [where m = "evict_for a", OF ef(1)] push_page_def)
  then show ?thesis using ef(2-) by blast
qed

lemma get_store_index_ok:
  assumes ok: "cache_inv c" and run: "get_store_index a c = (Ok i, c')"
  shows "slot_taken a i c c'"
proof (cases "map_of (indices c) a")
  case (Some j)
  then show ?thesis using ok run by (auto simp: get_store_index_def slot_taken_def prog_simps)
next
  case None
  have a: "a \<notin> keys_of (indices c)" using None by (simp add: map_of_eq_None_iff)
  have dk: "distinct_keys (indices c)" and sc: "scrap_slots c = []" and nf: "num_filled (buf c) \<le> length (pages (buf c))"
    using ok by (simp_all add: cache_inv_def)
  show ?thesis
  proof (cases "num_filled (buf c) < length (pages (buf c))")
    case True
    obtain r where r: "get_store_index a c = (Ok (num_filled (buf c)), c\<lparr>creplacer := r,
        buf := (buf c)\<lparr>num_filled := num_filled (buf c) + 1\<rparr>, indices := indices c @ [(a, num_filled (buf c))]\<rparr>)"
        "replacer_inv r" "rsize r = length (pages (buf c))" "cached r = insert a (keys_of (indices c))"
      using get_store_index_fits [OF ok None True] by blast
    have fin: "i = num_filled (buf c)"
        "c' = c\<lparr>creplacer := r, buf := (buf c)\<lparr>num_filled := num_filled (buf c) + 1\<rparr>, indices := indices c @ [(a, i)]\<rparr>"
      using run r(1) by auto
    have "\<And>y. (a, y) \<notin> set (indices c)" using a by force
    then show ?thesis
      using ok r(2-) fin a dk True unfolding slot_taken_def
      by (auto simp: cache_inv_def distinct_keys_def map_add_Some_iff lessThan_Suc image_iff)
  next
    case False
    then have nf: "num_filled (buf c) = length (pages (buf c))" using nf by simp
    have "\<exists>m c1. evict_for a c = (Ok m, c1)"
      using run None sc by (cases "fst (evict_for a c)"; cases "evict_for a c")
        (auto simp: get_store_index_def prog_simps bindp_def)
    then obtain m c1 where ef: "evict_for a c = (Ok m, c1)" by blast
    obtain r x j where r: "c1 = c\<lparr>creplacer := r\<rparr>" "m = Some x" "x \<noteq> a" "map_of (indices c) x = Some j"
        "locks c ! j = Unlocked" "evicting c a x r"
      using evict_for_full [OF ok a nf ef] by blast
    let ?m = "AList.delete x (indices c)"
    have fin: "i = j" "c' = c\<lparr>creplacer := r, indices := ?m @ [(a, j)]\<rparr>"
      using run None sc r a update_fresh [of a ?m j]
      by (auto simp: get_store_index_def prog_simps bindp_Ok [where m = "evict_for a", OF ef])
    have inm: "(x, j) \<in> set (indices c)" using r(4) by (rule map_of_SomeD)
    have sd: "snd ` set ?m = snd ` set (indices c) - {j}" "distinct (map snd ?m)"
      using snd_delete [OF _ inm dk] ok by (simp_all add: cache_inv_def)
    have "j \<in> snd ` set (indices c)" using inm by force
    then have j: "insert j (snd ` set ?m) = {..<num_filled (buf c)}" using sd ok by (auto simp: cache_inv_def)
    have "cache_inv c'"
      using ok r fin a sd j distinct_keys_delete [OF dk, of x] by (auto simp: cache_inv_def distinct_keys_def evicting_def)
    moreover have "map_of (indices c') = (map_of (indices c)) (x := None, a \<mapsto> j)"
      using fin None r(3) by (auto simp: fun_eq_iff map_add_def delete_conv split: option.splits)
    moreover have "keys_of (indices c) \<subseteq> insert x (keys_of (indices c'))"
      using fin by auto
    ultimately show ?thesis
      using r fin None cache_index_inject [OF ok] unfolding slot_taken_def by auto
  qed
qed

lemma get_store_index_unlocked:
  assumes "cache_inv c" and "all_unlocked c"
  shows "\<exists>i c'. get_store_index a c = (Ok i, c')"
proof (cases "map_of (indices c) a")
  case (Some j)
  then show ?thesis by (auto simp: get_store_index_def prog_simps)
next
  case None
  have a: "a \<notin> keys_of (indices c)" using None by (simp add: map_of_eq_None_iff)
  have sc: "scrap_slots c = []" using assms(1) by (simp add: cache_inv_def)
  show ?thesis
  proof (cases "num_filled (buf c) < length (pages (buf c))")
    case True
    then show ?thesis using get_store_index_fits [OF assms(1) None] by blast
  next
    case False
    then have nf: "num_filled (buf c) = length (pages (buf c))" using assms(1) by (simp add: cache_inv_def)
    obtain m c1 where ef: "evict_for a c = (Ok m, c1)" using evict_for_unlocked [OF assms(1) a assms(2)] by blast
    obtain r x j where "c1 = c\<lparr>creplacer := r\<rparr>" "m = Some x" "map_of (indices c) x = Some j"
      using evict_for_full [OF assms(1) a nf ef] by blast
    then show ?thesis
      using None sc by (simp add: get_store_index_def prog_simps bindp_Ok [where m = "evict_for a", OF ef])
  qed
qed

lemma cache_inv_cong:
  "indices c' = indices c \<Longrightarrow> creplacer c' = creplacer c \<Longrightarrow> buf c' = buf c \<Longrightarrow> scrap_slots c' = scrap_slots c
    \<Longrightarrow> length (locks c') = length (locks c) \<Longrightarrow> cache_inv c' = cache_inv c"
  by (simp add: cache_inv_def)

lemma load_mut_direct_ok:
  assumes "i < length (locks c)" and "i < length (pages (buf c))"
  shows "load_mut_direct i c = (if locks c ! i = Unlocked then (Ok i, set_lock i Exclusive c) else (Stuck, c))"
  using assms by (cases "locks c ! i") (simp_all add: load_mut_direct_def get_lock_def bindp_def prog_simps set_lock_def)

text \<open>What another reader makes of a lock.\<close>

fun one_more :: "rw_lock \<Rightarrow> rw_lock" where
  "one_more (SharedBy n) = SharedBy (Suc n)"
| "one_more _ = SharedBy 1"

lemma load_direct_ok:
  assumes "i < length (locks c)" and "i < length (pages (buf c))"
  shows "load_direct i c = (if locks c ! i = Exclusive then (Stuck, c) else (Ok i, set_lock i (one_more (locks c ! i)) c))"
  using assms by (cases "locks c ! i") (simp_all add: load_direct_def get_lock_def bindp_def prog_simps set_lock_def)

lemma slot_index:
  "slot_taken a i c c' \<Longrightarrow> i < length (locks c') \<and> i < length (pages (buf c'))"
  using cache_index [of c' a i] by (simp add: slot_taken_def)

text \<open>The state in which \<open>cache_store\<close> looks for a slot.\<close>

definition store_noted :: "page_address \<Rightarrow> page_cache \<Rightarrow> page_cache" where
  "store_noted a c = (let c1 = c\<lparr>dirty_list := dirty_list c @ [a]\<rparr> in
     if length (dirty_list c1) \<ge> max_num_dirty c1 then c1\<lparr>flush_spawned := Suc (flush_spawned c1)\<rparr> else c1)"

lemma store_noted_fields [simp]:
  "indices (store_noted a c) = indices c" "creplacer (store_noted a c) = creplacer c"
  "buf (store_noted a c) = buf c" "scrap_slots (store_noted a c) = scrap_slots c" "locks (store_noted a c) = locks c"
  "dirty_list (store_noted a c) = dirty_list c @ [a]" "has_scrap (store_noted a c) = has_scrap c"
  by (simp_all add: store_noted_def Let_def)

lemma cache_store_run: "cache_store a c = bindp (get_store_index a) load_mut_direct (store_noted a c)"
  by (simp add: cache_store_def prog_simps store_noted_def Let_def)

lemma cache_inv_noted [simp]: "cache_inv (store_noted a c) = cache_inv c"
  by (rule cache_inv_cong) simp_all

definition holds_page :: "page_cache \<Rightarrow> page_address \<Rightarrow> nat \<Rightarrow> bool" where
  "holds_page c b j \<longleftrightarrow> map_of (indices c) b = Some j"

text \<open>
  C18: A page that someone holds a guard on is never evicted. Whatever happens in between,
  when \<open>store\<close> returns a guard: the cache is consistent again, the page owns the slot, the slot
  was locked by nobody and is locked exclusively now, every page with a held lock still owns
  its slot, every page that is still cached kept its slot, at most one page was dropped, and
  no buffer was written.
\<close>

theorem store_never_evicts_locked:
  assumes "cache_inv c" and "cache_store a c = (Ok i, c')"
  shows "cache_inv c' \<and> holds_page c' a i \<and> locks c ! i = Unlocked \<and> locks c' = (locks c)[i := Exclusive]
    \<and> (\<forall>b j. holds_page c b j \<longrightarrow> locks c ! j \<noteq> Unlocked \<longrightarrow> holds_page c' b j)
    \<and> (\<forall>b j. b \<noteq> a \<longrightarrow> holds_page c' b j \<longrightarrow> holds_page c b j)
    \<and> (\<exists>e. keys_of (indices c) \<subseteq> insert e (keys_of (indices c')))
    \<and> pages (buf c') = pages (buf c) \<and> dirty_list c' = dirty_list c @ [a]"
proof -
  obtain j c1 where g: "get_store_index a (store_noted a c) = (Ok j, c1)" "load_mut_direct j c1 = (Ok i, c')"
    using bindp_OkD [OF assms(2) [unfolded cache_store_run]] by blast
  have t: "slot_taken a j (store_noted a c) c1" by (rule get_store_index_ok [OF _ g(1)]) (simp add: assms(1))
  have l: "locks c1 ! j = Unlocked" "i = j" "c' = set_lock j Exclusive c1"
    using g(2) load_mut_direct_ok [of j c1] slot_index [OF t] by (auto split: if_splits)
  have "cache_inv c' = cache_inv c1" by (rule cache_inv_cong) (simp_all add: l(3) set_lock_def)
  then have 1: "cache_inv c'" using t by (simp add: slot_taken_def)
  have 2: "indices c' = indices c1" "pages (buf c') = pages (buf c1)" "dirty_list c' = dirty_list c1"
      "locks c' = (locks c1)[j := Exclusive]"
    by (simp_all add: l(3) set_lock_def)
  note d = slot_takenD [OF t, unfolded store_noted_fields]
  have 3: "locks c ! i = Unlocked" "locks c' = (locks c)[i := Exclusive]" "map_of (indices c1) a = Some i"
    using d(1) l(1,2) unfolding d(5) 2(4) by simp_all
  show ?thesis
    unfolding holds_page_def 2(1-3) using 1 3 d(2,3,4,6,7) by (intro conjI) assumption+
qed

lemma store_succeeds:
  assumes "cache_inv c" and "all_unlocked c"
  shows "\<exists>i c1. cache_store a c = (Ok i, set_lock i Exclusive c1) \<and> slot_taken a i (store_noted a c) c1"
proof -
  have n: "cache_inv (store_noted a c)" "all_unlocked (store_noted a c)"
    using assms by (simp_all add: all_unlocked_def)
  obtain i c1 where g: "get_store_index a (store_noted a c) = (Ok i, c1)"
    using get_store_index_unlocked [OF n] by blast
  have t: "slot_taken a i (store_noted a c) c1" by (rule get_store_index_ok [OF n(1) g])
  have "all_unlocked c1" using t n(2) by (simp add: slot_taken_def all_unlocked_def)
  then have "load_mut_direct i c1 = (Ok i, set_lock i Exclusive c1)"
    using load_mut_direct_ok [of i c1] slot_index [OF t] all_unlocked_nth [of c1 i] by simp
  then have "cache_store a c = (Ok i, set_lock i Exclusive c1)"
    by (simp only: cache_store_run bindp_Ok [where m = "get_store_index a", OF g])
  then show ?thesis using t by blast
qed

text \<open>A cache of one page: what a first \<open>store\<close> in it gives.\<close>

lemma store_new:
  assumes "BUFFERED_PAGE_SIZE \<le> n"
  shows "\<exists>i c1. cache_store a (page_cache_new n k) = (Ok i, c1)"
  using store_succeeds [OF cache_inv_new [OF assms] all_unlocked_new] by blast

text \<open>While there is room, a page gets the next buffer, whatever is locked.\<close>

lemma store_fits:
  assumes ok: "cache_inv c" and a: "map_of (indices c) a = None" and room: "num_filled (buf c) < length (pages (buf c))"
    and l: "locks c ! num_filled (buf c) = Unlocked"
  shows "\<exists>c1. cache_store a c = (Ok (num_filled (buf c)), c1) \<and> cache_inv c1
    \<and> indices c1 = indices c @ [(a, num_filled (buf c))] \<and> num_filled (buf c1) = Suc (num_filled (buf c))
    \<and> pages (buf c1) = pages (buf c) \<and> locks c1 = (locks c)[num_filled (buf c) := Exclusive]
    \<and> dirty_list c1 = dirty_list c @ [a]"
proof -
  let ?n = "store_noted a c" and ?k = "num_filled (buf c)"
  have n: "cache_inv ?n" "map_of (indices ?n) a = None" "num_filled (buf ?n) < length (pages (buf ?n))"
    using ok a room by simp_all
  from get_store_index_fits [OF n, unfolded store_noted_fields]
  obtain r where g: "get_store_index a ?n = (Ok ?k, ?n\<lparr>creplacer := r,
      buf := (buf c)\<lparr>num_filled := ?k + 1\<rparr>, indices := indices c @ [(a, ?k)]\<rparr>)" (is "_ = (_, ?d)")
    by blast
  have "slot_taken a ?k ?n ?d" by (rule get_store_index_ok [OF n(1) g])
  then have d: "cache_inv ?d" unfolding slot_taken_def by blast
  have "length (locks c) = length (pages (buf c))" using ok by (simp add: cache_inv_def)
  then have "load_mut_direct ?k ?d = (Ok ?k, set_lock ?k Exclusive ?d)"
    using load_mut_direct_ok [of ?k ?d] room l by simp
  then have st: "cache_store a c = (Ok ?k, set_lock ?k Exclusive ?d)"
    by (simp only: cache_store_run bindp_Ok [where m = "get_store_index a", OF g])
  have "cache_inv (set_lock ?k Exclusive ?d) = cache_inv ?d" by (rule cache_inv_cong) (simp_all add: set_lock_def)
  then show ?thesis using st d by (intro exI [of _ "set_lock ?k Exclusive ?d"]) (simp add: set_lock_def)
qed

theorem store_never_evicts_locked_witness:
  "\<exists>i c1. cache_store (PageAddress 3 4) (page_cache_new BUFFERED_PAGE_SIZE 1) = (Ok i, c1)
    \<and> holds_page c1 (PageAddress 3 4) i \<and> cache_inv c1"
proof -
  obtain i c1 where s: "cache_store (PageAddress 3 4) (page_cache_new BUFFERED_PAGE_SIZE 1) = (Ok i, c1)"
    using store_new [of BUFFERED_PAGE_SIZE] by blast
  have n: "cache_inv (page_cache_new BUFFERED_PAGE_SIZE 1)" by (rule cache_inv_new) simp
  show ?thesis using store_never_evicts_locked [OF n s] s by blast
qed

section \<open>Writing and reading back\<close>

lemma page_at_set_page:
  "i < length (pages (buf c)) \<Longrightarrow> page_at j (set_page i p c) = (if j = i then p else page_at j c)"
  by (simp add: page_at_def set_page_def)

lemma page_at_set_lock [simp]: "page_at j (set_lock i l c) = page_at j c"
  by (simp add: page_at_def set_lock_def)

lemma set_page_fields [simp]:
  "indices (set_page i p c) = indices c" "creplacer (set_page i p c) = creplacer c" "locks (set_page i p c) = locks c"
  "scrap_slots (set_page i p c) = scrap_slots c" "dirty_list (set_page i p c) = dirty_list c"
  "num_filled (buf (set_page i p c)) = num_filled (buf c)" "length (pages (buf (set_page i p c))) = length (pages (buf c))"
  by (simp_all add: set_page_def)

lemma set_lock_fields [simp]:
  "indices (set_lock i l c) = indices c" "creplacer (set_lock i l c) = creplacer c" "buf (set_lock i l c) = buf c"
  "scrap_slots (set_lock i l c) = scrap_slots c" "dirty_list (set_lock i l c) = dirty_list c"
  "locks (set_lock i l c) = (locks c)[i := l]"
  by (simp_all add: set_lock_def)

lemma cache_inv_set_lock [simp]: "cache_inv (set_lock i l c) = cache_inv c"
  by (rule cache_inv_cong) simp_all

lemma cache_inv_set_page:
  assumes "cache_inv c" and "length (page_body p) = PAGE_BODY_SIZE"
  shows "cache_inv (set_page i p c)"
proof -
  have "set ((pages (buf c))[i := p]) \<subseteq> insert p (set (pages (buf c)))" by (rule set_update_subset_insert)
  then have "\<forall>q \<in> set (pages (buf (set_page i p c))). length (page_body q) = PAGE_BODY_SIZE"
    using assms by (auto simp: set_page_def cache_inv_def)
  then show ?thesis using assms(1) by (simp add: cache_inv_def)
qed

lemma guard_write_ok:
  assumes "i < length (pages (buf c))" and "off + length bs \<le> length (page_body (page_at i c))"
  shows "guard_write i off bs idx c = (Ok (), set_page i \<lparr>wal_generation = generation idx, wal_offset = offset idx,
    dirty_byte = 1, page_body = patch off bs (page_body (page_at i c))\<rparr> c)"
  using assms by (cases "page_at i c") (simp add: guard_write_def set_dirty_def set_wal_index_def Let_def)

lemma cache_inv_access:
  assumes "cache_inv c"
  shows "cache_inv (c\<lparr>creplacer := snd (replacer_access a (creplacer c))\<rparr>)"
proof -
  obtain b r where r: "replacer_access a (creplacer c) = (b, r)" by force
  show ?thesis using car.access_ok [OF _ r] assms r by (simp add: cache_inv_def)
qed

lemma cache_load_ok:
  assumes "cache_inv c" and "map_of (indices c) a = Some i" and "locks c ! i \<noteq> Exclusive"
  shows "cache_load a c = (Ok (Some i),
    set_lock i (one_more (locks c ! i)) (c\<lparr>creplacer := snd (replacer_access a (creplacer c))\<rparr>))"
proof -
  let ?c = "c\<lparr>creplacer := snd (replacer_access a (creplacer c))\<rparr>"
  have l: "load_direct i ?c = (Ok i, set_lock i (one_more (locks c ! i)) ?c)"
    using load_direct_ok [of i ?c] cache_index [OF assms(1,2)] assms(3) by simp
  have g: "get_load_index a c = (Ok (Some i), ?c)"
    using assms(2) by (simp add: get_load_index_def prog_simps)
  show ?thesis
    by (simp add: cache_load_def bindp_Ok [where m = "get_load_index a", OF g] bindp_Ok [where m = "load_direct i", OF l] prog_simps)
qed

text \<open>
  A page that is stored, written and released is found again: loading it gives a guard on
  the same buffer, which holds the bytes written, is marked dirty and carries the position of
  the write in the log; no other buffer changed.
\<close>

theorem store_write_load:
  assumes "cache_inv c" and "all_unlocked c" and "off + length bs \<le> PAGE_BODY_SIZE" and "wf_wal_index idx"
  shows "\<exists>i c1 c2 c3. cache_store a c = (Ok i, c1) \<and> guard_write i off bs idx c1 = (Ok (), c2)
    \<and> cache_load a (drop_write_guard i c2) = (Ok (Some i), c3)
    \<and> guard_read i off (length bs) c3 = (Ok bs, c3) \<and> is_dirty (page_at i c3)
    \<and> header_wal_index (page_at i c3) = (Ok idx :: (storage_error, wal_index) outcome)
    \<and> (\<forall>j. j \<noteq> i \<longrightarrow> page_at j c3 = page_at j c)
    \<and> cache_inv c3 \<and> all_unlocked (drop_read_guard i c3)"
proof -
  obtain i c1 where s: "cache_store a c = (Ok i, set_lock i Exclusive c1)" and t: "slot_taken a i (store_noted a c) c1"
    using store_succeeds [OF assms(1,2)] by blast
  note d = slot_takenD [OF t, unfolded store_noted_fields]
  have c1: "cache_inv c1" using t unfolding slot_taken_def by blast
  note ix = cache_index [OF c1 d(1)]
  let ?p = "\<lparr>wal_generation = generation idx, wal_offset = offset idx, dirty_byte = 1,
      page_body = patch off bs (page_body (page_at i c1))\<rparr>"
  let ?c2 = "set_page i ?p (set_lock i Exclusive c1)"
  have w: "guard_write i off bs idx (set_lock i Exclusive c1) = (Ok (), ?c2)"
    using guard_write_ok [of i "set_lock i Exclusive c1" off bs idx] ix assms(3) by simp
  have lp: "length (page_body ?p) = PAGE_BODY_SIZE" using ix assms(3) by simp
  let ?c2' = "drop_write_guard i ?c2"
  have c2: "cache_inv ?c2'" using cache_inv_set_page [OF _ lp] c1 by (simp add: drop_write_guard_def)
  have lk: "locks ?c2' = (locks c1)[i := Unlocked]" by (simp add: drop_write_guard_def)
  have lki: "locks ?c2' ! i = Unlocked" using lk ix by simp
  define c3 where "c3 = set_lock i (SharedBy 1) (?c2'\<lparr>creplacer := snd (replacer_access a (creplacer ?c2'))\<rparr>)"
  have l: "cache_load a ?c2' = (Ok (Some i), c3)"
    using cache_load_ok [OF c2, of a i] d(1) lki by (simp add: drop_write_guard_def c3_def)
  have p3: "page_at j c3 = (if j = i then ?p else page_at j c)" for j
  proof -
    have "page_at j c3 = page_at j ?c2" by (simp add: c3_def page_at_def drop_write_guard_def)
    also have "\<dots> = (if j = i then ?p else page_at j c1)" using page_at_set_page [of i "set_lock i Exclusive c1" j ?p] ix by simp
    finally show ?thesis using d(6) by (simp add: page_at_def)
  qed
  have "guard_read i off (length bs) c3 = (Ok bs, c3)"
    using p3 [of i] lp ix assms(3) by (simp add: guard_read_def slice_patch_same)
  moreover have "header_wal_index (page_at i c3) = Ok idx" "is_dirty (page_at i c3)"
    using p3 [of i] assms(4) by (simp_all add: header_wal_index_def wf_wal_index_def is_dirty_def)
  moreover have "cache_inv c3" using cache_inv_access [OF c2] by (simp add: c3_def)
  moreover have "all_unlocked (drop_read_guard i c3)"
  proof -
    have "locks (drop_read_guard i c3) = (locks c1)[i := Unlocked]"
      using ix by (simp add: c3_def drop_read_guard_def lk drop_write_guard_def)
    moreover have "set ((locks c1)[i := Unlocked]) \<subseteq> insert Unlocked (set (locks c))"
      unfolding d(5) by (rule set_update_subset_insert)
    ultimately show ?thesis using assms(2) by (auto simp: all_unlocked_def)
  qed
  ultimately show ?thesis using s w l p3 by (intro exI conjI) auto
qed

theorem store_write_load_witness:
  "\<exists>i c1 c2 c3. cache_store (PageAddress 3 4) (page_cache_new BUFFERED_PAGE_SIZE 1) = (Ok i, c1)
    \<and> guard_write i 10 [7, 8] (WalIndex 0 90) c1 = (Ok (), c2)
    \<and> cache_load (PageAddress 3 4) (drop_write_guard i c2) = (Ok (Some i), c3)
    \<and> guard_read i 10 2 c3 = (Ok [7, 8], c3)"
proof -
  have n: "cache_inv (page_cache_new BUFFERED_PAGE_SIZE 1)" by (rule cache_inv_new) simp
  have w: "10 + length [7::byte, 8] \<le> PAGE_BODY_SIZE" "wf_wal_index (WalIndex 0 90)"
    by (simp_all add: wf_wal_index_def page_body_size_value)
  have l: "length [7::byte, 8] = 2" by simp
  show ?thesis
    using store_write_load [OF n all_unlocked_new w, of "PageAddress 3 4", unfolded l] by blast
qed

section \<open>Scrapped slots\<close>

text \<open>
  A page that is stored into a scrapped slot is not in the cache: after \<open>scrap\<close> of a
  cached page, \<open>store\<close> of a page that is not cached hands out a guard on the scrapped buffer, but
  the page never gets into the index, so \<open>load\<close> does not find it, and what is written through
  the guard is not part of the cache.
\<close>

theorem scrapped_slot_unreachable:
  assumes "cache_inv c" and "holds_page c a i" and "locks c ! i = Unlocked" and "b = a \<or> \<not> has_page b c"
  shows "\<exists>c'. cache_store b (cache_scrap a c) = (Ok i, c') \<and> \<not> has_page b c'
    \<and> cache_load b (drop_write_guard i c') = (Ok None, drop_write_guard i c')
    \<and> (\<forall>off bs idx c''. guard_write i off bs idx c' = (Ok (), c'') \<longrightarrow> \<not> has_page b c'')"
proof -
  have ai: "map_of (indices c) a = Some i" using assms(2) by (simp add: holds_page_def)
  let ?s = "cache_scrap a c"
  have sc: "?s = c\<lparr>indices := AList.delete a (indices c), has_scrap := True, scrap_slots := [i]\<rparr>"
    using ai assms(1) by (simp add: cache_scrap_def cache_inv_def)
  have nb: "map_of (indices ?s) b = None"
    using assms(4) sc by (auto simp: has_page_def delete_conv)
  let ?n = "store_noted b ?s"
  define c1 where "c1 = ?n\<lparr>scrap_slots := []\<rparr>"
  have g: "get_store_index b ?n = (Ok i, c1)"
    using nb sc by (simp add: get_store_index_def prog_simps c1_def)
  have c1f: "locks c1 = locks c" "buf c1 = buf c" "indices c1 = indices ?s"
    using sc by (simp_all add: c1_def)
  have l: "load_mut_direct i c1 = (Ok i, set_lock i Exclusive c1)"
    using load_mut_direct_ok [of i c1] cache_index [OF assms(1) ai] assms(3) c1f by simp
  have st: "cache_store b ?s = (Ok i, set_lock i Exclusive c1)"
    by (simp only: cache_store_run bindp_Ok [where m = "get_store_index b", OF g] l)
  have nh: "\<not> has_page b d" if "indices d = indices ?s" for d
    using nb that by (simp add: has_page_def)
  have "cache_load b (drop_write_guard i (set_lock i Exclusive c1)) = (Ok None, drop_write_guard i (set_lock i Exclusive c1))"
    using nb c1f by (simp add: cache_load_def get_load_index_def prog_simps drop_write_guard_def)
  moreover have "\<not> has_page b c''" if "guard_write i off bs idx (set_lock i Exclusive c1) = (Ok (), c'')" for off bs idx c''
    using that c1f by (intro nh) (auto simp: guard_write_def Let_def split: if_splits)
  ultimately show ?thesis using st nh [of "set_lock i Exclusive c1"] c1f by auto
qed

theorem scrapped_slot_unreachable_witness:
  "\<exists>c i c'. holds_page c (PageAddress 3 4) i \<and> cache_store (PageAddress 3 4) (cache_scrap (PageAddress 3 4) c) = (Ok i, c')
    \<and> \<not> has_page (PageAddress 3 4) c'"
proof -
  have n: "cache_inv (page_cache_new BUFFERED_PAGE_SIZE 1)" by (rule cache_inv_new) simp
  obtain i c1 where t: "slot_taken (PageAddress 3 4) i (store_noted (PageAddress 3 4) (page_cache_new BUFFERED_PAGE_SIZE 1)) c1"
    using store_succeeds [OF n all_unlocked_new] by blast
  note d = slot_takenD [OF t, unfolded store_noted_fields]
  have c1: "cache_inv c1" using t unfolding slot_taken_def by blast
  have u: "locks c1 ! i = Unlocked"
    using all_unlocked_nth [OF all_unlocked_new] cache_index(1) [OF c1 d(1)] d(5) by metis
  have h: "holds_page c1 (PageAddress 3 4) i" using d(1) by (simp add: holds_page_def)
  from scrapped_slot_unreachable [OF c1 h u, of "PageAddress 3 4"] h show ?thesis by blast
qed

section \<open>A cache whose only page is locked\<close>

text \<open>
  While the only page of a full cache of one is locked, storing another page panics. The
  comment at the loop says that a candidate equal to the page being inserted is inserted
  again and the next one tried; but that page is not in the index yet, and the lookup that
  comes before the comparison fails.
\<close>

theorem store_locked_single_page_panics:
  assumes "cache_inv c" and "length (pages (buf c)) = 1" and "holds_page c b i" and "locks c ! i \<noteq> Unlocked" and "a \<noteq> b"
  shows "fst (cache_store a c) = Panic"
proof -
  have bi: "map_of (indices c) b = Some i" using assms(3) by (simp add: holds_page_def)
  have ix: "i < length (locks c)" by (rule cache_index(1) [OF assms(1) bi])
  have l: "length (indices c) \<le> 1" using cache_count(2) [OF assms(1)] assms(1,2) by (simp add: cache_inv_def)
  have mem: "(b, i) \<in> set (indices c)" using bi by (rule map_of_SomeD)
  have ind: "indices c = [(b, i)]"
    using l mem by (cases "indices c") auto
  have r: "replacer_inv (creplacer c)" "cached (creplacer c) = {b}" "rsize (creplacer c) = 1"
    using assms(1,2) ind by (auto simp: cache_inv_def)
  obtain m1 r1 where e1: "evict_replace a (creplacer c) = (m1, r1)" by force
  note k1 = car.replace_ok [OF r(1) _ e1]
  have m1: "m1 = Some b" "cached r1 = {a}" "replacer_inv r1" "rsize r1 = 1"
    using k1 r assms(5) by (auto split: option.splits)
  obtain m2 r2 where e2: "evict_replace b r1 = (m2, r2)" by force
  have m2: "m2 = Some a" using car.replace_ok [OF m1(3) _ e2] m1 assms(5) by (auto split: option.splits)
  let ?n = "store_noted a c"
  have sc: "scrap_slots c = []" using assms(1) by (simp add: cache_inv_def)
  have "evict_loop a (Some a) (?n\<lparr>creplacer := r2\<rparr>) = Some (Panic, ?n\<lparr>creplacer := r2\<rparr>)"
    using assms(5) ind by (simp add: evict_loop.simps)
  then have "evict_loop a (Some b) (?n\<lparr>creplacer := r1\<rparr>) = Some (Panic, ?n\<lparr>creplacer := r2\<rparr>)"
    using assms(4,5) ind ix e2 m2 by (subst evict_loop.simps) simp
  then have ef: "evict_for a ?n = (Panic, ?n\<lparr>creplacer := r2\<rparr>)"
    using e1 m1(1) by (simp add: evict_for_def)
  have "get_store_index a ?n = (Panic, ?n\<lparr>creplacer := r2\<rparr>)"
    using assms(5) ind sc by (simp add: get_store_index_def prog_simps bindp_Panic [where m = "evict_for a", OF ef])
  then show ?thesis by (simp add: cache_store_run bindp_Panic [where m = "get_store_index a"])
qed

theorem store_locked_single_page_panics_witness:
  "\<exists>i c1. cache_store (PageAddress 3 4) (page_cache_new BUFFERED_PAGE_SIZE 1) = (Ok i, c1)
    \<and> fst (cache_store (PageAddress 3 5) c1) = Panic"
proof -
  have n: "cache_inv (page_cache_new BUFFERED_PAGE_SIZE 1)" by (rule cache_inv_new) simp
  obtain i c1 where s: "cache_store (PageAddress 3 4) (page_cache_new BUFFERED_PAGE_SIZE 1) = (Ok i, set_lock i Exclusive c1)"
      and t: "slot_taken (PageAddress 3 4) i (store_noted (PageAddress 3 4) (page_cache_new BUFFERED_PAGE_SIZE 1)) c1"
    using store_succeeds [OF n all_unlocked_new] by blast
  note d = slot_takenD [OF t, unfolded store_noted_fields]
  have c1: "cache_inv c1" using t unfolding slot_taken_def by blast
  have "length (pages (buf (page_cache_new BUFFERED_PAGE_SIZE 1))) = 1"
    by (simp add: page_cache_new_def page_buffer_new_def BUFFERED_PAGE_SIZE_def HEADER_SIZE_def)
  then have "length (pages (buf (set_lock i Exclusive c1))) = 1" using d(6) by simp
  from store_locked_single_page_panics [OF _ this, of "PageAddress 3 4" i "PageAddress 3 5"]
  show ?thesis using s c1 d(1) cache_index(1) [OF c1 d(1)] by (auto simp: holds_page_def)
qed

end
