(* ===== verification/CacheEviction.thy ===== *)
theory CacheEviction
  imports CacheProofs
begin

text \<open>
  Which page gives way to a new one when the cache is full. The order of the candidates is that of
  the replacer; this theory follows it through the loop of \<open>evict_for\<close>.
\<close>

section \<open>Candidates\<close>

text \<open>The values in the clock of recent ones that were not accessed since they entered it, oldest first.\<close>

definition once_seen :: "'a replacer \<Rightarrow> 'a list" where
  "once_seen r = map item_value (filter (\<lambda>x. \<not> was_referenced x) (recent r))"

definition not_adapting :: "'a replacer \<Rightarrow> bool" where
  "not_adapting r \<longleftrightarrow> recent_history r = lru_new \<and> recent_target_size r = 0"

lemma once_seen_append:
  "once_seen (r\<lparr>recent := recent r @ [ClockItem v False]\<rparr>) = once_seen r @ [v]"
  by (simp add: once_seen_def)

lemma evict_once_seen:
  assumes "recent_target_size r = 0" and "once_seen r = x # xs"
  shows "\<exists>r'. evict r = (Some x, r') \<and> once_seen r' = xs"
  using assms
proof (induction "recent r" arbitrary: r)
  case Nil
  then show ?case by (simp add: once_seen_def)
next
  case (Cons it c)
  have full: "recent_cache_is_full r" using Cons.prems(1) Cons.hyps(2) [symmetric] by (simp add: recent_cache_is_full_def)
  obtain v b where it: "it = ClockItem v b" by (cases it)
  show ?case
  proof (cases b)
    case True
    let ?r = "r\<lparr>recent := c, frequent := clock_insert v (frequent r)\<rparr>"
    have "once_seen ?r = x # xs" using Cons.prems(2) Cons.hyps(2) [symmetric] it True by (simp add: once_seen_def)
    then show ?thesis
      using Cons.hyps(1) [of ?r] Cons.prems(1) evict_promote [OF full, of v c] Cons.hyps(2) it True by simp
  next
    case False
    then show ?thesis
      using evict_recent [OF full, of v c] Cons.hyps(2) [symmetric] Cons.prems(2) it by (simp add: once_seen_def)
  qed
qed

lemma evict_not_once_seen:
  "evict r = (ev, r') \<Longrightarrow> recent_target_size r = 0 \<Longrightarrow> once_seen r = [] \<Longrightarrow> once_seen r' = []"
  by (rule evict_rule [where P = "\<lambda>r ev r'. recent_target_size r = 0 \<longrightarrow> once_seen r = [] \<longrightarrow> once_seen r' = []",
        THEN mp, THEN mp])
    (auto simp: once_seen_def recent_cache_is_full_def)

lemma once_seen_cached: "x \<in> set (once_seen r) \<Longrightarrow> x \<in> cached r"
  by (auto simp: once_seen_def cached_def cached_list_def)

lemma once_seen_distinct: "replacer_inv r \<Longrightarrow> distinct (once_seen r)"
  by (simp add: once_seen_def replacer_inv_def cached_list_def distinct_map_filter)

lemma once_seen_history [simp]: "once_seen (maybe_evict_history r) = once_seen r"
  by (simp add: once_seen_def maybe_evict_history_def)

lemma once_seen_insert:
  "once_seen (replacer_insert v r) = (if value_in_history v r then once_seen r else once_seen r @ [v])"
  by (auto simp: once_seen_def replacer_insert_def value_in_history_def clock_insert_def Let_def
      increase_recent_target_def decrease_recent_target_def)

text \<open>One turn of the loop: the next candidate, and where the rejected one goes.\<close>

lemma evict_replace_once_seen:
  assumes "not_adapting r" and "cache_is_full r" and "once_seen r = x # xs" and "evict_replace v r = (m, r')"
  shows "m = Some x \<and> not_adapting r' \<and> (once_seen r' = xs \<or> once_seen r' = xs @ [v])"
proof -
  have "recent_target_size r = 0" using assms(1) by (simp add: not_adapting_def)
  then obtain r1 where r1: "evict r = (Some x, r1)" "once_seen r1 = xs"
    using evict_once_seen [OF _ assms(3)] by blast
  have "not_adapting r'"
    using evict_replace_recent_history [of r v] assms(1,4) by (simp add: not_adapting_def)
  moreover define r2 where "r2 = (if value_in_history v r1 then r1 else maybe_evict_history r1)"
  have "once_seen r2 = xs" using r1 by (simp add: r2_def)
  moreover have "m = Some x" "r' = replacer_insert v r2"
    using assms(2,4) r1 by (simp_all add: evict_replace_def r2_def Let_def)
  ultimately show ?thesis by (simp add: once_seen_insert)
qed

section \<open>The loop\<close>

definition unlocked :: "page_cache \<Rightarrow> page_address \<Rightarrow> bool" where
  "unlocked c a \<longleftrightarrow> (\<exists>i. map_of (indices c) a = Some i \<and> locks c ! i = Unlocked)"

lemma evicting_full:
  assumes "evicting c a e r" and "a \<notin> keys_of (indices c)" and "card (keys_of (indices c)) = length (pages (buf c))"
  shows "cache_is_full r"
proof -
  have "card (cached r) = card (insert a (keys_of (indices c))) - 1"
    using assms(1) by (simp add: evicting_def card_Diff_singleton_if)
  then have "card (cached r) = rsize r" using assms by (simp add: evicting_def)
  moreover have "card (cached r) \<le> length (cached_list r)" by (simp add: cached_def card_length)
  ultimately show ?thesis by (simp add: cache_is_full_def cached_list_def)
qed

text \<open>
  The loop takes the first unlocked candidate, and panics when it reaches the new page itself.
\<close>

lemma evict_loop_run:
  assumes c: "cache_inv c" and a: "a \<notin> keys_of (indices c)"
    and full: "card (keys_of (indices c)) = length (pages (buf c))"
  shows "evicting c a e r \<Longrightarrow> e \<in> keys_of (indices c) \<Longrightarrow> not_adapting r \<Longrightarrow> once_seen r = ys @ a # zs \<Longrightarrow>
    \<exists>r'. evict_loop a (Some e) (c\<lparr>creplacer := r\<rparr>)
      = Some (case find (unlocked c) (e # ys) of None \<Rightarrow> Panic | Some x \<Rightarrow> Ok (Some x), c\<lparr>creplacer := r'\<rparr>)"
proof (induction ys arbitrary: e r zs)
  case (Nil e r zs)
  obtain i where i: "map_of (indices c) e = Some i" using Nil(2) by (auto simp: keys_of_map_of)
  have e: "e \<noteq> a" using Nil(2) a by blast
  note ix = cache_index(1) [OF c i]
  show ?case
  proof (cases "unlocked c e")
    case True
    then show ?thesis using i ix e by (intro exI [of _ r]) (simp add: evict_loop.simps unlocked_def)
  next
    case False
    then have l: "locks c ! i \<noteq> Unlocked" using i by (simp add: unlocked_def)
    obtain m r1 where er: "evict_replace e r = (m, r1)" by force
    have m: "m = Some a" using evict_replace_once_seen [OF Nil(3) evicting_full [OF Nil(1) a full] _ er] Nil(4) by simp
    have "map_of (indices c) a = None" using a by (simp add: map_of_eq_None_iff)
    then have "evict_loop a (Some a) (c\<lparr>creplacer := r1\<rparr>) = Some (Panic, c\<lparr>creplacer := r1\<rparr>)"
      by (simp add: evict_loop.simps)
    then have "evict_loop a (Some e) (c\<lparr>creplacer := r\<rparr>) = Some (Panic, c\<lparr>creplacer := r1\<rparr>)"
      using i ix l er m by (subst evict_loop.simps) simp
    then show ?thesis using False by (intro exI [of _ r1]) simp
  qed
next
  case (Cons y ys e r zs)
  obtain i where i: "map_of (indices c) e = Some i" using Cons(3) by (auto simp: keys_of_map_of)
  have e: "e \<noteq> a" using Cons(3) a by blast
  note ix = cache_index(1) [OF c i]
  show ?case
  proof (cases "unlocked c e")
    case True
    then show ?thesis using i ix e by (intro exI [of _ r]) (simp add: evict_loop.simps unlocked_def)
  next
    case False
    then have l: "locks c ! i \<noteq> Unlocked" using i by (simp add: unlocked_def)
    obtain m r1 where er: "evict_replace e r = (m, r1)" by force
    have os: "once_seen r = y # (ys @ a # zs)" using Cons(5) by simp
    note st = evict_replace_once_seen [OF Cons(4) evicting_full [OF Cons(2) a full] os er]
    have ev: "evicting c a y r1" using evict_step [OF Cons(2) a full er] st by auto
    have "y \<noteq> a" using once_seen_distinct [of r] os Cons(2) by (auto simp: evicting_def)
    then have y: "y \<in> keys_of (indices c)" using once_seen_cached [of y r] os Cons(2) by (simp add: evicting_def)
    have "\<exists>zs. once_seen r1 = ys @ a # zs" using st by auto
    then obtain r' where "evict_loop a (Some y) (c\<lparr>creplacer := r1\<rparr>)
        = Some (case find (unlocked c) (y # ys) of None \<Rightarrow> Panic | Some x \<Rightarrow> Ok (Some x), c\<lparr>creplacer := r'\<rparr>)"
      using Cons(1) [OF ev y] st by blast
    then have "evict_loop a (Some e) (c\<lparr>creplacer := r\<rparr>)
        = Some (case find (unlocked c) (y # ys) of None \<Rightarrow> Panic | Some x \<Rightarrow> Ok (Some x), c\<lparr>creplacer := r'\<rparr>)"
      using i ix l er st by (subst evict_loop.simps) simp
    then show ?thesis using False by (intro exI [of _ r']) simp
  qed
qed

text \<open>The candidates for a page that the replacer does not remember.\<close>

definition candidates :: "'a replacer \<Rightarrow> 'a list" where
  "candidates r = (if once_seen r = [] then (case fst (evict r) of None \<Rightarrow> [] | Some e \<Rightarrow> [e]) else once_seen r)"

lemma evict_for_run:
  assumes c: "cache_inv c" and n: "not_adapting (creplacer c)" and a: "a \<notin> keys_of (indices c)"
    and full: "num_filled (buf c) = length (pages (buf c))" and h: "\<not> value_in_history a (creplacer c)"
  shows "\<exists>r'. evict_for a c = (case find (unlocked c) (candidates (creplacer c)) of None \<Rightarrow> Panic | Some x \<Rightarrow> Ok (Some x),
    c\<lparr>creplacer := r'\<rparr>)"
proof -
  let ?r = "creplacer c"
  have i: "replacer_inv ?r" "a \<notin> cached ?r" "cached ?r = keys_of (indices c)" "rsize ?r = length (pages (buf c))"
    using c a by (simp_all add: cache_inv_def)
  have k: "card (keys_of (indices c)) = length (pages (buf c))" using cache_count [OF c] i full by simp
  have "card (cached ?r) \<le> length (cached_list ?r)" by (simp add: cached_def card_length)
  then have cf: "cache_is_full ?r" using k i by (simp add: cache_is_full_def cached_list_def)
  obtain e0 r1 where e: "evict ?r = (e0, r1)" by force
  obtain e where e0: "e0 = Some e" using evict_full [OF e i(1) cf] by blast
  obtain m r2 where er: "evict_replace a ?r = (m, r2)" by force
  note ok = car.replace_ok [OF i(1,2) er]
  have m: "m = Some e" using er cf e e0 by (simp add: evict_replace_def Let_def)
  have ek: "e \<in> keys_of (indices c)" "e \<noteq> a" using ok m i a by auto
  have ev: "evicting c a e r2" using ok m i ek a by (auto simp: evicting_def)
  have n2: "not_adapting r2" using evict_replace_recent_history [of ?r a] n er by (simp add: not_adapting_def)
  have fh: "frequent_history r1 = enqueue e (frequent_history ?r)" "recent_history r1 = recent_history ?r"
    using evict_Some [OF e e0] evict_frame [OF e] by simp_all
  have nh: "\<not> value_in_history a r1" using h fh ek(2) by (simp add: value_in_history_def lru_contains_def enqueue_def)
  then have nm: "\<not> value_in_history a (maybe_evict_history r1)"
    by (auto simp: value_in_history_def maybe_evict_history_def lru_contains_def dequeue_def split: list.splits)
  have o2: "once_seen r2 = once_seen r1 @ [a]"
    using er cf e nh nm by (auto simp: evict_replace_def Let_def once_seen_insert)
  have o1: "candidates ?r = e # once_seen r1"
  proof (cases "once_seen ?r")
    case Nil
    then show ?thesis using evict_not_once_seen [OF e] n e e0 by (simp add: candidates_def not_adapting_def)
  next
    case (Cons x xs)
    then show ?thesis using evict_once_seen [of ?r x xs] n e e0 by (simp add: candidates_def not_adapting_def)
  qed
  obtain r' where "evict_loop a (Some e) (c\<lparr>creplacer := r2\<rparr>)
      = Some (case find (unlocked c) (e # once_seen r1) of None \<Rightarrow> Panic | Some x \<Rightarrow> Ok (Some x), c\<lparr>creplacer := r'\<rparr>)"
    using evict_loop_run [OF c a k ev ek(1) n2 o2] by blast
  then show ?thesis unfolding o1 using er m by (intro exI [of _ r']) (simp add: evict_for_def)
qed

section \<open>Storing a new page in a full cache\<close>

text \<open>
  C19: Which page a new one replaces, and when there is none. In a full cache, storing a page that
  the replacer does not remember takes the slot of the oldest page that is not locked among the candidates: the
  pages of the clock of recent pages that have not been accessed since they entered it. The pages in the clock of
  frequent ones are passed over, also those that have not been accessed since they came back from the history.
  If there is no such page in the clock of recent ones, the only candidate is the page that the replacer
  gives up first, wherever it is. If no candidate is unlocked the store panics, even when other pages of the
  cache are unlocked: the loop comes to the new page itself, which is not in the index yet.
  So it always ends, while the comment at the loop expects it to go on until a page is unlocked.
\<close>

theorem store_when_full:
  assumes "cache_inv c" and "replacer_reach n (creplacer c)" and "num_filled (buf c) = length (pages (buf c))"
    and "\<not> has_page a c" and "\<not> value_in_history a (creplacer c)"
  shows "case find (unlocked c) (candidates (creplacer c)) of
      None \<Rightarrow> fst (cache_store a c) = Panic
    | Some x \<Rightarrow> (\<exists>i c'. cache_store a c = (Ok i, c') \<and> holds_page c x i \<and> holds_page c' a i \<and> \<not> has_page x c')"
proof -
  let ?n = "store_noted a c"
  have n: "not_adapting (creplacer ?n)" using reach_not_adapting [OF assms(2)] by (simp add: not_adapting_def)
  have a: "map_of (indices c) a = None" "a \<notin> keys_of (indices ?n)"
    using assms(4) by (simp_all add: has_page_def map_of_eq_None_iff)
  have u: "unlocked ?n = unlocked c" by (simp add: fun_eq_iff unlocked_def)
  obtain r where r: "evict_for a ?n = (case find (unlocked c) (candidates (creplacer c)) of
      None \<Rightarrow> Panic | Some x \<Rightarrow> Ok (Some x), ?n\<lparr>creplacer := r\<rparr>)"
    using evict_for_run [of ?n a] n a assms(1,3,5) by (auto simp: u)
  have sc: "scrap_slots c = []" using assms(1) by (simp add: cache_inv_def)
  show ?thesis
  proof (cases "find (unlocked c) (candidates (creplacer c))")
    case None
    then have ef: "evict_for a ?n = (Panic, ?n\<lparr>creplacer := r\<rparr>)" using r by simp
    have "fst (get_store_index a ?n) = Panic"
      using a sc by (simp add: get_store_index_def prog_simps bindp_Panic [where m = "evict_for a", OF ef])
    then show ?thesis using None
      by (cases "get_store_index a ?n") (simp add: cache_store_run bindp_Panic [where m = "get_store_index a"])
  next
    case (Some x)
    then have ef: "evict_for a ?n = (Ok (Some x), ?n\<lparr>creplacer := r\<rparr>)" using r by simp
    obtain i where i: "map_of (indices c) x = Some i" "locks c ! i = Unlocked"
      using Some by (auto simp: find_Some_iff unlocked_def)
    have xa: "x \<noteq> a" using i a by auto
    let ?c = "?n\<lparr>creplacer := r, indices := AList.update a i (AList.delete x (indices c))\<rparr>"
    have g: "get_store_index a ?n = (Ok i, ?c)"
      using a sc i by (simp add: get_store_index_def prog_simps bindp_Ok [where m = "evict_for a", OF ef])
    have "load_mut_direct i ?c = (Ok i, set_lock i Exclusive ?c)"
      using load_mut_direct_ok [of i ?c] cache_index [OF assms(1) i(1)] i(2) by simp
    then have "cache_store a c = (Ok i, set_lock i Exclusive ?c)"
      by (simp only: cache_store_run bindp_Ok [where m = "get_store_index a", OF g])
    then show ?thesis using Some i xa
      by (simp add: holds_page_def has_page_def set_lock_def update_conv' delete_conv')
  qed
qed

text \<open>
  Two pages; page 1 was accessed again and is not locked, page 2 is locked: page 3 is not stored.
  With page 2 unlocked it takes the slot of page 2.
\<close>

definition two_pages :: "rw_lock \<Rightarrow> page_cache" where
  "two_pages l = \<lparr>buf = (page_buffer_new 2)\<lparr>num_filled := 2\<rparr>, indices = [(PageAddress 0 1, 0), (PageAddress 0 2, 1)],
     creplacer = snd (evict_replace (PageAddress 0 2) (snd (replacer_access (PageAddress 0 1)
       (snd (evict_replace (PageAddress 0 1) (replacer_new 2)))))),
     scrap_slots = [], has_scrap = False, dirty_list = [], locks = [Unlocked, l], max_num_dirty = 9, flush_spawned = 0\<rparr>"

lemma two_pages_replacer:
  "creplacer (two_pages l) = (replacer_new 2)\<lparr>recent := [ClockItem (PageAddress 0 1) True, ClockItem (PageAddress 0 2) False]\<rparr>"
  "replacer_reach 2 (creplacer (two_pages l))"
proof -
  have 1: "snd (evict_replace (PageAddress 0 1) (replacer_new 2)) = (replacer_new 2)\<lparr>recent := [ClockItem (PageAddress 0 1) False]\<rparr>"
    by (simp add: evict_replace_def cache_is_full_def replacer_new_def replacer_insert_def lru_contains_def lru_new_def clock_insert_def)
  then have 2: "snd (replacer_access (PageAddress 0 1) (snd (evict_replace (PageAddress 0 1) (replacer_new 2))))
      = (replacer_new 2)\<lparr>recent := [ClockItem (PageAddress 0 1) True]\<rparr>" (is "?r = _")
    by (simp add: replacer_access_def)
  show "creplacer (two_pages l) = (replacer_new 2)\<lparr>recent := [ClockItem (PageAddress 0 1) True, ClockItem (PageAddress 0 2) False]\<rparr>"
    unfolding two_pages_def 2
    by (simp add: evict_replace_def cache_is_full_def replacer_new_def replacer_insert_def lru_contains_def lru_new_def clock_insert_def)
  have "replacer_reach 2 ?r" by (intro replacer_reach.access replacer_reach.replace replacer_reach.new) simp
  moreover have "PageAddress 0 2 \<notin> cached ?r" unfolding 2 by (simp add: cached_def cached_list_def replacer_new_def)
  ultimately show "replacer_reach 2 (creplacer (two_pages l))"
    unfolding two_pages_def by (simp add: replacer_reach.replace)
qed

lemma two_pages_inv: "cache_inv (two_pages l)"
proof -
  have "replacer_inv (creplacer (two_pages l))" "cached (creplacer (two_pages l)) = {PageAddress 0 1, PageAddress 0 2}"
      "rsize (creplacer (two_pages l)) = 2"
    by (simp_all add: two_pages_replacer replacer_inv_def cached_def cached_list_def replacer_new_def)
  then show ?thesis
    by (auto simp: cache_inv_def two_pages_def page_buffer_new_def zeroed_page_def distinct_keys_def lessThan_Suc numeral_2_eq_2)
qed

theorem store_when_full_witness:
  "unlocked (two_pages Exclusive) (PageAddress 0 1) \<and> fst (cache_store (PageAddress 0 3) (two_pages Exclusive)) = Panic
    \<and> (\<exists>c'. cache_store (PageAddress 0 3) (two_pages Unlocked) = (Ok 1, c') \<and> \<not> has_page (PageAddress 0 2) c')"
proof -
  have c: "candidates (creplacer (two_pages l)) = [PageAddress 0 2]" for l
    by (simp add: candidates_def once_seen_def two_pages_replacer)
  have u: "unlocked (two_pages l) (PageAddress 0 1)" "unlocked (two_pages l) (PageAddress 0 2) \<longleftrightarrow> l = Unlocked" for l
    by (simp_all add: unlocked_def two_pages_def)
  have f: "num_filled (buf (two_pages l)) = length (pages (buf (two_pages l)))" "\<not> has_page (PageAddress 0 3) (two_pages l)"
      "\<not> value_in_history (PageAddress 0 3) (creplacer (two_pages l))" for l
    by (simp_all add: two_pages_replacer value_in_history_def lru_contains_def replacer_new_def lru_new_def)
      (simp_all add: two_pages_def page_buffer_new_def has_page_def)
  note s = store_when_full [OF two_pages_inv two_pages_replacer(2) f, unfolded c]
  have "fst (cache_store (PageAddress 0 3) (two_pages Exclusive)) = Panic" using s [of Exclusive] u by simp
  moreover obtain i c' where "cache_store (PageAddress 0 3) (two_pages Unlocked) = (Ok i, c')"
      "holds_page (two_pages Unlocked) (PageAddress 0 2) i" "holds_page c' (PageAddress 0 3) i" "\<not> has_page (PageAddress 0 2) c'"
    using s [of Unlocked] u by auto
  moreover have "i = 1" using calculation(3) by (simp add: holds_page_def two_pages_def)
  ultimately show ?thesis using u(1) by blast
qed

end
