(* ===== verification/CacheFlush.thy ===== *)
theory CacheFlush
  imports CacheProofs
begin

text \<open>
  What \<open>cache_flush\<close> writes: on a storage that works it writes back exactly the listed pages
  that are cached and dirty; what it does with a list that names a dirty page twice, and with
  a storage that fails.
\<close>

section \<open>The interface of the storage below\<close>

locale batch_storage =
  fixes api :: "'ps physical_api"
    and dview :: "'ps \<Rightarrow> page_address \<Rightarrow> (storage_error, page_read) outcome"
    and dinv :: "'ps \<Rightarrow> bool"
  assumes dread_ok: "dinv ps \<Longrightarrow> wf_page_address a \<Longrightarrow>
      \<exists>ps'. pa_read api a ps = (dview ps a, ps') \<and> dinv ps' \<and> dview ps' = dview ps"
    and dwrite_ok: "dinv ps \<Longrightarrow> valid_write w \<Longrightarrow> \<exists>ps'. pa_write api w ps = (Ok (), ps') \<and> dinv ps'
      \<and> dview ps' = (dview ps)(wo_page_address w := Ok (Some (wo_wal_index w), wo_buf w))"
    and dbatch_ok: "dinv ps \<Longrightarrow> \<forall>w \<in> set ws. valid_write w \<Longrightarrow> \<exists>ps'. pa_batch api (map OpStore ws) ps = (Ok (), ps')
      \<and> dinv ps' \<and> dview ps' = fold (\<lambda>w f. f(wo_page_address w := Ok (Some (wo_wal_index w), wo_buf w))) ws (dview ps)"

interpretation pstore: batch_storage "physical_impl crc" "storage_view crc" sound_storage
proof (unfold_locales, goal_cases)
  case (1 ps a)
  then show ?case
    using fseg.phys.read_ok [of ps a crc] by (simp add: physical_impl_def sound_storage_def storage_view_def)
next
  case (2 ps w)
  have w: "wf_page_address (wo_page_address w)" "wf_wal_index (wo_wal_index w)" "length (wo_buf w) = PAGE_BODY_SIZE"
    using 2(2) by (simp_all add: valid_write_def)
  have "physical_write_at (segment_api_impl crc) (wo_page_address w) (wo_wal_index w) (wo_buf w) = physical_write (segment_api_impl crc) w"
    by (cases w) (simp add: physical_write_at_def)
  then show ?case
    using fseg.phys.write_ok [OF _ w, of ps crc] 2(1) by (simp add: physical_impl_def sound_storage_def storage_view_def)
next
  case (3 ps ws)
  then show ?case
    using fseg.physical_batch_ok [of ps ws crc] by (simp add: physical_impl_def sound_storage_def storage_view_def)
qed

section \<open>Collecting the dirty pages\<close>

text \<open>The listed pages that are cached and dirty, in the order of the list.\<close>

definition dirty_entry :: "page_cache \<Rightarrow> page_address \<Rightarrow> dirty_page list" where
  "dirty_entry c a = (case map_of (indices c) a of
     None \<Rightarrow> []
   | Some i \<Rightarrow> if is_dirty (page_at i c) then [\<lparr>dp_page_address = a, dp_index = i\<rparr>] else [])"

definition dirty_of :: "page_cache \<Rightarrow> page_address list \<Rightarrow> dirty_page list" where
  "dirty_of c as = concat (map (dirty_entry c) as)"

text \<open>\<open>hold_all\<close> is the cache with a shared guard taken on each of the pages.\<close>

definition hold_all :: "nat list \<Rightarrow> page_cache \<Rightarrow> page_cache" where
  "hold_all is c = fold (\<lambda>i c. set_lock i (one_more (locks c ! i)) c) is c"

lemma hold_all_fields [simp]:
  "indices (hold_all is c) = indices c" "creplacer (hold_all is c) = creplacer c" "buf (hold_all is c) = buf c"
  "scrap_slots (hold_all is c) = scrap_slots c" "dirty_list (hold_all is c) = dirty_list c"
  "page_at j (hold_all is c) = page_at j c" "length (locks (hold_all is c)) = length (locks c)"
proof -
  have "indices (hold_all is c) = indices c \<and> creplacer (hold_all is c) = creplacer c \<and> buf (hold_all is c) = buf c
    \<and> scrap_slots (hold_all is c) = scrap_slots c \<and> dirty_list (hold_all is c) = dirty_list c
    \<and> page_at j (hold_all is c) = page_at j c \<and> length (locks (hold_all is c)) = length (locks c)"
    unfolding hold_all_def by (induction "is" arbitrary: c) simp_all
  then show "indices (hold_all is c) = indices c" "creplacer (hold_all is c) = creplacer c" "buf (hold_all is c) = buf c"
  "scrap_slots (hold_all is c) = scrap_slots c" "dirty_list (hold_all is c) = dirty_list c"
  "page_at j (hold_all is c) = page_at j c" "length (locks (hold_all is c)) = length (locks c)" by blast+
qed

lemma cache_inv_hold_all [simp]: "cache_inv (hold_all is c) = cache_inv c"
  by (rule cache_inv_cong) simp_all

text \<open>No lock is held exclusively, and none is shared by nobody.\<close>

definition only_readers :: "page_cache \<Rightarrow> bool" where
  "only_readers c \<longleftrightarrow> (\<forall>l \<in> set (locks c). l \<noteq> Exclusive \<and> l \<noteq> SharedBy 0)"

lemma only_readers_unlocked: "all_unlocked c \<Longrightarrow> only_readers c"
  by (auto simp: all_unlocked_def only_readers_def)

lemma only_readers_hold: "only_readers c \<Longrightarrow> only_readers (set_lock i (one_more l) c)"
  using set_update_subset_insert [of "locks c" i "one_more l"] by (cases l) (auto simp: only_readers_def)

lemma drop_after_hold:
  assumes "only_readers c" and "i < length (locks c)"
  shows "drop_read_guard i (set_lock i (one_more (locks c ! i)) c) = c"
proof -
  have "locks c ! i \<noteq> Exclusive" "locks c ! i \<noteq> SharedBy 0"
    using assms by (simp_all add: only_readers_def)
  then show ?thesis
    using assms(2) list_update_id [of "locks c" i]
    by (cases "locks c ! i") (auto simp: drop_read_guard_def set_lock_def)
qed

lemma collect_dirty_ok:
  assumes "cache_inv c" and "only_readers c"
  shows "collect_dirty as dps c = (Ok (dps @ dirty_of c as), hold_all (map dp_index (dirty_of c as)) c)"
  using assms
proof (induction as arbitrary: dps c)
  case Nil
  then show ?case by (simp add: dirty_of_def hold_all_def prog_simps)
next
  case (Cons a as)
  show ?case
  proof (cases "map_of (indices c) a")
    case None
    then show ?thesis using Cons by (simp add: prog_simps dirty_of_def dirty_entry_def)
  next
    case (Some i)
    note ix = cache_index [OF Cons.prems(1) Some]
    let ?c = "set_lock i (one_more (locks c ! i)) c"
    have "locks c ! i \<noteq> Exclusive" using Cons.prems(2) ix(1) by (simp add: only_readers_def)
    then have l: "load_direct i c = (Ok i, ?c)" using load_direct_ok [OF ix(1,2)] by simp
    show ?thesis
    proof (cases "is_dirty (page_at i c)")
      case True
      have "dirty_entry ?c = dirty_entry c" unfolding dirty_entry_def set_lock_fields page_at_set_lock by (rule refl)
      then have de: "dirty_of ?c as = dirty_of c as" by (simp add: dirty_of_def)
      have "cache_inv ?c" "only_readers ?c" using Cons.prems only_readers_hold by simp_all
      from Cons.IH [OF this] show ?thesis
        using Some True
        by (simp add: prog_simps bindp_Ok [where m = "load_direct i", OF l] de)
          (simp add: dirty_of_def dirty_entry_def hold_all_def)
    next
      case False
      then show ?thesis
        using Some Cons.IH [OF Cons.prems] drop_after_hold [OF Cons.prems(2) ix(1)]
        by (simp add: prog_simps bindp_Ok [where m = "load_direct i", OF l] dirty_of_def dirty_entry_def)
    qed
  qed
qed

lemma dirty_of_mem:
  "dp \<in> set (dirty_of c as) \<longleftrightarrow> dp_page_address dp \<in> set as \<and> map_of (indices c) (dp_page_address dp) = Some (dp_index dp)
     \<and> is_dirty (page_at (dp_index dp) c)"
  by (cases dp) (auto simp: dirty_of_def dirty_entry_def split: option.splits if_splits)

lemma distinct_dirty_of:
  assumes "cache_inv c" and "distinct as"
  shows "distinct (map dp_index (dirty_of c as))" and "distinct (map dp_page_address (dirty_of c as))"
proof -
  have "distinct (map dp_index (dirty_of c as)) \<and> distinct (map dp_page_address (dirty_of c as))"
    using assms(2)
  proof (induction as)
    case Nil
    then show ?case by (simp add: dirty_of_def)
  next
    case (Cons a as)
    have d: "dirty_of c (a # as) = dirty_entry c a @ dirty_of c as" by (simp add: dirty_of_def)
    have "dp_index dp \<noteq> i" if "dp \<in> set (dirty_of c as)" "map_of (indices c) a = Some i" for dp i
      using that Cons.prems cache_index_inject [OF assms(1), of "dp_page_address dp" "dp_index dp" a]
      by (auto simp: dirty_of_mem)
    moreover have "dp_page_address dp \<noteq> a" if "dp \<in> set (dirty_of c as)" for dp
      using that Cons.prems by (auto simp: dirty_of_mem)
    ultimately show ?case
      using Cons unfolding d by (auto simp: dirty_entry_def split: option.splits)
  qed
  then show "distinct (map dp_index (dirty_of c as))" and "distinct (map dp_page_address (dirty_of c as))" by blast+
qed

section \<open>The operations of the batch\<close>

definition flush_write :: "page_cache \<Rightarrow> dirty_page \<Rightarrow> write_op" where
  "flush_write c dp = (let p = page_at (dp_index dp) c in
     \<lparr>wo_wal_index = WalIndex (wal_generation p) (wal_offset p), wo_page_address = dp_page_address dp,
      wo_buf = page_body p\<rparr>)"

lemma flush_ops_ok:
  "\<forall>dp \<in> set dps. wal_offset (page_at (dp_index dp) c) \<noteq> 0
    \<Longrightarrow> flush_ops c dps = Ok (map (\<lambda>dp. OpStore (flush_write c dp)) dps)"
  by (induction dps) (simp_all add: header_wal_index_def flush_write_def Let_def)

section \<open>Clearing the dirty flags\<close>

definition cleaned :: "nat \<Rightarrow> page_cache \<Rightarrow> page_cache" where
  "cleaned i c = set_page i (set_dirty False (page_at i c)) (set_lock i Unlocked c)"

lemma clear_dirty_run:
  assumes "dp_index dp < length (locks c)" and "dp_index dp < length (pages (buf c))"
    and "locks c ! dp_index dp = SharedBy (Suc n)"
  shows "clear_dirty dp c = (if n = 0 then (Ok (), cleaned (dp_index dp) c)
    else (Stuck, set_lock (dp_index dp) (SharedBy n) c))"
proof -
  let ?i = "dp_index dp"
  have d: "drop_read_guard ?i c = set_lock ?i (if n = 0 then Unlocked else SharedBy n) c"
    using assms(3) by (cases n) (simp_all add: drop_read_guard_def)
  have l: "load_mut_direct ?i (drop_read_guard ?i c)
      = (if n = 0 then (Ok ?i, set_lock ?i Exclusive (drop_read_guard ?i c)) else (Stuck, drop_read_guard ?i c))"
    using load_mut_direct_ok [of ?i "drop_read_guard ?i c"] assms(1,2) d by simp
  show ?thesis
  proof (cases "n = 0")
    case True
    then have l1: "load_mut_direct ?i (set_lock ?i Unlocked c) = (Ok ?i, set_lock ?i Exclusive c)"
      using l d by (simp add: set_lock_def)
    then show ?thesis
      using True d
      by (simp add: clear_dirty_def prog_simps bindp_Ok [where m = "load_mut_direct (dp_index dp)", OF l1] drop_write_guard_def)
        (simp add: cleaned_def set_page_def set_lock_def page_at_def)
  next
    case False
    then have l1: "load_mut_direct ?i (set_lock ?i (SharedBy n) c) = (Stuck, set_lock ?i (SharedBy n) c)"
      using l d by simp
    then show ?thesis
      using False d
      by (simp add: clear_dirty_def prog_simps bindp_Stuck [where m = "load_mut_direct (dp_index dp)", OF l1])
  qed
qed

lemma cleaned_other:
  assumes "i < length (pages (buf c))"
  shows "j \<noteq> i \<Longrightarrow> locks (cleaned i c) ! j = locks c ! j" "length (locks (cleaned i c)) = length (locks c)"
    "length (pages (buf (cleaned i c))) = length (pages (buf c))"
    "page_at j (cleaned i c) = (if j = i then set_dirty False (page_at j c) else page_at j c)"
  using assms page_at_set_page [of i "set_lock i Unlocked c"] by (simp_all add: cleaned_def)

lemma clear_all_ok:
  assumes "distinct (map dp_index dps)"
    and "\<forall>dp \<in> set dps. dp_index dp < length (locks c) \<and> dp_index dp < length (pages (buf c)) \<and> locks c ! dp_index dp = SharedBy 1"
  shows "for_each clear_dirty dps c = (Ok (), fold cleaned (map dp_index dps) c)"
  using assms
proof (induction dps arbitrary: c)
  case Nil
  then show ?case by (simp add: prog_simps)
next
  case (Cons dp dps)
  have ix: "dp_index dp < length (locks c)" "dp_index dp < length (pages (buf c))" "locks c ! dp_index dp = SharedBy (Suc 0)"
    using Cons.prems(2) by simp_all
  have r: "clear_dirty dp c = (Ok (), cleaned (dp_index dp) c)" using clear_dirty_run [OF ix] by simp
  have ne: "\<forall>d \<in> set dps. dp_index d \<noteq> dp_index dp" using Cons.prems(1) by (simp add: image_iff) metis
  have "for_each clear_dirty dps (cleaned (dp_index dp) c) = (Ok (), fold cleaned (map dp_index dps) (cleaned (dp_index dp) c))"
    by (rule Cons.IH) (use Cons.prems ne cleaned_other [OF ix(2)] in simp_all)
  then show ?case by (simp add: bindp_Ok [where m = "clear_dirty dp", OF r])
qed

text \<open>A page that is named twice is locked twice, and the first attempt to lock it exclusively waits.\<close>

lemma clear_all_stuck:
  assumes "\<not> distinct (map dp_index dps)"
    and "\<forall>dp \<in> set dps. dp_index dp < length (locks c) \<and> dp_index dp < length (pages (buf c))
      \<and> locks c ! dp_index dp = SharedBy (count_list (map dp_index dps) (dp_index dp))"
  shows "fst (for_each clear_dirty dps c) = Stuck"
  using assms
proof (induction dps arbitrary: c)
  case Nil
  then show ?case by simp
next
  case (Cons dp dps)
  let ?n = "count_list (map dp_index dps) (dp_index dp)"
  have ix: "dp_index dp < length (locks c)" "dp_index dp < length (pages (buf c))" "locks c ! dp_index dp = SharedBy (Suc ?n)"
    using Cons.prems(2) by simp_all
  note r = clear_dirty_run [OF ix]
  show ?case
  proof (cases "?n = 0")
    case False
    then have "clear_dirty dp c = (Stuck, set_lock (dp_index dp) (SharedBy ?n) c)" using r by simp
    then show ?thesis by (simp add: bindp_Stuck [where m = "clear_dirty dp"])
  next
    case True
    then have ne: "\<forall>d \<in> set dps. dp_index d \<noteq> dp_index dp" by (simp add: count_list_0_iff image_iff) metis
    have "fst (for_each clear_dirty dps (cleaned (dp_index dp) c)) = Stuck"
    proof (rule Cons.IH)
      show "\<not> distinct (map dp_index dps)" using Cons.prems(1) True by (simp add: count_list_0_iff)
      show "\<forall>d \<in> set dps. dp_index d < length (locks (cleaned (dp_index dp) c)) \<and> dp_index d < length (pages (buf (cleaned (dp_index dp) c)))
        \<and> locks (cleaned (dp_index dp) c) ! dp_index d = SharedBy (count_list (map dp_index dps) (dp_index d))"
      proof
        fix d assume d: "d \<in> set dps"
        then have "dp_index d \<noteq> dp_index dp" using ne by blast
        then show "dp_index d < length (locks (cleaned (dp_index dp) c)) \<and> dp_index d < length (pages (buf (cleaned (dp_index dp) c)))
        \<and> locks (cleaned (dp_index dp) c) ! dp_index d = SharedBy (count_list (map dp_index dps) (dp_index d))"
          using Cons.prems(2) d cleaned_other [OF ix(2)] by auto
      qed
    qed
    then show ?thesis using r True by (simp add: bindp_Ok [where m = "clear_dirty dp"])
  qed
qed

section \<open>A whole flush\<close>

lemma hold_all_locks:
  assumes "all_unlocked c" and "\<forall>i \<in> set is. i < length (locks c)" and "j < length (locks c)"
  shows "locks (hold_all is c) ! j = (if count_list is j = 0 then Unlocked else SharedBy (count_list is j))"
  using assms(2,3)
proof (induction "is" arbitrary: j rule: rev_induct)
  case Nil
  then show ?case using assms(1) by (simp add: hold_all_def all_unlocked_nth)
next
  case (snoc i "is")
  have h: "hold_all (is @ [i]) c = set_lock i (one_more (locks (hold_all is c) ! i)) (hold_all is c)"
    by (simp add: hold_all_def)
  have i: "i < length (locks c)" using snoc.prems(1) by simp
  have il: "locks (hold_all is c) ! i = (if count_list is i = 0 then Unlocked else SharedBy (count_list is i))"
    using snoc.IH [of i] snoc.prems(1) i by simp
  show ?case
    using snoc.IH [of j] snoc.prems il i unfolding h by (simp add: nth_list_update count_list_append)
qed

definition flushable :: "page_cache \<Rightarrow> bool" where
  "flushable c \<longleftrightarrow> (\<forall>dp \<in> set (dirty_of c (dirty_list c)). wal_offset (page_at (dp_index dp) c) \<noteq> 0)"

definition flush_held :: "page_cache \<Rightarrow> page_cache" where
  "flush_held c = hold_all (map dp_index (dirty_of c (dirty_list c))) (c\<lparr>dirty_list := []\<rparr>)"

definition flush_writes :: "page_cache \<Rightarrow> write_op list" where
  "flush_writes c = map (flush_write c) (dirty_of c (dirty_list c))"

lemma cache_flush_run:
  assumes "cache_inv c" and "all_unlocked c" and "flushable c"
  shows "cache_flush api (c, ps) = (case pa_batch api (map OpStore (flush_writes c)) ps of
       (Panic, ps1) \<Rightarrow> (Panic, (flush_held c, ps1))
     | (Stuck, ps1) \<Rightarrow> (Stuck, (flush_held c, ps1))
     | (Ok _, ps1) \<Rightarrow> on_fst (for_each clear_dirty (dirty_of c (dirty_list c))) (flush_held c, ps1)
     | (Err e, ps1) \<Rightarrow> bindp (on_fst (for_each clear_dirty (dirty_of c (dirty_list c)))) (\<lambda>_.
         bindp (on_fst (modify (\<lambda>d. d\<lparr>dirty_list := dirty_list d @ dirty_list c\<rparr>))) (\<lambda>_.
           throw e)) (flush_held c, ps1))"
proof -
  let ?c0 = "c\<lparr>dirty_list := []\<rparr>" and ?dps = "dirty_of c (dirty_list c)"
  have inv: "cache_inv ?c0" using assms(1) cache_inv_cong [of ?c0 c] by simp
  have ro: "only_readers ?c0" using only_readers_unlocked [OF assms(2)] by (simp add: only_readers_def)
  have i0: "indices ?c0 = indices c" "buf ?c0 = buf c" by simp_all
  have "dirty_entry ?c0 = dirty_entry c" unfolding dirty_entry_def page_at_def i0 by (rule refl)
  then have d0: "dirty_of ?c0 = dirty_of c" unfolding dirty_of_def by simp
  have col: "on_fst (collect_dirty (dirty_list c) []) (?c0, ps) = (Ok ?dps, (flush_held c, ps))"
    using collect_dirty_ok [OF inv ro, of "dirty_list c" "[]"] by (simp add: on_fst_def d0 flush_held_def)
  have pa: "page_at j (flush_held c) = page_at j c" for j by (simp add: flush_held_def) (simp add: page_at_def)
  then have fw: "flush_write (flush_held c) = flush_write c" by (simp add: flush_write_def fun_eq_iff)
  have ops: "flush_ops (flush_held c) ?dps = Ok (map OpStore (flush_writes c))"
    using flush_ops_ok [of ?dps "flush_held c"] assms(3) by (simp add: pa fw flushable_def flush_writes_def comp_def)
  have g: "on_fst get_state (c, ps) = (Ok c, (c, ps))" "on_fst (modify f) (c, ps) = (Ok (), (f c, ps))"
      "on_fst get_state (flush_held c, ps) = (Ok (flush_held c), (flush_held c, ps))" for f
    by (simp_all add: on_fst_def prog_simps)
  show ?thesis
    by (simp add: cache_flush_def Let_def bindp_Ok [where m = "on_fst get_state", OF g(1)]
        bindp_Ok [where m = "on_fst (modify f)" for f, OF g(2)] bindp_Ok [where m = "on_fst (collect_dirty xs ys)" for xs ys, OF col]
        bindp_Ok [where m = "on_fst get_state", OF g(3)] ops bindp_lift)
      (simp add: on_snd_def bindp_def lift_oc_def split: prod.splits outcome.splits)
qed

lemma flush_held_facts:
  assumes "cache_inv c" and "all_unlocked c" and "dp \<in> set (dirty_of c (dirty_list c))"
  shows "dp_index dp < length (locks (flush_held c))" "dp_index dp < length (pages (buf (flush_held c)))"
    "locks (flush_held c) ! dp_index dp = SharedBy (count_list (map dp_index (dirty_of c (dirty_list c))) (dp_index dp))"
proof -
  let ?is = "map dp_index (dirty_of c (dirty_list c))"
  have ix: "dp_index d < length (locks c) \<and> dp_index d < length (pages (buf c))" if "d \<in> set (dirty_of c (dirty_list c))" for d
    using cache_index [OF assms(1), of "dp_page_address d" "dp_index d"] that by (simp add: dirty_of_mem)
  show "dp_index dp < length (locks (flush_held c))" "dp_index dp < length (pages (buf (flush_held c)))"
    using ix [OF assms(3)] by (simp_all add: flush_held_def)
  have u: "all_unlocked (c\<lparr>dirty_list := []\<rparr>)" using assms(2) by (simp add: all_unlocked_def)
  have l: "\<forall>i \<in> set ?is. i < length (locks (c\<lparr>dirty_list := []\<rparr>))" "dp_index dp < length (locks (c\<lparr>dirty_list := []\<rparr>))"
    using ix assms(3) by auto
  have "count_list ?is (dp_index dp) \<noteq> 0" using assms(3) by (auto simp: count_list_0_iff)
  then show "locks (flush_held c) ! dp_index dp = SharedBy (count_list ?is (dp_index dp))"
    using hold_all_locks [OF u l] by (simp add: flush_held_def)
qed

lemma fold_cleaned_fields [simp]:
  "indices (fold cleaned is c) = indices c" "creplacer (fold cleaned is c) = creplacer c"
  "scrap_slots (fold cleaned is c) = scrap_slots c" "dirty_list (fold cleaned is c) = dirty_list c"
  "num_filled (buf (fold cleaned is c)) = num_filled (buf c)"
  "length (pages (buf (fold cleaned is c))) = length (pages (buf c))"
  "length (locks (fold cleaned is c)) = length (locks c)"
  by (induction "is" arbitrary: c) (simp_all add: cleaned_def)

lemma fold_cleaned_pages:
  assumes "\<forall>i \<in> set is. i < length (pages (buf c))" and "distinct is"
  shows "page_at j (fold cleaned is c) = (if j \<in> set is then set_dirty False (page_at j c) else page_at j c)"
  using assms
proof (induction "is" arbitrary: c)
  case (Cons i "is")
  have i: "i < length (pages (buf c))" using Cons.prems by simp
  have "\<forall>k \<in> set is. k < length (pages (buf (cleaned i c)))" using Cons.prems by (simp add: cleaned_other [OF i])
  then show ?case using Cons.IH [of "cleaned i c"] Cons.prems(2) by (simp add: cleaned_other [OF i])
qed simp

lemma fold_cleaned_locks:
  assumes "j < length (locks c)"
  shows "locks (fold cleaned is c) ! j = (if j \<in> set is then Unlocked else locks c ! j)"
  using assms
proof (induction "is" arbitrary: c)
  case (Cons i "is")
  have "locks (cleaned i c) = (locks c)[i := Unlocked]" by (simp add: cleaned_def)
  then show ?case using Cons.IH [of "cleaned i c"] Cons.prems by (simp add: nth_list_update)
qed simp

lemma cache_inv_cleaned:
  assumes "cache_inv c"
  shows "cache_inv (fold cleaned is c)"
  using assms
proof (induction "is" arbitrary: c)
  case (Cons i "is")
  have "cache_inv (cleaned i c)"
  proof (cases "i < length (pages (buf c))")
    case True
    then have "length (page_body (page_at i c)) = PAGE_BODY_SIZE"
      using Cons.prems by (simp add: cache_inv_def page_at_def)
    then show ?thesis using cache_inv_set_page [of "set_lock i Unlocked c"] Cons.prems by (simp add: cleaned_def set_dirty_def)
  next
    case False
    then have "buf (cleaned i c) = buf c" by (simp add: cleaned_def set_page_def list_update_beyond)
    then have "cache_inv (cleaned i c) = cache_inv c" by (intro cache_inv_cong) (simp_all add: cleaned_def)
    then show ?thesis using Cons.prems by simp
  qed
  then show ?case using Cons.IH by simp
qed simp

text \<open>After a flush has released its guards.\<close>

definition flushed :: "page_cache \<Rightarrow> page_cache" where
  "flushed c = fold cleaned (map dp_index (dirty_of c (dirty_list c))) (flush_held c)"

lemma distinct_count_list: "distinct xs \<Longrightarrow> x \<in> set xs \<Longrightarrow> count_list xs x = 1"
  by (induction xs) (auto simp: count_list_0_iff)

lemma clear_flushed:
  assumes "cache_inv c" and "all_unlocked c" and "distinct (dirty_list c)"
  shows "for_each clear_dirty (dirty_of c (dirty_list c)) (flush_held c) = (Ok (), flushed c)"
  unfolding flushed_def
proof (rule clear_all_ok)
  show d: "distinct (map dp_index (dirty_of c (dirty_list c)))" by (rule distinct_dirty_of(1) [OF assms(1,3)])
  have "count_list (map dp_index (dirty_of c (dirty_list c))) (dp_index dp) = 1" if "dp \<in> set (dirty_of c (dirty_list c))" for dp
    using d that by (simp add: distinct_count_list)
  then show "\<forall>dp \<in> set (dirty_of c (dirty_list c)). dp_index dp < length (locks (flush_held c))
      \<and> dp_index dp < length (pages (buf (flush_held c))) \<and> locks (flush_held c) ! dp_index dp = SharedBy 1"
    using flush_held_facts [OF assms(1,2)] by simp
qed

lemma flushed_facts:
  assumes "cache_inv c" and "all_unlocked c" and "distinct (dirty_list c)"
  shows "cache_inv (flushed c)" "all_unlocked (flushed c)" "indices (flushed c) = indices c" "dirty_list (flushed c) = []"
    "map_of (indices c) a = Some i \<Longrightarrow> page_at i (flushed c)
      = (if a \<in> set (dirty_list c) \<and> is_dirty (page_at i c) then set_dirty False (page_at i c) else page_at i c)"
proof -
  let ?dps = "dirty_of c (dirty_list c)"
  have "cache_inv (flush_held c)" using assms(1) cache_inv_cong [of "c\<lparr>dirty_list := []\<rparr>" c] by (simp add: flush_held_def)
  then show "cache_inv (flushed c)" unfolding flushed_def by (rule cache_inv_cleaned)
  show "indices (flushed c) = indices c" "dirty_list (flushed c) = []" by (simp_all add: flushed_def flush_held_def)
  have u: "all_unlocked (c\<lparr>dirty_list := []\<rparr>)" using assms(2) by (simp add: all_unlocked_def)
  have ix: "dp_index d < length (locks c) \<and> dp_index d < length (pages (buf c))" if "d \<in> set ?dps" for d
    using cache_index [OF assms(1), of "dp_page_address d" "dp_index d"] that by (simp add: dirty_of_mem)
  show "all_unlocked (flushed c)"
    unfolding all_unlocked_def
  proof
    fix l assume "l \<in> set (locks (flushed c))"
    then obtain j where j: "j < length (locks c)" "l = locks (flushed c) ! j"
      by (auto simp: in_set_conv_nth flushed_def flush_held_def)
    have "locks (flush_held c) ! j = Unlocked" if "j \<notin> set (map dp_index ?dps)"
      using hold_all_locks [OF u, of "map dp_index ?dps" j] ix j that by (simp add: flush_held_def count_list_0_iff)
    then show "l = Unlocked"
      using fold_cleaned_locks [of j "flush_held c"] j by (simp add: flushed_def) (simp add: flush_held_def)
  qed
  assume a: "map_of (indices c) a = Some i"
  have "i \<in> set (map dp_index ?dps) \<longleftrightarrow> a \<in> set (dirty_list c) \<and> is_dirty (page_at i c)"
  proof
    assume "i \<in> set (map dp_index ?dps)"
    then obtain dp where "dp \<in> set ?dps" "dp_index dp = i" by auto
    then show "a \<in> set (dirty_list c) \<and> is_dirty (page_at i c)"
      using cache_index_inject [OF assms(1) a, of "dp_page_address dp"] by (auto simp: dirty_of_mem)
  next
    assume "a \<in> set (dirty_list c) \<and> is_dirty (page_at i c)"
    then have "\<lparr>dp_page_address = a, dp_index = i\<rparr> \<in> set ?dps" using a by (simp add: dirty_of_mem)
    then show "i \<in> set (map dp_index ?dps)" by force
  qed
  moreover have "page_at i (flush_held c) = page_at i c" by (simp add: flush_held_def) (simp add: page_at_def)
  moreover have "\<forall>k \<in> set (map dp_index ?dps). k < length (pages (buf (flush_held c)))"
    using flush_held_facts(2) [OF assms(1,2)] by auto
  ultimately show "page_at i (flushed c)
      = (if a \<in> set (dirty_list c) \<and> is_dirty (page_at i c) then set_dirty False (page_at i c) else page_at i c)"
    using fold_cleaned_pages [of "map dp_index ?dps" "flush_held c" i] distinct_dirty_of(1) [OF assms(1,3)]
    by (simp add: flushed_def)
qed

text \<open>The writes of a flush as an update of the storage: one page per address.\<close>

lemma fold_writes_view:
  assumes "distinct (map wo_page_address ws)"
  shows "fold (\<lambda>w f. f(wo_page_address w := g w)) ws v a
    = (case find (\<lambda>w. wo_page_address w = a) ws of None \<Rightarrow> v a | Some w \<Rightarrow> g w)"
  using assms
proof (induction ws arbitrary: v)
  case (Cons w ws)
  have "find (\<lambda>w. wo_page_address w = a) ws = None" if "wo_page_address w = a"
    using Cons.prems that unfolding find_None_iff by (simp add: image_iff) metis
  then show ?case using Cons by auto
qed simp

definition flush_view :: "page_cache \<Rightarrow> (page_address \<Rightarrow> (storage_error, page_read) outcome)
    \<Rightarrow> page_address \<Rightarrow> (storage_error, page_read) outcome" where
  "flush_view c v a = (case map_of (indices c) a of
     Some i \<Rightarrow> (let p = page_at i c in
       if a \<in> set (dirty_list c) \<and> is_dirty p then Ok (Some (WalIndex (wal_generation p) (wal_offset p)), page_body p) else v a)
   | None \<Rightarrow> v a)"

lemma flush_writes_view:
  assumes "cache_inv c" and "distinct (dirty_list c)"
  shows "fold (\<lambda>w f. f(wo_page_address w := Ok (Some (wo_wal_index w), wo_buf w))) (flush_writes c) v = flush_view c v"
proof (rule ext)
  fix a
  let ?dps = "dirty_of c (dirty_list c)"
  have fa: "wo_page_address (flush_write c dp) = dp_page_address dp" for dp by (simp add: flush_write_def Let_def)
  have d: "distinct (map wo_page_address (flush_writes c))"
    using distinct_dirty_of(2) [OF assms] by (simp add: flush_writes_def comp_def fa)
  show "fold (\<lambda>w f. f(wo_page_address w := Ok (Some (wo_wal_index w), wo_buf w))) (flush_writes c) v a = flush_view c v a"
  proof (cases "\<exists>dp \<in> set ?dps. dp_page_address dp = a")
    case True
    then obtain dp where dp: "dp \<in> set ?dps" "dp_page_address dp = a" by blast
    have "find (\<lambda>w. wo_page_address w = a) (flush_writes c) \<noteq> None"
      using dp by (auto simp: find_None_iff flush_writes_def fa)
    then obtain w where w: "find (\<lambda>w. wo_page_address w = a) (flush_writes c) = Some w" by blast
    then have "w \<in> set (flush_writes c)" "wo_page_address w = a"
      by (auto simp: find_Some_iff)
    then obtain dq where dq: "dq \<in> set ?dps" "w = flush_write c dq" "dp_page_address dq = a"
      by (auto simp: flush_writes_def fa)
    then have m: "map_of (indices c) a = Some (dp_index dq)" "is_dirty (page_at (dp_index dq) c)" "a \<in> set (dirty_list c)"
      by (auto simp: dirty_of_mem)
    show ?thesis
      unfolding fold_writes_view [OF d] w flush_view_def using m dq(2)
      by (simp add: flush_write_def Let_def)
  next
    case False
    then have n: "find (\<lambda>w. wo_page_address w = a) (flush_writes c) = None"
      by (auto simp: find_None_iff flush_writes_def fa)
    have "\<not> (a \<in> set (dirty_list c) \<and> is_dirty (page_at i c))" if "map_of (indices c) a = Some i" for i
      using False that dirty_of_mem [of "\<lparr>dp_page_address = a, dp_index = i\<rparr>" c "dirty_list c"] by auto
    then show ?thesis
      unfolding fold_writes_view [OF d] n flush_view_def by (auto split: option.splits simp: Let_def)
  qed
qed

lemma flush_writes_valid:
  assumes "cache_inv c" and "flushable c" and "\<forall>a \<in> set (dirty_list c). wf_page_address a"
  shows "\<forall>w \<in> set (flush_writes c). valid_write w"
proof
  fix w assume "w \<in> set (flush_writes c)"
  then obtain dp where dp: "dp \<in> set (dirty_of c (dirty_list c))" "w = flush_write c dp" by (auto simp: flush_writes_def)
  then show "valid_write w"
    using assms cache_index(3) [OF assms(1), of "dp_page_address dp" "dp_index dp"]
    by (simp add: valid_write_def flush_write_def Let_def dirty_of_mem flushable_def wf_wal_index_def)
qed

text \<open>The contract of a flush, for any storage that keeps its promises.\<close>

context batch_storage begin

lemma flush_ok:
  assumes "cache_inv c" and "all_unlocked c" and "flushable c" and "distinct (dirty_list c)"
    and "\<forall>a \<in> set (dirty_list c). wf_page_address a" and "dinv ps"
  shows "\<exists>ps'. cache_flush api (c, ps) = (Ok (), (flushed c, ps')) \<and> dinv ps' \<and> dview ps' = flush_view c (dview ps)"
proof -
  obtain ps' where ps': "pa_batch api (map OpStore (flush_writes c)) ps = (Ok (), ps')" "dinv ps'"
      "dview ps' = fold (\<lambda>w f. f(wo_page_address w := Ok (Some (wo_wal_index w), wo_buf w))) (flush_writes c) (dview ps)"
    using dbatch_ok [OF assms(6) flush_writes_valid [OF assms(1,3,5)]] by blast
  have "cache_flush api (c, ps) = (Ok (), (flushed c, ps'))"
    using cache_flush_run [OF assms(1-3), of api ps] ps'(1) clear_flushed [OF assms(1,2,4)] by (simp add: on_fst_def)
  then show ?thesis using ps' flush_writes_view [OF assms(1,4)] by simp
qed

end

text \<open>
  C9: A flush writes back exactly the listed pages that are cached and dirty. With nobody
  holding a guard and every page listed once, \<open>flush\<close> succeeds; afterwards the storage reads
  each such page as the cache held it, with the log position of its header, and every other
  page as before; the dirty list is empty, those pages are clean, and nothing else in the
  cache changed.
\<close>

theorem flush_writes_listed_dirty_pages:
  assumes "cache_inv c" and "all_unlocked c" and "flushable c" and "distinct (dirty_list c)"
    and "\<forall>a \<in> set (dirty_list c). wf_page_address a" and "sound_storage ps"
  shows "\<exists>c' ps'. cache_flush (physical_impl crc) (c, ps) = (Ok (), (c', ps')) \<and> sound_storage ps'
    \<and> storage_view crc ps' = flush_view c (storage_view crc ps)
    \<and> cache_inv c' \<and> all_unlocked c' \<and> dirty_list c' = [] \<and> indices c' = indices c
    \<and> (\<forall>a i. holds_page c a i \<longrightarrow> page_at i c' =
        (if a \<in> set (dirty_list c) \<and> is_dirty (page_at i c) then set_dirty False (page_at i c) else page_at i c))"
  using pstore.flush_ok [OF assms, of crc] flushed_facts [OF assms(1,2,4)] unfolding holds_page_def by blast

text \<open>
  C39: A list that names a dirty page twice locks the flush up. The first loop takes a shared
  guard for each mention, and when the page is to be locked exclusively to clear its flag, the
  second of these guards is still held. Storing a page lists it each time, so it takes a page
  that was evicted and loaded again since the last flush.
\<close>

theorem flush_of_duplicate_never_returns:
  assumes "cache_inv c" and "all_unlocked c" and "flushable c"
    and "dirty_list c = xs @ a # ys" and "a \<in> set ys" and "holds_page c a i" and "is_dirty (page_at i c)"
    and "\<exists>r ps1. pa_batch api (map OpStore (flush_writes c)) ps = (Ok r, ps1) \<or> pa_batch api (map OpStore (flush_writes c)) ps = (Err e, ps1)"
  shows "fst (cache_flush api (c, ps)) = Stuck"
proof -
  let ?dps = "dirty_of c (dirty_list c)"
  have ai: "map_of (indices c) a = Some i" using assms(6) by (simp add: holds_page_def)
  have "dirty_of c (xs @ a # ys) = dirty_of c xs @ \<lparr>dp_page_address = a, dp_index = i\<rparr> # dirty_of c ys"
    using ai assms(7) by (simp add: dirty_of_def dirty_entry_def)
  moreover have "\<lparr>dp_page_address = a, dp_index = i\<rparr> \<in> set (dirty_of c ys)"
    using ai assms(5,7) by (simp add: dirty_of_mem)
  then have "i \<in> set (map dp_index (dirty_of c ys))" by force
  ultimately have "\<not> distinct (map dp_index ?dps)" unfolding assms(4) by simp
  then have s: "fst (for_each clear_dirty ?dps (flush_held c)) = Stuck"
    by (rule clear_all_stuck) (use flush_held_facts [OF assms(1,2)] in blast)
  then obtain c1 where s: "for_each clear_dirty ?dps (flush_held c) = (Stuck, c1)" by (metis prod.collapse)
  then have on: "on_fst (for_each clear_dirty ?dps) (flush_held c, p) = (Stuck, (c1, p))" for p by (simp add: on_fst_def)
  show ?thesis
    using assms(8) cache_flush_run [OF assms(1-3), of api ps]
    by (auto simp: bindp_Stuck [where m = "on_fst (for_each clear_dirty ?dps)", OF on] on)
qed

text \<open>
  A failed flush loses the pages it failed to write. When the storage reports an error,
  \<open>flush\<close> returns it and puts the addresses back on the list, but it has cleared their dirty
  flags all the same; so the next flush hands an empty batch to the storage and, if that is
  accepted, returns \<open>Ok\<close> with an empty list.
\<close>

theorem failed_flush_forgets_pages:
  assumes "cache_inv c" and "all_unlocked c" and "flushable c" and "distinct (dirty_list c)"
    and "pa_batch api (map OpStore (flush_writes c)) ps = (Err e, ps1)" and "pa_batch api' [] ps1 = (Ok (), ps2)"
  shows "\<exists>c1 c2. cache_flush api (c, ps) = (Err e, (c1, ps1)) \<and> dirty_list c1 = dirty_list c
    \<and> cache_flush api' (c1, ps1) = (Ok (), (c2, ps2)) \<and> dirty_list c2 = []
    \<and> (\<forall>a i. a \<in> set (dirty_list c) \<longrightarrow> holds_page c a i \<longrightarrow> page_body (page_at i c2) = page_body (page_at i c))"
proof -
  let ?dps = "dirty_of c (dirty_list c)"
  note ff = flushed_facts [OF assms(1,2,4)]
  define c1 where "c1 = (flushed c)\<lparr>dirty_list := dirty_list c\<rparr>"
  have cl: "on_fst (for_each clear_dirty ?dps) (flush_held c, ps1) = (Ok (), (flushed c, ps1))"
    using clear_flushed [OF assms(1,2,4)] by (simp add: on_fst_def)
  have 1: "cache_flush api (c, ps) = (Err e, (c1, ps1))"
    using cache_flush_run [OF assms(1-3), of api ps] assms(5)
    by (simp add: bindp_Ok [where m = "on_fst (for_each clear_dirty ?dps)", OF cl])
      (simp add: on_fst_def bindp_def prog_simps c1_def ff(4))
  have inv1: "cache_inv c1" "all_unlocked c1" "distinct (dirty_list c1)"
    using ff assms(4) cache_inv_cong [of c1 "flushed c"] by (simp_all add: c1_def all_unlocked_def)
  have pg: "page_at i c1 = page_at i (flushed c)" for i by (simp add: c1_def page_at_def)
  have "dirty_entry c1 a = []" if "a \<in> set (dirty_list c)" for a
    using ff(5) [of a] that ff(3) unfolding dirty_entry_def pg
    by (auto simp: c1_def is_dirty_def set_dirty_def split: option.splits if_splits)
  then have none: "dirty_of c1 (dirty_list c1) = []" by (simp add: dirty_of_def c1_def)
  have "cache_flush api' (c1, ps1) = (Ok (), (flushed c1, ps2))"
    using cache_flush_run [OF inv1(1,2), of api' ps1] assms(6) none
    by (simp add: flushable_def flush_writes_def flushed_def on_fst_def prog_simps)
  moreover have "page_body (page_at i (flushed c1)) = page_body (page_at i c)" if "holds_page c a i" for a i
    using ff(5) [of a i] flushed_facts(5) [OF inv1, of a i] that ff(3)
    by (simp add: holds_page_def c1_def set_dirty_def split: if_splits) (simp_all add: page_at_def set_dirty_def)
  moreover have "dirty_list c1 = dirty_list c" by (simp add: c1_def)
  ultimately show ?thesis using 1 flushed_facts(4) [OF inv1] by blast
qed

section \<open>A concrete cache\<close>

text \<open>A cache of one page, stored and written: what the witnesses flush.\<close>

definition demo_body :: "byte list" where
  "demo_body = patch 10 [7, 8] (replicate PAGE_BODY_SIZE 0)"

definition demo_cache :: "page_cache" where
  "demo_cache = (page_cache_new BUFFERED_PAGE_SIZE 1)\<lparr>
     buf := \<lparr>pages = [\<lparr>wal_generation = 0, wal_offset = 90, dirty_byte = 1, page_body = demo_body\<rparr>], num_filled = 1\<rparr>,
     indices := [(PageAddress 3 4, 0)],
     creplacer := snd (evict_replace (PageAddress 3 4) (replacer_new 1)),
     dirty_list := [PageAddress 3 4], flush_spawned := 1\<rparr>"

lemma one_page_cache: "BUFFERED_PAGE_SIZE div BUFFERED_PAGE_SIZE = 1"
  by (simp add: BUFFERED_PAGE_SIZE_def HEADER_SIZE_def)

lemma fresh_cache:
  "page_cache_new BUFFERED_PAGE_SIZE 1 = \<lparr>buf = \<lparr>pages = [zeroed_page], num_filled = 0\<rparr>, indices = [],
     creplacer = replacer_new 1, scrap_slots = [], has_scrap = False, dirty_list = [], locks = [Unlocked],
     max_num_dirty = 1, flush_spawned = 0\<rparr>"
  by (simp add: page_cache_new_def Let_def one_page_cache page_buffer_new_def)

lemma demo_cache_reached:
  "bindp (cache_store (PageAddress 3 4)) (\<lambda>i. bindp (guard_write i 10 [7, 8] (WalIndex 0 90)) (\<lambda>_.
     modify (drop_write_guard i))) (page_cache_new BUFFERED_PAGE_SIZE 1) = (Ok (), demo_cache)"
proof -
  let ?a = "PageAddress 3 4"
  define r where "r = replacer_insert ?a (replacer_new 1)"
  define N where "N = store_noted ?a (page_cache_new BUFFERED_PAGE_SIZE 1)"
  have n: "N = \<lparr>buf = \<lparr>pages = [zeroed_page], num_filled = 0\<rparr>, indices = [],
     creplacer = replacer_new 1, scrap_slots = [], has_scrap = False, dirty_list = [?a], locks = [Unlocked],
     max_num_dirty = 1, flush_spawned = 1\<rparr>"
    unfolding N_def fresh_cache by (simp add: store_noted_def Let_def)
  have e: "evict_replace ?a (creplacer N) = (None, r)"
    by (simp add: n r_def evict_replace_def cache_is_full_def replacer_new_def)
  have nf: "indices N = []" "scrap_slots N = []" "buf N = \<lparr>pages = [zeroed_page], num_filled = 0\<rparr>" "locks N = [Unlocked]"
    by (simp_all add: n)
  have ef: "evict_for ?a N = (Ok None, N\<lparr>creplacer := r\<rparr>)"
    by (simp add: evict_for_def evict_loop.simps e)
  define M where "M = N\<lparr>creplacer := r, buf := \<lparr>pages = [zeroed_page], num_filled = 1\<rparr>, indices := [(?a, 0)]\<rparr>"
  have mf: "locks M = [Unlocked]" "pages (buf M) = [zeroed_page]" by (simp_all add: M_def nf)
  have g: "get_store_index ?a N = (Ok 0, M)"
    by (simp add: get_store_index_def prog_simps bindp_Ok [where m = "evict_for ?a", OF ef] nf push_page_def M_def)
  have l: "load_mut_direct 0 M = (Ok 0, set_lock 0 Exclusive M)"
    using load_mut_direct_ok [of 0 M] by (simp add: mf)
  have st: "cache_store ?a (page_cache_new BUFFERED_PAGE_SIZE 1) = (Ok 0, set_lock 0 Exclusive M)"
    by (simp only: cache_store_run bindp_Ok [where m = "get_store_index ?a", OF g [unfolded N_def]] l)
  let ?p = "\<lparr>wal_generation = 0, wal_offset = 90, dirty_byte = 1, page_body = demo_body\<rparr>"
  have w: "guard_write 0 10 [7, 8] (WalIndex 0 90) (set_lock 0 Exclusive M) = (Ok (), set_page 0 ?p (set_lock 0 Exclusive M))"
    using guard_write_ok [of 0 "set_lock 0 Exclusive M" 10 "[7, 8]" "WalIndex 0 90"]
    by (simp add: page_at_def zeroed_page_def demo_body_def page_body_size_value mf)
  have "drop_write_guard 0 (set_page 0 ?p (set_lock 0 Exclusive M)) = demo_cache"
    using e unfolding drop_write_guard_def set_page_def set_lock_def M_def n demo_cache_def fresh_cache by simp
  then show ?thesis
    by (simp only: bindp_Ok [where m = "cache_store ?a", OF st] bindp_Ok [where m = "guard_write 0 10 [7, 8] (WalIndex 0 90)", OF w] modify_run)
qed

lemma demo_cache_facts:
  "cache_inv demo_cache" "all_unlocked demo_cache" "flushable demo_cache" "distinct (dirty_list demo_cache)"
  "\<forall>a \<in> set (dirty_list demo_cache). wf_page_address a" "holds_page demo_cache (PageAddress 3 4) 0"
  "is_dirty (page_at 0 demo_cache)"
proof -
  have ri: "replacer_inv (replacer_new 1)" by (rule replacer_inv_new) simp
  obtain m r where e: "evict_replace (PageAddress 3 4) (replacer_new 1) = (m, r)" by force
  have "replacer_inv r" "rsize r = 1" "cached r = {PageAddress 3 4}"
    using car.replace_ok [OF ri _ e] by (auto split: option.splits)
  moreover have "length demo_body = PAGE_BODY_SIZE" by (simp add: demo_body_def page_body_size_value)
  ultimately show "cache_inv demo_cache"
    using e [unfolded One_nat_def] by (simp add: lessThan_Suc cache_inv_def demo_cache_def fresh_cache [unfolded One_nat_def] distinct_keys_def)
  show "all_unlocked demo_cache"
    by (simp add: all_unlocked_def demo_cache_def fresh_cache [unfolded One_nat_def])
  show "flushable demo_cache"
    by (simp add: flushable_def dirty_of_def dirty_entry_def demo_cache_def fresh_cache [unfolded One_nat_def] page_at_def)
  show "distinct (dirty_list demo_cache)" "\<forall>a \<in> set (dirty_list demo_cache). wf_page_address a"
    "holds_page demo_cache (PageAddress 3 4) 0" "is_dirty (page_at 0 demo_cache)"
    by (simp_all add: demo_cache_def fresh_cache [unfolded One_nat_def] wf_page_address_def holds_page_def is_dirty_def page_at_def)
qed

theorem flush_writes_listed_dirty_pages_witness:
  "\<exists>c' ps'. cache_flush (physical_impl (\<lambda>_. 0)) (demo_cache, physical_storage_new empty_folder 1) = (Ok (), (c', ps'))
    \<and> storage_view (\<lambda>_. 0) ps' (PageAddress 3 4) = Ok (Some (WalIndex 0 90), demo_body)
    \<and> storage_view (\<lambda>_. 0) ps' (PageAddress 3 5) = Ok (None, replicate PAGE_BODY_SIZE 0)"
proof -
  have s: "sound_storage (physical_storage_new empty_folder 1)"
    using sound_storage_new [OF empty_segments_ok, of 1] by simp
  have v: "flush_view demo_cache v (PageAddress 3 4) = Ok (Some (WalIndex 0 90), demo_body)"
    "flush_view demo_cache v (PageAddress 3 5) = v (PageAddress 3 5)" for v
    by (simp_all add: flush_view_def demo_cache_def is_dirty_def page_at_def)
  obtain c' ps' where r: "cache_flush (physical_impl (\<lambda>_. 0)) (demo_cache, physical_storage_new empty_folder 1) = (Ok (), (c', ps'))"
      "storage_view (\<lambda>_. 0) ps' = flush_view demo_cache (storage_view (\<lambda>_. 0) (physical_storage_new empty_folder 1))"
    using flush_writes_listed_dirty_pages [OF demo_cache_facts(1-5) s, of "\<lambda>_. 0"] by blast
  show ?thesis
    by (intro exI [of _ c'] exI [of _ ps'] conjI r(1)) (simp_all only: r(2) v storage_view_empty)
qed

text \<open>The same cache after the page was stored once more, which lists it twice.\<close>

theorem flush_of_duplicate_never_returns_witness:
  "fst (cache_flush (physical_impl (\<lambda>_. 0)) (demo_cache\<lparr>dirty_list := [PageAddress 3 4, PageAddress 3 4]\<rparr>,
     physical_storage_new empty_folder 1)) = Stuck"
proof -
  let ?c = "demo_cache\<lparr>dirty_list := [PageAddress 3 4, PageAddress 3 4]\<rparr>"
  have s: "sound_storage (physical_storage_new empty_folder 1)"
    using sound_storage_new [OF empty_segments_ok, of 1] by simp
  have c: "cache_inv ?c" "all_unlocked ?c" "holds_page ?c (PageAddress 3 4) 0" "is_dirty (page_at 0 ?c)"
    using demo_cache_facts cache_inv_cong [of ?c demo_cache] by (simp_all add: all_unlocked_def holds_page_def page_at_def)
  have f: "flushable ?c"
    by (simp add: flushable_def dirty_of_def dirty_entry_def demo_cache_def page_at_def)
  have a: "\<forall>a \<in> set (dirty_list ?c). wf_page_address a" by (simp add: wf_page_address_def)
  have b: "\<exists>r ps1. pa_batch (physical_impl (\<lambda>_. 0)) (map OpStore (flush_writes ?c)) (physical_storage_new empty_folder 1) = (Ok r, ps1)
      \<or> pa_batch (physical_impl (\<lambda>_. 0)) (map OpStore (flush_writes ?c)) (physical_storage_new empty_folder 1) = (Err WalNotInitialized, ps1)"
    using pstore.dbatch_ok [OF s flush_writes_valid [OF c(1) f a]] by blast
  show ?thesis
    by (rule flush_of_duplicate_never_returns [OF c(1,2) f _ _ c(3,4) b, of "[]" "[PageAddress 3 4]"]) simp_all
qed

definition broken_storage :: "unit physical_api" where
  "broken_storage = \<lparr>pa_read = \<lambda>_. throw (File UnexpectedEof), pa_write = \<lambda>_. throw (File UnexpectedEof),
     pa_batch = \<lambda>_. throw (File UnexpectedEof)\<rparr>"

definition null_storage :: "unit physical_api" where
  "null_storage = \<lparr>pa_read = \<lambda>_. ret (None, []), pa_write = \<lambda>_. ret (), pa_batch = \<lambda>_. ret ()\<rparr>"

theorem failed_flush_forgets_pages_witness:
  "\<exists>c1 c2. cache_flush broken_storage (demo_cache, ()) = (Err (File UnexpectedEof), (c1, ()))
    \<and> cache_flush null_storage (c1, ()) = (Ok (), (c2, ())) \<and> dirty_list c2 = []"
proof -
  have b: "pa_batch broken_storage ops () = (Err (File UnexpectedEof), ())" "pa_batch null_storage [] () = (Ok (), ())" for ops
    by (simp_all add: broken_storage_def null_storage_def prog_simps)
  show ?thesis using failed_flush_forgets_pages [OF demo_cache_facts(1-4) b] by blast
qed

end
