(* ===== verification/PageStore.thy ===== *)
theory PageStore
  imports Wal PageCache
begin

text \<open>
  The page storage of \<open>page_store/mod.rs\<close>: pages are read and written in the cache, which is
  filled from the physical storage; every write is logged first; a transaction keeps the
  exclusive guards of the pages it wrote until it is committed, undone or dropped.

  The physical storage and the log are used through their interfaces (\<open>physical_api\<close>,
  \<open>wal_api\<close>). A guard is the index of its buffer (see \<open>PageCache.thy\<close>). Both parts of a storage
  share one database folder; the physical storage uses its segment files only and the log its
  log files only, so each has a copy of its own here.
\<close>

section \<open>Transaction numbers\<close>

record transaction_enumerator =
  next_id :: u64
  num_transactions :: u64

definition enumerator_new :: transaction_enumerator where
  "enumerator_new = \<lparr>next_id = 0, num_transactions = 0\<rparr>"

text \<open>\<open>begin\<close> without interruption; its four atomic accesses one by one are in \<open>StoreProofs.thy\<close>.\<close>

definition enumerator_begin :: "transaction_enumerator \<Rightarrow> u64 option \<times> transaction_enumerator" where
  "enumerator_begin e = (case checked_add (num_transactions e) 1 of
     None \<Rightarrow> (None, e)
   | Some n \<Rightarrow> (Some (next_id e), \<lparr>next_id = next_id e + 1, num_transactions = n\<rparr>))"

definition enumerator_end :: "transaction_enumerator \<Rightarrow> transaction_enumerator" where
  "enumerator_end e = e\<lparr>num_transactions := saturating_sub (num_transactions e) 1\<rparr>"

section \<open>The storage\<close>

text \<open>The interface \<open>WalApi\<close>; the handlers of \<open>undo\<close> and \<open>recover\<close> act on the pages.\<close>

record ('w, 'ps) wal_api =
  wa_log_write :: "write_log \<Rightarrow> ('w, storage_error, wal_index) prog"
  wa_log_commit :: "u64 \<Rightarrow> ('w, storage_error, wal_index) prog"
  wa_undo :: "u64 \<Rightarrow> (partial_write_op \<Rightarrow> (page_cache \<times> 'ps, storage_error, unit) prog)
    \<Rightarrow> ('w \<times> (page_cache \<times> 'ps), storage_error, unit) prog"
  wa_recover :: "(partial_write_op \<Rightarrow> (page_cache \<times> 'ps, storage_error, unit) prog)
    \<Rightarrow> ('w \<times> (page_cache \<times> 'ps), storage_error, unit) prog"

definition wal_impl :: "'f wal_file_api \<Rightarrow> (('d, 'f) wal, 'ps) wal_api" where
  "wal_impl api = \<lparr>wa_log_write = log_write api, wa_log_commit = log_commit api,
     wa_undo = (\<lambda>t handle. undo api handle t), wa_recover = recover api\<rparr>"

record ('w, 'ps) page_storage =
  swal :: 'w
  sphys :: 'ps
  scache :: page_cache
  enumerator :: transaction_enumerator

type_synonym ('w, 'ps, 'a) storep = "(('w, 'ps) page_storage, storage_error, 'a) prog"

definition page_storage_new :: "'ps \<Rightarrow> page_cache \<Rightarrow> 'w \<Rightarrow> ('w, 'ps) page_storage" where
  "page_storage_new ps c w = \<lparr>swal = w, sphys = ps, scache = c, enumerator = enumerator_new\<rparr>"

text \<open>Programs on the pages (cache and physical storage), on the log, and on both.\<close>

definition on_pages :: "(page_cache \<times> 'ps, storage_error, 'a) prog \<Rightarrow> ('w, 'ps, 'a) storep" where
  "on_pages m st = (case m (scache st, sphys st) of (r, (c, ps)) \<Rightarrow> (r, st\<lparr>scache := c, sphys := ps\<rparr>))"

definition on_cache :: "'a cachep \<Rightarrow> ('w, 'ps, 'a) storep" where
  "on_cache m st = (case m (scache st) of (r, c) \<Rightarrow> (r, st\<lparr>scache := c\<rparr>))"

definition on_wal :: "('w, storage_error, 'a) prog \<Rightarrow> ('w, 'ps, 'a) storep" where
  "on_wal m st = (case m (swal st) of (r, w) \<Rightarrow> (r, st\<lparr>swal := w\<rparr>))"

definition on_wal_pages :: "('w \<times> (page_cache \<times> 'ps), storage_error, 'a) prog \<Rightarrow> ('w, 'ps, 'a) storep" where
  "on_wal_pages m st = (case m (swal st, (scache st, sphys st)) of
     (r, (w, (c, ps))) \<Rightarrow> (r, st\<lparr>swal := w, scache := c, sphys := ps\<rparr>))"

text \<open>\<open>PageStorage::create\<close> and \<open>PageStorage::open\<close>.\<close>

definition page_storage_create :: "(byte list \<Rightarrow> u32) \<Rightarrow> nat \<Rightarrow> nat \<Rightarrow> nat \<Rightarrow> nat \<Rightarrow> database_folder
    \<Rightarrow> (storage_error, ((database_folder, wal_file) wal, (database_folder, u32) physical_storage) page_storage) outcome" where
  "page_storage_create crc max_segments cache_size dirty_limit max_gen d =
     oc_bind (fst (wal_create (wal_file_impl crc) folder_impl max_gen d)) (\<lambda>w.
       Ok (page_storage_new (physical_storage_new d max_segments) (page_cache_new cache_size dirty_limit) w))"

definition page_storage_open :: "nat \<Rightarrow> nat \<Rightarrow> nat \<Rightarrow> nat \<Rightarrow> database_folder
    \<Rightarrow> (storage_error, ((database_folder, wal_file) wal, (database_folder, u32) physical_storage) page_storage) outcome" where
  "page_storage_open max_segments cache_size dirty_limit max_gen d =
     oc_bind (fst (wal_open folder_impl max_gen d)) (\<lambda>w.
       Ok (page_storage_new (physical_storage_new d max_segments) (page_cache_new cache_size dirty_limit) w))"

section \<open>Guards on pages\<close>

text \<open>
  The log position that the physical read returns is discarded. When the read fails the slot
  is scrapped and then the guard dropped.
\<close>

definition load_into_cache :: "'ps physical_api \<Rightarrow> page_address \<Rightarrow> (page_cache \<times> 'ps, storage_error, nat) prog" where
  "load_into_cache api a = bindp (on_fst (cache_store a)) (\<lambda>g s.
     case on_snd (pa_read api a) s of
       (Ok (i, body), s1) \<Rightarrow> bindp (on_fst (modify (\<lambda>c. set_page g ((page_at g c)\<lparr>page_body := body\<rparr>) c))) (\<lambda>_. ret g) s1
     | (Err e, s1) \<Rightarrow> bindp (on_fst (modify (cache_scrap a))) (\<lambda>_.
         bindp (on_fst (modify (drop_write_guard g))) (\<lambda>_. throw e)) s1
     | (Panic, s1) \<Rightarrow> (Panic, s1)
     | (Stuck, s1) \<Rightarrow> (Stuck, s1))"

definition read_guard :: "'ps physical_api \<Rightarrow> page_address \<Rightarrow> (page_cache \<times> 'ps, storage_error, nat) prog" where
  "read_guard api a = bindp (on_fst (cache_load a)) (\<lambda>m.
     case m of
       Some g \<Rightarrow> ret g
     | None \<Rightarrow> bindp (load_into_cache api a) (\<lambda>g.
         bindp (on_fst (modify (\<lambda>c. snd (downgrade_guard g c)))) (\<lambda>_. ret g)))"

definition write_guard :: "'ps physical_api \<Rightarrow> page_address \<Rightarrow> (page_cache \<times> 'ps, storage_error, nat) prog" where
  "write_guard api a = bindp (on_fst (cache_load_mut a)) (\<lambda>m.
     case m of Some g \<Rightarrow> ret g | None \<Rightarrow> load_into_cache api a)"

section \<open>Transactions\<close>

record transaction =
  tid :: u64
  tlocks :: "(page_address \<times> nat) list"
  completed :: bool

type_synonym ('w, 'ps, 'a) transp = "(transaction \<times> ('w, 'ps) page_storage, storage_error, 'a) prog"

definition transaction_new :: "u64 \<Rightarrow> transaction" where
  "transaction_new i = \<lparr>tid = i, tlocks = [], completed = False\<rparr>"

definition storage_transaction :: "('w, 'ps, transaction) storep" where
  "storage_transaction = bindp get_state (\<lambda>st. case enumerator_begin (enumerator st) of
     (None, e) \<Rightarrow> bindp (modify (\<lambda>st. st\<lparr>enumerator := e\<rparr>)) (\<lambda>_. throw TransactionLimitReached)
   | (Some i, e) \<Rightarrow> bindp (modify (\<lambda>st. st\<lparr>enumerator := e\<rparr>)) (\<lambda>_. ret (transaction_new i)))"

definition acquire_lock :: "'ps physical_api \<Rightarrow> page_address \<Rightarrow> ('w, 'ps, unit) transp" where
  "acquire_lock api a = bindp (on_fst get_state) (\<lambda>t.
     case map_of (tlocks t) a of
       Some _ \<Rightarrow> ret ()
     | None \<Rightarrow> bindp (on_snd (on_pages (write_guard api a))) (\<lambda>g.
         on_fst (modify (\<lambda>t. t\<lparr>tlocks := AList.update a g (tlocks t)\<rparr>))))"

text \<open>\<open>WriteablePageGuard\<close>: a page of a transaction is borrowed from it or shared.\<close>

datatype page_guard = SharedGuard nat | ExclusiveGuard nat

definition transaction_get_page :: "'ps physical_api \<Rightarrow> page_address \<Rightarrow> ('w, 'ps, page_guard) transp" where
  "transaction_get_page api a = bindp (on_fst get_state) (\<lambda>t.
     case map_of (tlocks t) a of
       Some g \<Rightarrow> ret (ExclusiveGuard g)
     | None \<Rightarrow> bindp (on_snd (on_pages (read_guard api a))) (\<lambda>g. ret (SharedGuard g)))"

definition storage_get_page :: "'ps physical_api \<Rightarrow> page_address \<Rightarrow> ('w, 'ps, page_guard) storep" where
  "storage_get_page api a = bindp (on_pages (read_guard api a)) (\<lambda>g. ret (SharedGuard g))"

fun page_read :: "page_guard \<Rightarrow> nat \<Rightarrow> nat \<Rightarrow> byte list cachep" where
  "page_read (SharedGuard g) off n = guard_read g off n"
| "page_read (ExclusiveGuard g) off n = guard_read g off n"

fun drop_page :: "page_guard \<Rightarrow> page_cache \<Rightarrow> page_cache" where
  "drop_page (SharedGuard g) c = drop_read_guard g c"
| "drop_page (ExclusiveGuard g) c = c"

record page_mut =
  pm_page_address :: page_address
  pm_transaction_id :: u64
  pm_guard :: nat

definition transaction_get_page_mut :: "'ps physical_api \<Rightarrow> page_address \<Rightarrow> ('w, 'ps, page_mut) transp" where
  "transaction_get_page_mut api a = bindp (acquire_lock api a) (\<lambda>_. bindp (on_fst get_state) (\<lambda>t.
     case map_of (tlocks t) a of
       None \<Rightarrow> panic
     | Some g \<Rightarrow> ret \<lparr>pm_page_address = a, pm_transaction_id = tid t, pm_guard = g\<rparr>))"

definition page_mut_write :: "('w, 'ps) wal_api \<Rightarrow> page_mut \<Rightarrow> nat \<Rightarrow> byte list \<Rightarrow> ('w, 'ps, unit) storep" where
  "page_mut_write wapi p off bs =
     bindp (on_cache (guard_read (pm_guard p) off (length bs))) (\<lambda>old.
     case try_u16 off of
       None \<Rightarrow> panic
     | Some o16 \<Rightarrow> bindp (on_wal (wa_log_write wapi \<lparr>wl_transaction_id = pm_transaction_id p,
           wl_page_address = pm_page_address p, wl_offset = o16, wl_from = old, wl_to = bs\<rparr>)) (\<lambda>i.
         on_cache (guard_write (pm_guard p) off bs i)))"

definition undo_handler :: "transaction \<Rightarrow> partial_write_op \<Rightarrow> (page_cache \<times> 'ps, storage_error, unit) prog" where
  "undo_handler t op = (case map_of (tlocks t) (pw_page_address op) of
     None \<Rightarrow> panic
   | Some g \<Rightarrow> on_fst (guard_write g (unat (pw_offset op)) (pw_buf op) (pw_index op)))"

definition undo_impl :: "('w, 'ps) wal_api \<Rightarrow> transaction \<Rightarrow> ('w, 'ps, unit) storep" where
  "undo_impl wapi t = bindp (on_wal_pages (wa_undo wapi (tid t) (undo_handler t))) (\<lambda>_.
     modify (\<lambda>st. st\<lparr>enumerator := enumerator_end (enumerator st)\<rparr>))"

text \<open>\<open>Drop\<close>: undo what is not completed, then drop the guards.\<close>

definition release_locks :: "transaction \<Rightarrow> page_cache \<Rightarrow> page_cache" where
  "release_locks t c = fold (\<lambda>(a, g). drop_write_guard g) (tlocks t) c"

definition drop_transaction :: "('w, 'ps) wal_api \<Rightarrow> transaction \<Rightarrow> ('w, 'ps, unit) storep" where
  "drop_transaction wapi t st =
     (case (if completed t then ret () else undo_impl wapi t) st of
        (Ok _, st1) \<Rightarrow> (Ok (), st1\<lparr>scache := release_locks t (scache st1)\<rparr>)
      | (Stuck, st1) \<Rightarrow> (Stuck, st1)
      | (_, st1) \<Rightarrow> (Panic, st1))"

definition transaction_commit :: "('w, 'ps) wal_api \<Rightarrow> transaction \<Rightarrow> ('w, 'ps, unit) storep" where
  "transaction_commit wapi t st = (case on_wal (wa_log_commit wapi (tid t)) st of
     (Ok _, st1) \<Rightarrow> bindp (modify (\<lambda>st. st\<lparr>enumerator := enumerator_end (enumerator st)\<rparr>)) (\<lambda>_.
       drop_transaction wapi (t\<lparr>completed := True\<rparr>)) st1
   | (Err e, st1) \<Rightarrow> bindp (drop_transaction wapi t) (\<lambda>_. throw e) st1
   | (Panic, st1) \<Rightarrow> (Panic, st1)
   | (Stuck, st1) \<Rightarrow> (Stuck, st1))"

definition transaction_undo :: "('w, 'ps) wal_api \<Rightarrow> transaction \<Rightarrow> ('w, 'ps, unit) storep" where
  "transaction_undo wapi t st = (case undo_impl wapi t st of
     (Ok _, st1) \<Rightarrow> drop_transaction wapi (t\<lparr>completed := True\<rparr>) st1
   | (Err e, st1) \<Rightarrow> bindp (drop_transaction wapi t) (\<lambda>_. throw e) st1
   | (Panic, st1) \<Rightarrow> (Panic, st1)
   | (Stuck, st1) \<Rightarrow> (Stuck, st1))"

section \<open>Recovery and flushing\<close>

definition recover_handler :: "'ps physical_api \<Rightarrow> partial_write_op \<Rightarrow> (page_cache \<times> 'ps, storage_error, unit) prog" where
  "recover_handler api op = bindp (write_guard api (pw_page_address op)) (\<lambda>g.
     bindp (on_fst (guard_write g (unat (pw_offset op)) (pw_buf op) (pw_index op))) (\<lambda>_.
     bindp (on_fst get_state) (\<lambda>c s.
     case on_snd (pa_write api \<lparr>wo_wal_index = pw_index op, wo_page_address = pw_page_address op,
         wo_buf = page_body (page_at g c)\<rparr>) s of
       (Ok _, s1) \<Rightarrow> on_fst (modify (drop_write_guard g)) s1
     | (Err e, s1) \<Rightarrow> bindp (on_fst (modify (drop_write_guard g))) (\<lambda>_. throw e) s1
     | (Panic, s1) \<Rightarrow> (Panic, s1)
     | (Stuck, s1) \<Rightarrow> (Stuck, s1))))"

definition storage_recover :: "('w, 'ps) wal_api \<Rightarrow> 'ps physical_api \<Rightarrow> ('w, 'ps, unit) storep" where
  "storage_recover wapi api = on_wal_pages (wa_recover wapi (recover_handler api))"

definition storage_flush_sync :: "'ps physical_api \<Rightarrow> ('w, 'ps, unit) storep" where
  "storage_flush_sync api = on_pages (cache_flush api)"

text \<open>
  \<open>flush\<close> only spawns a flush; what the spawned task does when it runs, like each round of
  the periodic one, is \<open>flush_task\<close>: an error is logged and otherwise ignored.
\<close>

definition cache_spawn_flush :: "page_cache \<Rightarrow> page_cache" where
  "cache_spawn_flush c = c\<lparr>flush_spawned := Suc (flush_spawned c)\<rparr>"

definition storage_flush :: "('w, 'ps, unit) storep" where
  "storage_flush = on_cache (modify cache_spawn_flush)"

definition flush_task :: "'ps physical_api \<Rightarrow> (page_cache \<times> 'ps, storage_error, unit) prog" where
  "flush_task api s = (case cache_flush api s of
     (Err _, s1) \<Rightarrow> (Ok (), s1)
   | res \<Rightarrow> res)"

end
