(* ===== verification/StoreProofs.thy ===== *)
theory StoreProofs
  imports WalTheorems CacheFlush PageStore
begin

text \<open>
  What the page storage guarantees. The log and the storage below are contracts (locales),
  interpreted on the code's own log and physical storage at the end of their sections.
\<close>

section \<open>Transaction numbers\<close>

text \<open>
  \<open>begin\<close> as the code has it: four atomic accesses, between which other threads can run. A
  thread is where it is in the method, with what it has read so far.
\<close>

datatype begin_pc = AtStart | GotCount u64 | StoredCount | GotId u64 | Returned "u64 option"

inductive begin_step :: "transaction_enumerator \<times> begin_pc \<Rightarrow> transaction_enumerator \<times> begin_pc \<Rightarrow> bool" where
  load_count: "begin_step (e, AtStart) (e, GotCount (num_transactions e))"
| limit: "checked_add n 1 = None \<Longrightarrow> begin_step (e, GotCount n) (e, Returned None)"
| store_count: "checked_add n 1 = Some m \<Longrightarrow> begin_step (e, GotCount n) (e\<lparr>num_transactions := m\<rparr>, StoredCount)"
| load_id: "begin_step (e, StoredCount) (e, GotId (next_id e))"
| store_id: "begin_step (e, GotId i) (e\<lparr>next_id := i + 1\<rparr>, Returned (Some i))"

inductive_cases begin_step_cases [elim!]:
  "begin_step (e, AtStart) s" "begin_step (e, GotCount n) s" "begin_step (e, StoredCount) s"
  "begin_step (e, GotId i) s" "begin_step (e, Returned r) s"

text \<open>Two threads on one enumerator.\<close>

inductive two_begin :: "transaction_enumerator \<Rightarrow> begin_pc \<Rightarrow> begin_pc \<Rightarrow> transaction_enumerator \<Rightarrow> begin_pc \<Rightarrow> begin_pc \<Rightarrow> bool"
  for e0 p0 q0 where
  start: "two_begin e0 p0 q0 e0 p0 q0"
| first: "two_begin e0 p0 q0 e p q \<Longrightarrow> begin_step (e, p) (e', p') \<Longrightarrow> two_begin e0 p0 q0 e' p' q"
| second: "two_begin e0 p0 q0 e p q \<Longrightarrow> begin_step (e, q) (e', q') \<Longrightarrow> two_begin e0 p0 q0 e' p q'"

text \<open>Without interruption the steps are the function.\<close>

lemma begin_alone:
  "two_begin e AtStart q (snd (enumerator_begin e)) (Returned (fst (enumerator_begin e))) q"
proof -
  have 1: "two_begin e AtStart q e (GotCount (num_transactions e)) q"
    by (rule two_begin.first [OF two_begin.start begin_step.load_count])
  show ?thesis
  proof (cases "checked_add (num_transactions e) 1")
    case None
    then show ?thesis using two_begin.first [OF 1 begin_step.limit] by (simp add: enumerator_begin_def)
  next
    case (Some m)
    note 2 = two_begin.first [OF 1 begin_step.store_count [OF Some]]
    note 3 = two_begin.first [OF 2 begin_step.load_id]
    have "enumerator_begin e = (Some (next_id e), e\<lparr>num_transactions := m, next_id := next_id e + 1\<rparr>)"
      using Some by (cases e) (simp add: enumerator_begin_def)
    then show ?thesis using two_begin.first [OF 3 begin_step.store_id] by simp
  qed
qed

text \<open>
  C30: Two threads that begin a transaction at the same time can get the same transaction
  number, and the count of running transactions can end up one too low: \<open>begin\<close> loads and
  stores its two counters in separate atomic accesses. One after the other they get
  different numbers, and the count goes up by two.
\<close>

theorem concurrent_begin_duplicates_id:
  "\<exists>e. two_begin enumerator_new AtStart AtStart e (Returned (Some 0)) (Returned (Some 0)) \<and> num_transactions e = 1
    \<and> (\<exists>i j e1 e2. enumerator_begin enumerator_new = (Some i, e1) \<and> enumerator_begin e1 = (Some j, e2)
        \<and> i \<noteq> j \<and> num_transactions e2 = 2)"
proof -
  have c: "checked_add (0 :: u64) 1 = Some 1" "checked_add (1 :: u64) 1 = Some 2"
    by (simp_all add: checked_add_def)
  let ?e = "enumerator_new\<lparr>num_transactions := 1\<rparr>"
  have z: "num_transactions enumerator_new = 0" "next_id ?e = 0" by (simp_all add: enumerator_new_def)
  have "two_begin enumerator_new AtStart AtStart enumerator_new (GotCount 0) AtStart"
    using two_begin.first [OF two_begin.start begin_step.load_count, of enumerator_new AtStart] unfolding z .
  then have "two_begin enumerator_new AtStart AtStart enumerator_new (GotCount 0) (GotCount 0)"
    using two_begin.second [OF _ begin_step.load_count, of enumerator_new AtStart AtStart enumerator_new "GotCount 0"] unfolding z by blast
  from two_begin.second [OF two_begin.first [OF this begin_step.store_count [OF c(1)]] begin_step.store_count [OF c(1)]]
  have "two_begin enumerator_new AtStart AtStart ?e StoredCount StoredCount" by simp
  from two_begin.second [OF two_begin.first [OF this begin_step.load_id] begin_step.load_id]
  have "two_begin enumerator_new AtStart AtStart ?e (GotId 0) (GotId 0)" unfolding z .
  from two_begin.second [OF two_begin.first [OF this begin_step.store_id] begin_step.store_id]
  have "two_begin enumerator_new AtStart AtStart (?e\<lparr>next_id := 1\<rparr>) (Returned (Some 0)) (Returned (Some 0))" by simp
  moreover have "num_transactions (?e\<lparr>next_id := 1\<rparr>) = 1" by simp
  ultimately show ?thesis
    using c by (intro exI [of _ "?e\<lparr>next_id := 1\<rparr>"] conjI) (simp_all add: enumerator_begin_def enumerator_new_def)
qed

section \<open>Loading pages\<close>

lemma load_into_cache_run:
  assumes st: "cache_store a c = (Ok g, c1)" and rd: "pa_read api a ps = (Ok (i, body), ps')"
  shows "load_into_cache api a (c, ps) = (Ok g, (set_page g ((page_at g c1)\<lparr>page_body := body\<rparr>) c1, ps'))"
proof -
  have s: "on_fst (cache_store a) (c, ps) = (Ok g, (c1, ps))" using st by (simp add: on_fst_def)
  have m: "on_fst (modify f) (c1, ps') = (Ok (), (f c1, ps'))" for f by (simp add: on_fst_def prog_simps)
  show ?thesis
    by (simp add: load_into_cache_def bindp_Ok [where m = "on_fst (cache_store a)", OF s] on_snd_def rd
        bindp_Ok [where m = "on_fst (modify f)" for f, OF m] prog_simps)
qed

lemma load_into_cache_error:
  assumes st: "cache_store a c = (Ok g, c1)" and rd: "pa_read api a ps = (Err e, ps')"
  shows "load_into_cache api a (c, ps) = (Err e, (drop_write_guard g (cache_scrap a c1), ps'))"
proof -
  have s: "on_fst (cache_store a) (c, ps) = (Ok g, (c1, ps))" using st by (simp add: on_fst_def)
  have m: "on_fst (modify f) (d, ps') = (Ok (), (f d, ps'))" for f d by (simp add: on_fst_def prog_simps)
  show ?thesis
    by (simp add: load_into_cache_def bindp_Ok [where m = "on_fst (cache_store a)", OF s] on_snd_def rd
        bindp_Ok [where m = "on_fst (modify f)" for f, OF m] prog_simps)
qed

lemma cache_load_none: "map_of (indices c) a = None \<Longrightarrow> cache_load a c = (Ok None, c)"
  by (simp add: cache_load_def get_load_index_def prog_simps)

lemma cache_load_mut_none: "map_of (indices c) a = None \<Longrightarrow> cache_load_mut a c = (Ok None, c)"
  by (simp add: cache_load_mut_def get_load_index_def prog_simps)

lemma load_mut_cached:
  assumes "cache_inv c" and "map_of (indices c) a = Some i" and "locks c ! i = Unlocked"
  shows "cache_load_mut a c = (Ok (Some i), set_lock i Exclusive (c\<lparr>creplacer := snd (replacer_access a (creplacer c))\<rparr>))"
proof -
  let ?c0 = "c\<lparr>creplacer := snd (replacer_access a (creplacer c))\<rparr>"
  have "load_mut_direct i ?c0 = (Ok i, set_lock i Exclusive ?c0)"
    using load_mut_direct_ok [of i ?c0] cache_index [OF assms(1,2)] assms(3) by simp
  then show ?thesis
    using assms(2) by (simp add: cache_load_mut_def get_load_index_def prog_simps bindp_Ok [where m = "load_mut_direct i"])
qed

text \<open>A page that someone has locked for writing: readers and writers wait.\<close>

lemma load_locked:
  assumes "cache_inv c" and "map_of (indices c) a = Some i" and "locks c ! i = Exclusive"
  shows "fst (cache_load_mut a c) = Stuck" "fst (cache_load a c) = Stuck"
proof -
  let ?c0 = "c\<lparr>creplacer := snd (replacer_access a (creplacer c))\<rparr>"
  have "load_mut_direct i ?c0 = (Stuck, ?c0)" "load_direct i ?c0 = (Stuck, ?c0)"
    using load_mut_direct_ok [of i ?c0] load_direct_ok [of i ?c0] cache_index [OF assms(1,2)] assms(3) by simp_all
  then show "fst (cache_load_mut a c) = Stuck" "fst (cache_load a c) = Stuck"
    using assms(2) by (simp_all add: cache_load_mut_def cache_load_def get_load_index_def prog_simps
        bindp_Stuck [where m = "load_mut_direct i"] bindp_Stuck [where m = "load_direct i"])
qed

lemma guard_waits:
  assumes "cache_inv c" and "map_of (indices c) a = Some i" and "locks c ! i = Exclusive"
  shows "fst (write_guard api a (c, ps)) = Stuck" "fst (read_guard api a (c, ps)) = Stuck"
proof -
  obtain c1 c2 where l: "cache_load_mut a c = (Stuck, c1)" "cache_load a c = (Stuck, c2)"
    using load_locked [OF assms] by (metis prod.collapse)
  then have "on_fst (cache_load_mut a) (c, ps) = (Stuck, (c1, ps))" "on_fst (cache_load a) (c, ps) = (Stuck, (c2, ps))"
    by (simp_all add: on_fst_def)
  then show "fst (write_guard api a (c, ps)) = Stuck" "fst (read_guard api a (c, ps)) = Stuck"
    by (simp_all add: write_guard_def read_guard_def bindp_Stuck [where m = "on_fst x" for x])
qed

lemma read_guard_cached:
  assumes "cache_load a c = (Ok (Some g), c1)"
  shows "read_guard api a (c, ps) = (Ok g, (c1, ps))"
proof -
  have "on_fst (cache_load a) (c, ps) = (Ok (Some g), (c1, ps))" using assms by (simp add: on_fst_def)
  then show ?thesis by (simp add: read_guard_def prog_simps bindp_Ok [where m = "on_fst (cache_load a)"])
qed

lemma read_guard_loads:
  assumes "map_of (indices c) a = None" and ld: "load_into_cache api a (c, ps) = (Ok g, (c1, ps'))"
  shows "read_guard api a (c, ps) = (Ok g, (set_lock g (SharedBy 1) c1, ps'))"
proof -
  have "on_fst (cache_load a) (c, ps) = (Ok None, (c, ps))" using cache_load_none [OF assms(1)] by (simp add: on_fst_def)
  note l = this
  have m: "on_fst (modify f) (d, ps') = (Ok (), (f d, ps'))" for f d by (simp add: on_fst_def prog_simps)
  show ?thesis
    by (simp add: read_guard_def bindp_Ok [where m = "on_fst (cache_load a)", OF l] bindp_Ok [where m = "load_into_cache api a", OF ld]
        bindp_Ok [where m = "on_fst (modify f)" for f, OF m] prog_simps downgrade_guard_def)
qed

lemma write_guard_loads:
  assumes "map_of (indices c) a = None"
  shows "write_guard api a (c, ps) = load_into_cache api a (c, ps)"
proof -
  have "on_fst (cache_load_mut a) (c, ps) = (Ok None, (c, ps))" using cache_load_mut_none [OF assms(1)] by (simp add: on_fst_def)
  then show ?thesis by (simp add: write_guard_def bindp_Ok [where m = "on_fst (cache_load_mut a)"])
qed

context batch_storage begin

lemma load_into_cache_ok:
  assumes c: "cache_inv c" "all_unlocked c" and a: "map_of (indices c) a = None" and ps: "dinv ps" "wf_page_address a"
    and v: "dview ps a = Ok (ix, body)" "length body = PAGE_BODY_SIZE"
  shows "\<exists>g c1 ps'. load_into_cache api a (c, ps) = (Ok g, (c1, ps')) \<and> dinv ps' \<and> dview ps' = dview ps
    \<and> cache_inv c1 \<and> map_of (indices c1) a = Some g \<and> locks c1 = (locks c)[g := Exclusive]
    \<and> page_body (page_at g c1) = body \<and> dirty_list c1 = dirty_list c @ [a]
    \<and> length (pages (buf c1)) = length (pages (buf c))
    \<and> (\<forall>b j. b \<noteq> a \<longrightarrow> map_of (indices c1) b = Some j \<longrightarrow> map_of (indices c) b = Some j \<and> page_at j c1 = page_at j c)"
proof -
  obtain g c0 where st: "cache_store a c = (Ok g, set_lock g Exclusive c0)" and t: "slot_taken a g (store_noted a c) c0"
    using store_succeeds [OF c] by blast
  note d = slot_takenD [OF t, unfolded store_noted_fields]
  have c0: "cache_inv c0" using t unfolding slot_taken_def by blast
  note ix = cache_index [OF c0 d(1)]
  obtain ps' where rd: "pa_read api a ps = (Ok (ix, body), ps')" "dinv ps'" "dview ps' = dview ps"
    using dread_ok [OF ps] v(1) by auto
  let ?c1 = "set_page g ((page_at g (set_lock g Exclusive c0))\<lparr>page_body := body\<rparr>) (set_lock g Exclusive c0)"
  have l: "load_into_cache api a (c, ps) = (Ok g, (?c1, ps'))" by (rule load_into_cache_run [OF st rd(1)])
  have "cache_inv ?c1" by (rule cache_inv_set_page) (simp_all add: c0 v(2))
  moreover have "page_body (page_at g ?c1) = body"
    using page_at_set_page [of g "set_lock g Exclusive c0" g] ix(2) by simp
  moreover have "locks ?c1 = (locks c)[g := Exclusive]" using d(5) by simp
  moreover have "map_of (indices ?c1) a = Some g" "dirty_list ?c1 = dirty_list c @ [a]" using d(1,7) by simp_all
  moreover have "length (pages (buf ?c1)) = length (pages (buf c))" using d(6) by simp
  moreover have "map_of (indices c) b = Some j \<and> page_at j ?c1 = page_at j c"
    if b: "b \<noteq> a" "map_of (indices ?c1) b = Some j" for b j
  proof -
    have j: "map_of (indices c0) b = Some j" using b(2) by simp
    then have "j \<noteq> g" using cache_index_inject [OF c0 d(1)] b(1) by blast
    then show ?thesis
      using d(2,6) b(1) j page_at_set_page [of g "set_lock g Exclusive c0" j] ix(2) by (simp add: page_at_def)
  qed
  ultimately show ?thesis using l rd(2,3) by blast
qed

lemma all_unlocked_update: "all_unlocked c \<Longrightarrow> locks d = (locks c)[g := Unlocked] \<Longrightarrow> all_unlocked d"
  using set_update_subset_insert [of "locks c" g Unlocked] by (auto simp: all_unlocked_def)

lemma read_guard_ok:
  assumes c: "cache_inv c" "all_unlocked c" and ps: "dinv ps" "wf_page_address a"
    and v: "dview ps a = Ok (ix, body)" "length body = PAGE_BODY_SIZE"
  shows "\<exists>g c1 ps'. read_guard api a (c, ps) = (Ok g, (c1, ps')) \<and> dinv ps' \<and> dview ps' = dview ps
    \<and> cache_inv c1 \<and> map_of (indices c1) a = Some g \<and> all_unlocked (drop_read_guard g c1)
    \<and> page_body (page_at g c1) = (case map_of (indices c) a of Some i \<Rightarrow> page_body (page_at i c) | None \<Rightarrow> body)
    \<and> length (pages (buf c1)) = length (pages (buf c))"
proof (cases "map_of (indices c) a")
  case None
  obtain g c1 ps' where l: "load_into_cache api a (c, ps) = (Ok g, (c1, ps'))" "dinv ps'" "dview ps' = dview ps"
      "cache_inv c1" "map_of (indices c1) a = Some g" "locks c1 = (locks c)[g := Exclusive]"
      "page_body (page_at g c1) = body" "length (pages (buf c1)) = length (pages (buf c))"
    using load_into_cache_ok [OF c None ps v] by blast
  have "g < length (locks c)" using cache_index(1) [OF l(4,5)] l(6) by simp
  then have "locks (drop_read_guard g (set_lock g (SharedBy 1) c1)) = (locks c)[g := Unlocked]"
    by (simp add: drop_read_guard_def l(6))
  from all_unlocked_update [OF c(2) this] have "all_unlocked (drop_read_guard g (set_lock g (SharedBy 1) c1))" .
  then show ?thesis
    using l read_guard_loads [OF None l(1)] None
    by (intro exI [of _ g] exI [of _ "set_lock g (SharedBy 1) c1"] exI [of _ ps']) simp
next
  case (Some i)
  note ix = cache_index [OF c(1) Some]
  have u: "locks c ! i = Unlocked" by (rule all_unlocked_nth [OF c(2) ix(1)])
  let ?c0 = "c\<lparr>creplacer := snd (replacer_access a (creplacer c))\<rparr>"
  let ?c1 = "set_lock i (SharedBy 1) ?c0"
  have l: "cache_load a c = (Ok (Some i), ?c1)" using cache_load_ok [OF c(1) Some] u by simp
  have "locks (drop_read_guard i ?c1) = (locks c)[i := Unlocked]" using ix by (simp add: drop_read_guard_def)
  from all_unlocked_update [OF c(2) this] have "all_unlocked (drop_read_guard i ?c1)" .
  moreover have "page_at i ?c1 = page_at i c" by (simp add: page_at_def)
  moreover have "cache_inv ?c1" using cache_inv_access [OF c(1)] by simp
  ultimately show ?thesis
    using read_guard_cached [OF l, of api ps] Some ps(1) by (intro exI [of _ i] exI [of _ ?c1] exI [of _ ps]) simp
qed

text \<open>With one buffer, reading another page takes it from the page that had it.\<close>

lemma read_other_ok:
  assumes c: "cache_inv c" "all_unlocked c" "length (pages (buf c)) = 1" and ab: "a \<noteq> b"
    and ps: "dinv ps" "wf_page_address a" "wf_page_address b"
    and v: "dview ps a = Ok (ixa, bodya)" "length bodya = PAGE_BODY_SIZE"
      "dview ps b = Ok (ixb, bodyb)" "length bodyb = PAGE_BODY_SIZE"
  shows "\<exists>g h c1 c2 ps1 ps2. read_guard api b (c, ps) = (Ok g, (c1, ps1))
    \<and> read_guard api a (drop_read_guard g c1, ps1) = (Ok h, (c2, ps2)) \<and> page_body (page_at h c2) = bodya
    \<and> dview ps2 = dview ps"
proof -
  obtain g c1 ps1 where r1: "read_guard api b (c, ps) = (Ok g, (c1, ps1))" "dinv ps1" "dview ps1 = dview ps"
      "cache_inv c1" "map_of (indices c1) b = Some g" "all_unlocked (drop_read_guard g c1)"
      "length (pages (buf c1)) = length (pages (buf c))"
    using read_guard_ok [OF c(1,2) ps(1,3) v(3,4)] by blast
  let ?d = "drop_read_guard g c1"
  have fd: "indices ?d = indices c1" "buf ?d = buf c1" "creplacer ?d = creplacer c1" "scrap_slots ?d = scrap_slots c1"
      "length (locks ?d) = length (locks c1)"
    by (simp_all add: drop_read_guard_def split: rw_lock.split)
  have d: "cache_inv ?d" using r1(4) cache_inv_cong [of ?d c1] fd by simp
  have "length (indices c1) \<le> 1" using cache_count(2) [OF r1(4)] r1(4,7) c(3) by (simp add: cache_inv_def)
  then have "indices c1 = [(b, g)]" using map_of_SomeD [OF r1(5)] by (cases "indices c1") auto
  then have "map_of (indices ?d) a = None" using ab fd(1) by simp
  moreover have "dview ps1 a = Ok (ixa, bodya)" using v(1) r1(3) by simp
  ultimately obtain h c2 ps2 where "read_guard api a (?d, ps1) = (Ok h, (c2, ps2))" "dview ps2 = dview ps1"
      "page_body (page_at h c2) = bodya"
    using read_guard_ok [OF d r1(6,2) ps(2) _ v(2), of ixa] by auto
  then show ?thesis using r1(1,3) by auto
qed

end

text \<open>
  A reader gets what the cache holds for the page or, when it does not hold it, what the
  storage holds; the storage is unchanged, and once the guard is dropped nobody holds a lock.
\<close>

theorem page_read_from_cache_or_storage:
  assumes "cache_inv c" and "all_unlocked c" and "sound_storage ps" and "wf_page_address a"
    and "storage_view crc ps a = Ok (ix, body)" and "length body = PAGE_BODY_SIZE" and "off + n \<le> PAGE_BODY_SIZE"
  shows "\<exists>g c1 ps'. read_guard (physical_impl crc) a (c, ps) = (Ok g, (c1, ps'))
    \<and> page_read (SharedGuard g) off n c1
        = (Ok (slice off n (case map_of (indices c) a of Some i \<Rightarrow> page_body (page_at i c) | None \<Rightarrow> body)), c1)
    \<and> sound_storage ps' \<and> storage_view crc ps' = storage_view crc ps
    \<and> cache_inv c1 \<and> has_page a c1 \<and> all_unlocked (drop_page (SharedGuard g) c1)"
proof -
  obtain g c1 ps' where r: "read_guard (physical_impl crc) a (c, ps) = (Ok g, (c1, ps'))" "sound_storage ps'"
      "storage_view crc ps' = storage_view crc ps" "cache_inv c1" "map_of (indices c1) a = Some g"
      "all_unlocked (drop_read_guard g c1)"
      "page_body (page_at g c1) = (case map_of (indices c) a of Some i \<Rightarrow> page_body (page_at i c) | None \<Rightarrow> body)"
    using pstore.read_guard_ok [OF assms(1-6)] by blast
  have "length (page_body (page_at g c1)) = PAGE_BODY_SIZE" by (rule cache_index(3) [OF r(4,5)])
  then have "page_read (SharedGuard g) off n c1
      = (Ok (slice off n (case map_of (indices c) a of Some i \<Rightarrow> page_body (page_at i c) | None \<Rightarrow> body)), c1)"
    using r(7) assms(7) by (simp add: guard_read_def)
  then show ?thesis using r by (auto simp: has_page_def)
qed

theorem page_read_from_cache_or_storage_witness:
  "\<exists>g c1 ps'. read_guard (physical_impl (\<lambda>_. 0)) (PageAddress 3 4) (demo_cache, physical_storage_new empty_folder 1) = (Ok g, (c1, ps'))
    \<and> page_read (SharedGuard g) 10 2 c1 = (Ok [7, 8], c1)"
proof -
  have s: "sound_storage (physical_storage_new empty_folder 1)"
    using sound_storage_new [OF empty_segments_ok, of 1] by simp
  have a: "wf_page_address (PageAddress 3 4)" by (simp add: wf_page_address_def)
  have b: "slice 10 2 (page_body (page_at 0 demo_cache)) = [7, 8]"
    using slice_patch_same [of 10 "[7 :: byte, 8]" "replicate PAGE_BODY_SIZE 0"]
    by (simp add: demo_cache_def page_at_def demo_body_def page_body_size_value numeral_2_eq_2)
  have l: "10 + 2 \<le> PAGE_BODY_SIZE" by (simp add: page_body_size_value)
  have m: "map_of (indices demo_cache) (PageAddress 3 4) = Some 0" by (simp add: demo_cache_def)
  show ?thesis
    using page_read_from_cache_or_storage [OF demo_cache_facts(1,2) s a storage_view_empty _ l, of "\<lambda>_. 0", unfolded m option.case b]
    by (metis length_replicate)
qed

text \<open>
  C28: A write that is only in the cache is lost when its page is evicted: eviction does not
  write dirty pages back. In a cache with room for one page, reading another page and then the
  first one again gives what the storage held all along, not what was written, although the
  page was dirty and on the dirty list.
\<close>

theorem evicted_dirty_page_is_lost:
  assumes "cache_inv c" and "all_unlocked c" and "length (pages (buf c)) = 1" and "a \<noteq> b"
    and "sound_storage ps" and "wf_page_address a" and "wf_page_address b"
    and "storage_view crc ps a = Ok (ixa, stored)" and "length stored = PAGE_BODY_SIZE"
    and "storage_view crc ps b = Ok (ixb, other)" and "length other = PAGE_BODY_SIZE"
    and "holds_page c a i" and "is_dirty (page_at i c)" and "page_body (page_at i c) \<noteq> stored"
  shows "\<exists>g h c1 c2 ps1 ps2. read_guard (physical_impl crc) b (c, ps) = (Ok g, (c1, ps1))
    \<and> read_guard (physical_impl crc) a (drop_read_guard g c1, ps1) = (Ok h, (c2, ps2))
    \<and> page_body (page_at h c2) = stored \<and> page_body (page_at h c2) \<noteq> page_body (page_at i c)
    \<and> storage_view crc ps2 = storage_view crc ps"
  using pstore.read_other_ok [OF assms(1-11)] assms(14) by metis

theorem evicted_dirty_page_is_lost_witness:
  "\<exists>g h c1 c2 ps1 ps2. read_guard (physical_impl (\<lambda>_. 0)) (PageAddress 3 5) (demo_cache, physical_storage_new empty_folder 1) = (Ok g, (c1, ps1))
    \<and> read_guard (physical_impl (\<lambda>_. 0)) (PageAddress 3 4) (drop_read_guard g c1, ps1) = (Ok h, (c2, ps2))
    \<and> page_body (page_at h c2) = replicate PAGE_BODY_SIZE 0"
proof -
  have s: "sound_storage (physical_storage_new empty_folder 1)"
    using sound_storage_new [OF empty_segments_ok, of 1] by simp
  have a: "wf_page_address (PageAddress 3 4)" "wf_page_address (PageAddress 3 5)" "PageAddress 3 4 \<noteq> PageAddress 3 5"
    by (simp_all add: wf_page_address_def)
  have p: "length (pages (buf demo_cache)) = 1" by (simp add: demo_cache_def)
  have "demo_body ! 10 = 7"
    by (simp add: demo_body_def nth_patch page_body_size_value)
  then have d: "page_body (page_at 0 demo_cache) \<noteq> replicate PAGE_BODY_SIZE 0"
    by (auto simp: demo_cache_def page_at_def page_body_size_value dest: arg_cong [where f = "\<lambda>l. l ! 10"])
  have l: "length (replicate PAGE_BODY_SIZE (0::byte)) = PAGE_BODY_SIZE" by simp
  show ?thesis
    using evicted_dirty_page_is_lost [OF demo_cache_facts(1,2) p a(3) s a(1,2) storage_view_empty l storage_view_empty l demo_cache_facts(6,7) d]
    by blast
qed

end
