(* ===== verification/Transactions.thy ===== *)
theory Transactions
  imports StoreProofs
begin

text \<open>
  What transactions guarantee on top of \<open>StoreProofs.thy\<close>: writes are logged before they reach a
  page, and a transaction that is committed and flushed is in the physical storage.
\<close>

section \<open>The interface of the log\<close>

locale page_log =
  fixes wapi :: "('w, 'ps) wal_api"
    and wlog :: "'w \<Rightarrow> log"
    and winv :: "'w \<Rightarrow> bool"
    and wsize :: "'w \<Rightarrow> nat"
  assumes wal_write_ok: "winv w \<Longrightarrow> log_op_ok (OpWrite l) \<Longrightarrow> wsize w + log_op_len (OpWrite l) < 2 ^ 63 \<Longrightarrow>
      \<exists>i w'. wa_log_write wapi l w = (Ok i, w') \<and> winv w' \<and> wf_wal_index i
        \<and> wlog w' = wlog w @ [(i, log_op_item (OpWrite l) (wlog w))] \<and> wsize w' = wsize w + log_op_len (OpWrite l)"
    and wal_commit_ok: "winv w \<Longrightarrow> wsize w + log_op_len (OpCommit t) < 2 ^ 63 \<Longrightarrow>
      \<exists>i w'. wa_log_commit wapi t w = (Ok i, w') \<and> winv w'
        \<and> wlog w' = wlog w @ [(i, log_op_item (OpCommit t) (wlog w))] \<and> wsize w' = wsize w + log_op_len (OpCommit t)"

definition ready_wal :: "(byte list \<Rightarrow> u32) \<Rightarrow> (database_folder, wal_file) wal \<Rightarrow> bool" where
  "ready_wal crc w \<longleftrightarrow> sound_wal crc w \<and> tables_ok (wal_entries crc) w"

lemma sound_wal_shape:
  "sound_wal crc w \<Longrightarrow> wal_ok (\<lambda>f. \<exists>its. wal_inv crc its f) w' \<Longrightarrow> same_shape w w' \<Longrightarrow> sound_wal crc w'"
  unfolding sound_wal_def folder_matches_def same_shape_def by (metis list.set_map)

lemma log_write_ready:
  assumes "ready_wal crc w" and "log_op_ok (OpWrite l)" and "log_size (wal_file_impl crc) w + log_op_len (OpWrite l) < 2 ^ 63"
  shows "\<exists>i w'. wa_log_write (wal_impl (wal_file_impl crc)) l w = (Ok i, w') \<and> ready_wal crc w' \<and> same_shape w w' \<and> wf_wal_index i
    \<and> full_log (wal_entries crc) w' = full_log (wal_entries crc) w @ [(i, log_op_item (OpWrite l) (full_log (wal_entries crc) w))]
    \<and> log_size (wal_file_impl crc) w' = log_size (wal_file_impl crc) w + log_op_len (OpWrite l)"
proof -
  have w: "sound_wal crc w" "tables_ok (wal_entries crc) w" using assms(1) by (simp_all add: ready_wal_def)
  obtain w' where w': "log_write (wal_file_impl crc) l w = (Ok (next_index (wal_file_impl crc) w), w')"
      "wal_ok (\<lambda>f. \<exists>its. wal_inv crc its f) w'" "tables_ok (wal_entries crc) w'" "same_shape w w'"
      "full_log (wal_entries crc) w' = full_log (wal_entries crc) w
        @ [(next_index (wal_file_impl crc) w, log_op_item (OpWrite l) (full_log (wal_entries crc) w))]"
      "log_size (wal_file_impl crc) w' = log_size (wal_file_impl crc) w + log_op_len (OpWrite l)"
    using wlog.log_write_ok [OF sound_walD [OF w(1)] w(2) assms(2,3)] by blast
  have "wf_wal_index (next_index (wal_file_impl crc) w)"
    by (rule wlog.full_log_wf [where it = "log_op_item (OpWrite l) (full_log (wal_entries crc) w)", OF w'(2)]) (simp add: w'(5))
  then show ?thesis
    using w' sound_wal_shape [OF w(1) w'(2,4)] by (simp add: wal_impl_def ready_wal_def)
qed

lemma log_commit_ready:
  assumes "ready_wal crc w" and "log_size (wal_file_impl crc) w + log_op_len (OpCommit t) < 2 ^ 63"
  shows "\<exists>i w'. wa_log_commit (wal_impl (wal_file_impl crc)) t w = (Ok i, w') \<and> ready_wal crc w' \<and> same_shape w w'
    \<and> full_log (wal_entries crc) w' = full_log (wal_entries crc) w @ [(i, log_op_item (OpCommit t) (full_log (wal_entries crc) w))]
    \<and> log_size (wal_file_impl crc) w' = log_size (wal_file_impl crc) w + log_op_len (OpCommit t)"
proof -
  have w: "sound_wal crc w" "tables_ok (wal_entries crc) w" using assms(1) by (simp_all add: ready_wal_def)
  obtain w' where w': "log_commit (wal_file_impl crc) t w = (Ok (next_index (wal_file_impl crc) w), w')"
      "wal_ok (\<lambda>f. \<exists>its. wal_inv crc its f) w'" "tables_ok (wal_entries crc) w'" "same_shape w w'"
      "full_log (wal_entries crc) w' = full_log (wal_entries crc) w
        @ [(next_index (wal_file_impl crc) w, log_op_item (OpCommit t) (full_log (wal_entries crc) w))]"
      "log_size (wal_file_impl crc) w' = log_size (wal_file_impl crc) w + log_op_len (OpCommit t)"
    using wlog.log_commit_ok [OF sound_walD [OF w(1)] w(2) assms(2)] by blast
  then show ?thesis using sound_wal_shape [OF w(1) w'(2,4)] by (simp add: wal_impl_def ready_wal_def)
qed

interpretation pwal: page_log "wal_impl (wal_file_impl crc)" "full_log (wal_entries crc)" "ready_wal crc"
    "log_size (wal_file_impl crc)"
proof (unfold_locales, goal_cases)
  case (1 w l)
  then show ?case using log_write_ready [of crc w l] by blast
next
  case (2 w t)
  then show ?case using log_commit_ready [of crc w t] by blast
qed

text \<open>The same for a log that stays in its first generation and leaves its folder alone.\<close>

definition ready_at :: "(byte list \<Rightarrow> u32) \<Rightarrow> database_folder \<Rightarrow> (database_folder, wal_file) wal \<Rightarrow> bool" where
  "ready_at crc d w \<longleftrightarrow> ready_wal crc w \<and> folder w = d \<and> map gen_num (generations (gens w)) = [0]"

lemma ready_at_step: "ready_at crc d w \<Longrightarrow> ready_wal crc w' \<Longrightarrow> same_shape w w' \<Longrightarrow> ready_at crc d w'"
  by (simp add: ready_at_def same_shape_def)

interpretation pwal_at: page_log "wal_impl (wal_file_impl crc)" "full_log (wal_entries crc)" "ready_at crc d"
    "log_size (wal_file_impl crc)"
proof (unfold_locales, goal_cases)
  case (1 w l)
  have "ready_wal crc w" using 1(1) by (simp add: ready_at_def)
  from log_write_ready [OF this 1(2,3)] show ?case using ready_at_step [OF 1(1)] by blast
next
  case (2 w t)
  have "ready_wal crc w" using 2(1) by (simp add: ready_at_def)
  from log_commit_ready [OF this 2(2)] show ?case using ready_at_step [OF 2(1)] by blast
qed

section \<open>One write\<close>

text \<open>The record that \<open>page_mut_write\<close> logs, and the page it leaves.\<close>

definition write_record :: "page_mut \<Rightarrow> u16 \<Rightarrow> byte list \<Rightarrow> byte list \<Rightarrow> write_log" where
  "write_record p off bs body = \<lparr>wl_transaction_id = pm_transaction_id p, wl_page_address = pm_page_address p,
     wl_offset = off, wl_from = slice (unat off) (length bs) body, wl_to = bs\<rparr>"

definition written_page :: "wal_index \<Rightarrow> u16 \<Rightarrow> byte list \<Rightarrow> byte list \<Rightarrow> buffered_page" where
  "written_page i off bs body = \<lparr>wal_generation = generation i, wal_offset = offset i, dirty_byte = 1,
     page_body = patch (unat off) bs body\<rparr>"

lemma try_u16_unat [simp]: "try_u16 (unat (w :: u16)) = Some w"
  using unat_bound [of w] by (simp add: try_u16_def)

lemma page_mut_write_run:
  assumes "pm_guard p < length (pages (buf (scache st)))"
    and "unat off + length bs \<le> length (page_body (page_at (pm_guard p) (scache st)))"
    and lg: "wa_log_write wapi (write_record p off bs (page_body (page_at (pm_guard p) (scache st)))) (swal st) = (r, w')"
  shows "page_mut_write wapi p (unat off) bs st = (case r of
       Ok i \<Rightarrow> (Ok (), st\<lparr>swal := w', scache := set_page (pm_guard p)
          (written_page i off bs (page_body (page_at (pm_guard p) (scache st)))) (scache st)\<rparr>)
     | Err e \<Rightarrow> (Err e, st\<lparr>swal := w'\<rparr>)
     | Panic \<Rightarrow> (Panic, st\<lparr>swal := w'\<rparr>)
     | Stuck \<Rightarrow> (Stuck, st\<lparr>swal := w'\<rparr>))"
proof -
  let ?g = "pm_guard p"
  let ?b = "page_body (page_at ?g (scache st))"
  have rd: "on_cache (guard_read ?g (unat off) (length bs)) st = (Ok (slice (unat off) (length bs) ?b), st)"
    using assms(2) by (simp add: on_cache_def guard_read_def)
  have wl: "on_wal (wa_log_write wapi (write_record p off bs ?b)) st = (r, st\<lparr>swal := w'\<rparr>)"
    using lg by (simp add: on_wal_def)
  have gw: "on_cache (guard_write ?g (unat off) bs i) (st\<lparr>swal := w'\<rparr>)
      = (Ok (), st\<lparr>swal := w', scache := set_page ?g (written_page i off bs ?b) (scache st)\<rparr>)" for i
    using guard_write_ok [OF assms(1,2)] by (simp add: on_cache_def written_page_def)
  show ?thesis
    using wl by (cases r) (simp_all add: page_mut_write_def bindp_Ok [where m = "on_cache (guard_read x y z)" for x y z, OF rd]
      bindp_Ok [where m = "on_wal x" for x] bindp_Err [where m = "on_wal x" for x] bindp_Panic [where m = "on_wal x" for x]
      bindp_Stuck [where m = "on_wal x" for x] gw flip: write_record_def)
qed

text \<open>
  C7: Writes are logged before they reach a page. A write through a page of a transaction puts
  one record at the end of the log, with the bytes it replaces as its undo data; then the page
  holds the new bytes, is dirty and carries the record's position, nothing else in the cache
  has changed, and writing the undo data back restores the page. If the log fails, whatever
  its error, the write fails with it and the cache is as before.
\<close>

theorem writes_are_logged_first:
  fixes st :: "((database_folder, wal_file) wal, 'ps) page_storage"
  assumes "cache_inv (scache st)" and "holds_page (scache st) (pm_page_address p) (pm_guard p)"
    and "unat off + length bs \<le> PAGE_BODY_SIZE" and "wf_page_address (pm_page_address p)" and "34 + 2 * length bs < 2 ^ 16"
    and "ready_wal crc (swal st)" and "log_size (wal_file_impl crc) (swal st) + 58 + 2 * length bs < 2 ^ 63"
    and "body = page_body (page_at (pm_guard p) (scache st))"
  shows "(\<exists>i w'. page_mut_write (wal_impl (wal_file_impl crc)) p (unat off) bs st
        = (Ok (), st\<lparr>swal := w', scache := set_page (pm_guard p) (written_page i off bs body) (scache st)\<rparr>)
      \<and> full_log (wal_entries crc) w' = full_log (wal_entries crc) (swal st)
        @ [(i, log_op_item (OpWrite (write_record p off bs body)) (full_log (wal_entries crc) (swal st)))]
      \<and> patch (unat off) (wl_from (write_record p off bs body)) (page_body (written_page i off bs body)) = body)
    \<and> (\<forall>wapi e w'. wa_log_write wapi (write_record p off bs body) (swal st) = (Err e, w') \<longrightarrow>
        page_mut_write wapi p (unat off) bs st = (Err e, st\<lparr>swal := w'\<rparr>))"
proof -
  have "map_of (indices (scache st)) (pm_page_address p) = Some (pm_guard p)"
    using assms(2) by (simp add: holds_page_def)
  note ix = cache_index [OF assms(1) this]
  have len: "unat off + length bs \<le> length (page_body (page_at (pm_guard p) (scache st)))" using assms(3) ix(3) by simp
  note run = page_mut_write_run [OF ix(2) len]
  have lb: "length body = PAGE_BODY_SIZE" using assms(8) ix(3) by simp
  have "log_op_ok (OpWrite (write_record p off bs body))" "log_op_len (OpWrite (write_record p off bs body)) = 58 + 2 * length bs"
    using assms(3-5) lb by (simp_all add: write_record_def)
  then obtain i w' where w': "wa_log_write (wal_impl (wal_file_impl crc) :: (_, 'ps) wal_api) (write_record p off bs body) (swal st) = (Ok i, w')"
      "full_log (wal_entries crc) w' = full_log (wal_entries crc) (swal st)
        @ [(i, log_op_item (OpWrite (write_record p off bs body)) (full_log (wal_entries crc) (swal st)))]"
    using pwal.wal_write_ok [of crc "swal st" "write_record p off bs body"] assms(6,7) by (auto simp del: log_op_item.simps)
  have "patch (unat off) (wl_from (write_record p off bs body)) (page_body (written_page i off bs body)) = body"
    using patch_patch_undo [of "unat off" bs body] assms(3) lb by (simp add: write_record_def written_page_def)
  moreover have "page_mut_write (wal_impl (wal_file_impl crc)) p (unat off) bs st
      = (Ok (), st\<lparr>swal := w', scache := set_page (pm_guard p) (written_page i off bs body) (scache st)\<rparr>)"
    using run [folded assms(8), OF w'(1)] by simp
  moreover have "\<forall>wapi e w'. wa_log_write wapi (write_record p off bs body) (swal st) = (Err e, w') \<longrightarrow>
        page_mut_write wapi p (unat off) bs st = (Err e, st\<lparr>swal := w'\<rparr>)"
    using run [folded assms(8)] by auto
  ultimately show ?thesis using w'(2) by blast
qed

section \<open>A whole transaction\<close>

type_synonym page_write = "page_address \<times> u16 \<times> byte list"

text \<open>\<open>t.get_page_mut(a)?.write(off, bs)?\<close>\<close>

fun trans_write :: "'ps physical_api \<Rightarrow> ('w, 'ps) wal_api \<Rightarrow> page_write \<Rightarrow> ('w, 'ps, unit) transp" where
  "trans_write api wapi (a, off, bs) =
     bindp (transaction_get_page_mut api a) (\<lambda>p. on_snd (page_mut_write wapi p (unat off) bs))"

text \<open>What writes do to the contents of pages, and the operations they put in the log.\<close>

fun apply_writes :: "page_write list \<Rightarrow> (page_address \<Rightarrow> byte list) \<Rightarrow> page_address \<Rightarrow> byte list" where
  "apply_writes [] cur = cur"
| "apply_writes ((a, off, bs) # ws) cur = apply_writes ws (cur(a := patch (unat off) bs (cur a)))"

fun write_ops :: "u64 \<Rightarrow> page_write list \<Rightarrow> (page_address \<Rightarrow> byte list) \<Rightarrow> log_op list" where
  "write_ops t [] cur = []"
| "write_ops t ((a, off, bs) # ws) cur =
     OpWrite \<lparr>wl_transaction_id = t, wl_page_address = a, wl_offset = off,
       wl_from = slice (unat off) (length bs) (cur a), wl_to = bs\<rparr>
     # write_ops t ws (cur(a := patch (unat off) bs (cur a)))"

text \<open>
  A transaction that started on an empty cache: the pages in the cache are the ones it holds,
  each locked by it, listed as dirty once, and with the contents \<open>cur\<close>.
\<close>

definition trans_held :: "(page_address \<Rightarrow> byte list) \<Rightarrow> transaction \<Rightarrow> page_cache \<Rightarrow> bool" where
  "trans_held cur t c \<longleftrightarrow> cache_inv c \<and> tlocks t = indices c \<and> dirty_list c = map fst (indices c)
     \<and> (\<forall>j < length (locks c). locks c ! j = (if j < num_filled (buf c) then Exclusive else Unlocked))
     \<and> (\<forall>a i. map_of (indices c) a = Some i \<longrightarrow> page_body (page_at i c) = cur a)"

definition logged_page :: "log \<Rightarrow> page_address \<Rightarrow> buffered_page \<Rightarrow> bool" where
  "logged_page l a p \<longleftrightarrow> is_dirty p \<and> wal_offset p \<noteq> 0
     \<and> (\<exists>d. (WalIndex (wal_generation p) (wal_offset p), Write d) \<in> set l \<and> wd_page_address d = a)"

definition trans_inv :: "(page_address \<Rightarrow> byte list) \<Rightarrow> log \<Rightarrow> transaction \<Rightarrow> page_cache \<Rightarrow> bool" where
  "trans_inv cur l t c \<longleftrightarrow> trans_held cur t c \<and> (\<forall>a i. map_of (indices c) a = Some i \<longrightarrow> logged_page l a (page_at i c))"

lemma trans_heldD:
  assumes "trans_held cur t c"
  shows "cache_inv c" "tlocks t = indices c" "dirty_list c = map fst (indices c)"
    "j < length (locks c) \<Longrightarrow> locks c ! j = (if j < num_filled (buf c) then Exclusive else Unlocked)"
    "map_of (indices c) a = Some i \<Longrightarrow> page_body (page_at i c) = cur a"
  using assms unfolding trans_held_def by blast+

text \<open>Getting a page for writing: one it has, or the next free buffer.\<close>

lemma get_page_mut_has:
  assumes "map_of (tlocks t) a = Some g"
  shows "transaction_get_page_mut api a (t, st)
    = (Ok \<lparr>pm_page_address = a, pm_transaction_id = tid t, pm_guard = g\<rparr>, (t, st))"
proof -
  have gs: "on_fst get_state (t, st) = (Ok t, (t, st))" by (simp add: on_fst_def prog_simps)
  have "acquire_lock api a (t, st) = (Ok (), (t, st))"
    using assms by (simp add: acquire_lock_def bindp_Ok [where m = "on_fst get_state", OF gs] prog_simps)
  then show ?thesis
    using assms by (simp add: transaction_get_page_mut_def bindp_Ok [where m = "acquire_lock api a"]
        bindp_Ok [where m = "on_fst get_state", OF gs] prog_simps)
qed

lemma get_page_mut_new:
  assumes "map_of (tlocks t) a = None" and wg: "write_guard api a (scache st, sphys st) = (Ok g, (c, ps))"
  shows "transaction_get_page_mut api a (t, st)
    = (Ok \<lparr>pm_page_address = a, pm_transaction_id = tid t, pm_guard = g\<rparr>,
       (t\<lparr>tlocks := tlocks t @ [(a, g)]\<rparr>, st\<lparr>scache := c, sphys := ps\<rparr>))"
proof -
  have gs: "on_fst get_state (u, s) = (Ok u, (u, s))" for u :: transaction and s :: "('w, 'ps) page_storage"
    by (simp add: on_fst_def prog_simps)
  have w: "on_snd (on_pages (write_guard api a)) (t, st) = (Ok g, (t, st\<lparr>scache := c, sphys := ps\<rparr>))"
    using wg by (simp add: on_snd_def on_pages_def)
  have up: "AList.update a g (tlocks t) = tlocks t @ [(a, g)]"
    using assms(1) by (intro update_fresh) (simp add: map_of_eq_None_iff)
  have "acquire_lock api a (t, st) = (Ok (), (t\<lparr>tlocks := tlocks t @ [(a, g)]\<rparr>, st\<lparr>scache := c, sphys := ps\<rparr>))"
    using assms(1) by (simp add: acquire_lock_def bindp_Ok [where m = "on_fst get_state", OF gs]
        bindp_Ok [where m = "on_snd x" for x, OF w]) (simp add: on_fst_def prog_simps up)
  then show ?thesis
    using assms(1) by (simp add: transaction_get_page_mut_def bindp_Ok [where m = "acquire_lock api a"]
        bindp_Ok [where m = "on_fst get_state", OF gs] prog_simps map_add_def)
qed

lemma num_filled_room:
  assumes "cache_inv c" and "map_of (indices c) a = None" and "card (insert a (keys_of (indices c))) \<le> length (pages (buf c))"
  shows "num_filled (buf c) < length (pages (buf c))"
proof -
  have "card (insert a (keys_of (indices c))) = Suc (card (keys_of (indices c)))"
    using assms(2) by (simp add: map_of_eq_None_iff card_insert_if)
  moreover have "card (keys_of (indices c)) = num_filled (buf c)"
    using cache_count(1) [OF assms(1)] assms(1) by (simp add: cache_inv_def)
  ultimately show ?thesis using assms(3) by simp
qed

context batch_storage begin

lemma get_page_mut_ok:
  assumes h: "trans_held cur t (scache st)" and ps: "dinv (sphys st)" "wf_page_address a"
    and v: "map_of (indices (scache st)) a = None \<Longrightarrow> dview (sphys st) a = Ok (ix, cur a) \<and> length (cur a) = PAGE_BODY_SIZE"
    and room: "card (insert a (keys_of (indices (scache st)))) \<le> length (pages (buf (scache st)))"
  shows "\<exists>g t' c ps'. transaction_get_page_mut api a (t, st)
      = (Ok \<lparr>pm_page_address = a, pm_transaction_id = tid t, pm_guard = g\<rparr>, (t', st\<lparr>scache := c, sphys := ps'\<rparr>))
    \<and> trans_held cur t' c \<and> map_of (indices c) a = Some g \<and> tid t' = tid t \<and> completed t' = completed t
    \<and> dinv ps' \<and> dview ps' = dview (sphys st) \<and> length (pages (buf c)) = length (pages (buf (scache st)))
    \<and> keys_of (indices c) = insert a (keys_of (indices (scache st)))
    \<and> (\<forall>b i. b \<noteq> a \<longrightarrow> map_of (indices c) b = Some i \<longrightarrow>
        map_of (indices (scache st)) b = Some i \<and> page_at i c = page_at i (scache st))"
proof (cases "map_of (indices (scache st)) a")
  case (Some g)
  then have "map_of (tlocks t) a = Some g" using trans_heldD(2) [OF h] by simp
  from get_page_mut_has [OF this] Some h ps show ?thesis
    by (intro exI [of _ g] exI [of _ t] exI [of _ "scache st"] exI [of _ "sphys st"]) (auto simp: keys_of_map_of)
next
  case None
  let ?c = "scache st" and ?k = "num_filled (buf (scache st))"
  note hd = trans_heldD [OF h]
  have r: "?k < length (pages (buf ?c))" by (rule num_filled_room [OF hd(1) None room])
  have ln: "length (locks ?c) = length (pages (buf ?c))" using hd(1) by (simp add: cache_inv_def)
  have "locks ?c ! ?k = Unlocked" using hd(4) [of ?k] r ln by simp
  from store_fits [OF hd(1) None r this]
  obtain c1 where c1: "cache_store a ?c = (Ok ?k, c1)" "cache_inv c1" "indices c1 = indices ?c @ [(a, ?k)]"
      "num_filled (buf c1) = Suc ?k" "pages (buf c1) = pages (buf ?c)" "locks c1 = (locks ?c)[?k := Exclusive]"
      "dirty_list c1 = dirty_list ?c @ [a]"
    by blast
  obtain ps' where rd: "pa_read api a (sphys st) = (Ok (ix, cur a), ps')" "dinv ps'" "dview ps' = dview (sphys st)"
    using dread_ok [OF ps] v [OF None] by auto
  let ?c2 = "set_page ?k ((page_at ?k c1)\<lparr>page_body := cur a\<rparr>) c1"
  have wg: "write_guard api a (?c, sphys st) = (Ok ?k, (?c2, ps'))"
    by (simp only: write_guard_loads [OF None] load_into_cache_run [OF c1(1) rd(1)])
  have tn: "map_of (tlocks t) a = None" using None hd(2) by simp
  have pg: "page_at j ?c2 = (if j = ?k then (page_at ?k c1)\<lparr>page_body := cur a\<rparr> else page_at j ?c)" for j
    using page_at_set_page [of ?k c1 j] r c1(5) by (simp add: page_at_def)
  have ne: "i \<noteq> ?k" if "map_of (indices ?c) b = Some i" for b i
  proof -
    have "i \<in> snd ` set (indices ?c)" using map_of_SomeD [OF that] by force
    then show ?thesis using hd(1) by (simp add: cache_inv_def)
  qed
  have mo: "map_of (indices c1) b = (if b = a then Some ?k else map_of (indices ?c) b)" for b
    using None by (auto simp: c1(3) map_add_def split: option.splits)
  have "trans_held cur (t\<lparr>tlocks := tlocks t @ [(a, ?k)]\<rparr>) ?c2"
    unfolding trans_held_def
  proof (intro conjI allI impI)
    show "cache_inv ?c2" by (rule cache_inv_set_page [OF c1(2)]) (simp add: v [OF None])
    fix j assume j: "j < length (locks ?c2)"
    then have "j < length (locks ?c)" by (simp add: c1(6))
    then show "locks ?c2 ! j = (if j < num_filled (buf ?c2) then Exclusive else Unlocked)"
      using hd(4) [of j] by (simp add: c1(4,6) nth_list_update less_Suc_eq)
  next
    fix b i assume "map_of (indices ?c2) b = Some i"
    then show "page_body (page_at i ?c2) = cur b"
      using hd(5) [of b i] ne [of b i] by (simp add: mo pg split: if_splits)
  qed (simp_all add: c1 hd(2,3))
  moreover have "\<forall>b i. b \<noteq> a \<longrightarrow> map_of (indices ?c2) b = Some i \<longrightarrow>
      map_of (indices ?c) b = Some i \<and> page_at i ?c2 = page_at i ?c"
    using ne by (simp add: mo pg)
  moreover have "map_of (indices ?c2) a = Some ?k" "keys_of (indices ?c2) = insert a (keys_of (indices ?c))"
      "length (pages (buf ?c2)) = length (pages (buf ?c))"
    using mo [of a] by (simp_all add: c1(3,5))
  moreover have "tid (t\<lparr>tlocks := tlocks t @ [(a, ?k)]\<rparr>) = tid t" "completed (t\<lparr>tlocks := tlocks t @ [(a, ?k)]\<rparr>) = completed t"
    by simp_all
  ultimately show ?thesis using get_page_mut_new [OF tn wg] rd(2,3) by blast
qed

end

definition page_write_ok :: "page_write \<Rightarrow> bool" where
  "page_write_ok w \<longleftrightarrow> wf_page_address (fst w) \<and> unat (fst (snd w)) + length (snd (snd w)) \<le> PAGE_BODY_SIZE
     \<and> 34 + 2 * length (snd (snd w)) < 2 ^ 16"

text \<open>A held page is written: its buffer is the written page, all others are as before.\<close>

lemma trans_inv_write:
  assumes h: "trans_held cur t c" and a: "map_of (indices c) a = Some g"
    and o: "\<And>b i. b \<noteq> a \<Longrightarrow> map_of (indices c) b = Some i \<Longrightarrow> logged_page l b (page_at i c)"
    and b: "unat off + length bs \<le> PAGE_BODY_SIZE" and i: "wf_wal_index i"
    and l: "l' = l @ [(i, Write d)]" "wd_page_address d = a"
  shows "trans_inv (cur(a := patch (unat off) bs (cur a))) l' t (set_page g (written_page i off bs (page_body (page_at g c))) c)"
proof -
  let ?p = "written_page i off bs (page_body (page_at g c))"
  let ?c = "set_page g ?p c"
  note hd = trans_heldD [OF h]
  note ix = cache_index [OF hd(1) a]
  have pg: "page_at j ?c = (if j = g then ?p else page_at j c)" for j
    by (rule page_at_set_page [OF ix(2)])
  have pb: "page_body ?p = patch (unat off) bs (cur a)" by (simp add: written_page_def hd(5) [OF a])
  have ci: "cache_inv ?c" by (rule cache_inv_set_page [OF hd(1)]) (simp add: written_page_def ix(3) b)
  have ne: "j \<noteq> g" if "map_of (indices c) x = Some j" "x \<noteq> a" for x j
    using that cache_index_inject [OF hd(1) a, of x] by auto
  have "trans_held (cur(a := patch (unat off) bs (cur a))) t ?c"
    unfolding trans_held_def
  proof (intro conjI allI impI ci)
    fix x j assume "map_of (indices ?c) x = Some j"
    moreover have "page_body (page_at j ?c) = (if j = g then patch (unat off) bs (cur a) else page_body (page_at j c))"
      unfolding pg by (cases "j = g") (simp_all only: pb if_True if_False simp_thms)
    ultimately show "page_body (page_at j ?c) = (cur(a := patch (unat off) bs (cur a))) x"
      unfolding set_page_fields using hd(5) [of x j] ne [of x j] a by (cases "x = a") simp_all
  qed (use hd in simp_all)
  moreover have lp: "logged_page l' a ?p"
    using i l by (cases i) (auto simp: logged_page_def written_page_def is_dirty_def wf_wal_index_def)
  have "logged_page l' x (page_at j ?c)" if "map_of (indices ?c) x = Some j" for x j
  proof (cases "x = a")
    case True
    then have "j = g" using that a by simp
    then show ?thesis using lp True unfolding pg by (simp only: if_True simp_thms)
  next
    case False
    then show ?thesis using that o [of x j] ne [of x j] l(1) by (auto simp: pg logged_page_def)
  qed
  ultimately show ?thesis unfolding trans_inv_def by blast
qed

locale transactional_store = batch_storage api dview dinv + page_log wapi wlog winv wsize
  for api :: "'ps physical_api" and dview dinv and wapi :: "('w, 'ps) wal_api" and wlog winv wsize
begin

lemma trans_write_ok:
  assumes tv: "trans_inv cur (wlog (swal st)) t (scache st)" and st: "dinv (sphys st)" "winv (swal st)"
    and w: "page_write_ok (a, off, bs)"
    and v: "map_of (indices (scache st)) a = None \<Longrightarrow> dview (sphys st) a = Ok (ix, cur a) \<and> length (cur a) = PAGE_BODY_SIZE"
    and room: "card (insert a (keys_of (indices (scache st)))) \<le> length (pages (buf (scache st)))"
    and sz: "wsize (swal st) + 58 + 2 * length bs < 2 ^ 63"
  shows "\<exists>t' st' i. trans_write api wapi (a, off, bs) (t, st) = (Ok (), (t', st'))
    \<and> trans_inv (cur(a := patch (unat off) bs (cur a))) (wlog (swal st')) t' (scache st')
    \<and> dinv (sphys st') \<and> dview (sphys st') = dview (sphys st) \<and> winv (swal st')
    \<and> wlog (swal st') = wlog (swal st) @ [(i, log_op_item (OpWrite \<lparr>wl_transaction_id = tid t, wl_page_address = a,
        wl_offset = off, wl_from = slice (unat off) (length bs) (cur a), wl_to = bs\<rparr>) (wlog (swal st)))]
    \<and> wsize (swal st') = wsize (swal st) + 58 + 2 * length bs
    \<and> keys_of (indices (scache st')) = insert a (keys_of (indices (scache st)))
    \<and> length (pages (buf (scache st'))) = length (pages (buf (scache st))) \<and> tid t' = tid t \<and> enumerator st' = enumerator st"
proof -
  have h: "trans_held cur t (scache st)" and lp: "\<And>b i. map_of (indices (scache st)) b = Some i \<Longrightarrow> logged_page (wlog (swal st)) b (page_at i (scache st))"
    using tv by (simp_all add: trans_inv_def)
  have wa: "wf_page_address a" "unat off + length bs \<le> PAGE_BODY_SIZE" "34 + 2 * length bs < 2 ^ 16"
    using w by (simp_all add: page_write_ok_def)
  obtain g t' c ps' where g: "transaction_get_page_mut api a (t, st)
      = (Ok \<lparr>pm_page_address = a, pm_transaction_id = tid t, pm_guard = g\<rparr>, (t', st\<lparr>scache := c, sphys := ps'\<rparr>))"
    "trans_held cur t' c" "map_of (indices c) a = Some g" "tid t' = tid t"
    "dinv ps'" "dview ps' = dview (sphys st)" "length (pages (buf c)) = length (pages (buf (scache st)))"
    "keys_of (indices c) = insert a (keys_of (indices (scache st)))"
    "\<forall>b i. b \<noteq> a \<longrightarrow> map_of (indices c) b = Some i \<longrightarrow>
        map_of (indices (scache st)) b = Some i \<and> page_at i c = page_at i (scache st)"
    using get_page_mut_ok [OF h st(1) wa(1) v room] by blast
  let ?p = "\<lparr>pm_page_address = a, pm_transaction_id = tid t, pm_guard = g\<rparr>" and ?st1 = "st\<lparr>scache := c, sphys := ps'\<rparr>"
  note ix = cache_index [OF trans_heldD(1) [OF g(2)] g(3)]
  have body: "page_body (page_at g c) = cur a" by (rule trans_heldD(5) [OF g(2,3)])
  let ?rec = "write_record ?p off bs (cur a)"
  have "log_op_ok (OpWrite ?rec)" "log_op_len (OpWrite ?rec) = 58 + 2 * length bs"
    using wa ix(3) body by (simp_all add: write_record_def)
  with wal_write_ok [OF st(2), of ?rec] sz
  obtain i w' where w': "wa_log_write wapi ?rec (swal st) = (Ok i, w')" "winv w'" "wf_wal_index i"
      "wlog w' = wlog (swal st) @ [(i, log_op_item (OpWrite ?rec) (wlog (swal st)))]" "wsize w' = wsize (swal st) + 58 + 2 * length bs"
    by (auto simp del: log_op_item.simps)
  let ?st2 = "?st1\<lparr>swal := w', scache := set_page g (written_page i off bs (cur a)) c\<rparr>"
  have "page_mut_write wapi ?p (unat off) bs ?st1 = (Ok (), ?st2)"
    using page_mut_write_run [of ?p ?st1 off bs wapi "Ok i" w'] ix wa(2) body w'(1) by simp
  then have run: "trans_write api wapi (a, off, bs) (t, st) = (Ok (), (t', ?st2))"
    by (simp add: bindp_Ok [where m = "transaction_get_page_mut api a", OF g(1)] on_snd_def)
  have lo: "logged_page (wlog (swal st)) b (page_at j c)" if "b \<noteq> a" "map_of (indices c) b = Some j" for b j
    using g(9) that lp by metis
  obtain d where d: "log_op_item (OpWrite ?rec) (wlog (swal st)) = Write d" "wd_page_address d = a"
    by (simp add: write_record_def)
  have "trans_inv (cur(a := patch (unat off) bs (cur a))) (wlog w') t' (set_page g (written_page i off bs (cur a)) c)"
    using trans_inv_write [OF g(2,3) lo wa(2) w'(3) w'(4) [unfolded d(1)] d(2)] body by simp
  then show ?thesis
    using run g(4-8) w'(2,4,5) by (intro exI [of _ t'] exI [of _ ?st2] exI [of _ i]) (simp add: write_record_def)
qed

lemma trans_writes_ok:
  assumes "trans_inv cur (wlog (swal st)) t (scache st)" and "dinv (sphys st)" and "winv (swal st)"
    and "list_all page_write_ok ws"
    and "\<forall>a \<in> fst ` set ws. map_of (indices (scache st)) a = None \<longrightarrow> (\<exists>ix. dview (sphys st) a = Ok (ix, cur a)) \<and> length (cur a) = PAGE_BODY_SIZE"
    and "card (fst ` set ws \<union> keys_of (indices (scache st))) \<le> length (pages (buf (scache st)))"
    and "wsize (swal st) + sum_list (map log_op_len (write_ops (tid t) ws cur)) < 2 ^ 63"
  shows "\<exists>t' st'. for_each (trans_write api wapi) ws (t, st) = (Ok (), (t', st'))
    \<and> trans_inv (apply_writes ws cur) (wlog (swal st')) t' (scache st')
    \<and> dinv (sphys st') \<and> dview (sphys st') = dview (sphys st) \<and> winv (swal st')
    \<and> log_ops_extend (write_ops (tid t) ws cur) (wlog (swal st)) (wlog (swal st'))
    \<and> wsize (swal st') = wsize (swal st) + sum_list (map log_op_len (write_ops (tid t) ws cur))
    \<and> keys_of (indices (scache st')) = fst ` set ws \<union> keys_of (indices (scache st)) \<and> tid t' = tid t
    \<and> enumerator st' = enumerator st"
  using assms
proof (induction ws arbitrary: t st cur)
  case Nil
  then show ?case by (simp add: prog_simps)
next
  case (Cons w ws)
  obtain a off bs where w: "w = (a, off, bs)" by (cases w)
  have pw: "page_write_ok (a, off, bs)" "list_all page_write_ok ws" using Cons.prems(4) w by simp_all
  have v: "\<exists>ix. map_of (indices (scache st)) a = None \<longrightarrow> dview (sphys st) a = Ok (ix, cur a) \<and> length (cur a) = PAGE_BODY_SIZE"
    using Cons.prems(5) w by (cases "map_of (indices (scache st)) a") auto
  then obtain ix where "map_of (indices (scache st)) a = None \<longrightarrow> dview (sphys st) a = Ok (ix, cur a) \<and> length (cur a) = PAGE_BODY_SIZE"
    by (elim exE)
  then have v: "map_of (indices (scache st)) a = None \<Longrightarrow> dview (sphys st) a = Ok (ix, cur a) \<and> length (cur a) = PAGE_BODY_SIZE"
    by blast
  have "card (insert a (keys_of (indices (scache st)))) \<le> card (fst ` set (w # ws) \<union> keys_of (indices (scache st)))"
    by (rule card_mono) (auto simp: w)
  then have room: "card (insert a (keys_of (indices (scache st)))) \<le> length (pages (buf (scache st)))"
    using Cons.prems(6) by simp
  have sz: "wsize (swal st) + 58 + 2 * length bs < 2 ^ 63" using Cons.prems(7) w by simp
  let ?cur = "cur(a := patch (unat off) bs (cur a))"
  obtain t1 st1 i where s1: "trans_write api wapi (a, off, bs) (t, st) = (Ok (), (t1, st1))"
    "trans_inv ?cur (wlog (swal st1)) t1 (scache st1)" "dinv (sphys st1)" "dview (sphys st1) = dview (sphys st)" "winv (swal st1)"
    "wlog (swal st1) = wlog (swal st) @ [(i, log_op_item (OpWrite \<lparr>wl_transaction_id = tid t, wl_page_address = a,
        wl_offset = off, wl_from = slice (unat off) (length bs) (cur a), wl_to = bs\<rparr>) (wlog (swal st)))]"
    "wsize (swal st1) = wsize (swal st) + 58 + 2 * length bs"
    "keys_of (indices (scache st1)) = insert a (keys_of (indices (scache st)))"
    "length (pages (buf (scache st1))) = length (pages (buf (scache st)))" "tid t1 = tid t" "enumerator st1 = enumerator st"
    using trans_write_ok [OF Cons.prems(1-3) pw(1) v room sz] by blast
  have v1: "\<forall>b \<in> fst ` set ws. map_of (indices (scache st1)) b = None \<longrightarrow>
      (\<exists>ix. dview (sphys st1) b = Ok (ix, ?cur b)) \<and> length (?cur b) = PAGE_BODY_SIZE"
  proof (intro ballI impI)
    fix b assume b: "b \<in> fst ` set ws" "map_of (indices (scache st1)) b = None"
    then have "b \<noteq> a" "map_of (indices (scache st)) b = None"
      using s1(8) by (auto simp: map_of_eq_None_iff)
    then show "(\<exists>ix. dview (sphys st1) b = Ok (ix, ?cur b)) \<and> length (?cur b) = PAGE_BODY_SIZE"
      using Cons.prems(5) b(1) s1(4) by auto
  qed
  have "fst ` set ws \<union> keys_of (indices (scache st1)) = fst ` set (w # ws) \<union> keys_of (indices (scache st))"
    using s1(8) w by auto
  then have c1: "card (fst ` set ws \<union> keys_of (indices (scache st1))) \<le> length (pages (buf (scache st1)))"
    using Cons.prems(6) s1(9) by simp
  have z1: "wsize (swal st1) + sum_list (map log_op_len (write_ops (tid t1) ws ?cur)) < 2 ^ 63"
    using Cons.prems(7) s1(7,10) w by simp
  obtain t2 st2 where s2: "for_each (trans_write api wapi) ws (t1, st1) = (Ok (), (t2, st2))"
    "trans_inv (apply_writes ws ?cur) (wlog (swal st2)) t2 (scache st2)"
    "dinv (sphys st2)" "dview (sphys st2) = dview (sphys st1)" "winv (swal st2)"
    "log_ops_extend (write_ops (tid t1) ws ?cur) (wlog (swal st1)) (wlog (swal st2))"
    "wsize (swal st2) = wsize (swal st1) + sum_list (map log_op_len (write_ops (tid t1) ws ?cur))"
    "keys_of (indices (scache st2)) = fst ` set ws \<union> keys_of (indices (scache st1))" "tid t2 = tid t1"
    "enumerator st2 = enumerator st1"
    using Cons.IH [OF s1(2,3,5) pw(2) v1 c1 z1] by blast
  have "for_each (trans_write api wapi) (w # ws) (t, st) = (Ok (), (t2, st2))"
    using s2(1) w by (simp add: bindp_Ok [where m = "trans_write api wapi (a, off, bs)", OF s1(1)] del: trans_write.simps)
  moreover have "log_ops_extend (write_ops (tid t) (w # ws) cur) (wlog (swal st)) (wlog (swal st2))"
    using s2(6) s1(6,10) w by (auto simp del: log_op_item.simps)
  moreover have "wsize (swal st2) = wsize (swal st) + sum_list (map log_op_len (write_ops (tid t) (w # ws) cur))"
    using s2(7) s1(7,10) w by simp
  moreover have "keys_of (indices (scache st2)) = fst ` set (w # ws) \<union> keys_of (indices (scache st))"
    using s2(8) s1(8) w by auto
  ultimately show ?case using s2(2-5,9,10) s1(4,10,11) w by auto
qed

end

text \<open>Releasing the guards of a transaction.\<close>

lemma release_locks_fields [simp]:
  "indices (release_locks t c) = indices c" "creplacer (release_locks t c) = creplacer c" "buf (release_locks t c) = buf c"
  "scrap_slots (release_locks t c) = scrap_slots c" "dirty_list (release_locks t c) = dirty_list c"
  "length (locks (release_locks t c)) = length (locks c)" "page_at j (release_locks t c) = page_at j c"
proof -
  have "indices (release_locks t c) = indices c \<and> creplacer (release_locks t c) = creplacer c \<and> buf (release_locks t c) = buf c
    \<and> scrap_slots (release_locks t c) = scrap_slots c \<and> dirty_list (release_locks t c) = dirty_list c
    \<and> length (locks (release_locks t c)) = length (locks c)"
    unfolding release_locks_def
    by (rule fold_invariant [where Q = "\<lambda>_. True"]) (auto simp: drop_write_guard_def set_lock_def)
  then show "indices (release_locks t c) = indices c" "creplacer (release_locks t c) = creplacer c" "buf (release_locks t c) = buf c"
    "scrap_slots (release_locks t c) = scrap_slots c" "dirty_list (release_locks t c) = dirty_list c"
    "length (locks (release_locks t c)) = length (locks c)" "page_at j (release_locks t c) = page_at j c"
    by (simp_all add: page_at_def)
qed

lemma release_locks_nth:
  "j < length (locks c) \<Longrightarrow> locks (release_locks t c) ! j = (if j \<in> snd ` set (tlocks t) then Unlocked else locks c ! j)"
proof -
  have "j < length (locks c) \<Longrightarrow> locks (fold (\<lambda>(a, g). drop_write_guard g) xs c) ! j
      = (if j \<in> snd ` set xs then Unlocked else locks c ! j)" for xs :: "(page_address \<times> nat) list"
  proof (induction xs arbitrary: c)
    case (Cons x xs)
    have "locks (drop_write_guard g c) = (locks c)[g := Unlocked]" for g by (simp add: drop_write_guard_def)
    then show ?case using Cons.IH [of "drop_write_guard (snd x) c"] Cons.prems
      by (cases x) (simp add: nth_list_update)
  qed simp
  then show "j < length (locks c) \<Longrightarrow> locks (release_locks t c) ! j = (if j \<in> snd ` set (tlocks t) then Unlocked else locks c ! j)"
    by (simp add: release_locks_def)
qed

lemma release_locks_all:
  assumes h: "trans_held cur t c"
  shows "all_unlocked (release_locks t c)" "cache_inv (release_locks t c)"
proof -
  note hd = trans_heldD [OF h]
  show "cache_inv (release_locks t c)" using hd(1) cache_inv_cong [of "release_locks t c" c] by simp
  have sn: "snd ` set (tlocks t) = {..<num_filled (buf c)}" using hd(1,2) by (simp add: cache_inv_def)
  show "all_unlocked (release_locks t c)"
    unfolding all_unlocked_def
  proof
    fix l assume "l \<in> set (locks (release_locks t c))"
    then obtain j where "j < length (locks c)" "l = locks (release_locks t c) ! j" by (auto simp: in_set_conv_nth)
    then show "l = Unlocked" using release_locks_nth [of j c t] hd(4) [of j] sn by (simp split: if_splits)
  qed
qed

lemma transaction_commit_run:
  assumes "wa_log_commit wapi (tid t) (swal st) = (Ok i, w')"
  shows "transaction_commit wapi t st = (Ok (), st\<lparr>swal := w', enumerator := enumerator_end (enumerator st),
    scache := release_locks t (scache st)\<rparr>)"
proof -
  have "release_locks (t\<lparr>completed := True\<rparr>) = release_locks t" by (simp add: release_locks_def fun_eq_iff)
  then show ?thesis
    using assms by (simp add: transaction_commit_def on_wal_def prog_simps drop_transaction_def)
qed

lemma log_ops_extend_snoc:
  "log_ops_extend xs l l' \<Longrightarrow> log_ops_extend (xs @ [x]) l (l' @ [(i, log_op_item x l')])"
  by (induction xs arbitrary: l) auto

context transactional_store begin

text \<open>Flushing after the guards of a transaction were dropped: every page that it held is written.\<close>

lemma release_flush_ok:
  assumes h: "trans_held cur t c" and dp: "\<forall>b i. map_of (indices c) b = Some i \<longrightarrow> is_dirty (page_at i c) \<and> wal_offset (page_at i c) \<noteq> 0"
    and ps: "dinv ps" and wf: "\<forall>a \<in> keys_of (indices c). wf_page_address a"
  shows "\<exists>ps'. cache_flush api (release_locks t c, ps) = (Ok (), (flushed (release_locks t c), ps'))
    \<and> all_unlocked (flushed (release_locks t c))
    \<and> (\<forall>a j. map_of (indices c) a = Some j \<longrightarrow> dview ps' a = Ok (Some (WalIndex (wal_generation (page_at j c)) (wal_offset (page_at j c))), cur a))
    \<and> (\<forall>a. a \<notin> keys_of (indices c) \<longrightarrow> dview ps' a = dview ps a)"
proof -
  let ?c = "release_locks t c"
  note hd = trans_heldD [OF h] and rl = release_locks_all [OF h]
  have dl: "dirty_list ?c = map fst (indices c)" using hd(3) by simp
  have "distinct_keys (indices c)" using hd(1) by (simp add: cache_inv_def)
  then have dist: "distinct (dirty_list ?c)" unfolding dl by (simp add: distinct_keys_def)
  have fl: "flushable ?c" using dp by (auto simp: flushable_def dirty_of_mem)
  obtain ps' where ps': "cache_flush api (?c, ps) = (Ok (), (flushed ?c, ps'))" "dview ps' = flush_view ?c (dview ps)"
    using flush_ok [OF rl(2,1) fl dist _ ps] wf unfolding dl by auto
  have "dview ps' a = Ok (Some (WalIndex (wal_generation (page_at j c)) (wal_offset (page_at j c))), cur a)"
    if j: "map_of (indices c) a = Some j" for a j
  proof -
    have "a \<in> keys_of (indices c)" by (rule iffD2 [OF keys_of_map_of], rule exI, rule j)
    then have "a \<in> set (dirty_list ?c)" using dl by simp
    then show ?thesis using j dp [rule_format, OF j] hd(5) [OF j] by (simp add: ps'(2) flush_view_def Let_def)
  qed
  moreover have "dview ps' a = dview ps a" if "a \<notin> keys_of (indices c)" for a
    using that by (auto simp: ps'(2) flush_view_def keys_of_map_of split: option.split)
  moreover have "all_unlocked (flushed ?c)" by (rule flushed_facts(2) [OF rl(2,1) dist])
  ultimately show ?thesis using ps'(1) by blast
qed

text \<open>Committing and flushing a transaction that wrote all of its pages.\<close>

lemma commit_flush_ok:
  assumes ti: "trans_inv cur (wlog (swal st)) t (scache st)" and st: "dinv (sphys st)" "winv (swal st)"
    and wf: "\<forall>a \<in> keys_of (indices (scache st)). wf_page_address a" and sz: "wsize (swal st) + 48 < 2 ^ 63"
  shows "\<exists>st3 st4 i. transaction_commit wapi t st = (Ok (), st3) \<and> storage_flush_sync api st3 = (Ok (), st4)
    \<and> (\<forall>a. a \<in> keys_of (indices (scache st)) \<longrightarrow> (\<exists>i d. dview (sphys st4) a = Ok (Some i, cur a)
        \<and> (i, Write d) \<in> set (wlog (swal st)) \<and> wd_page_address d = a))
    \<and> (\<forall>a. a \<notin> keys_of (indices (scache st)) \<longrightarrow> dview (sphys st4) a = dview (sphys st) a)
    \<and> wlog (swal st4) = wlog (swal st) @ [(i, log_op_item (OpCommit (tid t)) (wlog (swal st)))]
    \<and> all_unlocked (scache st4) \<and> enumerator st4 = enumerator_end (enumerator st)"
proof -
  have h: "trans_held cur t (scache st)" and lp: "\<And>b i. map_of (indices (scache st)) b = Some i \<Longrightarrow> logged_page (wlog (swal st)) b (page_at i (scache st))"
    using ti by (simp_all add: trans_inv_def)
  obtain i w' where w': "wa_log_commit wapi (tid t) (swal st) = (Ok i, w')"
      "wlog w' = wlog (swal st) @ [(i, log_op_item (OpCommit (tid t)) (wlog (swal st)))]"
    using wal_commit_ok [OF st(2), of "tid t"] sz by auto
  let ?c = "release_locks t (scache st)"
  let ?st3 = "st\<lparr>swal := w', enumerator := enumerator_end (enumerator st), scache := ?c\<rparr>"
  have "\<forall>b i. map_of (indices (scache st)) b = Some i \<longrightarrow> is_dirty (page_at i (scache st)) \<and> wal_offset (page_at i (scache st)) \<noteq> 0"
    using lp by (auto simp: logged_page_def)
  from release_flush_ok [OF h this st(1) wf]
  obtain ps' where ps': "cache_flush api (?c, sphys st) = (Ok (), (flushed ?c, ps'))" "all_unlocked (flushed ?c)"
      "\<forall>a j. map_of (indices (scache st)) a = Some j \<longrightarrow>
        dview ps' a = Ok (Some (WalIndex (wal_generation (page_at j (scache st))) (wal_offset (page_at j (scache st)))), cur a)"
      "\<forall>a. a \<notin> keys_of (indices (scache st)) \<longrightarrow> dview ps' a = dview (sphys st) a"
    by blast
  let ?st4 = "?st3\<lparr>scache := flushed ?c, sphys := ps'\<rparr>"
  have fs: "storage_flush_sync api ?st3 = (Ok (), ?st4)"
    using ps'(1) by (simp add: storage_flush_sync_def on_pages_def)
  have "\<exists>i d. dview ps' a = Ok (Some i, cur a) \<and> (i, Write d) \<in> set (wlog (swal st)) \<and> wd_page_address d = a"
    if k: "a \<in> keys_of (indices (scache st))" for a
  proof -
    obtain j where j: "map_of (indices (scache st)) a = Some j" using iffD1 [OF keys_of_map_of k] by blast
    then show ?thesis using ps'(3) lp [OF j] by (auto simp: logged_page_def)
  qed
  then show ?thesis
    using transaction_commit_run [OF w'(1)] fs ps'(2,4) w'(2)
    by (intro exI [of _ ?st3] exI [of _ ?st4] exI [of _ i]) simp
qed

end

interpretation tstore: transactional_store "physical_impl crc16" "storage_view crc16" sound_storage
    "wal_impl (wal_file_impl crc32)" "full_log (wal_entries crc32)" "ready_wal crc32" "log_size (wal_file_impl crc32)"
  by unfold_locales

interpretation tstore_at: transactional_store "physical_impl crc16" "storage_view crc16" sound_storage
    "wal_impl (wal_file_impl crc32)" "full_log (wal_entries crc32)" "ready_at crc32 d" "log_size (wal_file_impl crc32)"
  by unfold_locales

section \<open>Properties\<close>

lemma wal_create_folder:
  assumes "wal_create api folder_impl n d = (Ok w, d')"
  shows "\<exists>bs. wal_dir d' = [(wal_file_name 0, RegularFile bs)]"
proof -
  have cl: "from_file (fa_clear_wal_files folder_impl) d = (Ok (), d\<lparr>wal_dir := []\<rparr>)"
    by (simp add: from_file_def map_errp_def folder_impl_def clear_wal_files_def)
  obtain r f where f: "wal_file_create \<lparr>content = [], pos = 0\<rparr> = (r, f)" by force
  then have op: "from_file (fa_open_wal_file folder_impl 0) (d\<lparr>wal_dir := []\<rparr>)
      = (oc_map_err File r, d\<lparr>wal_dir := [(wal_file_name 0, RegularFile (content f))]\<rparr>)"
    by (simp add: from_file_def map_errp_def folder_impl_def open_wal_file_def)
  show ?thesis
    using assms by (cases r) (auto simp: wal_create_def bindp_def cl op prog_simps split: prod.splits outcome.splits)
qed

lemma create_at:
  assumes "folder_ok d"
  shows "\<exists>w bs. page_storage_create crc n cs k m d = Ok (page_storage_new (physical_storage_new d n) (page_cache_new cs k) w)
    \<and> ready_at crc (folder w) w \<and> wal_dir (folder w) = [(wal_file_name 0, RegularFile bs)]
    \<and> full_log (wal_entries crc) w = fresh_log \<and> log_size (wal_file_impl crc) w = log_start + 40"
proof -
  obtain w d' where w: "wal_create (wal_file_impl crc) folder_impl m d = (Ok w, d')" "folder w = d'"
      "folder_ok d'" "folder_gens d' = {0}" "wal_ok (\<lambda>f. \<exists>its. wal_inv crc its f) w"
      "tables_ok (wal_entries crc) w" "full_log (wal_entries crc) w = fresh_log"
      "log_size (wal_file_impl crc) w = log_start + 40" "map gen_num (generations (gens w)) = [0]"
    using wfolder.wal_create_ok [OF assms(1), of crc m] by (elim exE conjE) (rule that)
  then have "ready_at crc (folder w) w"
    by (simp add: ready_at_def ready_wal_def sound_wal_def folder_matches_def)
  then show ?thesis using w wal_create_folder [OF w(1)] by (auto simp: page_storage_create_def)
qed

lemma create_ok:
  assumes "folder_ok d"
  shows "\<exists>w. page_storage_create crc n cs k m d = Ok (page_storage_new (physical_storage_new d n) (page_cache_new cs k) w)
    \<and> ready_wal crc w \<and> full_log (wal_entries crc) w = fresh_log \<and> log_size (wal_file_impl crc) w = log_start + 40"
  using create_at [OF assms, of crc n cs k m] unfolding ready_at_def by blast

text \<open>A new storage and one transaction on it, up to the end of its writes.\<close>

lemma transaction_run:
  assumes "folder_ok d" and "folder_segments_ok d" and "0 < n" and "BUFFERED_PAGE_SIZE * card (fst ` set ws) \<le> cs"
    and "BUFFERED_PAGE_SIZE \<le> cs" and "list_all page_write_ok ws"
    and "\<forall>a \<in> fst ` set ws. (\<exists>ix. storage_view crc16 (physical_storage_new d n) a = Ok (ix, base a)) \<and> length (base a) = PAGE_BODY_SIZE"
    and "2 ^ 17 + sum_list (map log_op_len (write_ops 0 ws base)) < 2 ^ 63"
  shows "\<exists>st st1 t2 st2 d' bs. page_storage_create crc32 n cs k m d = Ok st \<and> storage_transaction st = (Ok (transaction_new 0), st1)
    \<and> for_each (trans_write (physical_impl crc16) (wal_impl (wal_file_impl crc32))) ws (transaction_new 0, st1) = (Ok (), (t2, st2))
    \<and> trans_inv (apply_writes ws base) (full_log (wal_entries crc32) (swal st2)) t2 (scache st2) \<and> sound_storage (sphys st2)
    \<and> storage_view crc16 (sphys st2) = storage_view crc16 (physical_storage_new d n) \<and> ready_at crc32 d' (swal st2)
    \<and> wal_dir d' = [(wal_file_name 0, RegularFile bs)]
    \<and> log_ops_extend (write_ops 0 ws base) fresh_log (full_log (wal_entries crc32) (swal st2))
    \<and> log_size (wal_file_impl crc32) (swal st2) + 48 < 2 ^ 63 \<and> keys_of (indices (scache st2)) = fst ` set ws \<and> tid t2 = 0
    \<and> num_transactions (enumerator st2) = 1
    \<and> log_size (wal_file_impl crc32) (swal st2) = log_start + 40 + sum_list (map log_op_len (write_ops 0 ws base))"
proof -
  let ?wapi = "wal_impl (wal_file_impl crc32)" and ?lg = "full_log (wal_entries crc32)"
  obtain w bs where w: "page_storage_create crc32 n cs k m d = Ok (page_storage_new (physical_storage_new d n) (page_cache_new cs k) w)"
      "ready_at crc32 (folder w) w" "?lg w = fresh_log" "log_size (wal_file_impl crc32) w = log_start + 40"
      "wal_dir (folder w) = [(wal_file_name 0, RegularFile bs)]"
    using create_at [OF assms(1)] by blast
  let ?st = "page_storage_new (physical_storage_new d n :: (database_folder, u32) physical_storage) (page_cache_new cs k) w"
  define st1 where "st1 = ?st\<lparr>enumerator := \<lparr>next_id = 1, num_transactions = 1\<rparr>\<rparr>"
  have tr: "storage_transaction ?st = (Ok (transaction_new 0), st1)"
    by (simp add: storage_transaction_def prog_simps page_storage_new_def enumerator_begin_def enumerator_new_def checked_add_def st1_def)
  have sf: "swal st1 = w" "sphys st1 = physical_storage_new d n" "scache st1 = page_cache_new cs k"
      "enumerator st1 = \<lparr>next_id = 1, num_transactions = 1\<rparr>"
    by (simp_all add: page_storage_new_def st1_def)
  have cf: "indices (page_cache_new cs k) = []" "dirty_list (page_cache_new cs k) = []" "num_filled (buf (page_cache_new cs k)) = 0"
      "length (pages (buf (page_cache_new cs k))) = cs div BUFFERED_PAGE_SIZE"
    by (simp_all add: page_cache_new_def Let_def page_buffer_new_def)
  have ti: "trans_inv base (?lg (swal st1)) (transaction_new 0) (scache st1)"
    using cache_inv_new [OF assms(5)] all_unlocked_nth [OF all_unlocked_new]
    unfolding trans_inv_def trans_held_def sf cf by (simp add: transaction_new_def)
  have "0 < BUFFERED_PAGE_SIZE" by (simp add: BUFFERED_PAGE_SIZE_def HEADER_SIZE_def)
  then have "card (fst ` set ws) \<le> cs div BUFFERED_PAGE_SIZE"
    using assms(4) by (simp add: less_eq_div_iff_mult_less_eq mult.commute)
  then have room: "card (fst ` set ws \<union> keys_of (indices (scache st1))) \<le> length (pages (buf (scache st1)))"
    unfolding sf cf by simp
  have so: "sound_storage (sphys st1)" unfolding sf by (rule sound_storage_new [OF assms(2,3)])
  have rd: "ready_at crc32 (folder w) (swal st1)" using w(2) by (simp only: sf)
  have id: "tid (transaction_new 0) = 0" by (simp add: transaction_new_def)
  have sz: "log_size (wal_file_impl crc32) (swal st1) + sum_list (map log_op_len (write_ops (tid (transaction_new 0)) ws base)) < 2 ^ 63"
    using assms(8) log_start_less unfolding sf id w(4) by simp
  have v: "\<forall>a \<in> fst ` set ws. map_of (indices (scache st1)) a = None \<longrightarrow>
      (\<exists>ix. storage_view crc16 (sphys st1) a = Ok (ix, base a)) \<and> length (base a) = PAGE_BODY_SIZE"
    using assms(7) unfolding sf by blast
  obtain t2 st2 where t2: "for_each (trans_write (physical_impl crc16) ?wapi) ws (transaction_new 0, st1) = (Ok (), (t2, st2))"
      "trans_inv (apply_writes ws base) (?lg (swal st2)) t2 (scache st2)" "sound_storage (sphys st2)"
      "storage_view crc16 (sphys st2) = storage_view crc16 (sphys st1)" "ready_at crc32 (folder w) (swal st2)"
      "log_ops_extend (write_ops (tid (transaction_new 0)) ws base) (?lg (swal st1)) (?lg (swal st2))"
      "log_size (wal_file_impl crc32) (swal st2) = log_size (wal_file_impl crc32) (swal st1)
        + sum_list (map log_op_len (write_ops (tid (transaction_new 0)) ws base))"
      "keys_of (indices (scache st2)) = fst ` set ws \<union> keys_of (indices (scache st1))" "tid t2 = tid (transaction_new 0)"
      "enumerator st2 = enumerator st1"
    using tstore_at.trans_writes_ok [OF ti so rd assms(6) v room sz] by blast
  have "keys_of (indices (scache st2)) = fst ` set ws" using t2(8) unfolding sf cf by simp
  moreover have "log_size (wal_file_impl crc32) (swal st2) + 48 < 2 ^ 63"
    using t2(7) assms(8) log_start_less unfolding sf id w(4) by simp
  moreover have "log_ops_extend (write_ops 0 ws base) fresh_log (?lg (swal st2))" using t2(6) unfolding sf id w(3) .
  moreover have "storage_view crc16 (sphys st2) = storage_view crc16 (physical_storage_new d n)" using t2(4) unfolding sf .
  moreover have "tid t2 = 0" "num_transactions (enumerator st2) = 1" using t2(9,10) unfolding sf id by simp_all
  moreover have "log_size (wal_file_impl crc32) (swal st2) = log_start + 40 + sum_list (map log_op_len (write_ops 0 ws base))"
    using t2(7) unfolding sf id w(4) .
  ultimately show ?thesis using w(1,5) tr t2(1,2,3,5) by blast
qed

text \<open>One write of four bytes, as the repository's own integration test makes it, fits an empty storage.\<close>

abbreviation demo_base :: "page_address \<Rightarrow> byte list" where
  "demo_base \<equiv> \<lambda>_. replicate PAGE_BODY_SIZE 0"

abbreviation demo_writes :: "page_write list" where
  "demo_writes \<equiv> [(PageAddress 69 420, 25, [1, 2, 3, 4])]"

lemma demo_writes_fit:
  "BUFFERED_PAGE_SIZE * card (fst ` set demo_writes) \<le> BUFFERED_PAGE_SIZE" "list_all page_write_ok demo_writes"
  "\<forall>a \<in> fst ` set demo_writes. (\<exists>ix. storage_view (\<lambda>_. 0) (physical_storage_new empty_folder 1) a = Ok (ix, demo_base a))
    \<and> length (demo_base a) = PAGE_BODY_SIZE"
  "2 ^ 17 + sum_list (map log_op_len (write_ops 0 demo_writes demo_base)) < 2 ^ 63"
  by (auto simp: page_write_ok_def wf_page_address_def page_body_size_value storage_view_empty)

text \<open>
  C1: What a transaction wrote is durable once it is committed and flushed. On a new storage,
  with room in the cache for its pages, a transaction that makes any list of writes succeeds
  in every step; afterwards the physical storage holds, for each page written, its old contents
  with the writes applied in order, under the log position of a write to it, and every other
  page as before; the log is the initial one, the writes with the bytes they replaced, and
  the commit; no lock is held and no transaction counted.
\<close>

theorem committed_and_flushed_is_durable:
  assumes "folder_ok d" and "folder_segments_ok d" and "0 < n" and "BUFFERED_PAGE_SIZE * card (fst ` set ws) \<le> cs"
    and "BUFFERED_PAGE_SIZE \<le> cs" and "list_all page_write_ok ws"
    and "\<forall>a \<in> fst ` set ws. (\<exists>ix. storage_view crc16 (physical_storage_new d n) a = Ok (ix, base a)) \<and> length (base a) = PAGE_BODY_SIZE"
    and "2 ^ 17 + sum_list (map log_op_len (write_ops 0 ws base)) < 2 ^ 63"
  shows "\<exists>st t st1 t2 st2 st3 st4. page_storage_create crc32 n cs k m d = Ok st
    \<and> storage_transaction st = (Ok t, st1)
    \<and> for_each (trans_write (physical_impl crc16) (wal_impl (wal_file_impl crc32))) ws (t, st1) = (Ok (), (t2, st2))
    \<and> transaction_commit (wal_impl (wal_file_impl crc32)) t2 st2 = (Ok (), st3)
    \<and> storage_flush_sync (physical_impl crc16) st3 = (Ok (), st4)
    \<and> (\<forall>a. a \<in> fst ` set ws \<longrightarrow> (\<exists>i e. storage_view crc16 (sphys st4) a = Ok (Some i, apply_writes ws base a)
        \<and> (i, Write e) \<in> set (full_log (wal_entries crc32) (swal st4)) \<and> wd_page_address e = a))
    \<and> (\<forall>a. a \<notin> fst ` set ws \<longrightarrow> storage_view crc16 (sphys st4) a = storage_view crc16 (physical_storage_new d n) a)
    \<and> log_ops_extend (write_ops 0 ws base @ [OpCommit 0]) fresh_log (full_log (wal_entries crc32) (swal st4))
    \<and> all_unlocked (scache st4) \<and> num_transactions (enumerator st4) = 0"
proof -
  let ?wapi = "wal_impl (wal_file_impl crc32)" and ?lg = "full_log (wal_entries crc32)"
  obtain st st1 t2 st2 d' where r: "page_storage_create crc32 n cs k m d = Ok st" "storage_transaction st = (Ok (transaction_new 0), st1)"
      "for_each (trans_write (physical_impl crc16) ?wapi) ws (transaction_new 0, st1) = (Ok (), (t2, st2))"
    and ti: "trans_inv (apply_writes ws base) (?lg (swal st2)) t2 (scache st2)" and so: "sound_storage (sphys st2)"
    and vw: "storage_view crc16 (sphys st2) = storage_view crc16 (physical_storage_new d n)" and rd: "ready_at crc32 d' (swal st2)"
    and lg: "log_ops_extend (write_ops 0 ws base) fresh_log (?lg (swal st2))"
    and sz: "log_size (wal_file_impl crc32) (swal st2) + 48 < 2 ^ 63"
    and ks: "keys_of (indices (scache st2)) = fst ` set ws" and id: "tid t2 = 0" and nt: "num_transactions (enumerator st2) = 1"
    using transaction_run [OF assms, of crc32 k m] by (elim exE conjE) (rule that; assumption)
  have wf: "\<forall>a \<in> keys_of (indices (scache st2)). wf_page_address a"
    using assms(6) unfolding ks by (auto simp: list_all_iff page_write_ok_def)
  obtain st3 st4 i where c: "transaction_commit ?wapi t2 st2 = (Ok (), st3)" "storage_flush_sync (physical_impl crc16) st3 = (Ok (), st4)"
      "\<forall>a. a \<in> keys_of (indices (scache st2)) \<longrightarrow> (\<exists>i d. storage_view crc16 (sphys st4) a = Ok (Some i, apply_writes ws base a)
        \<and> (i, Write d) \<in> set (?lg (swal st2)) \<and> wd_page_address d = a)"
      "\<forall>a. a \<notin> keys_of (indices (scache st2)) \<longrightarrow> storage_view crc16 (sphys st4) a = storage_view crc16 (sphys st2) a"
      "?lg (swal st4) = ?lg (swal st2) @ [(i, log_op_item (OpCommit (tid t2)) (?lg (swal st2)))]"
      "all_unlocked (scache st4)" "enumerator st4 = enumerator_end (enumerator st2)"
    using tstore_at.commit_flush_ok [OF ti so rd wf sz] by blast
  have "log_ops_extend (write_ops 0 ws base @ [OpCommit 0]) fresh_log (?lg (swal st4))"
    using log_ops_extend_snoc [OF lg, of "OpCommit 0" i] c(5) id by simp
  moreover have "num_transactions (enumerator st4) = 0"
    using nt by (simp add: c(7) enumerator_end_def saturating_sub_def)
  moreover have "\<forall>a. a \<in> fst ` set ws \<longrightarrow> (\<exists>i e. storage_view crc16 (sphys st4) a = Ok (Some i, apply_writes ws base a)
        \<and> (i, Write e) \<in> set (?lg (swal st4)) \<and> wd_page_address e = a)"
    using c(3) unfolding ks c(5) by fastforce
  moreover have "\<forall>a. a \<notin> fst ` set ws \<longrightarrow> storage_view crc16 (sphys st4) a = storage_view crc16 (physical_storage_new d n) a"
    using c(4) unfolding ks vw .
  ultimately show ?thesis using r c(1,2,6) by blast
qed

theorem committed_and_flushed_is_durable_witness:
  "\<exists>st t st1 t2 st2 st3 st4 i. page_storage_create (\<lambda>_. 0) 1 BUFFERED_PAGE_SIZE 1 100 empty_folder = Ok st
    \<and> storage_transaction st = (Ok t, st1)
    \<and> for_each (trans_write (physical_impl (\<lambda>_. 0)) (wal_impl (wal_file_impl (\<lambda>_. 0)))) demo_writes (t, st1) = (Ok (), (t2, st2))
    \<and> transaction_commit (wal_impl (wal_file_impl (\<lambda>_. 0))) t2 st2 = (Ok (), st3)
    \<and> storage_flush_sync (physical_impl (\<lambda>_. 0)) st3 = (Ok (), st4)
    \<and> storage_view (\<lambda>_. 0) (sphys st4) (PageAddress 69 420) = Ok (Some i, patch 25 [1, 2, 3, 4] (replicate PAGE_BODY_SIZE 0))"
proof -
  from committed_and_flushed_is_durable [OF empty_folder_ok empty_segments_ok zero_less_one demo_writes_fit(1) order_refl
      demo_writes_fit(2-4), of "\<lambda>_. 0" 1 100]
  obtain st t st1 t2 st2 st3 st4 where r: "page_storage_create (\<lambda>_. 0) 1 BUFFERED_PAGE_SIZE 1 100 empty_folder = Ok st"
      "storage_transaction st = (Ok t, st1)"
      "for_each (trans_write (physical_impl (\<lambda>_. 0)) (wal_impl (wal_file_impl (\<lambda>_. 0)))) demo_writes (t, st1) = (Ok (), (t2, st2))"
      "transaction_commit (wal_impl (wal_file_impl (\<lambda>_. 0))) t2 st2 = (Ok (), st3)"
      "storage_flush_sync (physical_impl (\<lambda>_. 0)) st3 = (Ok (), st4)"
      "\<forall>a. a \<in> fst ` set demo_writes \<longrightarrow> (\<exists>i e. storage_view (\<lambda>_. 0) (sphys st4) a = Ok (Some i, apply_writes demo_writes demo_base a)
        \<and> (i, Write e) \<in> set (full_log (wal_entries (\<lambda>_. 0)) (swal st4)) \<and> wd_page_address e = a)"
    by (elim exE conjE) (rule that; assumption)
  have "PageAddress 69 420 \<in> fst ` set demo_writes" by simp
  with r(6) obtain i where "storage_view (\<lambda>_. 0) (sphys st4) (PageAddress 69 420) = Ok (Some i, apply_writes demo_writes demo_base (PageAddress 69 420))"
    by blast
  moreover have "apply_writes demo_writes demo_base (PageAddress 69 420) = patch 25 [1, 2, 3, 4] (replicate PAGE_BODY_SIZE 0)" by simp
  ultimately have "storage_view (\<lambda>_. 0) (sphys st4) (PageAddress 69 420) = Ok (Some i, patch 25 [1, 2, 3, 4] (replicate PAGE_BODY_SIZE 0))"
    by (simp only:)
  with r(1-5) show ?thesis by blast
qed

theorem writes_are_logged_first_witness:
  "\<exists>(w :: (database_folder, wal_file) wal) w' i. page_mut_write (wal_impl (wal_file_impl (\<lambda>_. 0)))
      \<lparr>pm_page_address = PageAddress 3 4, pm_transaction_id = 5, pm_guard = 0\<rparr> 11 [9]
      (page_storage_new () demo_cache w) = (Ok (), (page_storage_new () demo_cache w)\<lparr>swal := w',
        scache := set_page 0 (written_page i 11 [9] demo_body) demo_cache\<rparr>)
    \<and> length (full_log (wal_entries (\<lambda>_. 0)) w') = 2"
proof -
  obtain w where w: "ready_wal (\<lambda>_. 0) w" "full_log (wal_entries (\<lambda>_. 0)) w = fresh_log"
      "log_size (wal_file_impl (\<lambda>_. 0)) w = log_start + 40"
    using create_ok [OF empty_folder_ok] by blast
  let ?st = "page_storage_new () demo_cache w" and ?p = "\<lparr>pm_page_address = PageAddress 3 4, pm_transaction_id = 5, pm_guard = 0\<rparr>"
  have s: "swal ?st = w" "scache ?st = demo_cache" by (simp_all add: page_storage_new_def)
  have u: "unat (11 :: u16) = 11" by simp
  have b: "unat (11 :: u16) + length [9 :: byte] \<le> PAGE_BODY_SIZE" "34 + 2 * length [9 :: byte] < 2 ^ 16"
    "log_size (wal_file_impl (\<lambda>_. 0)) w + 58 + 2 * length [9 :: byte] < 2 ^ 63"
    using log_start_less by (simp_all add: page_body_size_value w(3))
  have p: "holds_page demo_cache (pm_page_address ?p) (pm_guard ?p)" "wf_page_address (pm_page_address ?p)"
    "demo_body = page_body (page_at (pm_guard ?p) demo_cache)"
    using demo_cache_facts(6) by (simp_all add: wf_page_address_def demo_cache_def page_at_def)
  show ?thesis
    using writes_are_logged_first [of ?st ?p 11 "[9]" "\<lambda>_. 0" demo_body, unfolded s,
        OF demo_cache_facts(1) p(1) b(1) p(2) b(2) w(1) b(3) p(3)] w(2) unfolding u
    by (elim conjE exE) (intro exI conjI, (simp; fail)+)
qed

section \<open>Pages that were already cached\<close>

text \<open>
  C29: A page that was in the cache when a transaction wrote it is not written back by a flush:
  only storing a page in the cache puts it on the dirty list, getting it again for writing
  does not. With an empty list, \<open>load_mut\<close>, a write and dropping the guard leave the page
  dirty; \<open>flush\<close> then succeeds, but the storage is unchanged and the page still dirty.
\<close>

theorem redirtied_page_is_not_flushed:
  assumes "cache_inv c" and "all_unlocked c" and "dirty_list c = []" and "holds_page c a i"
    and "unat off + length bs \<le> PAGE_BODY_SIZE" and "wf_wal_index idx" and "sound_storage ps"
  shows "\<exists>c1 c2 c3 ps'. cache_load_mut a c = (Ok (Some i), c1) \<and> guard_write i (unat off) bs idx c1 = (Ok (), c2)
    \<and> page_at i c2 = written_page idx off bs (page_body (page_at i c))
    \<and> cache_flush (physical_impl crc) (drop_write_guard i c2, ps) = (Ok (), (c3, ps'))
    \<and> storage_view crc ps' = storage_view crc ps \<and> is_dirty (page_at i c3)"
proof -
  have ai: "map_of (indices c) a = Some i" using assms(4) by (simp add: holds_page_def)
  note ix = cache_index [OF assms(1) ai]
  let ?c0 = "c\<lparr>creplacer := snd (replacer_access a (creplacer c))\<rparr>"
  let ?c1 = "set_lock i Exclusive ?c0" and ?p = "written_page idx off bs (page_body (page_at i c))"
  have u: "locks c ! i = Unlocked" by (rule all_unlocked_nth [OF assms(2) ix(1)])
  have l: "load_mut_direct i ?c0 = (Ok i, ?c1)" using load_mut_direct_ok [of i ?c0] ix u by simp
  have lm: "cache_load_mut a c = (Ok (Some i), ?c1)"
    using ai by (simp add: cache_load_mut_def get_load_index_def prog_simps bindp_Ok [where m = "load_mut_direct i", OF l])
  have pc: "page_at i ?c1 = page_at i c" by (simp add: page_at_def)
  have w: "guard_write i (unat off) bs idx ?c1 = (Ok (), set_page i ?p ?c1)"
    using guard_write_ok [of i ?c1 "unat off" bs idx] ix assms(5) pc by (simp add: written_page_def)
  let ?d = "drop_write_guard i (set_page i ?p ?c1)"
  have pd: "page_at i (set_page i ?p ?c1) = ?p" "page_at i ?d = ?p"
    using page_at_set_page [of i ?c1 i ?p] ix by (simp_all add: drop_write_guard_def)
  have d: "cache_inv ?d"
    using cache_inv_set_page [of ?c1 ?p i] cache_inv_access [OF assms(1)] ix assms(5)
    by (simp add: drop_write_guard_def written_page_def)
  have un: "all_unlocked ?d"
    by (rule pstore.all_unlocked_update [OF assms(2), of _ i]) (simp add: drop_write_guard_def)
  have dl: "dirty_list ?d = []" using assms(3) by (simp add: drop_write_guard_def)
  have dd: "flushable ?d" "distinct (dirty_list ?d)" "\<forall>x \<in> set (dirty_list ?d). wf_page_address x"
    by (simp_all add: flushable_def dl dirty_of_def)
  obtain ps' where f: "cache_flush (physical_impl crc) (?d, ps) = (Ok (), (flushed ?d, ps'))"
      "storage_view crc ps' = flush_view ?d (storage_view crc ps)"
    using pstore.flush_ok [OF d un dd assms(7), of crc] by blast
  have "flush_view ?d (storage_view crc ps) = storage_view crc ps"
    by (rule ext) (simp add: flush_view_def dl split: option.split)
  then have v: "storage_view crc ps' = storage_view crc ps" using f(2) by (simp only:)
  have "map_of (indices ?d) a = Some i" using ai by (simp add: drop_write_guard_def)
  from flushed_facts(5) [OF d un dd(2) this] have y: "is_dirty (page_at i (flushed ?d))"
    by (simp add: dl pd) (simp add: is_dirty_def written_page_def)
  from lm w pd(1) f(1) v y show ?thesis by blast
qed

theorem redirtied_page_is_not_flushed_witness:
  "\<exists>c1 c2 c3 ps'. cache_load_mut (PageAddress 3 4) (demo_cache\<lparr>dirty_list := []\<rparr>) = (Ok (Some 0), c1)
    \<and> guard_write 0 11 [9] (WalIndex 0 200) c1 = (Ok (), c2)
    \<and> cache_flush (physical_impl (\<lambda>_. 0)) (drop_write_guard 0 c2, physical_storage_new empty_folder 1) = (Ok (), (c3, ps'))
    \<and> storage_view (\<lambda>_. 0) ps' (PageAddress 3 4) = Ok (None, replicate PAGE_BODY_SIZE 0)"
proof -
  let ?c = "demo_cache\<lparr>dirty_list := []\<rparr>"
  have s: "sound_storage (physical_storage_new empty_folder 1)"
    using sound_storage_new [OF empty_segments_ok, of 1] by simp
  have c: "cache_inv ?c" "all_unlocked ?c" "dirty_list ?c = []" "holds_page ?c (PageAddress 3 4) 0"
    using demo_cache_facts cache_inv_cong [of ?c demo_cache] by (simp_all add: all_unlocked_def holds_page_def)
  have b: "unat (11 :: u16) + length [9 :: byte] \<le> PAGE_BODY_SIZE" "wf_wal_index (WalIndex 0 200)"
    by (simp_all add: page_body_size_value wf_wal_index_def)
  have u: "unat (11 :: u16) = 11" by simp
  obtain c1 c2 c3 ps' where "cache_load_mut (PageAddress 3 4) ?c = (Ok (Some 0), c1)"
      "guard_write 0 11 [9] (WalIndex 0 200) c1 = (Ok (), c2)"
      "cache_flush (physical_impl (\<lambda>_. 0)) (drop_write_guard 0 c2, physical_storage_new empty_folder 1) = (Ok (), (c3, ps'))"
      "storage_view (\<lambda>_. 0) ps' = storage_view (\<lambda>_. 0) (physical_storage_new empty_folder 1)"
    using redirtied_page_is_not_flushed [OF c b s, of "\<lambda>_. 0", unfolded u] by blast
  then show ?thesis using storage_view_empty by metis
qed

end
