(* ===== verification/CrashRecovery.thy ===== *)
theory CrashRecovery
  imports Transactions
begin

text \<open>
  A storage after a crash: what the files hold is opened again and recovered. The first part
  is the callback of \<open>PageStorage::recover\<close>, the second the folder that a crash leaves behind.
\<close>

section \<open>Repeating one write\<close>

text \<open>A cache whose pages are the pages of the storage.\<close>

definition mirrors :: "('ps \<Rightarrow> page_address \<Rightarrow> (storage_error, page_read) outcome) \<Rightarrow> page_cache \<Rightarrow> 'ps \<Rightarrow> bool" where
  "mirrors dview c ps \<longleftrightarrow> (\<forall>a i. map_of (indices c) a = Some i \<longrightarrow> (\<exists>ix. dview ps a = Ok (ix, page_body (page_at i c))))"

text \<open>What recovery does to the contents of the storage.\<close>

definition redo_view :: "partial_write_op \<Rightarrow> (page_address \<Rightarrow> (storage_error, page_read) outcome)
    \<Rightarrow> page_address \<Rightarrow> (storage_error, page_read) outcome" where
  "redo_view op v = v(pw_page_address op := (case v (pw_page_address op) of
     Ok (_, b) \<Rightarrow> Ok (Some (pw_index op), patch (unat (pw_offset op)) (pw_buf op) b)
   | r \<Rightarrow> r))"

definition redo_op_ok :: "(page_address \<Rightarrow> (storage_error, page_read) outcome) \<Rightarrow> partial_write_op \<Rightarrow> bool" where
  "redo_op_ok v op \<longleftrightarrow> wf_page_address (pw_page_address op) \<and> wf_wal_index (pw_index op)
     \<and> unat (pw_offset op) + length (pw_buf op) \<le> PAGE_BODY_SIZE
     \<and> (\<exists>ix b. v (pw_page_address op) = Ok (ix, b) \<and> length b = PAGE_BODY_SIZE)"

lemma redo_op_ok_step: "redo_op_ok v op \<Longrightarrow> redo_op_ok v op' \<Longrightarrow> redo_op_ok (redo_view op v) op'"
  by (auto simp: redo_op_ok_def redo_view_def)

context batch_storage begin

lemma write_guard_ok:
  assumes c: "cache_inv c" "all_unlocked c" and ps: "dinv ps" "wf_page_address a"
    and v: "dview ps a = Ok (ix, body)" "length body = PAGE_BODY_SIZE" and mr: "mirrors dview c ps"
  shows "\<exists>g c1 ps'. write_guard api a (c, ps) = (Ok g, (c1, ps')) \<and> dinv ps' \<and> dview ps' = dview ps
    \<and> cache_inv c1 \<and> map_of (indices c1) a = Some g \<and> locks c1 = (locks c)[g := Exclusive]
    \<and> page_body (page_at g c1) = body \<and> mirrors dview c1 ps'"
proof (cases "map_of (indices c) a")
  case None
  obtain g c1 ps' where l: "load_into_cache api a (c, ps) = (Ok g, (c1, ps'))" "dinv ps'" "dview ps' = dview ps"
      "cache_inv c1" "map_of (indices c1) a = Some g" "locks c1 = (locks c)[g := Exclusive]" "page_body (page_at g c1) = body"
      "\<forall>b j. b \<noteq> a \<longrightarrow> map_of (indices c1) b = Some j \<longrightarrow> map_of (indices c) b = Some j \<and> page_at j c1 = page_at j c"
    using load_into_cache_ok [OF c None ps v] by blast
  have "mirrors dview c1 ps'"
    unfolding mirrors_def
  proof (intro allI impI)
    fix b j assume b: "map_of (indices c1) b = Some j"
    show "\<exists>ix. dview ps' b = Ok (ix, page_body (page_at j c1))"
    proof (cases "b = a")
      case True
      then show ?thesis using b l(3,5,7) v(1) by simp
    next
      case False
      then show ?thesis using b l(3,8) mr by (simp add: mirrors_def)
    qed
  qed
  then show ?thesis using l write_guard_loads [OF None, of api ps] by metis
next
  case (Some i)
  let ?c1 = "set_lock i Exclusive (c\<lparr>creplacer := snd (replacer_access a (creplacer c))\<rparr>)"
  have "on_fst (cache_load_mut a) (c, ps) = (Ok (Some i), (?c1, ps))"
    using load_mut_cached [OF c(1) Some all_unlocked_nth [OF c(2) cache_index(1) [OF c(1) Some]]] by (simp add: on_fst_def)
  then have w: "write_guard api a (c, ps) = (Ok i, (?c1, ps))"
    by (simp add: write_guard_def prog_simps bindp_Ok [where m = "on_fst (cache_load_mut a)"])
  have pg: "page_at j ?c1 = page_at j c" for j by (simp add: page_at_def)
  have "cache_inv ?c1" using cache_inv_access [OF c(1)] by simp
  moreover have "\<exists>ix. dview ps a = Ok (ix, page_body (page_at i c))" using mr Some unfolding mirrors_def by blast
  then have "page_body (page_at i ?c1) = body" using v(1) unfolding pg by simp
  moreover have "mirrors dview ?c1 ps" using mr unfolding mirrors_def pg by simp
  ultimately show ?thesis using w Some ps(1) by (intro exI [of _ i] exI [of _ ?c1] exI [of _ ps]) simp
qed

lemma recover_handler_ok:
  assumes c: "cache_inv c" "all_unlocked c" "mirrors dview c ps" and ps: "dinv ps" and op: "redo_op_ok (dview ps) op"
  shows "\<exists>c' ps'. recover_handler api op (c, ps) = (Ok (), (c', ps')) \<and> cache_inv c' \<and> all_unlocked c'
    \<and> mirrors dview c' ps' \<and> dinv ps' \<and> dview ps' = redo_view op (dview ps)"
proof -
  let ?a = "pw_page_address op" and ?off = "unat (pw_offset op)"
  obtain ix body where o: "wf_page_address ?a" "wf_wal_index (pw_index op)" "?off + length (pw_buf op) \<le> PAGE_BODY_SIZE"
      "dview ps ?a = Ok (ix, body)" "length body = PAGE_BODY_SIZE"
    using op unfolding redo_op_ok_def by blast
  obtain g c1 ps1 where g: "write_guard api ?a (c, ps) = (Ok g, (c1, ps1))" "dinv ps1" "dview ps1 = dview ps"
      "cache_inv c1" "map_of (indices c1) ?a = Some g" "locks c1 = (locks c)[g := Exclusive]"
      "page_body (page_at g c1) = body" "mirrors dview c1 ps1"
    using write_guard_ok [OF c(1,2) ps o(1,4,5) c(3)] by blast
  note gi = cache_index [OF g(4,5)]
  let ?p = "written_page (pw_index op) (pw_offset op) (pw_buf op) body"
  let ?c2 = "set_page g ?p c1"
  have gw: "on_fst (guard_write g ?off (pw_buf op) (pw_index op)) (c1, ps1) = (Ok (), (?c2, ps1))"
    using guard_write_ok [of g c1 ?off "pw_buf op" "pw_index op"] gi(2) g(7) o(3,5) by (simp add: on_fst_def written_page_def)
  have pb: "page_body ?p = patch ?off (pw_buf op) body" "length (page_body ?p) = PAGE_BODY_SIZE"
    using o(3,5) by (simp_all add: written_page_def)
  have pg: "page_at j ?c2 = (if j = g then ?p else page_at j c1)" for j by (rule page_at_set_page [OF gi(2)])
  let ?w = "\<lparr>wo_wal_index = pw_index op, wo_page_address = ?a, wo_buf = page_body ?p\<rparr>"
  obtain ps2 where w: "pa_write api ?w ps1 = (Ok (), ps2)" "dinv ps2"
      "dview ps2 = (dview ps1)(?a := Ok (Some (pw_index op), page_body ?p))"
    using dwrite_ok [OF g(2), of ?w] o(1,2) pb(2) by (auto simp: valid_write_def)
  let ?c3 = "drop_write_guard g ?c2"
  have run: "recover_handler api op (c, ps) = (Ok (), (?c3, ps2))"
    using w(1) by (simp add: recover_handler_def bindp_Ok [where m = "write_guard api x" for x, OF g(1)]
        bindp_Ok [where m = "on_fst (guard_write x y z u)" for x y z u, OF gw] pg on_snd_def)
      (simp add: on_fst_def prog_simps bindp_def pg w(1))
  have dv: "dview ps2 = redo_view op (dview ps)" using w(3) g(3) o(4) pb(1) by (simp add: redo_view_def)
  have "cache_inv ?c2" by (rule cache_inv_set_page [OF g(4) pb(2)])
  then have ci: "cache_inv ?c3" by (simp add: drop_write_guard_def)
  have "locks ?c3 = (locks c)[g := Unlocked]" using g(6) by (simp add: drop_write_guard_def)
  then have au: "all_unlocked ?c3" by (rule all_unlocked_update [OF c(2)])
  have pg3: "page_at j ?c3 = page_at j ?c2" and i3: "indices ?c3 = indices c1" for j
    by (simp_all add: drop_write_guard_def page_at_def)
  have "mirrors dview ?c3 ps2"
    unfolding mirrors_def i3 pg3
  proof (intro allI impI)
    fix b j assume b: "map_of (indices c1) b = Some j"
    show "\<exists>ix. dview ps2 b = Ok (ix, page_body (page_at j ?c2))"
    proof (cases "b = ?a")
      case True
      then show ?thesis using b g(5) pg w(3) by simp
    next
      case False
      then have "j \<noteq> g" using cache_index_inject [OF g(4) b] g(5) by blast
      then show ?thesis using b False g(8) pg w(3) by (simp add: mirrors_def)
    qed
  qed
  then show ?thesis using run dv ci au w(2) by blast
qed

lemma recover_handlers_ok:
  assumes "cache_inv c" and "all_unlocked c" and "mirrors dview c ps" and "dinv ps" and "list_all (redo_op_ok (dview ps)) ops"
  shows "\<exists>c' ps'. for_each (recover_handler api) ops (c, ps) = (Ok (), (c', ps')) \<and> cache_inv c' \<and> all_unlocked c'
    \<and> mirrors dview c' ps' \<and> dinv ps' \<and> dview ps' = fold redo_view ops (dview ps)"
  using assms
proof (induction ops arbitrary: c ps)
  case Nil
  then show ?case by (simp add: prog_simps)
next
  case (Cons op ops)
  have op: "redo_op_ok (dview ps) op" using Cons.prems(5) by simp
  obtain c1 ps1 where s: "recover_handler api op (c, ps) = (Ok (), (c1, ps1))" "cache_inv c1" "all_unlocked c1"
      "mirrors dview c1 ps1" "dinv ps1" "dview ps1 = redo_view op (dview ps)"
    using recover_handler_ok [OF Cons.prems(1-4) op] by blast
  have "list_all (redo_op_ok (dview ps1)) ops"
    using Cons.prems(5) redo_op_ok_step [OF op] s(6) by (simp add: list_all_iff)
  from Cons.IH [OF s(2-5) this] show ?case
    using s(6) by (simp add: bindp_Ok [where m = "recover_handler api op", OF s(1)])
qed

end

section \<open>What a crash leaves behind\<close>

text \<open>
  The files: the segments as the physical storage wrote them and, for each generation, the bytes
  that reached its log file. The buffers of the log files, the tables and the cache are gone.
\<close>

definition left_behind :: "((database_folder, wal_file) wal, (database_folder, u32) physical_storage) page_storage \<Rightarrow> database_folder" where
  "left_behind st = (fold (\<lambda>g. put_back (gen_num g) (gen_file g)) (generations (gens (swal st))) (folder (swal st)))
     \<lparr>segments_dir := segments_dir (pfolder (sphys st))\<rparr>"

definition log_at :: "(byte list \<Rightarrow> u32) \<Rightarrow> database_folder \<Rightarrow> (database_folder, wal_file) wal \<Rightarrow> bool" where
  "log_at crc d w \<longleftrightarrow> wal_ok (\<lambda>f. \<exists>its. wal_inv crc its f) w \<and> folder w = d \<and> map gen_num (generations (gens w)) = [0]"

lemma ready_log_at: "ready_at crc d w \<Longrightarrow> log_at crc d w"
  by (simp add: ready_at_def ready_wal_def log_at_def sound_walD)

lemma log_at_single:
  assumes "log_at crc d w"
  shows "\<exists>f its. generations (gens w) = [\<lparr>gen_num = 0, gen_file = f\<rparr>] \<and> wal_inv crc its f
    \<and> full_log (wal_entries crc) w = map (\<lambda>(off, it). (WalIndex 0 off, it)) (log_entries log_start its)"
proof -
  have r: "map gen_num (generations (gens w)) = [0]" "wal_ok (\<lambda>f. \<exists>its. wal_inv crc its f) w" using assms by (simp_all add: log_at_def)
  then obtain g where g: "generations (gens w) = [g]" "gen_num g = 0" by auto
  then obtain its where i: "wal_inv crc its (gen_file g)" using r(2) by (auto simp: wal_ok_def)
  have "g = \<lparr>gen_num = 0, gen_file = gen_file g\<rparr>" using g(2) by (cases g) simp
  then show ?thesis
    using g i wal_entries_inv [OF i] by (intro exI [of _ "gen_file g"] exI [of _ its]) (simp add: full_log_def gen_log_def)
qed

lemma open_left_behind:
  assumes r: "log_at crc d (swal st)" and d: "wal_dir d = [(wal_file_name 0, RegularFile bs)]"
  shows "\<exists>w. page_storage_open n cs k m (left_behind st)
      = Ok (page_storage_new (physical_storage_new (left_behind st) n) (page_cache_new cs k) w)
    \<and> log_at crc (left_behind st) w \<and> (\<exists>bs. wal_dir (left_behind st) = [(wal_file_name 0, RegularFile bs)])
    \<and> full_log (wal_entries crc) w = full_log (wal_entries crc) (swal st)
    \<and> log_size (wal_file_impl crc) w = log_size (wal_file_impl crc) (swal st)"
proof -
  obtain f its where f: "generations (gens (swal st)) = [\<lparr>gen_num = 0, gen_file = f\<rparr>]" "wal_inv crc its f"
      "full_log (wal_entries crc) (swal st) = map (\<lambda>(off, it). (WalIndex 0 off, it)) (log_entries log_start its)"
    using log_at_single [OF r] by blast
  have fd: "folder (swal st) = d" using r by (simp add: log_at_def)
  have wd: "wal_dir (left_behind st) = [(wal_file_name 0, RegularFile (content (wfile f)))]"
    by (simp add: left_behind_def f(1) fd put_back_def d)
  obtain w' f' where w': "wal_file_open \<lparr>content = content (wfile f), pos = 0\<rparr> = (Ok w', f')" "wal_inv crc its w'"
    using wal_file_open_run [OF f(2), of "\<lparr>content = content (wfile f), pos = 0\<rparr>"] by auto
  let ?w = "wal_new (left_behind st) (push_generation 0 w' queue_new) state_default m"
  have it: "from_file (fa_iter_wal_files folder_impl) (left_behind st) = (Ok [Ok (0, w')], left_behind st)"
    using w'(1) by (simp add: from_file_def map_errp_def folder_impl_def iter_wal_files_def wd open_existing_def
        wal_file_name_def parse_u64_show [of 0, simplified])
  have "wal_open folder_impl m (left_behind st) = (Ok ?w, left_behind st)"
    by (simp add: wal_open_def bindp_Ok [where m = "from_file x" for x, OF it] prog_simps)
  then have "page_storage_open n cs k m (left_behind st)
      = Ok (page_storage_new (physical_storage_new (left_behind st) n) (page_cache_new cs k) ?w)"
    by (simp add: page_storage_open_def)
  moreover have "wal_ok (\<lambda>f. \<exists>its. wal_inv crc its f) ?w" by (rule single_generation(1)) (rule exI, rule w'(2))
  then have "log_at crc (left_behind st) ?w" by (simp add: log_at_def wal_new_def push_generation_def queue_new_def)
  moreover have "full_log (wal_entries crc) ?w = full_log (wal_entries crc) (swal st)"
    by (simp add: single_generation(2) wal_entries_inv [OF w'(2)] f(3))
  moreover have "log_size (wal_file_impl crc) ?w = log_size (wal_file_impl crc) (swal st)"
    using wal_inv_next_offset(1) [OF w'(2)] wal_inv_next_offset(1) [OF f(2)] f(1)
    by (simp add: log_size_def current_file_def wal_file_impl_def wal_size_def wal_new_def push_generation_def queue_new_def)
  ultimately show ?thesis using wd by blast
qed

lemma segments_left_behind:
  "folder_segments_ok (left_behind st) = folder_segments_ok (pfolder (sphys st))"
  "storage_view crc (physical_storage_new (left_behind st) n) = storage_view crc (sphys st)"
  by (simp_all add: folder_segments_ok_def storage_view_def phys_view_def folder_segment_view_def physical_storage_new_def
      left_behind_def fun_eq_iff)

section \<open>The writes of a log\<close>

text \<open>What recovery repeats, for a log of one transaction.\<close>

definition op_write :: "partial_write_op \<Rightarrow> page_write" where
  "op_write op = (pw_page_address op, pw_offset op, pw_buf op)"

lemma all_writes_snoc:
  "all_writes (l @ [(i, Write d)]) = all_writes l @ [write_op i d]" "all_writes (l @ [(i, Commit e)]) = all_writes l"
  by (simp_all add: all_writes_def List.map_filter_def)

lemma extend_writes:
  "log_ops_extend (write_ops t ws base) l l' \<Longrightarrow> map op_write (all_writes l') = map op_write (all_writes l) @ ws"
proof (induction t ws base arbitrary: l rule: write_ops.induct)
  case (2 t a off bs ws cur)
  then obtain i where i: "log_ops_extend (write_ops t ws (cur(a := patch (unat off) bs (cur a)))) (l @ [(i, log_op_item (OpWrite
      \<lparr>wl_transaction_id = t, wl_page_address = a, wl_offset = off, wl_from = slice (unat off) (length bs) (cur a), wl_to = bs\<rparr>) l)]) l'"
    by (auto simp del: log_op_item.simps)
  from "2.IH" [OF this] show ?case by (simp add: all_writes_snoc op_write_def write_op_def)
qed simp

lemma extend_tids:
  "log_ops_extend (write_ops t ws base) l l' \<Longrightarrow> (i, it) \<in> set l' \<Longrightarrow> (i, it) \<in> set l \<or> item_tid it = Some t"
proof (induction t ws base arbitrary: l rule: write_ops.induct)
  case (2 t a off bs ws cur)
  then obtain j where j: "log_ops_extend (write_ops t ws (cur(a := patch (unat off) bs (cur a)))) (l @ [(j, log_op_item (OpWrite
      \<lparr>wl_transaction_id = t, wl_page_address = a, wl_offset = off, wl_from = slice (unat off) (length bs) (cur a), wl_to = bs\<rparr>) l)]) l'"
    by (auto simp del: log_op_item.simps)
  from "2.IH" [OF this "2.prems"(2)] show ?case by (auto simp: chain_data_def)
qed simp

lemma open_writes_none: "(\<And>i it. (i, it) \<in> set l \<Longrightarrow> item_tid it \<noteq> Some t) \<Longrightarrow> open_writes t l = []"
proof -
  assume "\<And>i it. (i, it) \<in> set l \<Longrightarrow> item_tid it \<noteq> Some t"
  then have "filter (\<lambda>(i, it). item_tid it = Some t) l = []" by (auto simp: filter_empty_conv)
  then show ?thesis by (simp add: open_writes_def)
qed

lemma committed_nothing_open:
  assumes "log_ops_extend (write_ops t ws base) fresh_log l"
  shows "open_writes u (l @ [(i, log_op_item (OpCommit t) l)]) = []"
proof (cases "u = t")
  case True
  then show ?thesis by (simp add: open_writes_snoc chain_data_def)
next
  case False
  have "open_writes u l = []"
    using extend_tids [OF assms] False by (intro open_writes_none) (fastforce simp: checkpoint_item_def)
  then show ?thesis using False by (simp add: open_writes_snoc chain_data_def)
qed

text \<open>Repeating writes on pages of known contents.\<close>

lemma apply_writes_other: "a \<notin> fst ` set ws \<Longrightarrow> apply_writes ws cur a = cur a"
  by (induction ws cur rule: apply_writes.induct) auto

lemma redo_views:
  assumes "map op_write ops = ws" and "\<forall>a \<in> fst ` set ws. \<exists>ix. v a = Ok (ix, base a)"
  shows "a \<in> fst ` set ws \<Longrightarrow> \<exists>op \<in> set ops. pw_page_address op = a \<and> fold redo_view ops v a = Ok (Some (pw_index op), apply_writes ws base a)"
    and "a \<notin> fst ` set ws \<Longrightarrow> fold redo_view ops v a = v a"
proof -
  have "(a \<in> fst ` set ws \<longrightarrow> (\<exists>op \<in> set ops. pw_page_address op = a \<and> fold redo_view ops v a = Ok (Some (pw_index op), apply_writes ws base a)))
    \<and> (a \<notin> fst ` set ws \<longrightarrow> fold redo_view ops v a = v a)"
    using assms
  proof (induction ops arbitrary: ws v base)
    case (Cons op ops)
    let ?a = "pw_page_address op"
    obtain ws' where ws: "ws = (?a, pw_offset op, pw_buf op) # ws'" "map op_write ops = ws'"
      using Cons.prems(1) by (auto simp: op_write_def)
    obtain ix where ix: "v ?a = Ok (ix, base ?a)" using Cons.prems(2) ws(1) by auto
    let ?base = "base(?a := patch (unat (pw_offset op)) (pw_buf op) (base ?a))"
    have rv: "redo_view op v = v(?a := Ok (Some (pw_index op), ?base ?a))" using ix by (simp add: redo_view_def)
    have "\<forall>b \<in> fst ` set ws'. \<exists>ix. redo_view op v b = Ok (ix, ?base b)"
      using Cons.prems(2) ws(1) unfolding rv by auto
    note ih = Cons.IH [OF ws(2) this]
    show ?case
    proof (cases "a \<in> fst ` set ws'")
      case True
      then obtain op' where "op' \<in> set ops" "pw_page_address op' = a"
          "fold redo_view ops (redo_view op v) a = Ok (Some (pw_index op'), apply_writes ws' ?base a)"
        using ih by blast
      then show ?thesis using True by (auto simp: ws(1) simp del: fun_upd_apply)
    next
      case False
      then have "fold redo_view ops (redo_view op v) a = redo_view op v a" using ih by blast
      moreover have "redo_view op v a = (if a = ?a then Ok (Some (pw_index op), ?base ?a) else v a)" unfolding rv by simp
      ultimately have "fold redo_view (op # ops) v a = (if a = ?a then Ok (Some (pw_index op), ?base ?a) else v a)"
        by (simp only: fold_simps)
      then show ?thesis using False apply_writes_other [OF False, of ?base] by (cases "a = ?a") (simp_all add: ws(1) del: fold_simps)
    qed
  qed simp
  then show "a \<in> fst ` set ws \<Longrightarrow> \<exists>op \<in> set ops. pw_page_address op = a \<and> fold redo_view ops v a = Ok (Some (pw_index op), apply_writes ws base a)"
    and "a \<notin> fst ` set ws \<Longrightarrow> fold redo_view ops v a = v a"
    by blast+
qed

section \<open>Repeating a part twice\<close>

text \<open>
  Two contents that differ at most in pages that the operations write, and there only in bytes
  that they write.
\<close>

definition covers :: "partial_write_op \<Rightarrow> nat \<Rightarrow> bool" where
  "covers op j \<longleftrightarrow> unat (pw_offset op) \<le> j \<and> j < unat (pw_offset op) + length (pw_buf op)"

definition agrees :: "partial_write_op list \<Rightarrow> page_address \<Rightarrow> byte list \<Rightarrow> byte list \<Rightarrow> bool" where
  "agrees ops a b c \<longleftrightarrow> length b = length c
     \<and> (\<forall>j < length b. (\<forall>op \<in> set ops. pw_page_address op = a \<longrightarrow> \<not> covers op j) \<longrightarrow> b ! j = c ! j)"

definition same_but :: "partial_write_op list \<Rightarrow> (page_address \<Rightarrow> (storage_error, page_read) outcome)
    \<Rightarrow> (page_address \<Rightarrow> (storage_error, page_read) outcome) \<Rightarrow> page_address \<Rightarrow> bool" where
  "same_but ops v w a \<longleftrightarrow> v a = w a \<or> (\<exists>op \<in> set ops. pw_page_address op = a)
     \<and> (\<exists>i k b c. v a = Ok (i, b) \<and> w a = Ok (k, c) \<and> agrees ops a b c)"

lemma agrees_refl [simp]: "agrees ops a b b"
  by (simp add: agrees_def)

lemma same_but_Ok:
  "same_but ops v w a \<Longrightarrow> v a = Ok (i, b) \<Longrightarrow> \<exists>k c. w a = Ok (k, c) \<and> agrees ops a b c"
  "same_but ops v w a \<Longrightarrow> w a = Ok (k, c) \<Longrightarrow> \<exists>i b. v a = Ok (i, b) \<and> agrees ops a b c"
  unfolding same_but_def by (metis agrees_refl outcome.inject(1) prod.inject)+

lemma agrees_other: "pw_page_address op \<noteq> a \<Longrightarrow> agrees (op # ops) a b c = agrees ops a b c"
  by (simp add: agrees_def)

lemma nth_redo:
  "unat (pw_offset op) + length (pw_buf op) \<le> length b \<Longrightarrow> j < length b \<Longrightarrow> patch (unat (pw_offset op)) (pw_buf op) b ! j
    = (if covers op j then pw_buf op ! (j - unat (pw_offset op)) else b ! j)"
  by (simp add: nth_patch covers_def)

lemma same_but_redo:
  assumes s: "same_but (op # ops) v w a" and ok: "redo_op_ok v op"
  shows "same_but ops (redo_view op v) (redo_view op w) a"
proof (cases "pw_page_address op = a")
  case False
  then show ?thesis using s agrees_other [OF False, of ops] unfolding same_but_def redo_view_def by auto
next
  case True
  obtain i b where v: "v a = Ok (i, b)" "length b = PAGE_BODY_SIZE" using ok True by (auto simp: redo_op_ok_def)
  have fit: "unat (pw_offset op) + length (pw_buf op) \<le> length b" using ok v(2) by (simp add: redo_op_ok_def)
  obtain k c where "w a = Ok (k, c)" "agrees (op # ops) a b c" using same_but_Ok(1) [OF s v(1)] by blast
  then have w: "w a = Ok (k, c)" "length b = length c"
      "\<And>j. j < length b \<Longrightarrow> \<forall>op' \<in> set (op # ops). pw_page_address op' = a \<longrightarrow> \<not> covers op' j \<Longrightarrow> b ! j = c ! j"
    unfolding agrees_def by blast+
  let ?p = "patch (unat (pw_offset op)) (pw_buf op)"
  have rv: "redo_view op v a = Ok (Some (pw_index op), ?p b)" "redo_view op w a = Ok (Some (pw_index op), ?p c)"
    using v(1) w(1) True by (simp_all add: redo_view_def)
  have l: "length (?p b) = length b" "length (?p c) = length c" using fit w(2) by simp_all
  have eq: "?p b ! j = ?p c ! j" if "j < length b" "\<forall>op' \<in> set ops. pw_page_address op' = a \<longrightarrow> \<not> covers op' j" for j
    using nth_redo [OF fit that(1)] nth_redo [of op c j] fit w(2) w(3) [OF that(1)] that by simp
  show ?thesis
  proof (cases "\<exists>op' \<in> set ops. pw_page_address op' = a")
    case ex: True
    then show ?thesis
      unfolding same_but_def agrees_def rv using eq w(2) l by simp
  next
    case False
    then have "?p b = ?p c" using eq l w(2) by (intro nth_equalityI) auto
    then show ?thesis using rv by (simp add: same_but_def)
  qed
qed

lemma redo_same:
  "\<forall>a. same_but ops v w a \<Longrightarrow> list_all (redo_op_ok v) ops \<Longrightarrow> fold redo_view ops v = fold redo_view ops w"
proof (induction ops arbitrary: v w)
  case Nil
  then show ?case by (auto simp: same_but_def fun_eq_iff)
next
  case (Cons op ops)
  have ok: "redo_op_ok v op" using Cons.prems(2) by simp
  have "\<forall>a. same_but ops (redo_view op v) (redo_view op w) a" using same_but_redo [OF _ ok] Cons.prems(1) by blast
  moreover have "list_all (redo_op_ok (redo_view op v)) ops"
    using Cons.prems(2) redo_op_ok_step [OF ok] by (simp add: list_all_iff)
  ultimately show ?case using Cons.IH by simp
qed

lemma same_but_extend:
  assumes s: "same_but ops v w a" and op: "op \<in> set ops" and ok: "redo_op_ok w op"
  shows "same_but ops v (redo_view op w) a"
proof (cases "pw_page_address op = a")
  case False
  then show ?thesis using s unfolding same_but_def redo_view_def by simp
next
  case True
  obtain k c where w: "w a = Ok (k, c)" "length c = PAGE_BODY_SIZE" using ok True by (auto simp: redo_op_ok_def)
  have fit: "unat (pw_offset op) + length (pw_buf op) \<le> length c" using ok w(2) by (simp add: redo_op_ok_def)
  obtain i b where "v a = Ok (i, b)" "agrees ops a b c" using same_but_Ok(2) [OF s w(1)] by blast
  then have v: "v a = Ok (i, b)" "length b = length c"
      "\<And>j. j < length b \<Longrightarrow> \<forall>op' \<in> set ops. pw_page_address op' = a \<longrightarrow> \<not> covers op' j \<Longrightarrow> b ! j = c ! j"
    unfolding agrees_def by blast+
  let ?c = "patch (unat (pw_offset op)) (pw_buf op) c"
  have rv: "redo_view op w a = Ok (Some (pw_index op), ?c)" using w(1) True by (simp add: redo_view_def)
  have "b ! j = ?c ! j" if "j < length b" "\<forall>op' \<in> set ops. pw_page_address op' = a \<longrightarrow> \<not> covers op' j" for j
    using nth_redo [OF fit] v(2) v(3) [OF that] that op True by auto
  moreover have "length b = length ?c" using fit v(2) by simp
  ultimately have "agrees ops a b ?c" unfolding agrees_def by blast
  then show ?thesis unfolding same_but_def rv v(1) using op True by blast
qed

text \<open>Recovery that was interrupted and starts again has the same result.\<close>

lemma redo_again:
  assumes ok: "list_all (redo_op_ok v) ops" and ps: "set ps \<subseteq> set ops"
  shows "fold redo_view ops (fold redo_view ps v) = fold redo_view ops v" "list_all (redo_op_ok (fold redo_view ps v)) ops"
proof -
  have "(\<forall>a. same_but ops v (fold redo_view ps v) a) \<and> list_all (redo_op_ok (fold redo_view ps v)) ops"
    using ps
  proof (induction ps rule: rev_induct)
    case Nil
    then show ?case using ok by (simp add: same_but_def)
  next
    case (snoc op ps)
    let ?w = "fold redo_view ps v"
    have ih: "\<forall>a. same_but ops v ?w a" "list_all (redo_op_ok ?w) ops" and op: "op \<in> set ops"
      using snoc by simp_all
    have o: "redo_op_ok ?w op" using ih(2) op by (simp add: list_all_iff)
    have "\<forall>a. same_but ops v (redo_view op ?w) a" using same_but_extend [OF _ op o] ih(1) by blast
    moreover have "list_all (redo_op_ok (redo_view op ?w)) ops"
      using ih(2) redo_op_ok_step [OF o] by (simp add: list_all_iff)
    ultimately show ?case by simp
  qed
  then show "fold redo_view ops (fold redo_view ps v) = fold redo_view ops v" "list_all (redo_op_ok (fold redo_view ps v)) ops"
    using redo_same [OF _ ok] by metis+
qed

section \<open>Opening and recovering\<close>

text \<open>A storage that holds a log of one generation, before recovery; and one in whose log everything is committed.\<close>

definition reopenable :: "(byte list \<Rightarrow> u16) \<Rightarrow> (byte list \<Rightarrow> u32)
    \<Rightarrow> ((database_folder, wal_file) wal, (database_folder, u32) physical_storage) page_storage \<Rightarrow> bool" where
  "reopenable crc16 crc32 st \<longleftrightarrow> (let l = full_log (wal_entries crc32) (swal st) in
     log_at crc32 (folder (swal st)) (swal st) \<and> (\<exists>bs. wal_dir (folder (swal st)) = [(wal_file_name 0, RegularFile bs)])
     \<and> (\<exists>k. l = fresh_log @ k) \<and> sound_storage (sphys st) \<and> list_all (redo_op_ok (storage_view crc16 (sphys st))) (all_writes l))"

definition recoverable :: "(byte list \<Rightarrow> u16) \<Rightarrow> (byte list \<Rightarrow> u32)
    \<Rightarrow> ((database_folder, wal_file) wal, (database_folder, u32) physical_storage) page_storage \<Rightarrow> bool" where
  "recoverable crc16 crc32 st \<longleftrightarrow> reopenable crc16 crc32 st \<and> (\<forall>t. open_writes t (full_log (wal_entries crc32) (swal st)) = [])"

lemma reopenableD:
  assumes "reopenable crc16 crc32 st"
  shows "log_at crc32 (folder (swal st)) (swal st)" "\<exists>bs. wal_dir (folder (swal st)) = [(wal_file_name 0, RegularFile bs)]"
    "\<exists>k. full_log (wal_entries crc32) (swal st) = fresh_log @ k" "sound_storage (sphys st)"
    "list_all (redo_op_ok (storage_view crc16 (sphys st))) (all_writes (full_log (wal_entries crc32) (swal st)))"
  using assms unfolding reopenable_def Let_def by blast+

lemma recoverableD:
  assumes "recoverable crc16 crc32 st"
  shows "log_at crc32 (folder (swal st)) (swal st)" "\<exists>bs. wal_dir (folder (swal st)) = [(wal_file_name 0, RegularFile bs)]"
    "\<exists>k. full_log (wal_entries crc32) (swal st) = fresh_log @ k" "\<forall>t. open_writes t (full_log (wal_entries crc32) (swal st)) = []"
    "sound_storage (sphys st)" "list_all (redo_op_ok (storage_view crc16 (sphys st))) (all_writes (full_log (wal_entries crc32) (swal st)))"
  using assms unfolding recoverable_def reopenable_def Let_def by blast+

definition clean_cache :: "(byte list \<Rightarrow> u16) \<Rightarrow> ('w, (database_folder, u32) physical_storage) page_storage \<Rightarrow> bool" where
  "clean_cache crc16 st \<longleftrightarrow> cache_inv (scache st) \<and> all_unlocked (scache st) \<and> mirrors (storage_view crc16) (scache st) (sphys st)"

lemma storage_recover_ok:
  fixes st :: "((database_folder, wal_file) wal, (database_folder, u32) physical_storage) page_storage"
  assumes r: "recoverable crc16 crc32 st" and c: "clean_cache crc16 st"
  shows "\<exists>st'. storage_recover (wal_impl (wal_file_impl crc32)) (physical_impl crc16) st = (Ok (), st')
    \<and> storage_view crc16 (sphys st') = fold redo_view (all_writes (full_log (wal_entries crc32) (swal st))) (storage_view crc16 (sphys st))
    \<and> full_log (wal_entries crc32) (swal st') = full_log (wal_entries crc32) (swal st) \<and> all_unlocked (scache st')
    \<and> transactions (wstate (swal st')) = []"
proof -
  let ?l = "full_log (wal_entries crc32) (swal st)"
  note d = recoverableD [OF r]
  have cc: "cache_inv (scache st)" "all_unlocked (scache st)" "mirrors (storage_view crc16) (scache st) (sphys st)"
    using c by (simp_all add: clean_cache_def)
  obtain c' ps' where run: "for_each (recover_handler (physical_impl crc16)) (all_writes ?l) (scache st, sphys st) = (Ok (), (c', ps'))"
      "all_unlocked c'" "storage_view crc16 ps' = fold redo_view (all_writes ?l) (storage_view crc16 (sphys st))"
    using pstore.recover_handlers_ok [OF cc d(5,6)] by blast
  have w: "wal_ok (\<lambda>f. \<exists>its. wal_inv crc32 its f) (swal st)" "length (generations (gens (swal st))) = 1"
    using d(1) by (auto simp: log_at_def dest: arg_cong [where f = length])
  obtain k where k: "?l = fresh_log @ k" using d(3) by blast
  obtain w' where w': "recover (wal_file_impl crc32) (recover_handler (physical_impl crc16)) (swal st, (scache st, sphys st)) = (Ok (), (w', (c', ps')))"
      "wstate w' = replay_state ?l state_default" "full_log (wal_entries crc32) w' = ?l"
    using recover_committed [OF w k d(4) run(1)] by blast
  have "map_of (transactions (wstate w')) t = None" for t
    using d(4) by (simp add: w'(2) replay_transactions transaction_of_def)
  then have "transactions (wstate w') = []" by (metis map_of_eq_empty_iff ext)
  then show ?thesis
    using w'(1,3) run(2,3) by (simp add: storage_recover_def on_wal_pages_def wal_impl_def)
qed

lemma reopen_any:
  fixes st :: "((database_folder, wal_file) wal, (database_folder, u32) physical_storage) page_storage"
  assumes r: "reopenable crc16 crc32 st" and n: "0 < n" "BUFFERED_PAGE_SIZE \<le> cs"
  shows "\<exists>st'. page_storage_open n cs k m (left_behind st) = Ok st' \<and> reopenable crc16 crc32 st' \<and> clean_cache crc16 st'
    \<and> full_log (wal_entries crc32) (swal st') = full_log (wal_entries crc32) (swal st)
    \<and> storage_view crc16 (sphys st') = storage_view crc16 (sphys st)
    \<and> log_size (wal_file_impl crc32) (swal st') = log_size (wal_file_impl crc32) (swal st)"
proof -
  note d = reopenableD [OF r]
  obtain bs where bs: "wal_dir (folder (swal st)) = [(wal_file_name 0, RegularFile bs)]" using d(2) by blast
  obtain w where w: "page_storage_open n cs k m (left_behind st)
      = Ok (page_storage_new (physical_storage_new (left_behind st) n) (page_cache_new cs k) w)"
      "log_at crc32 (left_behind st) w" "\<exists>bs. wal_dir (left_behind st) = [(wal_file_name 0, RegularFile bs)]"
      "full_log (wal_entries crc32) w = full_log (wal_entries crc32) (swal st)"
      "log_size (wal_file_impl crc32) w = log_size (wal_file_impl crc32) (swal st)"
    using open_left_behind [OF d(1) bs] by blast
  let ?ps = "physical_storage_new (left_behind st) n :: (database_folder, u32) physical_storage"
  have fo: "folder w = left_behind st" using w(2) by (simp add: log_at_def)
  have "folder_segments_ok (left_behind st)" using d(4) by (simp add: segments_left_behind sound_storage_def physical_inv_def)
  then have ps: "sound_storage ?ps" using n(1) by (rule sound_storage_new)
  have v: "storage_view crc16 ?ps = storage_view crc16 (sphys st)" by (rule segments_left_behind)
  have "mirrors (storage_view crc16) (page_cache_new cs k) ?ps"
    by (simp add: mirrors_def page_cache_new_def Let_def)
  then have "clean_cache crc16 (page_storage_new ?ps (page_cache_new cs k) w)"
    using cache_inv_new [OF n(2)] all_unlocked_new by (simp add: clean_cache_def page_storage_new_def)
  moreover have "reopenable crc16 crc32 (page_storage_new ?ps (page_cache_new cs k) w)"
    using w(2-4) d(3,5) ps v fo unfolding reopenable_def Let_def by (simp add: page_storage_new_def)
  ultimately show ?thesis using w(1,4,5) v by (simp add: page_storage_new_def)
qed

lemma reopen_ok:
  fixes st :: "((database_folder, wal_file) wal, (database_folder, u32) physical_storage) page_storage"
  assumes r: "recoverable crc16 crc32 st" and n: "0 < n" "BUFFERED_PAGE_SIZE \<le> cs"
  shows "\<exists>st'. page_storage_open n cs k m (left_behind st) = Ok st' \<and> recoverable crc16 crc32 st' \<and> clean_cache crc16 st'
    \<and> full_log (wal_entries crc32) (swal st') = full_log (wal_entries crc32) (swal st)
    \<and> storage_view crc16 (sphys st') = storage_view crc16 (sphys st)"
proof -
  have "reopenable crc16 crc32 st" using r by (simp add: recoverable_def)
  from reopen_any [OF this n, of k m] r show ?thesis unfolding recoverable_def by metis
qed

text \<open>A transaction on a new storage up to its commit.\<close>

lemma commit_recoverable:
  assumes "folder_ok d" and "folder_segments_ok d" and "0 < n" and "BUFFERED_PAGE_SIZE * card (fst ` set ws) \<le> cs"
    and "BUFFERED_PAGE_SIZE \<le> cs" and "list_all page_write_ok ws"
    and "\<forall>a \<in> fst ` set ws. (\<exists>ix. storage_view crc16 (physical_storage_new d n) a = Ok (ix, base a)) \<and> length (base a) = PAGE_BODY_SIZE"
    and "2 ^ 17 + sum_list (map log_op_len (write_ops 0 ws base)) < 2 ^ 63"
  shows "\<exists>st st1 t2 st2 st3. page_storage_create crc32 n cs k m d = Ok st \<and> storage_transaction st = (Ok (transaction_new 0), st1)
    \<and> for_each (trans_write (physical_impl crc16) (wal_impl (wal_file_impl crc32))) ws (transaction_new 0, st1) = (Ok (), (t2, st2))
    \<and> transaction_commit (wal_impl (wal_file_impl crc32)) t2 st2 = (Ok (), st3)
    \<and> recoverable crc16 crc32 st3 \<and> map op_write (all_writes (full_log (wal_entries crc32) (swal st3))) = ws
    \<and> storage_view crc16 (sphys st3) = storage_view crc16 (physical_storage_new d n)"
proof -
  let ?wapi = "wal_impl (wal_file_impl crc32)" and ?lg = "full_log (wal_entries crc32)"
  obtain st st1 t2 st2 d' bs where r: "page_storage_create crc32 n cs k m d = Ok st" "storage_transaction st = (Ok (transaction_new 0), st1)"
      "for_each (trans_write (physical_impl crc16) ?wapi) ws (transaction_new 0, st1) = (Ok (), (t2, st2))"
    and so: "sound_storage (sphys st2)"
    and vw: "storage_view crc16 (sphys st2) = storage_view crc16 (physical_storage_new d n)" and rd: "ready_at crc32 d' (swal st2)"
    and bs: "wal_dir d' = [(wal_file_name 0, RegularFile bs)]"
    and lg: "log_ops_extend (write_ops 0 ws base) fresh_log (?lg (swal st2))"
    and sz: "log_size (wal_file_impl crc32) (swal st2) + 48 < 2 ^ 63" and id: "tid t2 = 0"
    using transaction_run [OF assms, of crc32 k m] by (elim exE conjE) (rule that; assumption)
  obtain i w' where w': "wa_log_commit (?wapi :: (_, (database_folder, u32) physical_storage) wal_api) 0 (swal st2) = (Ok i, w')" "ready_at crc32 d' w'"
      "?lg w' = ?lg (swal st2) @ [(i, log_op_item (OpCommit 0) (?lg (swal st2)))]"
    using pwal_at.wal_commit_ok [OF rd, of 0] sz by auto
  let ?st3 = "st2\<lparr>swal := w', enumerator := enumerator_end (enumerator st2), scache := release_locks t2 (scache st2)\<rparr>"
  have c: "transaction_commit ?wapi t2 st2 = (Ok (), ?st3)"
    using transaction_commit_run [of ?wapi t2 st2 i w'] w'(1) id by simp
  have fl: "all_writes fresh_log = []" by (simp add: all_writes_def checkpoint_item_def List.map_filter_def)
  have aw: "map op_write (all_writes (?lg w')) = ws"
    using extend_writes [OF lg] by (simp add: w'(3) all_writes_snoc fl)
  obtain k' where k': "?lg (swal st2) = fresh_log @ k'" using log_ops_extend_append [OF lg] by blast
  have ok: "wal_ok (\<lambda>f. \<exists>its. wal_inv crc32 its f) w'" using ready_log_at [OF w'(2)] by (simp add: log_at_def)
  have "redo_op_ok (storage_view crc16 (sphys st2)) op" if op: "op \<in> set (all_writes (?lg w'))" for op
  proof -
    obtain e where e: "(pw_index op, Write e) \<in> set (?lg w')"
      using op by (auto simp: all_writes_def set_map_filter_iff write_op_def split: item.splits)
    have "op_write op \<in> set ws" using op aw by (metis image_eqI list.set_map)
    then have "page_write_ok (op_write op)" "pw_page_address op \<in> fst ` set ws"
      using assms(6) by (auto simp: list_all_iff op_write_def intro!: image_eqI [of _ fst "op_write op"])
    then show ?thesis
      using wlog.full_log_wf [OF ok e] assms(7) vw by (auto simp: redo_op_ok_def page_write_ok_def op_write_def)
  qed
  then have ro: "list_all (redo_op_ok (storage_view crc16 (sphys st2))) (all_writes (?lg w'))" by (simp add: list_all_iff)
  have fd: "folder w' = d'" using w'(2) by (simp add: ready_at_def)
  have ow: "\<forall>t. open_writes t (?lg w') = []" unfolding w'(3) using committed_nothing_open [OF lg] by blast
  have "recoverable crc16 crc32 ?st3"
    unfolding recoverable_def reopenable_def Let_def
    using ready_log_at [OF w'(2)] bs fd ow so ro k' w'(3) by simp
  moreover have "storage_view crc16 (sphys ?st3) = storage_view crc16 (physical_storage_new d n)" using vw by simp
  moreover have "map op_write (all_writes (?lg (swal ?st3))) = ws" using aw by simp
  ultimately show ?thesis using r c by blast
qed

section \<open>Crashes\<close>

text \<open>
  What a transaction wrote survives a crash once it is committed, even when no page of it was
  written to a segment file. On a new storage a transaction makes any list of writes and commits;
  then the process dies: nothing but the files is left, and in them no page has changed. Opening
  the files again and recovering succeeds, whatever the sizes of the new caches, and afterwards
  the physical storage holds, for each page written, its old contents with the writes applied in
  order, and every other page as before; the log is what it was, and no lock is held.
\<close>

theorem committed_survives_crash:
  assumes "folder_ok d" and "folder_segments_ok d" and "0 < n" and "BUFFERED_PAGE_SIZE * card (fst ` set ws) \<le> cs"
    and "BUFFERED_PAGE_SIZE \<le> cs" and "list_all page_write_ok ws"
    and "\<forall>a \<in> fst ` set ws. (\<exists>ix. storage_view crc16 (physical_storage_new d n) a = Ok (ix, base a)) \<and> length (base a) = PAGE_BODY_SIZE"
    and "2 ^ 17 + sum_list (map log_op_len (write_ops 0 ws base)) < 2 ^ 63"
    and "0 < n'" and "BUFFERED_PAGE_SIZE \<le> cs'"
  shows "\<exists>st t st1 t2 st2 st3 st4 st5. page_storage_create crc32 n cs k m d = Ok st
    \<and> storage_transaction st = (Ok t, st1)
    \<and> for_each (trans_write (physical_impl crc16) (wal_impl (wal_file_impl crc32))) ws (t, st1) = (Ok (), (t2, st2))
    \<and> transaction_commit (wal_impl (wal_file_impl crc32)) t2 st2 = (Ok (), st3)
    \<and> page_storage_open n' cs' k' m' (left_behind st3) = Ok st4
    \<and> storage_view crc16 (sphys st4) = storage_view crc16 (physical_storage_new d n)
    \<and> storage_recover (wal_impl (wal_file_impl crc32)) (physical_impl crc16) st4 = (Ok (), st5)
    \<and> (\<forall>a. a \<in> fst ` set ws \<longrightarrow> (\<exists>i. storage_view crc16 (sphys st5) a = Ok (Some i, apply_writes ws base a)))
    \<and> (\<forall>a. a \<notin> fst ` set ws \<longrightarrow> storage_view crc16 (sphys st5) a = storage_view crc16 (physical_storage_new d n) a)
    \<and> full_log (wal_entries crc32) (swal st5) = full_log (wal_entries crc32) (swal st3)
    \<and> all_unlocked (scache st5) \<and> transactions (wstate (swal st5)) = []"
proof -
  let ?wapi = "wal_impl (wal_file_impl crc32)" and ?lg = "full_log (wal_entries crc32)"
  let ?v = "storage_view crc16 (physical_storage_new d n)"
  obtain st st1 t2 st2 st3 where r: "page_storage_create crc32 n cs k m d = Ok st" "storage_transaction st = (Ok (transaction_new 0), st1)"
      "for_each (trans_write (physical_impl crc16) ?wapi) ws (transaction_new 0, st1) = (Ok (), (t2, st2))"
      "transaction_commit ?wapi t2 st2 = (Ok (), st3)"
    and rc: "recoverable crc16 crc32 st3" and aw: "map op_write (all_writes (?lg (swal st3))) = ws"
    and v3: "storage_view crc16 (sphys st3) = ?v"
    using commit_recoverable [OF assms(1-8), of crc32 k m] by (elim exE conjE) (rule that; assumption)
  obtain st4 where o: "page_storage_open n' cs' k' m' (left_behind st3) = Ok st4" "recoverable crc16 crc32 st4" "clean_cache crc16 st4"
      "?lg (swal st4) = ?lg (swal st3)" "storage_view crc16 (sphys st4) = storage_view crc16 (sphys st3)"
    using reopen_ok [OF rc assms(9,10), of k' m'] by (elim exE conjE) (rule that; assumption)
  obtain st5 where s: "storage_recover ?wapi (physical_impl crc16) st4 = (Ok (), st5)"
      "storage_view crc16 (sphys st5) = fold redo_view (all_writes (?lg (swal st4))) (storage_view crc16 (sphys st4))"
      "?lg (swal st5) = ?lg (swal st4)" "all_unlocked (scache st5)" "transactions (wstate (swal st5)) = []"
    using storage_recover_ok [OF o(2,3)] by (elim exE conjE) (rule that; assumption)
  have v5: "storage_view crc16 (sphys st5) = fold redo_view (all_writes (?lg (swal st3))) ?v" using s(2) o(4,5) v3 by simp
  have b: "\<forall>a \<in> fst ` set ws. \<exists>ix. ?v a = Ok (ix, base a)" using assms(7) by blast
  have "\<forall>a. a \<in> fst ` set ws \<longrightarrow> (\<exists>i. storage_view crc16 (sphys st5) a = Ok (Some i, apply_writes ws base a))"
    unfolding v5 using redo_views(1) [OF aw b] by blast
  moreover have "\<forall>a. a \<notin> fst ` set ws \<longrightarrow> storage_view crc16 (sphys st5) a = ?v a"
    unfolding v5 using redo_views(2) [OF aw b] by blast
  moreover have "storage_view crc16 (sphys st4) = ?v" "?lg (swal st5) = ?lg (swal st3)" using o(4,5) v3 s(3) by simp_all
  ultimately show ?thesis using r o(1) s(1,4,5) by blast
qed

text \<open>
  C5: A recovery that a crash interrupts loses nothing. Let no check-point have been taken since
  a storage was created, so that its log is one file, that of generation 0, which begins with the empty check-point
  of its creation; let every transaction in it that wrote anything be committed, and let the cache be unlocked and
  agree with the physical storage, as after the files have been opened. If recovery is cut off after any number of writes and
  the process dies, then opening the files again, with at least one open segment file and a cache of at least
  one page, and recovering gives the same contents of the physical storage as the recovery
  that was not interrupted: repeating the writes is idempotent, also over a part of them. Logs
  of more generations, after a check-point, are not covered.
\<close>

theorem recovery_can_be_interrupted:
  assumes "recoverable crc16 crc32 st" and "clean_cache crc16 st" and "0 < n" and "BUFFERED_PAGE_SIZE \<le> cs"
  shows "\<exists>st1 c ps st2 st3. storage_recover (wal_impl (wal_file_impl crc32)) (physical_impl crc16) st = (Ok (), st1)
    \<and> for_each (recover_handler (physical_impl crc16)) (take j (all_writes (full_log (wal_entries crc32) (swal st)))) (scache st, sphys st)
      = (Ok (), (c, ps))
    \<and> page_storage_open n cs k m (left_behind (st\<lparr>scache := c, sphys := ps\<rparr>)) = Ok st2
    \<and> storage_recover (wal_impl (wal_file_impl crc32)) (physical_impl crc16) st2 = (Ok (), st3)
    \<and> storage_view crc16 (sphys st3) = storage_view crc16 (sphys st1)"
proof -
  let ?lg = "full_log (wal_entries crc32)" and ?v = "storage_view crc16 (sphys st)"
  let ?ops = "all_writes (?lg (swal st))"
  note d = recoverableD [OF assms(1)]
  obtain st1 where r: "storage_recover (wal_impl (wal_file_impl crc32)) (physical_impl crc16) st = (Ok (), st1)"
      "storage_view crc16 (sphys st1) = fold redo_view ?ops ?v"
    using storage_recover_ok [OF assms(1,2)] by blast
  have cc: "cache_inv (scache st)" "all_unlocked (scache st)" "mirrors (storage_view crc16) (scache st) (sphys st)"
    using assms(2) by (simp_all add: clean_cache_def)
  have sub: "set (take j ?ops) \<subseteq> set ?ops" by (rule set_take_subset)
  then have "list_all (redo_op_ok ?v) (take j ?ops)" using d(6) by (auto simp: list_all_iff)
  then obtain c ps where h: "for_each (recover_handler (physical_impl crc16)) (take j ?ops) (scache st, sphys st) = (Ok (), (c, ps))"
      "sound_storage ps" "storage_view crc16 ps = fold redo_view (take j ?ops) ?v"
    using pstore.recover_handlers_ok [OF cc d(5)] by blast
  let ?st = "st\<lparr>scache := c, sphys := ps\<rparr>"
  have rc: "recoverable crc16 crc32 ?st"
    using d(1-4) h(2) redo_again(2) [OF d(6) sub] unfolding recoverable_def reopenable_def Let_def by (simp add: h(3))
  obtain st2 where o: "page_storage_open n cs k m (left_behind ?st) = Ok st2" "recoverable crc16 crc32 st2" "clean_cache crc16 st2"
      "?lg (swal st2) = ?lg (swal ?st)" "storage_view crc16 (sphys st2) = storage_view crc16 (sphys ?st)"
    using reopen_ok [OF rc assms(3,4), of k m] by (elim exE conjE) (rule that; assumption)
  obtain st3 where s: "storage_recover (wal_impl (wal_file_impl crc32)) (physical_impl crc16) st2 = (Ok (), st3)"
      "storage_view crc16 (sphys st3) = fold redo_view (all_writes (?lg (swal st2))) (storage_view crc16 (sphys st2))"
    using storage_recover_ok [OF o(2,3)] by blast
  have "storage_view crc16 (sphys st3) = storage_view crc16 (sphys st1)"
    using s(2) o(4,5) h(3) r(2) redo_again(1) [OF d(6) sub] by simp
  with r(1) h(1) o(1) s(1) show ?thesis by blast
qed

text \<open>The same write of four bytes, with a crash after the commit.\<close>

lemma demo_commit_recoverable:
  "\<exists>st st1 t2 st2 st3. page_storage_create (\<lambda>_. 0) 1 BUFFERED_PAGE_SIZE 1 100 empty_folder = Ok st
    \<and> storage_transaction st = (Ok (transaction_new 0), st1)
    \<and> for_each (trans_write (physical_impl (\<lambda>_. 0)) (wal_impl (wal_file_impl (\<lambda>_. 0)))) demo_writes (transaction_new 0, st1) = (Ok (), (t2, st2))
    \<and> transaction_commit (wal_impl (wal_file_impl (\<lambda>_. 0))) t2 st2 = (Ok (), st3)
    \<and> recoverable (\<lambda>_. 0) (\<lambda>_. 0) st3 \<and> map op_write (all_writes (full_log (wal_entries (\<lambda>_. 0)) (swal st3))) = demo_writes
    \<and> storage_view (\<lambda>_. 0) (sphys st3) = storage_view (\<lambda>_. 0) (physical_storage_new empty_folder 1)"
  by (rule commit_recoverable [OF empty_folder_ok empty_segments_ok zero_less_one demo_writes_fit(1) order_refl demo_writes_fit(2-4)])

theorem committed_survives_crash_witness:
  "\<exists>st t st1 t2 st2 st3 st4 st5 i. page_storage_create (\<lambda>_. 0) 1 BUFFERED_PAGE_SIZE 1 100 empty_folder = Ok st
    \<and> storage_transaction st = (Ok t, st1)
    \<and> for_each (trans_write (physical_impl (\<lambda>_. 0)) (wal_impl (wal_file_impl (\<lambda>_. 0)))) demo_writes (t, st1) = (Ok (), (t2, st2))
    \<and> transaction_commit (wal_impl (wal_file_impl (\<lambda>_. 0))) t2 st2 = (Ok (), st3)
    \<and> page_storage_open 1 BUFFERED_PAGE_SIZE 1 100 (left_behind st3) = Ok st4
    \<and> storage_view (\<lambda>_. 0) (sphys st4) (PageAddress 69 420) = Ok (None, replicate PAGE_BODY_SIZE 0)
    \<and> storage_recover (wal_impl (wal_file_impl (\<lambda>_. 0))) (physical_impl (\<lambda>_. 0)) st4 = (Ok (), st5)
    \<and> storage_view (\<lambda>_. 0) (sphys st5) (PageAddress 69 420) = Ok (Some i, patch 25 [1, 2, 3, 4] (replicate PAGE_BODY_SIZE 0))"
proof -
  let ?view = "\<lambda>st. storage_view (\<lambda>_. 0) (sphys st)"
  from committed_survives_crash [OF empty_folder_ok empty_segments_ok zero_less_one demo_writes_fit(1) order_refl demo_writes_fit(2-4)
      zero_less_one order_refl, of "\<lambda>_. 0" 1 100 1 100]
  obtain st t st1 t2 st2 st3 st4 st5 where r: "page_storage_create (\<lambda>_. 0) 1 BUFFERED_PAGE_SIZE 1 100 empty_folder = Ok st"
      "storage_transaction st = (Ok t, st1)"
      "for_each (trans_write (physical_impl (\<lambda>_. 0)) (wal_impl (wal_file_impl (\<lambda>_. 0)))) demo_writes (t, st1) = (Ok (), (t2, st2))"
      "transaction_commit (wal_impl (wal_file_impl (\<lambda>_. 0))) t2 st2 = (Ok (), st3)"
      "page_storage_open 1 BUFFERED_PAGE_SIZE 1 100 (left_behind st3) = Ok st4"
      "storage_recover (wal_impl (wal_file_impl (\<lambda>_. 0))) (physical_impl (\<lambda>_. 0)) st4 = (Ok (), st5)"
    and v: "?view st4 = storage_view (\<lambda>_. 0) (physical_storage_new empty_folder 1)"
      "\<forall>a. a \<in> fst ` set demo_writes \<longrightarrow> (\<exists>i. ?view st5 a = Ok (Some i, apply_writes demo_writes demo_base a))"
    by (elim exE conjE) (rule that; assumption)
  have "PageAddress 69 420 \<in> fst ` set demo_writes" by simp
  with v(2) obtain i where "?view st5 (PageAddress 69 420) = Ok (Some i, apply_writes demo_writes demo_base (PageAddress 69 420))"
    by blast
  moreover have "apply_writes demo_writes demo_base (PageAddress 69 420) = patch 25 [1, 2, 3, 4] (replicate PAGE_BODY_SIZE 0)" by simp
  ultimately have "?view st5 (PageAddress 69 420) = Ok (Some i, patch 25 [1, 2, 3, 4] (replicate PAGE_BODY_SIZE 0))"
    by (simp only:)
  moreover have "?view st4 (PageAddress 69 420) = Ok (None, replicate PAGE_BODY_SIZE 0)" unfolding v(1) by (rule storage_view_empty)
  ultimately show ?thesis using r by blast
qed

theorem recovery_can_be_interrupted_witness:
  "\<exists>(st :: ((database_folder, wal_file) wal, (database_folder, u32) physical_storage) page_storage) st1 c ps st2 st3.
    storage_recover (wal_impl (wal_file_impl (\<lambda>_. 0))) (physical_impl (\<lambda>_. 0)) st = (Ok (), st1)
    \<and> for_each (recover_handler (physical_impl (\<lambda>_. 0))) (take 1 (all_writes (full_log (wal_entries (\<lambda>_. 0)) (swal st)))) (scache st, sphys st)
      = (Ok (), (c, ps))
    \<and> length (all_writes (full_log (wal_entries (\<lambda>_. 0)) (swal st))) = 1
    \<and> page_storage_open 1 BUFFERED_PAGE_SIZE 1 100 (left_behind (st\<lparr>scache := c, sphys := ps\<rparr>)) = Ok st2
    \<and> storage_recover (wal_impl (wal_file_impl (\<lambda>_. 0))) (physical_impl (\<lambda>_. 0)) st2 = (Ok (), st3)
    \<and> storage_view (\<lambda>_. 0) (sphys st3) = storage_view (\<lambda>_. 0) (sphys st1)"
proof -
  obtain st3 :: "((database_folder, wal_file) wal, (database_folder, u32) physical_storage) page_storage"
    where c: "recoverable (\<lambda>_. 0) (\<lambda>_. 0) st3" "map op_write (all_writes (full_log (wal_entries (\<lambda>_. 0)) (swal st3))) = demo_writes"
    using demo_commit_recoverable by (elim exE conjE) (rule that; assumption)
  obtain st where o: "recoverable (\<lambda>_. 0) (\<lambda>_. 0) st" "clean_cache (\<lambda>_. 0) st"
      "full_log (wal_entries (\<lambda>_. 0)) (swal st) = full_log (wal_entries (\<lambda>_. 0)) (swal st3)"
    using reopen_ok [OF c(1) zero_less_one order_refl, of 1 100] by (elim exE conjE) (rule that; assumption)
  have "length (all_writes (full_log (wal_entries (\<lambda>_. 0)) (swal st))) = 1"
    using arg_cong [OF c(2), of length] o(3) by simp
  with recovery_can_be_interrupted [OF o(1,2) zero_less_one order_refl, of 1 1 100]
  show ?thesis by (elim exE conjE) (intro exI conjI; assumption)
qed

end
