(* ===== verification/Interleaving.thy ===== *)
theory Interleaving
  imports CrashRecovery
begin

text \<open>
  Several transactions at once on one page storage. Each operation of a transaction is one step;
  a step that would wait for a lock is not taken. Sessions name the transactions that are open.
\<close>

section \<open>Steps\<close>

text \<open>\<open>t.get_page(a)?.read(off, buf)?\<close>; the page is dropped afterwards.\<close>

definition trans_read :: "'ps physical_api \<Rightarrow> page_address \<Rightarrow> nat \<Rightarrow> nat \<Rightarrow> ('w, 'ps, byte list) transp" where
  "trans_read api a off n = bindp (transaction_get_page api a) (\<lambda>g.
     bindp (on_snd (on_cache (page_read g off n))) (\<lambda>bs.
     bindp (on_snd (on_cache (modify (drop_page g)))) (\<lambda>_. ret bs)))"

type_synonym ('w, 'ps) sessions = "(nat \<rightharpoonup> transaction) \<times> ('w, 'ps) page_storage"

text \<open>What a session does; a read also says which bytes it got.\<close>

datatype event = BeginEv nat | WriteEv nat page_write | ReadEv nat page_address nat "byte list" | CommitEv nat

inductive ev_step :: "'ps physical_api \<Rightarrow> ('w, 'ps) wal_api \<Rightarrow> ('w, 'ps) sessions \<Rightarrow> event \<Rightarrow> ('w, 'ps) sessions \<Rightarrow> bool"
  for api :: "'ps physical_api" and wapi :: "('w, 'ps) wal_api" where
  begin_step: "ss h = None \<Longrightarrow> storage_transaction st = (Ok t, st')
    \<Longrightarrow> ev_step api wapi (ss, st) (BeginEv h) (ss(h \<mapsto> t), st')"
| write_step: "ss h = Some t \<Longrightarrow> trans_write api wapi w (t, st) = (Ok (), (t', st'))
    \<Longrightarrow> ev_step api wapi (ss, st) (WriteEv h w) (ss(h \<mapsto> t'), st')"
| read_step: "ss h = Some t \<Longrightarrow> trans_read api a off (length bs) (t, st) = (Ok bs, (t', st'))
    \<Longrightarrow> ev_step api wapi (ss, st) (ReadEv h a off bs) (ss(h \<mapsto> t'), st')"
| commit_step: "ss h = Some t \<Longrightarrow> transaction_commit wapi t st = (Ok (), st')
    \<Longrightarrow> ev_step api wapi (ss, st) (CommitEv h) (ss(h := None), st')"

inductive ev_run :: "'ps physical_api \<Rightarrow> ('w, 'ps) wal_api \<Rightarrow> ('w, 'ps) sessions \<Rightarrow> event list \<Rightarrow> ('w, 'ps) sessions \<Rightarrow> bool"
  for api :: "'ps physical_api" and wapi :: "('w, 'ps) wal_api" where
  no_event: "ev_run api wapi s [] s"
| one_more_event: "ev_run api wapi s es s' \<Longrightarrow> ev_step api wapi s' e s'' \<Longrightarrow> ev_run api wapi s (es @ [e]) s''"

inductive_cases ev_stepE:
  "ev_step api wapi (ss, st) (BeginEv h) s'" "ev_step api wapi (ss, st) (WriteEv h w) s'"
  "ev_step api wapi (ss, st) (ReadEv h a off bs) s'" "ev_step api wapi (ss, st) (CommitEv h) s'"

text \<open>
  The serial history: the writes of the committed transactions, one transaction after the other in
  the order of their commits, and the writes of each open one.
\<close>

type_synonym open_sessions = "nat \<rightharpoonup> page_write list"

fun sched :: "event \<Rightarrow> page_write list \<times> open_sessions \<Rightarrow> page_write list \<times> open_sessions" where
  "sched (BeginEv h) (d, p) = (d, p(h \<mapsto> []))"
| "sched (WriteEv h w) (d, p) = (d, p(h := map_option (\<lambda>ws. ws @ [w]) (p h)))"
| "sched (ReadEv h a off bs) (d, p) = (d, p)"
| "sched (CommitEv h) (d, p) = (d @ (case p h of None \<Rightarrow> [] | Some ws \<Rightarrow> ws), p(h := None))"

definition history :: "event list \<Rightarrow> page_write list \<times> open_sessions" where
  "history es = fold sched es ([], Map.empty)"

definition serial_writes :: "event list \<Rightarrow> page_write list" where
  "serial_writes es = fst (history es)"

definition open_session :: "event list \<Rightarrow> nat \<Rightarrow> page_write list option" where
  "open_session es h = snd (history es) h"

lemma history_snoc [simp]: "history [] = ([], Map.empty)" "history (es @ [e]) = sched e (history es)"
  by (simp_all add: history_def)

text \<open>A page belongs to the session that has written it.\<close>

definition writes_page :: "open_sessions \<Rightarrow> nat \<Rightarrow> page_address \<Rightarrow> bool" where
  "writes_page p h a \<longleftrightarrow> (\<exists>ws. p h = Some ws \<and> a \<in> fst ` set ws)"

lemma writes_page_upd [simp]:
  "writes_page (p(h \<mapsto> [])) h' a = (h' \<noteq> h \<and> writes_page p h' a)"
  "writes_page (p(h := None)) h' a = (h' \<noteq> h \<and> writes_page p h' a)"
  "p h = Some ws \<Longrightarrow> writes_page (p(h \<mapsto> ws @ [(b, x)])) h' a = (writes_page p h' a \<or> h' = h \<and> a = b)"
  by (auto simp: writes_page_def)

lemma apply_writes_append: "apply_writes (xs @ ys) cur = apply_writes ys (apply_writes xs cur)"
  by (induction xs arbitrary: cur) auto

lemma apply_writes_cong: "cur a = cur' a \<Longrightarrow> apply_writes ws cur a = apply_writes ws cur' a"
proof (induction ws arbitrary: cur cur')
  case (Cons w ws)
  obtain b off bs where w: "w = (b, off, bs)" by (cases w)
  show ?case
    unfolding w apply_writes.simps by (rule Cons.IH) (use Cons.prems in auto)
qed simp

section \<open>Fetching a page\<close>

text \<open>
  What is left of the cache, apart from the locks, when a page has been looked up or loaded: other
  buffers are as before, the page has a buffer and, if it was not cached, its stored contents.
\<close>

definition fetched :: "page_address \<Rightarrow> nat \<Rightarrow> byte list \<Rightarrow> page_cache \<Rightarrow> page_cache \<Rightarrow> bool" where
  "fetched a g body c c' \<longleftrightarrow> cache_inv c' \<and> map_of (indices c') = (map_of (indices c))(a \<mapsto> g)
     \<and> (dirty_list c = map fst (indices c) \<longrightarrow> dirty_list c' = map fst (indices c'))
     \<and> length (pages (buf c')) = length (pages (buf c)) \<and> num_filled (buf c) \<le> num_filled (buf c') \<and> g < num_filled (buf c')
     \<and> (\<forall>j. j \<noteq> g \<longrightarrow> page_at j c' = page_at j c)
     \<and> page_at g c' = (if map_of (indices c) a = None then (page_at g c)\<lparr>page_body := body\<rparr> else page_at g c)
     \<and> (case map_of (indices c) a of None \<Rightarrow> g = num_filled (buf c) | Some i \<Rightarrow> g = i)"

lemma fetchedD:
  assumes "fetched a g body c c'"
  shows "cache_inv c'" "map_of (indices c') = (map_of (indices c))(a \<mapsto> g)"
    "dirty_list c = map fst (indices c) \<Longrightarrow> dirty_list c' = map fst (indices c')"
    "length (pages (buf c')) = length (pages (buf c))" "num_filled (buf c) \<le> num_filled (buf c')" "g < num_filled (buf c')"
    "j \<noteq> g \<Longrightarrow> page_at j c' = page_at j c"
    "page_at g c' = (if map_of (indices c) a = None then (page_at g c)\<lparr>page_body := body\<rparr> else page_at g c)"
    "map_of (indices c) a = None \<Longrightarrow> g = num_filled (buf c)" "map_of (indices c) a = Some i \<Longrightarrow> g = i"
  using assms unfolding fetched_def by (auto split: option.splits)

lemma fetched_cached:
  assumes "cache_inv c'" and "map_of (indices c) a = Some g" and "indices c' = indices c" and "dirty_list c' = dirty_list c"
    and "buf c' = buf c"
  shows "fetched a g body c c'"
  using assms index_filled [OF assms(1), of a g] by (simp add: fetched_def page_at_def fun_upd_idem)

lemma fetched_lock:
  assumes "fetched a g body c c'" shows "fetched a g body c (set_lock i l c')"
proof -
  have "cache_inv (set_lock i l c')" using fetchedD(1) [OF assms] cache_inv_cong [of "set_lock i l c'" c'] by simp
  then show ?thesis using assms by (simp add: fetched_def)
qed

context batch_storage begin

lemma fetch_load:
  assumes c: "cache_inv c" and a: "map_of (indices c) a = None" and r: "num_filled (buf c) < length (pages (buf c))"
    and u: "locks c ! num_filled (buf c) = Unlocked" and ps: "dinv ps" "wf_page_address a"
    and v: "dview ps a = Ok (ix, body)" "length body = PAGE_BODY_SIZE"
  shows "\<exists>g c1 ps'. load_into_cache api a (c, ps) = (Ok g, (c1, ps')) \<and> dinv ps' \<and> dview ps' = dview ps
    \<and> fetched a g body c c1 \<and> locks c ! g = Unlocked \<and> locks c1 = (locks c)[g := Exclusive]"
proof -
  let ?k = "num_filled (buf c)"
  obtain c1 where c1: "cache_store a c = (Ok ?k, c1)" "cache_inv c1" "indices c1 = indices c @ [(a, ?k)]"
      "num_filled (buf c1) = Suc ?k" "pages (buf c1) = pages (buf c)" "locks c1 = (locks c)[?k := Exclusive]"
      "dirty_list c1 = dirty_list c @ [a]"
    using store_fits [OF c a r u] by blast
  obtain ps' where rd: "pa_read api a ps = (Ok (ix, body), ps')" "dinv ps'" "dview ps' = dview ps"
    using dread_ok [OF ps] v by auto
  let ?c2 = "set_page ?k ((page_at ?k c1)\<lparr>page_body := body\<rparr>) c1"
  have "page_at ?k c1 = page_at ?k c" by (simp add: page_at_def c1(5))
  then have pg: "page_at j ?c2 = (if j = ?k then (page_at ?k c)\<lparr>page_body := body\<rparr> else page_at j c)" for j
    using page_at_set_page [of ?k c1 j] r c1(5) by (simp add: page_at_def)
  have "map_of (indices ?c2) = (map_of (indices c))(a \<mapsto> ?k)"
    using a by (auto simp: c1(3) map_add_def fun_eq_iff split: option.splits)
  moreover have "cache_inv ?c2" by (rule cache_inv_set_page [OF c1(2)]) (simp add: v(2))
  ultimately have "fetched a ?k body c ?c2"
    using pg a by (simp add: fetched_def c1)
  then show ?thesis using load_into_cache_run [OF c1(1) rd(1)] rd(2,3) u c1(6) by (intro exI conjI) (assumption | simp)+
qed

lemma write_guard_free:
  assumes c: "cache_inv c" and l: "\<And>j. map_of (indices c) a = Some j \<Longrightarrow> locks c ! j = Unlocked"
    and n: "map_of (indices c) a = None \<Longrightarrow> num_filled (buf c) < length (pages (buf c)) \<and> locks c ! num_filled (buf c) = Unlocked
      \<and> dview ps a = Ok (ix, body) \<and> length body = PAGE_BODY_SIZE" and ps: "dinv ps" "wf_page_address a"
  shows "\<exists>g c1 ps'. write_guard api a (c, ps) = (Ok g, (c1, ps')) \<and> dinv ps' \<and> dview ps' = dview ps
    \<and> fetched a g body c c1 \<and> locks c ! g = Unlocked \<and> locks c1 = (locks c)[g := Exclusive]"
proof (cases "map_of (indices c) a")
  case None
  then show ?thesis using fetch_load [OF c None _ _ ps] n write_guard_loads [OF None] by metis
next
  case (Some i)
  let ?c0 = "c\<lparr>creplacer := snd (replacer_access a (creplacer c))\<rparr>"
  have "fetched a i body c ?c0" using cache_inv_access [OF c] by (intro fetched_cached) (simp_all add: Some)
  then have "fetched a i body c (set_lock i Exclusive ?c0)" by (rule fetched_lock)
  moreover have "on_fst (cache_load_mut a) (c, ps) = (Ok (Some i), (set_lock i Exclusive ?c0, ps))"
    using load_mut_cached [OF c Some l [OF Some]] by (simp add: on_fst_def)
  then have "write_guard api a (c, ps) = (Ok i, (set_lock i Exclusive ?c0, ps))"
    by (simp add: write_guard_def prog_simps bindp_Ok [where m = "on_fst (cache_load_mut a)"])
  ultimately show ?thesis using ps(1) l [OF Some] by (intro exI conjI) (assumption | simp)+
qed

lemma read_guard_free:
  assumes c: "cache_inv c" and l: "\<And>j. map_of (indices c) a = Some j \<Longrightarrow> locks c ! j = Unlocked"
    and n: "map_of (indices c) a = None \<Longrightarrow> num_filled (buf c) < length (pages (buf c)) \<and> locks c ! num_filled (buf c) = Unlocked
      \<and> dview ps a = Ok (ix, body) \<and> length body = PAGE_BODY_SIZE" and ps: "dinv ps" "wf_page_address a"
  shows "\<exists>g c1 ps'. read_guard api a (c, ps) = (Ok g, (c1, ps')) \<and> dinv ps' \<and> dview ps' = dview ps
    \<and> fetched a g body c c1 \<and> locks c ! g = Unlocked \<and> locks c1 = (locks c)[g := SharedBy 1]"
proof (cases "map_of (indices c) a")
  case None
  obtain g c1 ps' where f: "load_into_cache api a (c, ps) = (Ok g, (c1, ps'))" "dinv ps'" "dview ps' = dview ps"
      "fetched a g body c c1" "locks c ! g = Unlocked" "locks c1 = (locks c)[g := Exclusive]"
    using fetch_load [OF c None _ _ ps] n [OF None] by blast
  then show ?thesis
    using read_guard_loads [OF None f(1)] fetched_lock [OF f(4), of g "SharedBy 1"]
    by (intro exI conjI) (assumption | simp)+
next
  case (Some i)
  let ?c0 = "c\<lparr>creplacer := snd (replacer_access a (creplacer c))\<rparr>"
  have "fetched a i body c ?c0" using cache_inv_access [OF c] by (intro fetched_cached) (simp_all add: Some)
  then have "fetched a i body c (set_lock i (SharedBy 1) ?c0)" by (rule fetched_lock)
  moreover have "read_guard api a (c, ps) = (Ok i, (set_lock i (SharedBy 1) ?c0, ps))"
    using read_guard_cached cache_load_ok [OF c Some] l [OF Some] by simp
  ultimately show ?thesis using ps(1) l [OF Some] by (intro exI conjI) (assumption | simp)+
qed

end

section \<open>The invariant of concurrent sessions\<close>

text \<open>
  \<open>cur\<close> are the committed contents of all pages. A page that a session has written shows these
  with the session's writes, any other cached page shows them as they are; a dirty page carries the
  position of a write to it in the log, a clean one agrees with the storage.
\<close>

definition page_ok :: "(page_address \<Rightarrow> (storage_error, page_read) outcome) \<Rightarrow> (page_address \<Rightarrow> byte list) \<Rightarrow> open_sessions
    \<Rightarrow> log \<Rightarrow> page_address \<Rightarrow> buffered_page \<Rightarrow> bool" where
  "page_ok v cur p l a q \<longleftrightarrow> (\<forall>h ws. p h = Some ws \<longrightarrow> a \<in> fst ` set ws \<longrightarrow> page_body q = apply_writes ws cur a)
     \<and> ((\<forall>h. \<not> writes_page p h a) \<longrightarrow> page_body q = cur a)
     \<and> (if is_dirty q then logged_page l a q else (\<forall>h. \<not> writes_page p h a) \<and> (\<exists>ix. v a = Ok (ix, cur a)))"

definition uncached_ok :: "(page_address \<Rightarrow> (storage_error, page_read) outcome) \<Rightarrow> (page_address \<Rightarrow> byte list) \<Rightarrow> open_sessions
    \<Rightarrow> page_address \<Rightarrow> bool" where
  "uncached_ok v cur p a \<longleftrightarrow> (\<exists>ix. v a = Ok (ix, cur a)) \<and> length (cur a) = PAGE_BODY_SIZE \<and> (\<forall>h. \<not> writes_page p h a)"

text \<open>Two sessions never write the same page; the locks say which pages are written.\<close>

definition locks_ok :: "open_sessions \<Rightarrow> page_cache \<Rightarrow> bool" where
  "locks_ok p c \<longleftrightarrow> (\<forall>h h' a. writes_page p h a \<longrightarrow> writes_page p h' a \<longrightarrow> h = h')
     \<and> (\<forall>a j. map_of (indices c) a = Some j \<longrightarrow> locks c ! j = (if \<exists>h. writes_page p h a then Exclusive else Unlocked))
     \<and> (\<forall>j. num_filled (buf c) \<le> j \<longrightarrow> j < length (locks c) \<longrightarrow> locks c ! j = Unlocked \<and> \<not> is_dirty (page_at j c))"

definition session_ok :: "(page_address \<rightharpoonup> nat) \<Rightarrow> page_write list \<Rightarrow> transaction \<Rightarrow> bool" where
  "session_ok m ws t \<longleftrightarrow> keys_of (tlocks t) = fst ` set ws \<and> (\<forall>(a, g) \<in> set (tlocks t). m a = Some g)"

definition open_ok :: "open_sessions \<Rightarrow> (nat \<rightharpoonup> transaction) \<Rightarrow> page_cache \<Rightarrow> bool" where
  "open_ok p ss c \<longleftrightarrow> (\<forall>h. p h = None \<longleftrightarrow> ss h = None)
     \<and> (\<forall>h t ws. ss h = Some t \<longrightarrow> p h = Some ws \<longrightarrow> session_ok (map_of (indices c)) ws t)"

definition sessions_inv :: "(page_address \<Rightarrow> (storage_error, page_read) outcome) \<Rightarrow> page_address set \<Rightarrow> (page_address \<Rightarrow> byte list)
    \<Rightarrow> open_sessions \<Rightarrow> (nat \<rightharpoonup> transaction) \<Rightarrow> log \<Rightarrow> page_cache \<Rightarrow> bool" where
  "sessions_inv v A cur p ss l c \<longleftrightarrow> cache_inv c \<and> dirty_list c = map fst (indices c) \<and> locks_ok p c \<and> open_ok p ss c
     \<and> (\<forall>a j. map_of (indices c) a = Some j \<longrightarrow> a \<in> A \<and> page_ok v cur p l a (page_at j c))
     \<and> (\<forall>a \<in> A. map_of (indices c) a = None \<longrightarrow> uncached_ok v cur p a)"

lemma sessions_invD:
  assumes "sessions_inv v A cur p ss l c"
  shows "cache_inv c" "dirty_list c = map fst (indices c)" "locks_ok p c" "open_ok p ss c"
    "map_of (indices c) a = Some j \<Longrightarrow> a \<in> A" "map_of (indices c) a = Some j \<Longrightarrow> page_ok v cur p l a (page_at j c)"
    "a \<in> A \<Longrightarrow> map_of (indices c) a = None \<Longrightarrow> uncached_ok v cur p a"
  using assms unfolding sessions_inv_def by blast+

lemma locks_okD:
  assumes "locks_ok p c"
  shows "writes_page p h a \<Longrightarrow> writes_page p h' a \<Longrightarrow> h = h'"
    "map_of (indices c) a = Some j \<Longrightarrow> locks c ! j = (if \<exists>h. writes_page p h a then Exclusive else Unlocked)"
    "num_filled (buf c) \<le> j \<Longrightarrow> j < length (locks c) \<Longrightarrow> locks c ! j = Unlocked"
    "num_filled (buf c) \<le> j \<Longrightarrow> j < length (locks c) \<Longrightarrow> \<not> is_dirty (page_at j c)"
  using assms unfolding locks_ok_def by blast+

lemma open_okD:
  assumes "open_ok p ss c"
  shows "p h = None \<longleftrightarrow> ss h = None" "ss h = Some t \<Longrightarrow> p h = Some ws \<Longrightarrow> session_ok (map_of (indices c)) ws t"
  using assms unfolding open_ok_def by blast+

text \<open>What a session sees of a page that no other session has written.\<close>

lemma page_okD:
  assumes "page_ok v cur p l a q" and "p h = Some ws" and "\<And>h'. h' \<noteq> h \<Longrightarrow> \<not> writes_page p h' a"
  shows "page_body q = apply_writes ws cur a"
proof (cases "a \<in> fst ` set ws")
  case True
  then show ?thesis using assms(1,2) unfolding page_ok_def by blast
next
  case False
  then have "\<forall>h. \<not> writes_page p h a" using assms(2,3) by (metis option.inject writes_page_def)
  then show ?thesis using assms(1) apply_writes_other [OF False] unfolding page_ok_def by metis
qed

lemma page_ok_dirtyI:
  "(\<And>h ws. p h = Some ws \<Longrightarrow> a \<in> fst ` set ws \<Longrightarrow> page_body q = apply_writes ws cur a)
    \<Longrightarrow> writes_page p k a \<Longrightarrow> is_dirty q \<Longrightarrow> logged_page l a q \<Longrightarrow> page_ok v cur p l a q"
  unfolding page_ok_def by auto

lemma written_cached:
  assumes "sessions_inv v A cur p ss l c" and "writes_page p h a"
  shows "\<exists>j t. map_of (indices c) a = Some j \<and> ss h = Some t \<and> (a, j) \<in> set (tlocks t)"
proof -
  obtain ws where ws: "p h = Some ws" "a \<in> fst ` set ws" using assms(2) by (auto simp: writes_page_def)
  note o = open_okD [OF sessions_invD(4) [OF assms(1)]]
  obtain t where t: "ss h = Some t" using o(1) [of h] ws(1) by auto
  then have so: "session_ok (map_of (indices c)) ws t" using o(2) ws(1) by blast
  then have "a \<in> fst ` set (tlocks t)" using ws(2) by (simp add: session_ok_def)
  then obtain j where j: "(a, j) \<in> set (tlocks t)" by force
  then have "map_of (indices c) a = Some j" using so by (auto simp: session_ok_def)
  then show ?thesis using t j by blast
qed

text \<open>The lock of a page that is not cached is that of the next free buffer.\<close>

lemma sessions_room:
  assumes i: "sessions_inv v A cur p ss l c" and A: "finite A" "card A \<le> length (pages (buf c))" and a: "a \<in> A" "map_of (indices c) a = None"
  shows "num_filled (buf c) < length (pages (buf c))" "locks c ! num_filled (buf c) = Unlocked"
proof -
  note d = sessions_invD [OF i]
  have "b \<in> A" if "b \<in> keys_of (indices c)" for b using iffD1 [OF keys_of_map_of that] d(5) by blast
  then have "insert a (keys_of (indices c)) \<subseteq> A" using a(1) by blast
  from card_mono [OF A(1) this] have "card (insert a (keys_of (indices c))) \<le> length (pages (buf c))" using A(2) by simp
  then show r: "num_filled (buf c) < length (pages (buf c))" by (rule num_filled_room [OF d(1) a(2)])
  have "length (locks c) = length (pages (buf c))" using d(1) by (simp add: cache_inv_def)
  then show "locks c ! num_filled (buf c) = Unlocked" using locks_okD(3) [OF d(3)] r by simp
qed

lemma page_ok_fetched:
  assumes i: "sessions_inv v A cur p ss l c" and f: "fetched a g (cur a) c c1" and a: "a \<in> A"
    and r: "num_filled (buf c) < length (pages (buf c)) \<or> map_of (indices c) a \<noteq> None"
  shows "page_ok v cur p l a (page_at g c1)"
proof (cases "map_of (indices c) a")
  case None
  note d = sessions_invD [OF i] and fd = fetchedD [OF f]
  have "length (locks c) = length (pages (buf c))" using d(1) by (simp add: cache_inv_def)
  then have "\<not> is_dirty (page_at g c)" using locks_okD(4) [OF d(3)] fd(9) [OF None] r None by simp
  moreover have "page_at g c1 = (page_at g c)\<lparr>page_body := cur a\<rparr>" using fd(8) None by simp
  moreover have "uncached_ok v cur p a" by (rule d(7) [OF a None])
  ultimately show ?thesis by (auto simp: page_ok_def uncached_ok_def writes_page_def is_dirty_def)
next
  case (Some j)
  note d = sessions_invD [OF i] and fd = fetchedD [OF f]
  have "page_at g c1 = page_at j c" using fd(8,10) Some by simp
  then show ?thesis using d(6) [OF Some] by simp
qed

lemma session_ok_mono: "session_ok m ws t \<Longrightarrow> m \<subseteq>\<^sub>m m' \<Longrightarrow> session_ok m' ws t"
  unfolding session_ok_def map_le_def by (fastforce simp: dom_def)

lemma open_ok_mono: "open_ok p ss c \<Longrightarrow> map_of (indices c) \<subseteq>\<^sub>m map_of (indices c') \<Longrightarrow> open_ok p ss c'"
  unfolding open_ok_def by (blast intro: session_ok_mono)

text \<open>Fetching a page keeps the invariant, and so does any step that leaves the locks as they were.\<close>

lemma inv_fetched:
  assumes i: "sessions_inv v A cur p ss l c" and f: "fetched a g (cur a) c c1" and a: "a \<in> A"
    and r: "num_filled (buf c) < length (pages (buf c)) \<or> map_of (indices c) a \<noteq> None"
  shows "sessions_inv v A cur p ss l (c1\<lparr>locks := locks c\<rparr>)"
proof -
  note d = sessions_invD [OF i] and fd = fetchedD [OF f]
  let ?c = "c1\<lparr>locks := locks c\<rparr>"
  have ll: "length (locks c) = length (pages (buf c))" "length (locks c1) = length (pages (buf c1))"
    using d(1) fd(1) by (simp_all add: cache_inv_def)
  have pg: "page_at j ?c = page_at j c1" for j by (simp add: page_at_def)
  have ag: "map_of (indices ?c) a = Some g" by (simp add: fd(2))
  have ci: "cache_inv ?c" using fd(1) cache_inv_cong [of ?c c1] ll fd(4) by simp
  have old: "map_of (indices c) b = Some j \<and> page_at j ?c = page_at j c" if "b \<noteq> a" "map_of (indices ?c) b = Some j" for b j
  proof -
    have "j \<noteq> g" using cache_index_inject [OF ci that(2), of a] ag that(1) by blast
    then show ?thesis using that fd(2,7) by (simp add: pg)
  qed
  have "locks_ok p ?c"
    unfolding locks_ok_def
  proof (intro conjI allI impI)
    fix b j assume b: "map_of (indices ?c) b = Some j"
    show "locks ?c ! j = (if \<exists>h. writes_page p h b then Exclusive else Unlocked)"
    proof (cases "map_of (indices c) b")
      case None
      then have e: "b = a" "j = g" using b fd(2) by (auto split: if_splits)
      then have u: "uncached_ok v cur p a" using d(7) [OF a] None by simp
      have "g = num_filled (buf c)" using fd(9) None e by simp
      then have "locks c ! g = Unlocked" using locks_okD(3) [OF d(3)] r None e ll by simp
      then show ?thesis using u e by (auto simp: uncached_ok_def)
    next
      case (Some i)
      then have "i = j" using b fd(2,10) by (auto split: if_splits)
      then show ?thesis using locks_okD(2) [OF d(3) Some] by simp
    qed
  next
    fix j assume j: "num_filled (buf ?c) \<le> j" "j < length (locks ?c)"
    then have "num_filled (buf c) \<le> j" "j \<noteq> g" using fd(5,6) by simp_all
    then show "locks ?c ! j = Unlocked" "\<not> is_dirty (page_at j ?c)"
      using locks_okD(3,4) [OF d(3)] j fd(7) by (simp_all add: pg)
  qed (rule locks_okD(1) [OF d(3)])
  moreover have "map_of (indices c) \<subseteq>\<^sub>m map_of (indices ?c)" using fd(2,10) by (auto simp: map_le_def)
  then have "open_ok p ss ?c" by (rule open_ok_mono [OF d(4)])
  moreover have "b \<in> A \<and> page_ok v cur p l b (page_at j ?c)" if b: "map_of (indices ?c) b = Some j" for b j
  proof (cases "b = a")
    case True
    then have "j = g" using b ag by simp
    then show ?thesis using page_ok_fetched [OF i f a r] a True by (simp add: pg)
  next
    case False
    then show ?thesis using old [OF False b] d(5,6) [of b j] by simp
  qed
  moreover have "uncached_ok v cur p b" if "b \<in> A" "map_of (indices ?c) b = None" for b
    using d(7) [OF that(1)] that(2) fd(2) by (simp split: if_splits)
  moreover have "dirty_list ?c = map fst (indices ?c)" using fd(3) [OF d(2)] by simp
  ultimately show ?thesis using ci unfolding sessions_inv_def by blast
qed

lemma logged_page_append: "logged_page l a q \<Longrightarrow> logged_page (l @ l') a q"
  by (auto simp: logged_page_def)

lemma inv_write:
  assumes i: "sessions_inv v A cur p ss l c" and a: "map_of (indices c) a = Some g" and h: "p h = Some ws" "ss h = Some t"
    and o: "\<And>h'. h' \<noteq> h \<Longrightarrow> \<not> writes_page p h' a" and t': "set (tlocks t') = insert (a, g) (set (tlocks t))"
    and b: "unat off + length bs \<le> PAGE_BODY_SIZE" and ix: "wf_wal_index ix" and l: "l' = l @ [(ix, Write d)]" "wd_page_address d = a"
  shows "sessions_inv v A cur (p(h \<mapsto> ws @ [(a, off, bs)])) (ss(h \<mapsto> t')) l'
    (set_page g (written_page ix off bs (page_body (page_at g c))) (set_lock g Exclusive c))"
proof -
  note d = sessions_invD [OF i]
  let ?p = "p(h \<mapsto> ws @ [(a, off, bs)])" and ?q = "written_page ix off bs (page_body (page_at g c))"
  let ?c = "set_page g ?q (set_lock g Exclusive c)"
  note gi = cache_index [OF d(1) a]
  have wp: "writes_page ?p h' b = (writes_page p h' b \<or> h' = h \<and> b = a)" for h' b using h(1) by simp
  have body: "page_body (page_at g c) = apply_writes ws cur a" by (rule page_okD [OF d(6) [OF a] h(1) o])
  have pg: "page_at j ?c = (if j = g then ?q else page_at j c)" for j
    using page_at_set_page [of g "set_lock g Exclusive c" j ?q] gi(2) by simp
  have ne: "j \<noteq> g" if "map_of (indices c) b = Some j" "b \<noteq> a" for b j
    using that cache_index_inject [OF d(1) a, of b] by blast
  have "cache_inv (set_lock g Exclusive c)" using d(1) cache_inv_cong [of "set_lock g Exclusive c" c] by simp
  then have ci: "cache_inv ?c" by (rule cache_inv_set_page) (simp add: written_page_def gi(3) b)
  have "locks_ok ?p ?c"
    unfolding locks_ok_def wp
  proof (intro conjI allI impI)
    fix h1 h2 b assume "writes_page p h1 b \<or> h1 = h \<and> b = a" "writes_page p h2 b \<or> h2 = h \<and> b = a"
    then show "h1 = h2" using o [of h1] o [of h2] locks_okD(1) [OF d(3), of h1 b h2] by blast
  next
    fix b j assume j: "map_of (indices ?c) b = Some j"
    show "locks ?c ! j = (if \<exists>h'. writes_page p h' b \<or> h' = h \<and> b = a then Exclusive else Unlocked)"
    proof (cases "b = a")
      case True
      then show ?thesis using j a gi(1) by auto
    next
      case False
      then show ?thesis using j ne [of b j] locks_okD(2) [OF d(3), of b j] by simp
    qed
  next
    fix j assume j: "num_filled (buf ?c) \<le> j" "j < length (locks ?c)"
    have "j \<noteq> g" using j index_filled [OF d(1) a] by auto
    then show "locks ?c ! j = Unlocked" "\<not> is_dirty (page_at j ?c)"
      using j locks_okD(3,4) [OF d(3), of j] by (simp_all add: pg)
  qed
  moreover have "open_ok ?p (ss(h \<mapsto> t')) ?c"
    unfolding open_ok_def
  proof (intro conjI allI impI)
    fix h' show "(?p h' = None) = ((ss(h \<mapsto> t')) h' = None)" using open_okD(1) [OF d(4), of h'] by simp
  next
    fix h' u us assume u: "(ss(h \<mapsto> t')) h' = Some u" "?p h' = Some us"
    show "session_ok (map_of (indices ?c)) us u"
    proof (cases "h' = h")
      case True
      then have "u = t'" "us = ws @ [(a, off, bs)]" using u by simp_all
      then show ?thesis using open_okD(2) [OF d(4) h(2,1)] t' a by (simp add: session_ok_def)
    next
      case False
      then show ?thesis using u open_okD(2) [OF d(4), of h'] by simp
    qed
  qed
  moreover have "b \<in> A \<and> page_ok v cur ?p l' b (page_at j ?c)" if j: "map_of (indices ?c) b = Some j" for b j
  proof (cases "b = a")
    case True
    then have jg: "j = g" using j a by simp
    have "logged_page l' a ?q" using ix l by (cases ix) (auto simp: logged_page_def written_page_def is_dirty_def wf_wal_index_def)
    moreover have "is_dirty ?q" by (simp add: written_page_def is_dirty_def)
    moreover have "page_body ?q = apply_writes ws' cur a" if w: "?p h' = Some ws'" "a \<in> fst ` set ws'" for h' ws'
    proof -
      have "h' = h" using w o [of h'] by (cases "h' = h") (auto simp: writes_page_def)
      then have "ws' = ws @ [(a, off, bs)]" using w(1) by simp
      then show ?thesis by (simp add: written_page_def body apply_writes_append)
    qed
    ultimately have "page_ok v cur ?p l' a ?q" by (intro page_ok_dirtyI [where k = h]) (simp_all add: wp)
    then show ?thesis using d(5) [OF a] True jg by (simp add: pg)
  next
    case False
    have j': "map_of (indices c) b = Some j" using j by simp
    have pk: "page_ok v cur p l b (page_at j c)" by (rule d(6) [OF j'])
    have "page_body (page_at j c) = apply_writes ws' cur b" if "?p h' = Some ws'" "b \<in> fst ` set ws'" for h' ws'
    proof (cases "h' = h")
      case True
      then have w: "ws' = ws @ [(a, off, bs)]" "b \<in> fst ` set ws" using that False by auto
      then have "page_body (page_at j c) = apply_writes ws cur b" using pk h(1) unfolding page_ok_def by blast
      then show ?thesis using False by (simp add: w(1) apply_writes_append)
    next
      case False
      then show ?thesis using that pk unfolding page_ok_def by auto
    qed
    then have "page_ok v cur ?p l' b (page_at j c)"
      using pk False logged_page_append unfolding page_ok_def wp l(1) by auto
    then show ?thesis using d(5) [OF j'] ne [OF j' False] by (simp add: pg)
  qed
  moreover have "uncached_ok v cur ?p b" if "b \<in> A" "map_of (indices ?c) b = None" for b
    using d(7) [OF that(1)] that(2) a unfolding uncached_ok_def wp by auto
  moreover have "dirty_list ?c = map fst (indices ?c)" using d(2) by simp
  ultimately show ?thesis using ci unfolding sessions_inv_def by blast
qed

lemma inv_commit:
  assumes i: "sessions_inv v A cur p ss l c" and h: "p h = Some ws" "ss h = Some t"
  shows "sessions_inv v A (apply_writes ws cur) (p(h := None)) (ss(h := None)) (l @ l') (release_locks t c)"
proof -
  note d = sessions_invD [OF i]
  let ?p = "p(h := None)" and ?c = "release_locks t c"
  have wa: "writes_page p h a \<longleftrightarrow> a \<in> fst ` set ws" for a using h(1) by (simp add: writes_page_def)
  have so: "session_ok (map_of (indices c)) ws t" by (rule open_okD(2) [OF d(4) h(2,1)])
  have rel: "j \<in> snd ` set (tlocks t) \<longleftrightarrow> writes_page p h a" if j: "map_of (indices c) a = Some j" for a j
  proof
    assume "j \<in> snd ` set (tlocks t)"
    then obtain b where b: "(b, j) \<in> set (tlocks t)" by force
    then have "map_of (indices c) b = Some j" using so by (auto simp: session_ok_def)
    then have "b = a" using cache_index_inject [OF d(1) _ j] by blast
    then have "a \<in> fst ` set (tlocks t)" using b by force
    then show "writes_page p h a" unfolding wa using so by (simp add: session_ok_def)
  next
    assume "writes_page p h a"
    then have "a \<in> fst ` set (tlocks t)" unfolding wa using so by (simp add: session_ok_def)
    then obtain g where g: "(a, g) \<in> set (tlocks t)" by force
    then have "g = j" using so j by (auto simp: session_ok_def)
    then show "j \<in> snd ` set (tlocks t)" using g by force
  qed
  have other: "apply_writes ws cur a = cur a" if "\<not> writes_page p h a" for a
    using that apply_writes_other unfolding wa by blast
  have "cache_inv ?c" using d(1) cache_inv_cong [of ?c c] by simp
  moreover have "locks_ok ?p ?c"
    unfolding locks_ok_def writes_page_upd
  proof (intro conjI allI impI)
    fix h1 h2 a assume "h1 \<noteq> h \<and> writes_page p h1 a" "h2 \<noteq> h \<and> writes_page p h2 a"
    then show "h1 = h2" using locks_okD(1) [OF d(3), of h1 a h2] by blast
  next
    fix a j assume "map_of (indices ?c) a = Some j"
    then have j: "map_of (indices c) a = Some j" by simp
    show "locks ?c ! j = (if \<exists>h'. h' \<noteq> h \<and> writes_page p h' a then Exclusive else Unlocked)"
      unfolding release_locks_nth [OF cache_index(1) [OF d(1) j]] rel [OF j] locks_okD(2) [OF d(3) j]
      using locks_okD(1) [OF d(3), of h a] by auto
  next
    fix j assume j: "num_filled (buf ?c) \<le> j" "j < length (locks ?c)"
    then show "locks ?c ! j = Unlocked" "\<not> is_dirty (page_at j ?c)"
      using locks_okD(3,4) [OF d(3), of j] release_locks_nth [of j c t] by simp_all
  qed
  moreover have "open_ok ?p (ss(h := None)) ?c" using d(4) unfolding open_ok_def by simp
  moreover have "a \<in> A \<and> page_ok v (apply_writes ws cur) ?p (l @ l') a (page_at j ?c)" if "map_of (indices ?c) a = Some j" for a j
  proof -
    have j: "map_of (indices c) a = Some j" using that by simp
    note pk = d(6) [OF j, unfolded page_ok_def]
    have dirty: "if is_dirty (page_at j c) then logged_page (l @ l') a (page_at j c) else (\<forall>h. \<not> writes_page p h a) \<and> (\<exists>ix. v a = Ok (ix, cur a))"
      using pk logged_page_append by (metis (full_types))
    have "page_ok v (apply_writes ws cur) ?p (l @ l') a (page_at j c)"
    proof (cases "writes_page p h a")
      case True
      then have "page_body (page_at j c) = apply_writes ws cur a" using pk h(1) unfolding wa by blast
      moreover have "\<not> writes_page p h' a" if "h' \<noteq> h" for h' using locks_okD(1) [OF d(3) True] that by blast
      moreover have "is_dirty (page_at j c)" using dirty True by metis
      ultimately show ?thesis
        unfolding page_ok_def writes_page_upd using dirty by (auto simp: writes_page_def)
    next
      case False
      have c: "apply_writes us (apply_writes ws cur) a = apply_writes us cur a" for us
        by (rule apply_writes_cong) (rule other [OF False])
      have "page_body (page_at j c) = apply_writes us cur a" if "?p h' = Some us" "a \<in> fst ` set us" for h' us
        using pk that by (auto split: if_splits)
      moreover have "page_body (page_at j c) = cur a" if "\<forall>h'. \<not> (h' \<noteq> h \<and> writes_page p h' a)"
      proof -
        have "\<forall>h'. \<not> writes_page p h' a" using that False by metis
        then show ?thesis using pk by simp
      qed
      ultimately show ?thesis
        unfolding page_ok_def writes_page_upd c other [OF False] using dirty by (auto simp del: fun_upd_apply)
    qed
    then show ?thesis using d(5) [OF j] by simp
  qed
  moreover have "uncached_ok v (apply_writes ws cur) ?p a" if "a \<in> A" "map_of (indices ?c) a = None" for a
  proof -
    have u: "uncached_ok v cur p a" using d(7) [OF that(1)] that(2) by simp
    then have "apply_writes ws cur a = cur a" using other by (simp add: uncached_ok_def)
    then show ?thesis using u by (simp add: uncached_ok_def)
  qed
  moreover have "dirty_list ?c = map fst (indices ?c)" using d(2) by simp
  ultimately show ?thesis unfolding sessions_inv_def by blast
qed

lemma inv_begin:
  assumes i: "sessions_inv v A cur p ss l c" and h: "p h = None"
  shows "sessions_inv v A cur (p(h \<mapsto> [])) (ss(h \<mapsto> transaction_new n)) l c"
proof -
  note d = sessions_invD [OF i]
  have w: "writes_page (p(h \<mapsto> [])) h' a = writes_page p h' a" for h' a using h by (auto simp: writes_page_def)
  have "open_ok (p(h \<mapsto> [])) (ss(h \<mapsto> transaction_new n)) c"
    using d(4) unfolding open_ok_def by (auto simp: session_ok_def transaction_new_def)
  moreover have e: "(\<forall>h' us. (p(h \<mapsto> [])) h' = Some us \<longrightarrow> a \<in> fst ` set us \<longrightarrow> P us)
      \<longleftrightarrow> (\<forall>h' us. p h' = Some us \<longrightarrow> a \<in> fst ` set us \<longrightarrow> P us)" for a P
  proof (intro iffI allI impI)
    fix h' us assume l: "\<forall>h' us. (p(h \<mapsto> [])) h' = Some us \<longrightarrow> a \<in> fst ` set us \<longrightarrow> P us" and p: "p h' = Some us" "a \<in> fst ` set us"
    then have "h' \<noteq> h" using h by auto
    then show "P us" using l [rule_format, of h' us] p by simp
  next
    fix h' us assume l: "\<forall>h' us. p h' = Some us \<longrightarrow> a \<in> fst ` set us \<longrightarrow> P us" and p: "(p(h \<mapsto> [])) h' = Some us" "a \<in> fst ` set us"
    then show "P us" by (auto split: if_splits)
  qed
  then have "page_ok v cur (p(h \<mapsto> [])) l a q = page_ok v cur p l a q" for a q
    unfolding page_ok_def w by (simp only: e)
  ultimately show ?thesis
    using i unfolding sessions_inv_def locks_ok_def uncached_ok_def w by simp
qed

lemma inv_new:
  assumes "cache_inv c" and "indices c = []" and "dirty_list c = []" and "all_unlocked c"
    and "\<forall>j < length (pages (buf c)). \<not> is_dirty (page_at j c)"
    and "\<forall>a \<in> A. (\<exists>ix. v a = Ok (ix, cur a)) \<and> length (cur a) = PAGE_BODY_SIZE"
  shows "sessions_inv v A cur Map.empty Map.empty l c"
proof -
  have "length (locks c) = length (pages (buf c))" using assms(1) by (simp add: cache_inv_def)
  then have "locks_ok Map.empty c"
    using assms(2,5) all_unlocked_nth [OF assms(4)] by (simp add: locks_ok_def writes_page_def)
  then show ?thesis
    using assms by (simp add: sessions_inv_def open_ok_def uncached_ok_def writes_page_def)
qed

section \<open>Operations of a session\<close>

text \<open>The invariant of a whole storage with open sessions whose pages are in \<open>A\<close>.\<close>

definition store_ok :: "('ps \<Rightarrow> page_address \<Rightarrow> (storage_error, page_read) outcome) \<Rightarrow> ('ps \<Rightarrow> bool) \<Rightarrow> ('w \<Rightarrow> log) \<Rightarrow> ('w \<Rightarrow> bool)
    \<Rightarrow> page_address set \<Rightarrow> (page_address \<Rightarrow> (storage_error, page_read) outcome) \<Rightarrow> (page_address \<Rightarrow> byte list) \<Rightarrow> open_sessions
    \<Rightarrow> ('w, 'ps) sessions \<Rightarrow> bool" where
  "store_ok dview dinv wlog winv A v cur p s \<longleftrightarrow> (case s of (ss, st) \<Rightarrow>
     dview (sphys st) = v \<and> dinv (sphys st) \<and> winv (swal st)
     \<and> finite A \<and> (\<forall>a \<in> A. wf_page_address a) \<and> card A \<le> length (pages (buf (scache st)))
     \<and> sessions_inv v A cur p ss (wlog (swal st)) (scache st))"

lemma store_okD:
  assumes "store_ok dview dinv wlog winv A v cur p (ss, st)"
  shows "dview (sphys st) = v" "dinv (sphys st)" "winv (swal st)" "finite A" "a \<in> A \<Longrightarrow> wf_page_address a"
    "card A \<le> length (pages (buf (scache st)))" "sessions_inv v A cur p ss (wlog (swal st)) (scache st)"
  using assms unfolding store_ok_def by auto

lemma set_lock_same: "i < length (locks c) \<Longrightarrow> locks c ! i = l \<Longrightarrow> set_lock i l c = c"
proof -
  assume "locks c ! i = l"
  then have "(locks c)[i := l] = locks c" by (metis list_update_id)
  then show "set_lock i l c = c" by (simp add: set_lock_def)
qed

context transactional_store begin

lemma session_fetch_room:
  assumes s: "store_ok dview dinv wlog winv A v cur p (ss, st)" and a: "a \<in> A"
    and o: "\<And>h. \<not> writes_page p h a"
  shows "\<And>j. map_of (indices (scache st)) a = Some j \<Longrightarrow> locks (scache st) ! j = Unlocked"
    "\<exists>ix. map_of (indices (scache st)) a = None \<longrightarrow> num_filled (buf (scache st)) < length (pages (buf (scache st)))
      \<and> locks (scache st) ! num_filled (buf (scache st)) = Unlocked
      \<and> dview (sphys st) a = Ok (ix, cur a) \<and> length (cur a) = PAGE_BODY_SIZE"
    "num_filled (buf (scache st)) < length (pages (buf (scache st))) \<or> map_of (indices (scache st)) a \<noteq> None"
proof -
  note d = store_okD [OF s] and i = sessions_invD [OF store_okD(7) [OF s]]
  show "locks (scache st) ! j = Unlocked" if "map_of (indices (scache st)) a = Some j" for j
    using locks_okD(2) [OF i(3) that] o by simp
  note r = sessions_room [OF d(7,4,6) a]
  show "num_filled (buf (scache st)) < length (pages (buf (scache st))) \<or> map_of (indices (scache st)) a \<noteq> None" using r(1) by blast
  show "\<exists>ix. map_of (indices (scache st)) a = None \<longrightarrow> num_filled (buf (scache st)) < length (pages (buf (scache st)))
      \<and> locks (scache st) ! num_filled (buf (scache st)) = Unlocked
      \<and> dview (sphys st) a = Ok (ix, cur a) \<and> length (cur a) = PAGE_BODY_SIZE"
  proof (cases "map_of (indices (scache st)) a")
    case None
    then show ?thesis using r i(7) [OF a None] d(1) by (auto simp: uncached_ok_def)
  qed simp
qed

lemma session_get_mut:
  assumes s: "store_ok dview dinv wlog winv A v cur p (ss, st)" and h: "ss h = Some t" "p h = Some ws" and a: "a \<in> A"
    and o: "\<And>h'. h' \<noteq> h \<Longrightarrow> \<not> writes_page p h' a"
  shows "\<exists>g t' c1 ps'. transaction_get_page_mut api a (t, st)
      = (Ok \<lparr>pm_page_address = a, pm_transaction_id = tid t, pm_guard = g\<rparr>, (t', st\<lparr>scache := set_lock g Exclusive c1, sphys := ps'\<rparr>))
    \<and> sessions_inv v A cur p ss (wlog (swal st)) c1 \<and> map_of (indices c1) a = Some g
    \<and> set (tlocks t') = insert (a, g) (set (tlocks t)) \<and> dinv ps' \<and> dview ps' = v \<and> tid t' = tid t
    \<and> length (pages (buf c1)) = length (pages (buf (scache st)))"
proof (cases "map_of (tlocks t) a")
  case (Some g)
  note d = store_okD [OF s] and i = sessions_invD [OF store_okD(7) [OF s]]
  have so: "session_ok (map_of (indices (scache st))) ws t" by (rule open_okD(2) [OF i(4) h])
  have ag: "(a, g) \<in> set (tlocks t)" using map_of_SomeD [OF Some] .
  then have m: "map_of (indices (scache st)) a = Some g" using so by (auto simp: session_ok_def)
  have "a \<in> fst ` set (tlocks t)" using ag by force
  then have "writes_page p h a" using so h(2) by (simp add: session_ok_def writes_page_def)
  then have "locks (scache st) ! g = Exclusive" using locks_okD(2) [OF i(3) m] by auto
  then have l: "set_lock g Exclusive (scache st) = scache st" using set_lock_same cache_index(1) [OF i(1) m] by blast
  show ?thesis
    using get_page_mut_has [OF Some, of api st] l m ag d(1,2,7)
    by (intro exI [of _ g] exI [of _ t] exI [of _ "scache st"] exI [of _ "sphys st"]) (simp add: insert_absorb)
next
  case None
  note d = store_okD [OF s] and i = sessions_invD [OF store_okD(7) [OF s]]
  have so: "session_ok (map_of (indices (scache st))) ws t" by (rule open_okD(2) [OF i(4) h])
  have "a \<notin> fst ` set (tlocks t)" using None by (simp add: map_of_eq_None_iff)
  then have nw: "\<not> writes_page p h' a" for h'
    using so h(2) o by (cases "h' = h") (auto simp: session_ok_def writes_page_def)
  note r = session_fetch_room [OF s a nw]
  obtain ix where ix: "map_of (indices (scache st)) a = None \<longrightarrow> num_filled (buf (scache st)) < length (pages (buf (scache st)))
      \<and> locks (scache st) ! num_filled (buf (scache st)) = Unlocked
      \<and> dview (sphys st) a = Ok (ix, cur a) \<and> length (cur a) = PAGE_BODY_SIZE"
    using r(2) by (elim exE) (rule that)
  obtain g c1 ps' where g: "write_guard api a (scache st, sphys st) = (Ok g, (c1, ps'))" "dinv ps'" "dview ps' = dview (sphys st)"
      "fetched a g (cur a) (scache st) c1" "locks c1 = (locks (scache st))[g := Exclusive]"
    using write_guard_free [OF i(1) r(1) mp [OF ix] d(2) d(5) [OF a]] by blast
  let ?c = "c1\<lparr>locks := locks (scache st)\<rparr>"
  have "sessions_inv v A cur p ss (wlog (swal st)) ?c" by (rule inv_fetched [OF d(7) g(4) a r(3)])
  moreover have "set_lock g Exclusive ?c = c1" by (simp add: set_lock_def g(5) [symmetric])
  ultimately show ?thesis
    using get_page_mut_new [OF None g(1)] g(2,3) d(1) fetchedD(2,4) [OF g(4)]
    by (intro exI [of _ g] exI [of _ "t\<lparr>tlocks := tlocks t @ [(a, g)]\<rparr>"] exI [of _ ?c] exI [of _ ps']) simp
qed

lemma session_write_ok:
  assumes s: "store_ok dview dinv wlog winv A v cur p (ss, st)" and h: "ss h = Some t" "p h = Some ws"
    and w: "a \<in> A" "page_write_ok (a, off, bs)" and o: "\<And>h'. h' \<noteq> h \<Longrightarrow> \<not> writes_page p h' a"
    and sz: "wsize (swal st) + 58 + 2 * length bs < 2 ^ 63"
  shows "\<exists>t' st'. trans_write api wapi (a, off, bs) (t, st) = (Ok (), (t', st'))
    \<and> store_ok dview dinv wlog winv A v cur (p(h \<mapsto> ws @ [(a, off, bs)])) (ss(h \<mapsto> t'), st')
    \<and> wsize (swal st') = wsize (swal st) + 58 + 2 * length bs \<and> enumerator st' = enumerator st \<and> tid t' = tid t
    \<and> (\<exists>i. wlog (swal st') = wlog (swal st) @ [(i, log_op_item (OpWrite \<lparr>wl_transaction_id = tid t, wl_page_address = a, wl_offset = off,
        wl_from = slice (unat off) (length bs) (apply_writes ws cur a), wl_to = bs\<rparr>) (wlog (swal st)))])"
proof -
  note d = store_okD [OF s]
  obtain g t' c1 ps' where g: "transaction_get_page_mut api a (t, st)
      = (Ok \<lparr>pm_page_address = a, pm_transaction_id = tid t, pm_guard = g\<rparr>, (t', st\<lparr>scache := set_lock g Exclusive c1, sphys := ps'\<rparr>))"
      "sessions_inv v A cur p ss (wlog (swal st)) c1" "map_of (indices c1) a = Some g"
      "set (tlocks t') = insert (a, g) (set (tlocks t))" "dinv ps'" "dview ps' = v"
      "length (pages (buf c1)) = length (pages (buf (scache st)))" "tid t' = tid t"
    using session_get_mut [OF s h w(1) o] by blast
  let ?p = "\<lparr>pm_page_address = a, pm_transaction_id = tid t, pm_guard = g\<rparr>" and ?st1 = "st\<lparr>scache := set_lock g Exclusive c1, sphys := ps'\<rparr>"
  let ?b = "page_body (page_at g c1)"
  note ix = cache_index [OF sessions_invD(1) [OF g(2)] g(3)]
  have wo: "unat off + length bs \<le> PAGE_BODY_SIZE" "34 + 2 * length bs < 2 ^ 16" using w(2) by (simp_all add: page_write_ok_def)
  let ?rec = "write_record ?p off bs ?b"
  have "log_op_ok (OpWrite ?rec)" "log_op_len (OpWrite ?rec) = 58 + 2 * length bs"
    using wo ix(3) d(5) [OF w(1)] by (simp_all add: write_record_def)
  with wal_write_ok [OF d(3), of ?rec] sz
  obtain i w' where w': "wa_log_write wapi ?rec (swal st) = (Ok i, w')" "winv w'" "wf_wal_index i"
      "wlog w' = wlog (swal st) @ [(i, log_op_item (OpWrite ?rec) (wlog (swal st)))]" "wsize w' = wsize (swal st) + 58 + 2 * length bs"
    by (auto simp del: log_op_item.simps)
  let ?c = "set_page g (written_page i off bs ?b) (set_lock g Exclusive c1)"
  let ?st2 = "?st1\<lparr>swal := w', scache := ?c\<rparr>"
  have "page_mut_write wapi ?p (unat off) bs ?st1 = (Ok (), ?st2)"
    using page_mut_write_run [of ?p ?st1 off bs wapi "Ok i" w'] ix wo(1) w'(1) by simp
  then have run: "trans_write api wapi (a, off, bs) (t, st) = (Ok (), (t', ?st2))"
    by (simp add: bindp_Ok [where m = "transaction_get_page_mut api a", OF g(1)] on_snd_def)
  obtain e where e: "log_op_item (OpWrite ?rec) (wlog (swal st)) = Write e" "wd_page_address e = a"
    by (simp add: write_record_def)
  have "sessions_inv v A cur (p(h \<mapsto> ws @ [(a, off, bs)])) (ss(h \<mapsto> t')) (wlog w') ?c"
    by (rule inv_write [OF g(2,3) h(2,1) o g(4) wo(1) w'(3) w'(4) [unfolded e(1)] e(2)])
  then have "store_ok dview dinv wlog winv A v cur (p(h \<mapsto> ws @ [(a, off, bs)])) (ss(h \<mapsto> t'), ?st2)"
    using d(4-6) g(5-7) w'(2) unfolding store_ok_def by simp
  moreover have "?b = apply_writes ws cur a" by (rule page_okD [OF sessions_invD(6) [OF g(2,3)] h(2) o])
  then have "?rec = \<lparr>wl_transaction_id = tid t, wl_page_address = a, wl_offset = off,
      wl_from = slice (unat off) (length bs) (apply_writes ws cur a), wl_to = bs\<rparr>"
    by (simp add: write_record_def)
  ultimately show ?thesis using run w'(4,5) g(8) by (intro exI [of _ t'] exI [of _ ?st2]) (simp del: log_op_item.simps)
qed

lemma session_waits:
  assumes s: "store_ok dview dinv wlog winv A v cur p (ss, st)" and h: "ss h = Some t" "p h = Some ws"
    and o: "writes_page p h' a" "h' \<noteq> h"
  shows "fst (trans_write api wapi (a, off, bs) (t, st)) = Stuck" "fst (trans_read api a k n (t, st)) = Stuck"
proof -
  note d = store_okD [OF s] and i = sessions_invD [OF store_okD(7) [OF s]]
  obtain j where j: "map_of (indices (scache st)) a = Some j" using written_cached [OF d(7) o(1)] by blast
  have l: "locks (scache st) ! j = Exclusive" using locks_okD(2) [OF i(3) j] o(1) by auto
  have "\<not> writes_page p h a" using locks_okD(1) [OF i(3) o(1)] o(2) by blast
  then have n: "map_of (tlocks t) a = None"
    using open_okD(2) [OF i(4) h] h(2) by (simp add: session_ok_def writes_page_def map_of_eq_None_iff)
  obtain s1 s2 where g: "write_guard api a (scache st, sphys st) = (Stuck, s1)" "read_guard api a (scache st, sphys st) = (Stuck, s2)"
    using guard_waits [OF i(1) j l, of api "sphys st"] by (metis prod.collapse)
  have gs: "on_fst get_state (t, st) = (Ok t, (t, st))" by (simp add: on_fst_def prog_simps)
  obtain st1 where "on_snd (on_pages (write_guard api a)) (t, st) = (Stuck, (t, st1))"
    using g(1) by (cases s1) (simp add: on_snd_def on_pages_def)
  then have "acquire_lock api a (t, st) = (Stuck, (t, st1))"
    using n by (simp add: acquire_lock_def bindp_Ok [where m = "on_fst get_state", OF gs] bindp_Stuck [where m = "on_snd x" for x])
  then have "transaction_get_page_mut api a (t, st) = (Stuck, (t, st1))"
    by (simp add: transaction_get_page_mut_def bindp_Stuck [where m = "acquire_lock api a"])
  then show "fst (trans_write api wapi (a, off, bs) (t, st)) = Stuck"
    by (simp add: bindp_Stuck [where m = "transaction_get_page_mut api a"])
  obtain st2 where "on_snd (on_pages (read_guard api a)) (t, st) = (Stuck, (t, st2))"
    using g(2) by (cases s2) (simp add: on_snd_def on_pages_def)
  then have "transaction_get_page api a (t, st) = (Stuck, (t, st2))"
    using n by (simp add: transaction_get_page_def bindp_Ok [where m = "on_fst get_state", OF gs] bindp_Stuck [where m = "on_snd x" for x])
  then show "fst (trans_read api a k n (t, st)) = Stuck"
    by (simp add: trans_read_def bindp_Stuck [where m = "transaction_get_page api a"])
qed

lemma session_read:
  assumes s: "store_ok dview dinv wlog winv A v cur p (ss, st)" and h: "ss h = Some t" "p h = Some ws"
    and a: "a \<in> A" and o: "\<And>h'. h' \<noteq> h \<Longrightarrow> \<not> writes_page p h' a"
  shows "\<exists>g st1. transaction_get_page api a (t, st) = (Ok g, (t, st1))
    \<and> page_read g off n (scache st1) = (if off + n \<le> PAGE_BODY_SIZE then Ok (slice off n (apply_writes ws cur a)) else Panic, scache st1)
    \<and> store_ok dview dinv wlog winv A v cur p (ss, st1\<lparr>scache := drop_page g (scache st1)\<rparr>) \<and> swal st1 = swal st \<and> enumerator st1 = enumerator st"
proof (cases "map_of (tlocks t) a")
  case (Some g)
  note d = store_okD [OF s] and i = sessions_invD [OF store_okD(7) [OF s]]
  have so: "session_ok (map_of (indices (scache st))) ws t" by (rule open_okD(2) [OF i(4) h])
  have m: "map_of (indices (scache st)) a = Some g" using so map_of_SomeD [OF Some] by (auto simp: session_ok_def)
  have b: "page_body (page_at g (scache st)) = apply_writes ws cur a" by (rule page_okD [OF i(6) [OF m] h(2) o])
  have "transaction_get_page api a (t, st) = (Ok (ExclusiveGuard g), (t, st))"
    using Some by (simp add: transaction_get_page_def on_fst_def prog_simps bindp_def)
  then show ?thesis
    using s b cache_index(3) [OF i(1) m]
    by (intro exI [of _ "ExclusiveGuard g"] exI [of _ st]) (simp add: guard_read_def)
next
  case None
  note d = store_okD [OF s] and i = sessions_invD [OF store_okD(7) [OF s]]
  have so: "session_ok (map_of (indices (scache st))) ws t" by (rule open_okD(2) [OF i(4) h])
  have "a \<notin> fst ` set (tlocks t)" using None by (simp add: map_of_eq_None_iff)
  then have nw: "\<not> writes_page p h' a" for h'
    using so h(2) o by (cases "h' = h") (auto simp: session_ok_def writes_page_def)
  note r = session_fetch_room [OF s a nw]
  obtain ix where ix: "map_of (indices (scache st)) a = None \<longrightarrow> num_filled (buf (scache st)) < length (pages (buf (scache st)))
      \<and> locks (scache st) ! num_filled (buf (scache st)) = Unlocked
      \<and> dview (sphys st) a = Ok (ix, cur a) \<and> length (cur a) = PAGE_BODY_SIZE"
    using r(2) by (elim exE) (rule that)
  obtain g c1 ps' where g: "read_guard api a (scache st, sphys st) = (Ok g, (c1, ps'))" "dinv ps'" "dview ps' = dview (sphys st)"
      "fetched a g (cur a) (scache st) c1" "locks (scache st) ! g = Unlocked" "locks c1 = (locks (scache st))[g := SharedBy 1]"
    using read_guard_free [OF i(1) r(1) mp [OF ix] d(2) d(5) [OF a]] by blast
  let ?c = "c1\<lparr>locks := locks (scache st)\<rparr>" and ?st1 = "st\<lparr>scache := c1, sphys := ps'\<rparr>"
  have inv: "sessions_inv v A cur p ss (wlog (swal st)) ?c" by (rule inv_fetched [OF d(7) g(4) a r(3)])
  have m: "map_of (indices ?c) a = Some g" using fetchedD(2) [OF g(4)] by simp
  note ci = cache_index [OF sessions_invD(1) [OF inv] m]
  have "page_body (page_at g ?c) = apply_writes ws cur a" by (rule page_okD [OF sessions_invD(6) [OF inv m] h(2) o])
  moreover have "(locks (scache st))[g := Unlocked] = locks (scache st)" using g(5) by (metis list_update_id)
  then have "drop_read_guard g c1 = ?c" using g(6) ci(1) by (simp add: drop_read_guard_def set_lock_def)
  moreover have "transaction_get_page api a (t, st) = (Ok (SharedGuard g), (t, ?st1))"
    using None g(1) by (simp add: transaction_get_page_def on_fst_def on_snd_def on_pages_def prog_simps bindp_def)
  moreover have "store_ok dview dinv wlog winv A v cur p (ss, ?st1\<lparr>scache := ?c\<rparr>)"
    using d(1,3-6) g(2,3) inv fetchedD(4) [OF g(4)] unfolding store_ok_def by simp
  ultimately show ?thesis
    using ci(3) by (intro exI [of _ "SharedGuard g"] exI [of _ ?st1]) (simp add: guard_read_def page_at_def)
qed

lemma session_read_ok:
  assumes s: "store_ok dview dinv wlog winv A v cur p (ss, st)" and h: "ss h = Some t" "p h = Some ws"
    and a: "a \<in> A" and o: "\<And>h'. h' \<noteq> h \<Longrightarrow> \<not> writes_page p h' a"
  shows "\<exists>st'. trans_read api a off n (t, st) = (if off + n \<le> PAGE_BODY_SIZE then Ok (slice off n (apply_writes ws cur a)) else Panic, (t, st'))
    \<and> (off + n \<le> PAGE_BODY_SIZE \<longrightarrow> store_ok dview dinv wlog winv A v cur p (ss, st') \<and> swal st' = swal st \<and> enumerator st' = enumerator st)"
proof -
  obtain g st1 where g: "transaction_get_page api a (t, st) = (Ok g, (t, st1))"
      "page_read g off n (scache st1) = (if off + n \<le> PAGE_BODY_SIZE then Ok (slice off n (apply_writes ws cur a)) else Panic, scache st1)"
      "store_ok dview dinv wlog winv A v cur p (ss, st1\<lparr>scache := drop_page g (scache st1)\<rparr>)" "swal st1 = swal st" "enumerator st1 = enumerator st"
    using session_read [OF s h a o, of off n] by blast
  show ?thesis
    using g(2-5) by (auto simp: g(1) trans_read_def on_snd_def on_cache_def bindp_def prog_simps)
qed

lemma session_commit_ok:
  assumes s: "store_ok dview dinv wlog winv A v cur p (ss, st)" and h: "ss h = Some t" "p h = Some ws"
    and sz: "wsize (swal st) + 48 < 2 ^ 63"
  shows "\<exists>st'. transaction_commit wapi t st = (Ok (), st')
    \<and> store_ok dview dinv wlog winv A v (apply_writes ws cur) (p(h := None)) (ss(h := None), st')
    \<and> wsize (swal st') = wsize (swal st) + 48 \<and> enumerator st' = enumerator_end (enumerator st)
    \<and> (\<exists>i. wlog (swal st') = wlog (swal st) @ [(i, log_op_item (OpCommit (tid t)) (wlog (swal st)))])"
proof -
  note d = store_okD [OF s]
  obtain i w' where w': "wa_log_commit wapi (tid t) (swal st) = (Ok i, w')" "winv w'"
      "wlog w' = wlog (swal st) @ [(i, log_op_item (OpCommit (tid t)) (wlog (swal st)))]" "wsize w' = wsize (swal st) + 48"
    using wal_commit_ok [OF d(3), of "tid t"] sz by auto
  let ?st = "st\<lparr>swal := w', enumerator := enumerator_end (enumerator st), scache := release_locks t (scache st)\<rparr>"
  have "sessions_inv v A (apply_writes ws cur) (p(h := None)) (ss(h := None)) (wlog w') (release_locks t (scache st))"
    unfolding w'(3) by (rule inv_commit [OF d(7) h(2,1)])
  then have "store_ok dview dinv wlog winv A v (apply_writes ws cur) (p(h := None)) (ss(h := None), ?st)"
    using d(1,2,4-6) w'(2) unfolding store_ok_def by simp
  then show ?thesis using transaction_commit_run [OF w'(1)] w'(3,4) by (intro exI [of _ ?st]) simp
qed

end

lemma session_begin_ok:
  assumes s: "store_ok dview dinv wlog winv A v cur p (ss, st)" and h: "p h = None" and b: "storage_transaction st = (Ok t, st')"
  shows "store_ok dview dinv wlog winv A v cur (p(h \<mapsto> [])) (ss(h \<mapsto> t), st')" "swal st' = swal st"
proof -
  obtain i e where e: "enumerator_begin (enumerator st) = (i, e)" by force
  with b have "\<exists>n. t = transaction_new n \<and> st' = st\<lparr>enumerator := e\<rparr>"
    by (cases i) (auto simp: storage_transaction_def prog_simps bindp_def)
  then obtain n where n: "t = transaction_new n" "st' = st\<lparr>enumerator := e\<rparr>" by blast
  show "store_ok dview dinv wlog winv A v cur (p(h \<mapsto> [])) (ss(h \<mapsto> t), st')" "swal st' = swal st"
    using store_okD [OF s] inv_begin [OF store_okD(7) [OF s] h, of n] unfolding store_ok_def n by simp_all
qed

section \<open>Runs\<close>

fun event_pages :: "event \<Rightarrow> page_address set" where
  "event_pages (WriteEv h w) = {fst w}"
| "event_pages (ReadEv h a off bs) = {a}"
| "event_pages _ = {}"

fun event_ok :: "event \<Rightarrow> bool" where
  "event_ok (WriteEv h w) = page_write_ok w"
| "event_ok (ReadEv h a off bs) = wf_page_address a"
| "event_ok _ = True"

text \<open>The bytes that an event adds to the log.\<close>

fun event_len :: "event \<Rightarrow> nat" where
  "event_len (WriteEv h w) = 58 + 2 * length (snd (snd w))"
| "event_len (CommitEv h) = 48"
| "event_len _ = 0"

definition pages_of :: "event list \<Rightarrow> page_address set" where
  "pages_of es = (\<Union>e \<in> set es. event_pages e)"

lemma pages_of_facts:
  "finite (pages_of es)" "pages_of (es @ [e]) = pages_of es \<union> event_pages e"
  "list_all event_ok es \<Longrightarrow> a \<in> pages_of es \<Longrightarrow> wf_page_address a"
proof -
  have "finite (event_pages e)" for e by (cases e) simp_all
  then show "finite (pages_of es)" by (simp add: pages_of_def)
  show "pages_of (es @ [e]) = pages_of es \<union> event_pages e" by (auto simp: pages_of_def)
  assume "list_all event_ok es" "a \<in> pages_of es"
  then obtain e where "event_ok e" "a \<in> event_pages e" by (auto simp: pages_of_def list_all_iff)
  then show "wf_page_address a" by (cases e) (auto simp: page_write_ok_def)
qed

text \<open>What a read returns: the committed contents of the page with the session's own writes.\<close>

definition read_value :: "(page_address \<Rightarrow> byte list) \<Rightarrow> event list \<Rightarrow> nat \<Rightarrow> page_address \<Rightarrow> byte list" where
  "read_value base es h a = apply_writes (case open_session es h of None \<Rightarrow> [] | Some ws \<Rightarrow> ws) (apply_writes (serial_writes es) base) a"

definition held_by_other :: "event list \<Rightarrow> nat \<Rightarrow> page_address \<Rightarrow> bool" where
  "held_by_other es h a \<longleftrightarrow> (\<exists>h' ws. h' \<noteq> h \<and> open_session es h' = Some ws \<and> a \<in> fst ` set ws)"

text \<open>
  When an event can happen after others: a session that is not open can begin, an open one can write
  or read a page that no other session has written, and commit. A read says what it returns.
\<close>

fun enabled :: "(page_address \<Rightarrow> byte list) \<Rightarrow> event list \<Rightarrow> event \<Rightarrow> bool" where
  "enabled base es (BeginEv h) \<longleftrightarrow> open_session es h = None"
| "enabled base es (WriteEv h w) \<longleftrightarrow> open_session es h \<noteq> None \<and> \<not> held_by_other es h (fst w)"
| "enabled base es (ReadEv h a off bs) \<longleftrightarrow> open_session es h \<noteq> None \<and> \<not> held_by_other es h a
     \<and> off + length bs \<le> PAGE_BODY_SIZE \<and> bs = slice off (length bs) (read_value base es h a)"
| "enabled base es (CommitEv h) \<longleftrightarrow> open_session es h \<noteq> None"

definition admissible :: "(page_address \<Rightarrow> byte list) \<Rightarrow> event list \<Rightarrow> bool" where
  "admissible base es \<longleftrightarrow> (\<forall>i < length es. enabled base (take i es) (es ! i))"

lemma admissible_snoc: "admissible base []" "admissible base (es @ [e]) \<longleftrightarrow> admissible base es \<and> enabled base es e"
  by (auto simp: admissible_def nth_append less_Suc_eq)

lemma storage_transaction_count:
  "storage_transaction st = (Ok t, st') \<Longrightarrow>
    unat (num_transactions (enumerator st')) = Suc (unat (num_transactions (enumerator st)))"
  "Suc (unat (num_transactions (enumerator st))) < 2 ^ 64 \<Longrightarrow> \<exists>t st'. storage_transaction st = (Ok t, st')"
  by (auto simp: storage_transaction_def enumerator_begin_def prog_simps bindp_def split: option.splits dest: checked_add_Some)
    (simp add: checked_add_def)

lemma enumerator_end_count: "unat (num_transactions (enumerator_end e)) \<le> unat (num_transactions e)"
  by (auto simp: enumerator_end_def saturating_sub_def unat_sub_if' not_less_eq_eq unat_eq_zero)

lemma held_by_other_iff: "held_by_other es h a \<longleftrightarrow> (\<exists>h'. h' \<noteq> h \<and> writes_page (snd (history es)) h' a)"
  by (auto simp: held_by_other_def writes_page_def open_session_def)

context transactional_store begin

lemma step_ok:
  assumes st: "ev_step api wapi (ss, st) e (ss', st')"
    and s: "store_ok dview dinv wlog winv A v (apply_writes (serial_writes es) base) (snd (history es)) (ss, st)"
    and e: "event_ok e" "event_pages e \<subseteq> A" and sz: "wsize (swal st) + event_len e < 2 ^ 63"
  shows "store_ok dview dinv wlog winv A v (apply_writes (serial_writes (es @ [e])) base) (snd (history (es @ [e]))) (ss', st')
    \<and> wsize (swal st') = wsize (swal st) + event_len e
    \<and> unat (num_transactions (enumerator st')) \<le> Suc (unat (num_transactions (enumerator st))) \<and> enabled base es e"
proof -
  obtain dn p where hs: "history es = (dn, p)" by force
  have s': "store_ok dview dinv wlog winv A v (apply_writes dn base) p (ss, st)" using s hs by (simp add: serial_writes_def)
  note oo = open_okD [OF sessions_invD(4) [OF store_okD(7) [OF s']]]
  show ?thesis
  proof (cases e)
    case (BeginEv h)
    then obtain t where t: "ss h = None" "storage_transaction st = (Ok t, st')" "ss' = ss(h \<mapsto> t)"
      using st by (auto elim: ev_stepE)
    then have "p h = None" using oo(1) by simp
    from session_begin_ok [OF s' this t(2)] this show ?thesis
      using t storage_transaction_count(1) [OF t(2)] BeginEv hs by (simp add: serial_writes_def open_session_def)
  next
    case (WriteEv h w)
    obtain a off bs where w: "w = (a, off, bs)" by (cases w)
    obtain t t' where t: "ss h = Some t" "trans_write api wapi (a, off, bs) (t, st) = (Ok (), (t', st'))" "ss' = ss(h \<mapsto> t')"
      using st unfolding WriteEv w by (auto elim: ev_stepE simp del: trans_write.simps)
    then obtain ws where ws: "p h = Some ws" using oo(1) [of h] by auto
    have o: "\<not> writes_page p h' a" if "h' \<noteq> h" for h'
      using session_waits(1) [OF s' t(1) ws _ that, of a off bs] t(2) by auto
    have b: "a \<in> A" "page_write_ok (a, off, bs)" "wsize (swal st) + 58 + 2 * length bs < 2 ^ 63"
      using e sz WriteEv w by simp_all
    obtain t1 st1 where "trans_write api wapi (a, off, bs) (t, st) = (Ok (), (t1, st1))"
        "store_ok dview dinv wlog winv A v (apply_writes dn base) (p(h \<mapsto> ws @ [(a, off, bs)])) (ss(h \<mapsto> t1), st1)"
        "wsize (swal st1) = wsize (swal st) + 58 + 2 * length bs" "enumerator st1 = enumerator st"
      using session_write_ok [OF s' t(1) ws b(1,2) o b(3)] by blast
    then show ?thesis
      using t(2,3) WriteEv w ws hs o
      by (auto simp: serial_writes_def open_session_def held_by_other_iff simp del: trans_write.simps)
  next
    case (ReadEv h a off bs)
    obtain t t' where t: "ss h = Some t" "trans_read api a off (length bs) (t, st) = (Ok bs, (t', st'))" "ss' = ss(h \<mapsto> t')"
      using st unfolding ReadEv by (auto elim: ev_stepE)
    then obtain ws where ws: "p h = Some ws" using oo(1) [of h] by auto
    have o: "\<not> writes_page p h' a" if "h' \<noteq> h" for h'
      using session_waits(2) [OF s' t(1) ws _ that, of a off "length bs"] t(2) by auto
    have b: "a \<in> A" using e ReadEv by simp
    obtain st1 where "trans_read api a off (length bs) (t, st) = (if off + length bs \<le> PAGE_BODY_SIZE
          then Ok (slice off (length bs) (apply_writes ws (apply_writes dn base) a)) else Panic, (t, st1))"
        "off + length bs \<le> PAGE_BODY_SIZE \<longrightarrow> store_ok dview dinv wlog winv A v (apply_writes dn base) p (ss, st1)
          \<and> swal st1 = swal st \<and> enumerator st1 = enumerator st"
      using session_read_ok [OF s' t(1) ws b o, of off "length bs"] by blast
    then have r: "bs = slice off (length bs) (apply_writes ws (apply_writes dn base) a)" "t' = t" "off + length bs \<le> PAGE_BODY_SIZE"
        "store_ok dview dinv wlog winv A v (apply_writes dn base) p (ss, st')" "swal st' = swal st" "enumerator st' = enumerator st"
      using t(2) by (auto split: if_splits)
    moreover have "ss' = ss" using t(1,3) r(2) by (simp add: fun_upd_idem)
    ultimately show ?thesis
      using o ReadEv ws hs by (auto simp: serial_writes_def read_value_def open_session_def held_by_other_iff)
  next
    case (CommitEv h)
    obtain t where t: "ss h = Some t" "transaction_commit wapi t st = (Ok (), st')" "ss' = ss(h := None)"
      using st unfolding CommitEv by (auto elim: ev_stepE)
    then obtain ws where ws: "p h = Some ws" using oo(1) [of h] by auto
    have z: "wsize (swal st) + 48 < 2 ^ 63" using sz CommitEv by simp
    from session_commit_ok [OF s' t(1) ws z] show ?thesis
      using t(2,3) CommitEv ws hs enumerator_end_count [of "enumerator st"]
      by (auto simp: serial_writes_def apply_writes_append open_session_def)
  qed
qed

text \<open>What is enabled happens.\<close>

lemma step_exists:
  assumes s: "store_ok dview dinv wlog winv A v (apply_writes (serial_writes es) base) (snd (history es)) (ss, st)"
    and e: "event_ok e" "event_pages e \<subseteq> A" and sz: "wsize (swal st) + event_len e < 2 ^ 63"
    and n: "Suc (unat (num_transactions (enumerator st))) < 2 ^ 64" and en: "enabled base es e"
  shows "\<exists>s'. ev_step api wapi (ss, st) e s'"
proof -
  obtain dn p where hs: "history es = (dn, p)" by force
  have s': "store_ok dview dinv wlog winv A v (apply_writes dn base) p (ss, st)" using s hs by (simp add: serial_writes_def)
  note oo = open_okD [OF sessions_invD(4) [OF store_okD(7) [OF s']]]
  have op: "open_session es h = p h" for h by (simp add: open_session_def hs)
  have o: "\<not> writes_page p h' a" if "\<not> held_by_other es h a" "h' \<noteq> h" for h h' a
    using that by (auto simp: held_by_other_iff hs)
  have two: "\<exists>t ws. ss h = Some t \<and> p h = Some ws" if "open_session es h \<noteq> None" for h
    using that oo(1) [of h] unfolding op by auto
  show ?thesis
  proof (cases e)
    case (BeginEv h)
    then have "ss h = None" using en oo(1) op by simp
    moreover obtain t st' where "storage_transaction st = (Ok t, st')" using storage_transaction_count(2) [OF n] by blast
    ultimately show ?thesis unfolding BeginEv by (intro exI) (rule begin_step)
  next
    case (WriteEv h w)
    obtain a off bs where w: "w = (a, off, bs)" by (cases w)
    obtain t ws where t: "ss h = Some t" "p h = Some ws" using two [of h] en WriteEv by auto
    have b: "a \<in> A" "page_write_ok (a, off, bs)" "wsize (swal st) + 58 + 2 * length bs < 2 ^ 63" "\<not> held_by_other es h a"
      using e sz en WriteEv w by simp_all
    obtain t' st' where "trans_write api wapi (a, off, bs) (t, st) = (Ok (), (t', st'))"
      using session_write_ok [OF s' t b(1,2) o [OF b(4)] b(3)] by blast
    then show ?thesis unfolding WriteEv w using write_step [of ss h t, OF t(1)] by blast
  next
    case (ReadEv h a off bs)
    obtain t ws where t: "ss h = Some t" "p h = Some ws" using two [of h] en ReadEv by auto
    have b: "a \<in> A" "\<not> held_by_other es h a" "off + length bs \<le> PAGE_BODY_SIZE"
        "bs = slice off (length bs) (apply_writes ws (apply_writes dn base) a)"
      using e en t(2) ReadEv by (simp_all add: read_value_def op serial_writes_def hs)
    have "\<exists>st'. trans_read api a off (length bs) (t, st) = (Ok bs, (t, st'))"
      using session_read_ok [OF s' t b(1) o [OF b(2)], of off "length bs"] b(3,4) by auto
    then show ?thesis unfolding ReadEv using read_step [of ss h t, OF t(1)] by blast
  next
    case (CommitEv h)
    obtain t ws where t: "ss h = Some t" "p h = Some ws" using two [of h] en CommitEv by auto
    have "wsize (swal st) + 48 < 2 ^ 63" using sz CommitEv by simp
    from session_commit_ok [OF s' t this] show ?thesis unfolding CommitEv using commit_step [of ss h t, OF t(1)] by blast
  qed
qed

lemma run_ok:
  assumes "ev_run api wapi (Map.empty, st0) es s" and "store_ok dview dinv wlog winv A v base Map.empty (Map.empty, st0)"
    and "list_all event_ok es" and "pages_of es \<subseteq> A" and "wsize (swal st0) + sum_list (map event_len es) < 2 ^ 63"
  shows "store_ok dview dinv wlog winv A v (apply_writes (serial_writes es) base) (snd (history es)) s
    \<and> wsize (swal (snd s)) = wsize (swal st0) + sum_list (map event_len es)
    \<and> unat (num_transactions (enumerator (snd s))) \<le> length es + unat (num_transactions (enumerator st0)) \<and> admissible base es"
  using assms
proof (induction "(Map.empty :: nat \<rightharpoonup> transaction, st0)" es s rule: ev_run.induct)
  case no_event
  then show ?case by (simp add: serial_writes_def admissible_snoc)
next
  case (one_more_event es s1 e s2)
  obtain ss st where s1: "s1 = (ss, st)" by (cases s1)
  obtain ss' st' where s2: "s2 = (ss', st')" by (cases s2)
  have p: "event_ok e" "event_pages e \<subseteq> A" using one_more_event.prems by (simp_all add: pages_of_facts)
  have ih: "store_ok dview dinv wlog winv A v (apply_writes (serial_writes es) base) (snd (history es)) (ss, st)"
      "wsize (swal st) = wsize (swal st0) + sum_list (map event_len es)"
      "unat (num_transactions (enumerator st)) \<le> length es + unat (num_transactions (enumerator st0))" "admissible base es"
    using one_more_event by (simp_all add: pages_of_facts s1)
  have "wsize (swal st) + event_len e < 2 ^ 63" using one_more_event.prems(4) ih(2) by simp
  from step_ok [OF one_more_event.hyps(3) [unfolded s1 s2] ih(1) p this] show ?case
    using ih(2-4) by (simp add: s2 admissible_snoc)
qed

lemma run_exists:
  assumes "store_ok dview dinv wlog winv A v base Map.empty (Map.empty, st0)"
    and "list_all event_ok es" and "pages_of es \<subseteq> A" and "wsize (swal st0) + sum_list (map event_len es) < 2 ^ 63"
    and "length es + unat (num_transactions (enumerator st0)) < 2 ^ 64" and "admissible base es"
  shows "\<exists>s. ev_run api wapi (Map.empty, st0) es s"
  using assms
proof (induction es rule: rev_induct)
  case Nil
  then show ?case using no_event by blast
next
  case (snoc e es)
  have p: "event_ok e" "event_pages e \<subseteq> A" using snoc.prems by (simp_all add: pages_of_facts)
  obtain ss st where r: "ev_run api wapi (Map.empty, st0) es (ss, st)" using snoc by (auto simp: pages_of_facts admissible_snoc)
  have i: "store_ok dview dinv wlog winv A v (apply_writes (serial_writes es) base) (snd (history es)) (ss, st)"
      "wsize (swal st) = wsize (swal st0) + sum_list (map event_len es)"
      "unat (num_transactions (enumerator st)) \<le> length es + unat (num_transactions (enumerator st0))"
    using run_ok [OF r snoc.prems(1)] snoc.prems by (simp_all add: pages_of_facts)
  have z: "wsize (swal st) + event_len e < 2 ^ 63" "Suc (unat (num_transactions (enumerator st))) < 2 ^ 64" "enabled base es e"
    using snoc.prems i by (simp_all add: admissible_snoc)
  obtain s' where "ev_step api wapi (ss, st) e s'" using step_exists [OF i(1) p z] by blast
  then show ?case using one_more_event [OF r] by blast
qed

text \<open>When nothing is open, flushing puts the committed contents into the storage.\<close>

lemma flush_all_ok:
  assumes s: "store_ok dview dinv wlog winv A v cur Map.empty (ss, st)"
  shows "\<exists>st'. storage_flush_sync api st = (Ok (), st') \<and> (\<forall>a \<in> A. \<exists>ix. dview (sphys st') a = Ok (ix, cur a))
    \<and> (\<forall>a. a \<notin> A \<longrightarrow> dview (sphys st') a = v a)"
proof -
  let ?c = "scache st"
  note d = store_okD [OF s] and i = sessions_invD [OF store_okD(7) [OF s]]
  have nw: "\<not> writes_page Map.empty h a" for h a by (simp add: writes_page_def)
  have u: "all_unlocked ?c"
    unfolding all_unlocked_def
  proof
    fix l assume "l \<in> set (locks ?c)"
    then obtain j where j: "j < length (locks ?c)" "l = locks ?c ! j" by (auto simp: in_set_conv_nth)
    show "l = Unlocked"
    proof (cases "num_filled (buf ?c) \<le> j")
      case True
      then show ?thesis using locks_okD(3) [OF i(3)] j by simp
    next
      case False
      then have "j \<in> snd ` set (indices ?c)" using i(1) by (simp add: cache_inv_def)
      then obtain a where "(a, j) \<in> set (indices ?c)" by force
      then have "map_of (indices ?c) a = Some j" using i(1) by (simp add: cache_inv_def distinct_keys_def)
      then show ?thesis using locks_okD(2) [OF i(3)] nw j by simp
    qed
  qed
  have "wal_offset (page_at j ?c) \<noteq> 0" if "map_of (indices ?c) a = Some j" "is_dirty (page_at j ?c)" for a j
    using i(6) [OF that(1)] that(2) by (simp add: page_ok_def logged_page_def)
  then have fl: "flushable ?c" by (auto simp: flushable_def dirty_of_mem)
  have dist: "distinct (dirty_list ?c)" using i(1,2) by (simp add: cache_inv_def distinct_keys_def)
  have wf: "\<forall>a \<in> set (dirty_list ?c). wf_page_address a"
  proof
    fix a assume "a \<in> set (dirty_list ?c)"
    then have "a \<in> keys_of (indices ?c)" using i(2) by simp
    then have "\<exists>j. map_of (indices ?c) a = Some j" by (rule iffD1 [OF keys_of_map_of])
    then show "wf_page_address a" using i(5) d(5) by blast
  qed
  obtain ps' where ps': "cache_flush api (?c, sphys st) = (Ok (), (flushed ?c, ps'))" "dview ps' = flush_view ?c v"
    using flush_ok [OF i(1) u fl dist wf d(2)] d(1) by blast
  have "\<exists>ix. dview ps' a = Ok (ix, cur a)" if a: "a \<in> A" for a
  proof (cases "map_of (indices ?c) a")
    case None
    then show ?thesis using i(7) [OF a None] by (simp add: ps'(2) flush_view_def uncached_ok_def)
  next
    case (Some j)
    have "a \<in> keys_of (indices ?c)" by (rule iffD2 [OF keys_of_map_of], rule exI, rule Some)
    then have "a \<in> set (dirty_list ?c)" using i(2) by simp
    then show ?thesis using i(6) [OF Some] Some nw by (auto simp: ps'(2) flush_view_def page_ok_def Let_def)
  qed
  moreover have "dview ps' a = v a" if a: "a \<notin> A" for a
    using i(5) [of a] a by (auto simp: ps'(2) flush_view_def split: option.split)
  ultimately show ?thesis
    using ps'(1) by (intro exI [of _ "st\<lparr>scache := flushed ?c, sphys := ps'\<rparr>"]) (simp add: storage_flush_sync_def on_pages_def)
qed

end

section \<open>Sessions on a new storage\<close>

text \<open>
  A schedule fits a new storage: its pages are readable and all fit in the cache, every write fits its
  page and one log record, and all records together fit in the log.
\<close>

definition sessions_fit :: "(byte list \<Rightarrow> u16) \<Rightarrow> database_folder \<Rightarrow> nat \<Rightarrow> nat \<Rightarrow> event list \<Rightarrow> (page_address \<Rightarrow> byte list) \<Rightarrow> bool" where
  "sessions_fit crc16 d n cs es base \<longleftrightarrow> folder_ok d \<and> folder_segments_ok d \<and> 0 < n \<and> BUFFERED_PAGE_SIZE \<le> cs
     \<and> BUFFERED_PAGE_SIZE * card (pages_of es) \<le> cs \<and> list_all event_ok es
     \<and> (\<forall>a \<in> pages_of es. (\<exists>ix. storage_view crc16 (physical_storage_new d n) a = Ok (ix, base a)) \<and> length (base a) = PAGE_BODY_SIZE)
     \<and> 2 ^ 17 + sum_list (map event_len es) < 2 ^ 63 \<and> length es < 2 ^ 64"

lemma new_store_ok:
  assumes f: "sessions_fit crc16 d n cs es base" and c: "page_storage_create crc32 n cs k m d = Ok st"
  shows "store_ok (storage_view crc16) sound_storage (full_log (wal_entries crc32)) (ready_at crc32 (folder (swal st))) (pages_of es)
      (storage_view crc16 (physical_storage_new d n)) base Map.empty (Map.empty, st)"
    "log_size (wal_file_impl crc32) (swal st) + sum_list (map event_len es) < 2 ^ 63"
    "length es + unat (num_transactions (enumerator st)) < 2 ^ 64"
    "\<exists>bs. wal_dir (folder (swal st)) = [(wal_file_name 0, RegularFile bs)]" "full_log (wal_entries crc32) (swal st) = fresh_log"
    "next_id (enumerator st) = 0"
proof -
  have a: "folder_ok d" "folder_segments_ok d" "0 < n" "BUFFERED_PAGE_SIZE \<le> cs" "BUFFERED_PAGE_SIZE * card (pages_of es) \<le> cs"
      "list_all event_ok es" "2 ^ 17 + sum_list (map event_len es) < 2 ^ 63" "length es < 2 ^ 64"
    and v: "\<forall>a \<in> pages_of es. (\<exists>ix. storage_view crc16 (physical_storage_new d n) a = Ok (ix, base a)) \<and> length (base a) = PAGE_BODY_SIZE"
    using f by (simp_all add: sessions_fit_def)
  obtain w bs where w: "st = page_storage_new (physical_storage_new d n) (page_cache_new cs k) w" "ready_at crc32 (folder w) w"
      "log_size (wal_file_impl crc32) w = log_start + 40" "wal_dir (folder w) = [(wal_file_name 0, RegularFile bs)]"
      "full_log (wal_entries crc32) w = fresh_log"
    using create_at [OF a(1), of crc32 n cs k m] c by auto
  let ?c = "page_cache_new cs k"
  have cf: "indices ?c = []" "dirty_list ?c = []" "length (pages (buf ?c)) = cs div BUFFERED_PAGE_SIZE"
      "\<forall>j < length (pages (buf ?c)). \<not> is_dirty (page_at j ?c)"
    by (simp_all add: page_cache_new_def Let_def page_buffer_new_def page_at_def zeroed_page_def is_dirty_def)
  have i: "sessions_inv (storage_view crc16 (physical_storage_new d n)) (pages_of es) base Map.empty Map.empty
      (full_log (wal_entries crc32) w) ?c"
    by (rule inv_new [OF cache_inv_new [OF a(4)] cf(1,2) all_unlocked_new cf(4) v])
  have "0 < BUFFERED_PAGE_SIZE" by (simp add: BUFFERED_PAGE_SIZE_def HEADER_SIZE_def)
  then have "card (pages_of es) \<le> length (pages (buf ?c))"
    unfolding cf(3) using a(5) by (simp add: less_eq_div_iff_mult_less_eq mult.commute)
  then show "store_ok (storage_view crc16) sound_storage (full_log (wal_entries crc32)) (ready_at crc32 (folder (swal st))) (pages_of es)
      (storage_view crc16 (physical_storage_new d n)) base Map.empty (Map.empty, st)"
    unfolding store_ok_def w(1) using i w(2) sound_storage_new [OF a(2,3)] pages_of_facts(1,3) a(6)
    by (simp add: page_storage_new_def)
  show "log_size (wal_file_impl crc32) (swal st) + sum_list (map event_len es) < 2 ^ 63"
    unfolding w(1) using a(7) log_start_less by (simp add: page_storage_new_def w(3))
  show "length es + unat (num_transactions (enumerator st)) < 2 ^ 64"
    unfolding w(1) using a(8) by (simp add: page_storage_new_def enumerator_new_def)
  show "\<exists>bs. wal_dir (folder (swal st)) = [(wal_file_name 0, RegularFile bs)]" "full_log (wal_entries crc32) (swal st) = fresh_log"
    "next_id (enumerator st) = 0"
    unfolding w(1) using w(4,5) by (simp_all add: page_storage_new_def enumerator_new_def)
qed

lemma run_store_ok:
  assumes "sessions_fit crc16 d n cs es base" and "page_storage_create crc32 n cs k m d = Ok st"
    and "ev_run (physical_impl crc16) (wal_impl (wal_file_impl crc32)) (Map.empty, st) es (ss, st')"
  shows "store_ok (storage_view crc16) sound_storage (full_log (wal_entries crc32)) (ready_at crc32 (folder (swal st))) (pages_of es)
      (storage_view crc16 (physical_storage_new d n)) (apply_writes (serial_writes es) base) (snd (history es)) (ss, st')"
    "admissible base es" "ss h = None \<longleftrightarrow> open_session es h = None"
proof -
  have "list_all event_ok es" using assms(1) by (simp add: sessions_fit_def)
  then show s: "store_ok (storage_view crc16) sound_storage (full_log (wal_entries crc32)) (ready_at crc32 (folder (swal st))) (pages_of es)
      (storage_view crc16 (physical_storage_new d n)) (apply_writes (serial_writes es) base) (snd (history es)) (ss, st')"
    and "admissible base es"
    using tstore_at.run_ok [OF assms(3) new_store_ok(1) [OF assms(1,2)] _ subset_refl new_store_ok(2) [OF assms(1,2)]] by blast+
  show "ss h = None \<longleftrightarrow> open_session es h = None"
    using open_okD(1) [OF sessions_invD(4) [OF store_okD(7) [OF s]]] by (simp add: open_session_def)
qed

text \<open>
  C3: Which interleavings of transactions are possible on a new storage. A schedule of sessions that
  begin, write, read and commit in any order runs to its end if and only if no session touches a page
  that another open session has written, and every read returns the page as the committed transactions
  left it, one after the other in the order of their commits, with the reader's own writes applied: a
  transaction never sees what another has not committed, and nothing but a held page makes it wait.
\<close>

theorem schedule_runs_iff_admissible:
  assumes "sessions_fit crc16 d n cs es base"
  shows "(\<exists>st s. page_storage_create crc32 n cs k m d = Ok st
      \<and> ev_run (physical_impl crc16) (wal_impl (wal_file_impl crc32)) (Map.empty, st) es s) \<longleftrightarrow> admissible base es"
proof
  assume "\<exists>st s. page_storage_create crc32 n cs k m d = Ok st
      \<and> ev_run (physical_impl crc16) (wal_impl (wal_file_impl crc32)) (Map.empty, st) es s"
  then show "admissible base es" using run_store_ok(2) [OF assms] by (metis surj_pair)
next
  assume ad: "admissible base es"
  have ev: "list_all event_ok es" and d: "folder_ok d" using assms by (simp_all add: sessions_fit_def)
  obtain st where st: "page_storage_create crc32 n cs k m d = Ok st" using create_ok [OF d, of crc32 n cs k m] by blast
  show "\<exists>st s. page_storage_create crc32 n cs k m d = Ok st
      \<and> ev_run (physical_impl crc16) (wal_impl (wal_file_impl crc32)) (Map.empty, st) es s"
    using tstore_at.run_exists [OF new_store_ok(1) [OF assms st] ev subset_refl new_store_ok(2,3) [OF assms st] ad] st by blast
qed

text \<open>
  C4: Interleaved transactions have the effect of a serial execution. When every transaction of a
  schedule on a new storage has committed, a flush succeeds, and then the physical storage holds, for
  each page of the schedule, what the transactions write when they are executed one after the other in
  the order of their commits; all other pages are unchanged.
\<close>

theorem interleaved_transactions_serialize:
  assumes "sessions_fit crc16 d n cs es base" and "page_storage_create crc32 n cs k m d = Ok st"
    and "ev_run (physical_impl crc16) (wal_impl (wal_file_impl crc32)) (Map.empty, st) es (Map.empty, st')"
  shows "\<exists>st''. storage_flush_sync (physical_impl crc16) st' = (Ok (), st'')
    \<and> (\<forall>a \<in> pages_of es. \<exists>ix. storage_view crc16 (sphys st'') a = Ok (ix, apply_writes (serial_writes es) base a))
    \<and> (\<forall>a. a \<notin> pages_of es \<longrightarrow> storage_view crc16 (sphys st'') a = storage_view crc16 (physical_storage_new d n) a)"
proof -
  note s = run_store_ok(1) [OF assms]
  have "snd (history es) = Map.empty"
    using run_store_ok(3) [OF assms] by (simp add: open_session_def fun_eq_iff)
  with s show ?thesis using tstore_at.flush_all_ok by simp
qed

text \<open>
  C12: Nobody gets at a page that an open transaction has written. After any schedule on a new storage,
  a session that wants to write or read a page written by another open session waits; so two sessions
  that each want a page of the other wait for each other, and nothing ends that.
\<close>

theorem written_page_is_exclusive:
  assumes "sessions_fit crc16 d n cs es base" and "page_storage_create crc32 n cs k m d = Ok st"
    and "ev_run (physical_impl crc16) (wal_impl (wal_file_impl crc32)) (Map.empty, st) es (ss, st')"
    and "ss h = Some t" and "held_by_other es h a"
  shows "fst (trans_write (physical_impl crc16) (wal_impl (wal_file_impl crc32)) (a, off, bs) (t, st')) = Stuck
    \<and> fst (trans_read (physical_impl crc16) a i j (t, st')) = Stuck"
proof -
  note s = run_store_ok(1) [OF assms(1-3)]
  obtain ws where ws: "snd (history es) h = Some ws"
    using run_store_ok(3) [OF assms(1-3), of h] assms(4) by (auto simp: open_session_def)
  obtain h' where "writes_page (snd (history es)) h' a" "h' \<noteq> h" using assms(5) by (auto simp: held_by_other_iff)
  then show ?thesis using tstore_at.session_waits [OF s assms(4) ws] by blast
qed

text \<open>
  Two transactions that write one page each; the first reads its own write, and the other's after that
  has committed.
\<close>

definition demo_open :: "event list" where
  "demo_open = [BeginEv 0, BeginEv 1, WriteEv 0 (PageAddress 69 420, 25, [1, 2, 3, 4]), WriteEv 1 (PageAddress 69 421, 0, [9])]"

definition demo_schedule :: "event list" where
  "demo_schedule = demo_open @ [ReadEv 0 (PageAddress 69 420) 25 [1, 2, 3, 4], CommitEv 1, ReadEv 0 (PageAddress 69 421) 0 [9], CommitEv 0]"

lemma demo_pages: "pages_of demo_open = {PageAddress 69 420, PageAddress 69 421}" "pages_of demo_schedule = {PageAddress 69 420, PageAddress 69 421}"
  by (auto simp: pages_of_def demo_open_def demo_schedule_def)

lemma demo_fits:
  "sessions_fit (\<lambda>_. 0) empty_folder 1 (2 * BUFFERED_PAGE_SIZE) demo_open demo_base"
  "sessions_fit (\<lambda>_. 0) empty_folder 1 (2 * BUFFERED_PAGE_SIZE) demo_schedule demo_base"
  using empty_folder_ok empty_segments_ok
  by (simp_all add: sessions_fit_def demo_pages storage_view_empty, simp_all add: demo_open_def demo_schedule_def page_write_ok_def
      wf_page_address_def page_body_size_value)

lemma demo_admissible: "admissible demo_base demo_open" "admissible demo_base demo_schedule"
proof -
  have r: "slice 25 (Suc (Suc (Suc (Suc 0)))) (patch 25 [1, 2, 3, 4] (replicate PAGE_BODY_SIZE 0)) = ([1, 2, 3, 4] :: byte list)"
    using slice_patch_same [of 25 "[1, 2, 3, 4] :: byte list" "replicate PAGE_BODY_SIZE 0"] by (simp add: page_body_size_value)
  have r': "slice 0 (Suc 0) (patch 0 [9] (replicate PAGE_BODY_SIZE 0)) = ([9] :: byte list)"
    using slice_patch_same [of 0 "[9] :: byte list" "replicate PAGE_BODY_SIZE 0"] by (simp add: page_body_size_value)
  note ev = admissible_def history_def held_by_other_def open_session_def read_value_def serial_writes_def All_less_Suc
  show "admissible demo_base demo_open" by (simp add: ev demo_open_def)
  show "admissible demo_base demo_schedule"
    using r r' by (simp add: ev demo_open_def demo_schedule_def page_body_size_value)
qed

theorem schedule_runs_iff_admissible_witness:
  "\<exists>st s. page_storage_create (\<lambda>_. 0) 1 (2 * BUFFERED_PAGE_SIZE) 1 100 empty_folder = Ok st
    \<and> ev_run (physical_impl (\<lambda>_. 0)) (wal_impl (wal_file_impl (\<lambda>_. 0))) (Map.empty, st) demo_schedule s"
  using schedule_runs_iff_admissible [OF demo_fits(2), of "\<lambda>_. 0" 1 100] demo_admissible(2) by (rule iffD2)

lemma demo_run:
  assumes "es = demo_open \<or> es = demo_schedule"
  shows "\<exists>st ss st'. page_storage_create (\<lambda>_. 0) 1 (2 * BUFFERED_PAGE_SIZE) 1 100 empty_folder = Ok st
    \<and> ev_run (physical_impl (\<lambda>_. 0)) (wal_impl (wal_file_impl (\<lambda>_. 0))) (Map.empty, st) es (ss, st')"
proof -
  have f: "sessions_fit (\<lambda>_. 0) empty_folder 1 (2 * BUFFERED_PAGE_SIZE) es demo_base" "admissible demo_base es"
    using assms demo_fits demo_admissible by auto
  obtain st where st: "page_storage_create (\<lambda>_. 0) 1 (2 * BUFFERED_PAGE_SIZE) 1 100 empty_folder = Ok st"
    using create_ok [OF empty_folder_ok, of "\<lambda>_. 0" 1 "2 * BUFFERED_PAGE_SIZE" 1 100] by blast
  have "list_all event_ok es" using f(1) by (simp add: sessions_fit_def)
  then show ?thesis
    using tstore_at.run_exists [OF new_store_ok(1) [OF f(1) st] _ subset_refl new_store_ok(2,3) [OF f(1) st] f(2)] st by auto
qed

theorem interleaved_transactions_serialize_witness:
  "\<exists>st st' st'' ix. page_storage_create (\<lambda>_. 0) 1 (2 * BUFFERED_PAGE_SIZE) 1 100 empty_folder = Ok st
    \<and> ev_run (physical_impl (\<lambda>_. 0)) (wal_impl (wal_file_impl (\<lambda>_. 0))) (Map.empty, st) demo_schedule (Map.empty, st')
    \<and> storage_flush_sync (physical_impl (\<lambda>_. 0)) st' = (Ok (), st'')
    \<and> storage_view (\<lambda>_. 0) (sphys st'') (PageAddress 69 420) = Ok (ix, patch 25 [1, 2, 3, 4] (replicate PAGE_BODY_SIZE 0))"
proof -
  obtain st ss st' where r: "page_storage_create (\<lambda>_. 0) 1 (2 * BUFFERED_PAGE_SIZE) 1 100 empty_folder = Ok st"
      "ev_run (physical_impl (\<lambda>_. 0)) (wal_impl (wal_file_impl (\<lambda>_. 0))) (Map.empty, st) demo_schedule (ss, st')"
    using demo_run [of demo_schedule] by blast
  have "open_session demo_schedule h = None" for h by (simp add: open_session_def history_def demo_schedule_def demo_open_def)
  then have "ss = Map.empty" using run_store_ok(3) [OF demo_fits(2) r] by (simp add: fun_eq_iff)
  then have r2: "ev_run (physical_impl (\<lambda>_. 0)) (wal_impl (wal_file_impl (\<lambda>_. 0))) (Map.empty, st) demo_schedule (Map.empty, st')"
    using r(2) by simp
  obtain st'' where f: "storage_flush_sync (physical_impl (\<lambda>_. 0)) st' = (Ok (), st'')"
      "\<forall>a \<in> pages_of demo_schedule. \<exists>ix. storage_view (\<lambda>_. 0) (sphys st'') a = Ok (ix, apply_writes (serial_writes demo_schedule) demo_base a)"
    using interleaved_transactions_serialize [OF demo_fits(2) r(1) r2] by blast
  have "apply_writes (serial_writes demo_schedule) demo_base (PageAddress 69 420) = patch 25 [1, 2, 3, 4] (replicate PAGE_BODY_SIZE 0)"
    by (simp add: serial_writes_def history_def demo_schedule_def demo_open_def)
  moreover have "PageAddress 69 420 \<in> pages_of demo_schedule" by (simp add: demo_pages)
  ultimately have "\<exists>ix. storage_view (\<lambda>_. 0) (sphys st'') (PageAddress 69 420) = Ok (ix, patch 25 [1, 2, 3, 4] (replicate PAGE_BODY_SIZE 0))"
    using f(2) by metis
  then show ?thesis using r(1) r2 f(1) by blast
qed

text \<open>Each of the two sessions wants the page of the other.\<close>

theorem written_page_is_exclusive_witness:
  "\<exists>st ss st' t u. page_storage_create (\<lambda>_. 0) 1 (2 * BUFFERED_PAGE_SIZE) 1 100 empty_folder = Ok st
    \<and> ev_run (physical_impl (\<lambda>_. 0)) (wal_impl (wal_file_impl (\<lambda>_. 0))) (Map.empty, st) demo_open (ss, st')
    \<and> ss 0 = Some t \<and> ss 1 = Some u
    \<and> fst (trans_write (physical_impl (\<lambda>_. 0)) (wal_impl (wal_file_impl (\<lambda>_. 0))) (PageAddress 69 421, 0, [5]) (t, st')) = Stuck
    \<and> fst (trans_write (physical_impl (\<lambda>_. 0)) (wal_impl (wal_file_impl (\<lambda>_. 0))) (PageAddress 69 420, 0, [5]) (u, st')) = Stuck"
proof -
  obtain st ss st' where r: "page_storage_create (\<lambda>_. 0) 1 (2 * BUFFERED_PAGE_SIZE) 1 100 empty_folder = Ok st"
      "ev_run (physical_impl (\<lambda>_. 0)) (wal_impl (wal_file_impl (\<lambda>_. 0))) (Map.empty, st) demo_open (ss, st')"
    using demo_run [of demo_open] by blast
  have o: "open_session demo_open 0 = Some [(PageAddress 69 420, 25, [1, 2, 3, 4])]" "open_session demo_open 1 = Some [(PageAddress 69 421, 0, [9])]"
    by (simp_all add: open_session_def history_def demo_open_def)
  then have "ss 0 \<noteq> None" "ss 1 \<noteq> None" using run_store_ok(3) [OF demo_fits(1) r] by simp_all
  then obtain t u where t: "ss 0 = Some t" "ss 1 = Some u" by blast
  have "held_by_other demo_open 0 (PageAddress 69 421)" "held_by_other demo_open 1 (PageAddress 69 420)"
    unfolding held_by_other_def using o by (force intro: exI [of _ 1], force intro: exI [of _ 0])
  then show ?thesis
    using written_page_is_exclusive [OF demo_fits(1) r t(1)] written_page_is_exclusive [OF demo_fits(1) r t(2)] r t by blast
qed

end
