(* ===== verification/Rollback.thy ===== *)
theory Rollback
  imports Transactions
begin

text \<open>
  What undoing a transaction leaves of its writes: the callback of undo on the pages that the
  transaction holds, and the whole way from its first write to the storage after a flush.
\<close>

section \<open>The last write in the log\<close>

lemma write_ops_snoc:
  "write_ops t (ws @ [(a, off, bs)]) cur = write_ops t ws cur @ [OpWrite \<lparr>wl_transaction_id = t, wl_page_address = a,
     wl_offset = off, wl_from = slice (unat off) (length bs) (apply_writes ws cur a), wl_to = bs\<rparr>]"
  by (induction ws arbitrary: cur) auto

lemma log_ops_extend_snocD:
  "log_ops_extend (xs @ [x]) l l' \<Longrightarrow> \<exists>l1 i. log_ops_extend xs l l1 \<and> l' = l1 @ [(i, log_op_item x l1)]"
proof (induction xs arbitrary: l)
  case (Cons y xs)
  then obtain i where "log_ops_extend (xs @ [x]) (l @ [(i, log_op_item y l)]) l'" by auto
  from Cons.IH [OF this] show ?case by (metis log_ops_extend.simps(2))
qed simp

lemma length_apply_writes:
  "list_all page_write_ok ws \<Longrightarrow> length (cur a) = PAGE_BODY_SIZE \<Longrightarrow> length (apply_writes ws cur a) = PAGE_BODY_SIZE"
proof (induction ws arbitrary: cur)
  case (Cons w ws)
  obtain b off bs where w: "w = (b, off, bs)" by (cases w)
  show ?case
    unfolding w apply_writes.simps by (rule Cons.IH) (use Cons.prems w in \<open>auto simp: page_write_ok_def\<close>)
qed simp

lemma apply_writes_snoc:
  "apply_writes (ws @ [(a, off, bs)]) cur = (apply_writes ws cur)(a := patch (unat off) bs (apply_writes ws cur a))"
  by (induction ws arbitrary: cur) auto

text \<open>Writing the old bytes back takes the last write away.\<close>

lemma unapply_last:
  assumes "unat off + length bs \<le> length (apply_writes ws cur a)"
  shows "(apply_writes (ws @ [(a, off, bs)]) cur)(a := patch (unat off) (slice (unat off) (length bs) (apply_writes ws cur a))
    (apply_writes (ws @ [(a, off, bs)]) cur a)) = apply_writes ws cur"
  using patch_patch_undo [OF assms] by (simp add: apply_writes_snoc)

lemma last_write_logged:
  assumes "log_ops_extend (write_ops t (ws @ [(a, off, bs)]) base) fresh_log l"
  shows "\<exists>i is d. open_writes t l = i # is \<and> (i, Write d) \<in> set l \<and> create_undo_log d = Some
    \<lparr>ul_transaction_id = t, ul_page_address = a, ul_offset = off, ul_to = slice (unat off) (length bs) (apply_writes ws base a)\<rparr>"
proof -
  obtain l1 i where l: "l = l1 @ [(i, log_op_item (OpWrite \<lparr>wl_transaction_id = t, wl_page_address = a,
      wl_offset = off, wl_from = slice (unat off) (length bs) (apply_writes ws base a), wl_to = bs\<rparr>) l1)]"
    using log_ops_extend_snocD [OF assms [unfolded write_ops_snoc]] by blast
  show ?thesis
    unfolding l by (auto simp: open_writes_snoc create_undo_log_def chain_data_def)
qed

section \<open>The callback of undo\<close>

text \<open>What the callback does to a page that the transaction holds.\<close>

definition undo_step :: "transaction \<Rightarrow> partial_write_op \<Rightarrow> page_cache \<times> 'ps \<Rightarrow> page_cache \<times> 'ps" where
  "undo_step t op s = (case map_of (tlocks t) (pw_page_address op) of
     None \<Rightarrow> s
   | Some g \<Rightarrow> (set_page g (written_page (pw_index op) (pw_offset op) (pw_buf op) (page_body (page_at g (fst s)))) (fst s), snd s))"

lemma undo_handler_run:
  assumes h: "trans_held cur t c" and a: "map_of (indices c) (pw_page_address op) = Some g"
    and b: "unat (pw_offset op) + length (pw_buf op) \<le> PAGE_BODY_SIZE"
  shows "undo_handler t op (c, ps) = (Ok (), undo_step t op (c, ps))"
proof -
  note hd = trans_heldD [OF h]
  note ix = cache_index [OF hd(1) a]
  have "map_of (tlocks t) (pw_page_address op) = Some g" using a hd(2) by simp
  then show ?thesis
    using guard_write_ok [OF ix(2)] ix(3) b by (simp add: undo_handler_def undo_step_def on_fst_def written_page_def)
qed

lemma transaction_undo_run:
  assumes "wa_undo wapi (tid t) (undo_handler t) (swal st, (scache st, sphys st)) = (Ok (), (w', (c, ps)))"
  shows "transaction_undo wapi t st = (Ok (), st\<lparr>swal := w', scache := release_locks t c, sphys := ps,
    enumerator := enumerator_end (enumerator st)\<rparr>)"
proof -
  have "release_locks (t\<lparr>completed := True\<rparr>) = release_locks t" by (simp add: release_locks_def fun_eq_iff)
  moreover have "on_wal_pages (wa_undo wapi (tid t) (undo_handler t)) st = (Ok (), st\<lparr>swal := w', scache := c, sphys := ps\<rparr>)"
    using assms by (simp add: on_wal_pages_def)
  ultimately show ?thesis
    by (simp add: transaction_undo_def undo_impl_def bindp_Ok [where m = "on_wal_pages x" for x] prog_simps drop_transaction_def)
qed

section \<open>Undoing a transaction\<close>

text \<open>Undo of a transaction that holds its pages: its last write is gone, the others are still there.\<close>

lemma undo_held:
  fixes st :: "((database_folder, wal_file) wal, 'ps) page_storage"
  assumes ti: "trans_inv (apply_writes ws base) (full_log (wal_entries crc) (swal st)) t (scache st)" and rd: "ready_at crc d (swal st)"
    and lg: "log_ops_extend (write_ops (tid t) ws base) fresh_log (full_log (wal_entries crc) (swal st))"
    and ws: "ws = ws' @ [(a, off, bs)]" "list_all page_write_ok ws" and ba: "length (base a) = PAGE_BODY_SIZE"
    and g: "map_of (indices (scache st)) a = Some g" and room: "log_size (wal_file_impl crc) (swal st) + 2 ^ 17 < 2 ^ 63"
  shows "\<exists>w' c. transaction_undo (wal_impl (wal_file_impl crc)) t st
      = (Ok (), st\<lparr>swal := w', scache := release_locks t c, enumerator := enumerator_end (enumerator st)\<rparr>)
    \<and> trans_held (apply_writes ws' base) t c \<and> indices c = indices (scache st)
    \<and> (\<forall>b i. map_of (indices c) b = Some i \<longrightarrow> is_dirty (page_at i c) \<and> wal_offset (page_at i c) \<noteq> 0)
    \<and> map_of (transactions (wstate w')) (tid t) = None"
proof -
  let ?lg = "full_log (wal_entries crc)" and ?c = "scache st" and ?old = "slice (unat off) (length bs) (apply_writes ws' base a)"
  have h: "trans_held (apply_writes ws base) t ?c" and lp: "\<And>b i. map_of (indices ?c) b = Some i \<Longrightarrow> logged_page (?lg (swal st)) b (page_at i ?c)"
    using ti by (simp_all add: trans_inv_def)
  have b: "unat off + length bs \<le> PAGE_BODY_SIZE" using ws by (simp add: page_write_ok_def)
  have la: "length (apply_writes ws' base a) = PAGE_BODY_SIZE" using ws ba by (intro length_apply_writes) simp_all
  have bk: "(apply_writes ws base)(a := patch (unat off) ?old (apply_writes ws base a)) = apply_writes ws' base"
    unfolding ws(1) by (rule unapply_last) (simp add: la b)
  obtain i js e where e: "open_writes (tid t) (?lg (swal st)) = i # js" "(i, Write e) \<in> set (?lg (swal st))"
      "create_undo_log e = Some \<lparr>ul_transaction_id = tid t, ul_page_address = a, ul_offset = off, ul_to = ?old\<rparr>" (is "_ = Some ?u")
    using last_write_logged [OF lg [unfolded ws(1)]] by blast
  have w: "sound_wal crc (swal st)" "tables_ok (wal_entries crc) (swal st)"
    using rd by (simp_all add: ready_at_def ready_wal_def)
  have lo: "length ?old = length bs" using la b by simp
  have "undo_handler t (undo_op j ?u) (?c, sphys st) = (Ok (), undo_step t (undo_op j ?u) (?c, sphys st))" for j
    by (rule undo_handler_run [OF h]) (simp_all add: undo_op_def g lo b)
  then have un: "undoes (undo_handler t) (undo_step t) [?u] (?c, sphys st)" by simp
  obtain w' ns where w': "undo (wal_file_impl crc) (undo_handler t) (tid t) (swal st, (?c, sphys st))
      = (Ok (), (w', fold (undo_step t) (map2 undo_op ns [?u]) (?c, sphys st)))" "length ns = length [?u]"
      "list_all wf_wal_index ns" "map_of (transactions (wstate w')) (tid t) = None"
    using undo_last [OF w e(1,2) _ un room] e(3) by auto
  obtain j where j: "ns = [j]" "wf_wal_index j" using w'(2,3) by (cases ns) auto
  let ?c' = "set_page g (written_page j off ?old (page_body (page_at g ?c))) ?c"
  have "map_of (tlocks t) a = Some g" using g trans_heldD(2) [OF h] by simp
  then have "undo_step t (undo_op j ?u) (?c, sphys st) = (?c', sphys st)" by (simp add: undo_step_def undo_op_def)
  then have "wa_undo (wal_impl (wal_file_impl crc)) (tid t) (undo_handler t) (swal st, (?c, sphys st)) = (Ok (), (w', (?c', sphys st)))"
    using w'(1) j(1) by (simp add: wal_impl_def)
  note run = transaction_undo_run [OF this]
  have "trans_inv (apply_writes ws' base) (?lg (swal st) @ [(j, Write (e\<lparr>wd_page_address := a\<rparr>))]) t ?c'"
    using trans_inv_write [OF h g lp _ j(2) refl, of off ?old "e\<lparr>wd_page_address := a\<rparr>"] b lo unfolding bk by simp
  then have "trans_held (apply_writes ws' base) t ?c'"
    "\<forall>b i. map_of (indices ?c') b = Some i \<longrightarrow> is_dirty (page_at i ?c') \<and> wal_offset (page_at i ?c') \<noteq> 0"
    by (auto simp: trans_inv_def logged_page_def)
  then show ?thesis using run w'(4) by (intro exI [of _ w'] exI [of _ ?c']) simp
qed

text \<open>
  C24: Undo takes back the last write of a transaction and no other. On a new storage a transaction that
  makes any list of writes and is then undone succeeds in every step; after a flush the physical storage
  holds, for each page written, its old contents with all writes but the last applied, and every other
  page as before. So a transaction of one write leaves no trace, and any other leaves all but one of its
  writes. It no longer counts as running, and no lock is held.
\<close>

theorem undo_keeps_all_but_last_write:
  assumes "folder_ok d" and "folder_segments_ok d" and "0 < n" and "BUFFERED_PAGE_SIZE * card (fst ` set ws) \<le> cs"
    and "BUFFERED_PAGE_SIZE \<le> cs" and "list_all page_write_ok ws"
    and "\<forall>a \<in> fst ` set ws. (\<exists>ix. storage_view crc16 (physical_storage_new d n) a = Ok (ix, base a)) \<and> length (base a) = PAGE_BODY_SIZE"
    and "2 ^ 18 + sum_list (map log_op_len (write_ops 0 ws base)) < 2 ^ 63" and "ws \<noteq> []"
  shows "\<exists>st t st1 t2 st2 st3 st4. page_storage_create crc32 n cs k m d = Ok st
    \<and> storage_transaction st = (Ok t, st1)
    \<and> for_each (trans_write (physical_impl crc16) (wal_impl (wal_file_impl crc32))) ws (t, st1) = (Ok (), (t2, st2))
    \<and> transaction_undo (wal_impl (wal_file_impl crc32)) t2 st2 = (Ok (), st3)
    \<and> storage_flush_sync (physical_impl crc16) st3 = (Ok (), st4)
    \<and> (\<forall>a. a \<in> fst ` set ws \<longrightarrow> (\<exists>i. storage_view crc16 (sphys st4) a = Ok (Some i, apply_writes (butlast ws) base a)))
    \<and> (\<forall>a. a \<notin> fst ` set ws \<longrightarrow> storage_view crc16 (sphys st4) a = storage_view crc16 (physical_storage_new d n) a)
    \<and> map_of (transactions (wstate (swal st4))) 0 = None \<and> all_unlocked (scache st4) \<and> num_transactions (enumerator st4) = 0"
proof -
  let ?wapi = "wal_impl (wal_file_impl crc32)" and ?lg = "full_log (wal_entries crc32)"
  obtain ws' a off bs where ws: "ws = ws' @ [(a, off, bs)]" using assms(9) by (metis prod_cases3 rev_exhaust)
  have z: "2 ^ 17 + sum_list (map log_op_len (write_ops 0 ws base)) < 2 ^ 63" using assms(8) by simp
  obtain st st1 t2 st2 d' where r: "page_storage_create crc32 n cs k m d = Ok st" "storage_transaction st = (Ok (transaction_new 0), st1)"
      "for_each (trans_write (physical_impl crc16) ?wapi) ws (transaction_new 0, st1) = (Ok (), (t2, st2))"
    and ti: "trans_inv (apply_writes ws base) (?lg (swal st2)) t2 (scache st2)" and so: "sound_storage (sphys st2)"
    and vw: "storage_view crc16 (sphys st2) = storage_view crc16 (physical_storage_new d n)" and rd: "ready_at crc32 d' (swal st2)"
    and lg: "log_ops_extend (write_ops 0 ws base) fresh_log (?lg (swal st2))"
    and ks: "keys_of (indices (scache st2)) = fst ` set ws" and id: "tid t2 = 0" and nt: "num_transactions (enumerator st2) = 1"
    and sz: "log_size (wal_file_impl crc32) (swal st2) = log_start + 40 + sum_list (map log_op_len (write_ops 0 ws base))"
    using transaction_run [OF assms(1-7) z, of crc32 k m] by (elim exE conjE) (rule that; assumption)
  have "a \<in> keys_of (indices (scache st2))" unfolding ks ws by simp
  then have "\<exists>g. map_of (indices (scache st2)) a = Some g" by (rule iffD1 [OF keys_of_map_of])
  then obtain g where g: "map_of (indices (scache st2)) a = Some g" by blast
  have ba: "length (base a) = PAGE_BODY_SIZE" using assms(7) by (simp add: ws)
  have room: "log_size (wal_file_impl crc32) (swal st2) + 2 ^ 17 < 2 ^ 63" using sz assms(8) log_start_less by simp
  have lg': "log_ops_extend (write_ops (tid t2) ws base) fresh_log (?lg (swal st2))" using lg unfolding id .
  obtain w' c where u: "transaction_undo ?wapi t2 st2
        = (Ok (), st2\<lparr>swal := w', scache := release_locks t2 c, enumerator := enumerator_end (enumerator st2)\<rparr>)"
      "trans_held (apply_writes ws' base) t2 c" "indices c = indices (scache st2)"
      "\<forall>b i. map_of (indices c) b = Some i \<longrightarrow> is_dirty (page_at i c) \<and> wal_offset (page_at i c) \<noteq> 0"
      "map_of (transactions (wstate w')) 0 = None"
    using undo_held [OF ti rd lg' ws assms(6) ba g room] unfolding id by (elim exE conjE) (rule that; assumption)
  let ?st3 = "st2\<lparr>swal := w', scache := release_locks t2 c, enumerator := enumerator_end (enumerator st2)\<rparr>"
  have wf: "\<forall>a \<in> keys_of (indices c). wf_page_address a"
    using assms(6) unfolding u(3) ks by (auto simp: list_all_iff page_write_ok_def)
  obtain ps where ps: "cache_flush (physical_impl crc16) (release_locks t2 c, sphys st2) = (Ok (), (flushed (release_locks t2 c), ps))"
      "all_unlocked (flushed (release_locks t2 c))"
      "\<forall>b k. map_of (indices c) b = Some k \<longrightarrow> storage_view crc16 ps b
        = Ok (Some (WalIndex (wal_generation (page_at k c)) (wal_offset (page_at k c))), apply_writes ws' base b)"
      "\<forall>b. b \<notin> keys_of (indices c) \<longrightarrow> storage_view crc16 ps b = storage_view crc16 (sphys st2) b"
    using tstore_at.release_flush_ok [OF u(2,4) so wf, of crc16] by (elim exE conjE) (rule that; assumption)
  let ?st4 = "?st3\<lparr>scache := flushed (release_locks t2 c), sphys := ps\<rparr>"
  have fl: "storage_flush_sync (physical_impl crc16) ?st3 = (Ok (), ?st4)" using ps(1) by (simp add: storage_flush_sync_def on_pages_def)
  have "\<exists>i. storage_view crc16 ps b = Ok (Some i, apply_writes (butlast ws) base b)" if "b \<in> fst ` set ws" for b
  proof -
    have "b \<in> keys_of (indices c)" unfolding u(3) ks by (rule that)
    then have "\<exists>k. map_of (indices c) b = Some k" by (rule iffD1 [OF keys_of_map_of])
    then show ?thesis using ps(3) unfolding ws by auto
  qed
  moreover have "storage_view crc16 ps b = storage_view crc16 (physical_storage_new d n) b" if "b \<notin> fst ` set ws" for b
    using ps(4) that unfolding u(3) ks vw by blast
  moreover have "num_transactions (enumerator ?st4) = 0" using nt by (simp add: enumerator_end_def saturating_sub_def)
  ultimately show ?thesis
    using r u(1,5) fl ps(2)
    by (intro exI [of _ st] exI [of _ "transaction_new 0"] exI [of _ st1] exI [of _ t2] exI [of _ st2] exI [of _ ?st3] exI [of _ ?st4]) simp
qed

text \<open>Two writes to one page: the first one is still there.\<close>

theorem undo_keeps_all_but_last_write_witness:
  "\<exists>st t st1 t2 st2 st3 st4 i. page_storage_create (\<lambda>_. 0) 1 BUFFERED_PAGE_SIZE 1 100 empty_folder = Ok st
    \<and> storage_transaction st = (Ok t, st1)
    \<and> for_each (trans_write (physical_impl (\<lambda>_. 0)) (wal_impl (wal_file_impl (\<lambda>_. 0)))) (demo_writes @ [(PageAddress 69 420, 2, [7])]) (t, st1) = (Ok (), (t2, st2))
    \<and> transaction_undo (wal_impl (wal_file_impl (\<lambda>_. 0))) t2 st2 = (Ok (), st3)
    \<and> storage_flush_sync (physical_impl (\<lambda>_. 0)) st3 = (Ok (), st4)
    \<and> storage_view (\<lambda>_. 0) (sphys st4) (PageAddress 69 420) = Ok (Some i, patch 25 [1, 2, 3, 4] (replicate PAGE_BODY_SIZE 0))"
proof -
  let ?ws = "demo_writes @ [(PageAddress 69 420, 2, [7])]"
  have c: "BUFFERED_PAGE_SIZE * card (fst ` set ?ws) \<le> BUFFERED_PAGE_SIZE" by simp
  have w: "list_all page_write_ok ?ws" by (simp add: page_write_ok_def wf_page_address_def page_body_size_value)
  have v: "\<forall>a \<in> fst ` set ?ws. (\<exists>ix. storage_view (\<lambda>_. 0) (physical_storage_new empty_folder 1) a = Ok (ix, demo_base a))
      \<and> length (demo_base a) = PAGE_BODY_SIZE"
    by (auto simp: storage_view_empty)
  have z: "2 ^ 18 + sum_list (map log_op_len (write_ops 0 ?ws demo_base)) < 2 ^ 63" by simp
  have ne: "?ws \<noteq> []" by simp
  have bl: "butlast ?ws = demo_writes" by simp
  from undo_keeps_all_but_last_write [OF empty_folder_ok empty_segments_ok zero_less_one c order_refl w v z ne, of "\<lambda>_. 0" 1 100, unfolded bl]
  obtain st t st1 t2 st2 st3 st4 where r: "page_storage_create (\<lambda>_. 0) 1 BUFFERED_PAGE_SIZE 1 100 empty_folder = Ok st"
      "storage_transaction st = (Ok t, st1)"
      "for_each (trans_write (physical_impl (\<lambda>_. 0)) (wal_impl (wal_file_impl (\<lambda>_. 0)))) ?ws (t, st1) = (Ok (), (t2, st2))"
      "transaction_undo (wal_impl (wal_file_impl (\<lambda>_. 0))) t2 st2 = (Ok (), st3)"
      "storage_flush_sync (physical_impl (\<lambda>_. 0)) st3 = (Ok (), st4)"
      "\<forall>a. a \<in> fst ` set ?ws \<longrightarrow> (\<exists>i. storage_view (\<lambda>_. 0) (sphys st4) a = Ok (Some i, apply_writes demo_writes demo_base a))"
    by (elim exE conjE) (rule that; assumption)
  have "PageAddress 69 420 \<in> fst ` set ?ws" by simp
  with r(6) obtain i where "storage_view (\<lambda>_. 0) (sphys st4) (PageAddress 69 420) = Ok (Some i, apply_writes demo_writes demo_base (PageAddress 69 420))"
    by blast
  moreover have "apply_writes demo_writes demo_base (PageAddress 69 420) = patch 25 [1, 2, 3, 4] (replicate PAGE_BODY_SIZE 0)" by simp
  ultimately have "storage_view (\<lambda>_. 0) (sphys st4) (PageAddress 69 420) = Ok (Some i, patch 25 [1, 2, 3, 4] (replicate PAGE_BODY_SIZE 0))"
    by (simp only:)
  with r(1-5) show ?thesis by blast
qed

end
