(* ===== verification/SessionLog.thy ===== *)
theory SessionLog
  imports Interleaving Rollback
begin

text \<open>
  The log that a schedule of transactions leaves, computed from the schedule: which operations of
  the log its events are, and which writes of the log belong to transactions that are still open.
\<close>

section \<open>The operations of a schedule\<close>

text \<open>The next transaction number, and the number of each open session.\<close>

fun id_step :: "event \<Rightarrow> u64 \<times> (nat \<rightharpoonup> u64) \<Rightarrow> u64 \<times> (nat \<rightharpoonup> u64)" where
  "id_step (BeginEv h) (n, m) = (n + 1, m(h \<mapsto> n))"
| "id_step (WriteEv h w) (n, m) = (n, m)"
| "id_step (ReadEv h a off bs) (n, m) = (n, m)"
| "id_step (CommitEv h) (n, m) = (n, m(h := None))"

definition session_ids :: "event list \<Rightarrow> u64 \<times> (nat \<rightharpoonup> u64)" where
  "session_ids es = fold id_step es (0, Map.empty)"

lemma session_ids_snoc [simp]: "session_ids [] = (0, Map.empty)" "session_ids (es @ [e]) = id_step e (session_ids es)"
  by (simp_all add: session_ids_def)

definition session_id :: "event list \<Rightarrow> nat \<Rightarrow> u64" where
  "session_id es h = the (snd (session_ids es) h)"

fun event_op :: "(page_address \<Rightarrow> byte list) \<Rightarrow> event list \<Rightarrow> event \<Rightarrow> log_op list" where
  "event_op base es (BeginEv h) = []"
| "event_op base es (WriteEv h (a, off, bs)) = [OpWrite \<lparr>wl_transaction_id = session_id es h, wl_page_address = a, wl_offset = off,
     wl_from = slice (unat off) (length bs) (read_value base es h a), wl_to = bs\<rparr>]"
| "event_op base es (ReadEv h a off bs) = []"
| "event_op base es (CommitEv h) = [OpCommit (session_id es h)]"

definition event_ops :: "(page_address \<Rightarrow> byte list) \<Rightarrow> event list \<Rightarrow> log_op list" where
  "event_ops base es = concat (map (\<lambda>i. event_op base (take i es) (es ! i)) [0..<length es])"

lemma event_ops_snoc: "event_ops base [] = []" "event_ops base (es @ [e]) = event_ops base es @ event_op base es e"
proof -
  have m: "map (\<lambda>i. event_op base (take i (es @ [e])) ((es @ [e]) ! i)) [0..<length es]
      = map (\<lambda>i. event_op base (take i es) (es ! i)) [0..<length es]"
    by (rule map_cong) (simp_all add: nth_append)
  have u: "[0..<length (es @ [e])] = [0..<length es] @ [length es]" by simp
  show "event_ops base (es @ [e]) = event_ops base es @ event_op base es e"
    unfolding event_ops_def u map_append concat_append m by simp
qed (simp add: event_ops_def)

text \<open>The numbers that the storage has given out.\<close>

definition ids_ok :: "event list \<Rightarrow> ('w, 'ps) sessions \<Rightarrow> bool" where
  "ids_ok es s \<longleftrightarrow> next_id (enumerator (snd s)) = fst (session_ids es) \<and> (\<forall>h. map_option tid (fst s h) = snd (session_ids es) h)"

lemma ids_ok_session: "ids_ok es (ss, st) \<Longrightarrow> ss h = Some t \<Longrightarrow> session_id es h = tid t"
  unfolding ids_ok_def session_id_def by (metis fst_conv option.map(2) option.sel)

lemma begin_ids:
  "storage_transaction st = (Ok t, st') \<Longrightarrow> tid t = next_id (enumerator st) \<and> next_id (enumerator st') = next_id (enumerator st) + 1"
  by (auto simp: storage_transaction_def enumerator_begin_def prog_simps bindp_def transaction_new_def split: option.splits)

context transactional_store begin

lemma step_logs:
  assumes st: "ev_step api wapi (ss, st) e (ss', st')"
    and s: "store_ok dview dinv wlog winv A v (apply_writes (serial_writes es) base) (snd (history es)) (ss, st)"
    and e: "event_ok e" "event_pages e \<subseteq> A" and sz: "wsize (swal st) + event_len e < 2 ^ 63" and ids: "ids_ok es (ss, st)"
    and l: "log_ops_extend (event_ops base es) l0 (wlog (swal st))"
  shows "ids_ok (es @ [e]) (ss', st') \<and> log_ops_extend (event_ops base (es @ [e])) l0 (wlog (swal st'))"
proof -
  obtain dn p where hs: "history es = (dn, p)" by force
  obtain n m where nm: "session_ids es = (n, m)" by force
  have s': "store_ok dview dinv wlog winv A v (apply_writes dn base) p (ss, st)" using s hs by (simp add: serial_writes_def)
  note oo = open_okD [OF sessions_invD(4) [OF store_okD(7) [OF s']]]
  have id: "next_id (enumerator st) = n" "map_option tid (ss h) = m h" for h using ids by (simp_all add: ids_ok_def nm)
  show ?thesis
  proof (cases e)
    case (BeginEv h)
    then obtain t where t: "ss h = None" "storage_transaction st = (Ok t, st')" "ss' = ss(h \<mapsto> t)"
      using st by (auto elim: ev_stepE)
    then have "p h = None" using oo(1) by simp
    from session_begin_ok(2) [OF s' this t(2)] begin_ids [OF t(2)] show ?thesis
      using t(3) BeginEv id l by (simp add: ids_ok_def nm event_ops_snoc)
  next
    case (WriteEv h w)
    obtain a off bs where w: "w = (a, off, bs)" by (cases w)
    obtain t t' where t: "ss h = Some t" "trans_write api wapi (a, off, bs) (t, st) = (Ok (), (t', st'))" "ss' = ss(h \<mapsto> t')"
      using st unfolding WriteEv w by (auto elim: ev_stepE simp del: trans_write.simps)
    then obtain ws where ws: "p h = Some ws" using oo(1) [of h] by auto
    have o: "\<not> writes_page p h' a" if "h' \<noteq> h" for h'
      using session_waits(1) [OF s' t(1) ws _ that, of a off bs] t(2) by auto
    have b: "a \<in> A" "page_write_ok (a, off, bs)" "wsize (swal st) + 58 + 2 * length bs < 2 ^ 63"
      using e sz WriteEv w by simp_all
    have rv: "read_value base es h a = apply_writes ws (apply_writes dn base) a"
      by (simp add: read_value_def open_session_def serial_writes_def hs ws)
    obtain i where r: "tid t' = tid t" "enumerator st' = enumerator st" "wlog (swal st') = wlog (swal st)
        @ [(i, log_op_item (OpWrite \<lparr>wl_transaction_id = tid t, wl_page_address = a, wl_offset = off,
          wl_from = slice (unat off) (length bs) (read_value base es h a), wl_to = bs\<rparr>) (wlog (swal st)))]"
      using session_write_ok [OF s' t(1) ws b(1,2) o b(3)] t(2) unfolding rv by (auto simp del: trans_write.simps log_op_item.simps)
    have "ids_ok (es @ [e]) (ss', st')"
      using id r(1,2) t(1,3) by (simp add: ids_ok_def WriteEv nm) (metis option.map(2))
    then show ?thesis
      using log_ops_extend_snoc [OF l] r(3) ids_ok_session [OF ids t(1)]
      by (simp add: WriteEv w event_ops_snoc del: log_op_item.simps)
  next
    case (ReadEv h a off bs)
    obtain t t' where t: "ss h = Some t" "trans_read api a off (length bs) (t, st) = (Ok bs, (t', st'))" "ss' = ss(h \<mapsto> t')"
      using st unfolding ReadEv by (auto elim: ev_stepE)
    then obtain ws where ws: "p h = Some ws" using oo(1) [of h] by auto
    have o: "\<not> writes_page p h' a" if "h' \<noteq> h" for h'
      using session_waits(2) [OF s' t(1) ws _ that, of a off "length bs"] t(2) by auto
    have b: "a \<in> A" using e ReadEv by simp
    have "t' = t \<and> swal st' = swal st \<and> enumerator st' = enumerator st"
      using session_read_ok [OF s' t(1) ws b o, of off "length bs"] t(2) by (auto split: if_splits)
    moreover from this have "ss' = ss" using t(1,3) by (simp add: fun_upd_idem)
    ultimately show ?thesis using l id by (simp add: ids_ok_def ReadEv nm event_ops_snoc)
  next
    case (CommitEv h)
    obtain t where t: "ss h = Some t" "transaction_commit wapi t st = (Ok (), st')" "ss' = ss(h := None)"
      using st unfolding CommitEv by (auto elim: ev_stepE)
    then obtain ws where ws: "p h = Some ws" using oo(1) [of h] by auto
    have z: "wsize (swal st) + 48 < 2 ^ 63" using sz CommitEv by simp
    obtain i where i: "enumerator st' = enumerator_end (enumerator st)"
        "wlog (swal st') = wlog (swal st) @ [(i, log_op_item (OpCommit (tid t)) (wlog (swal st)))]"
      using session_commit_ok [OF s' t(1) ws z] t(2) by auto
    have "ids_ok (es @ [e]) (ss', st')" using id i(1) t(3) by (simp add: ids_ok_def CommitEv nm enumerator_end_def)
    then show ?thesis
      using log_ops_extend_snoc [OF l] i(2) ids_ok_session [OF ids t(1)] by (simp add: CommitEv event_ops_snoc del: log_op_item.simps)
  qed
qed

lemma run_logs:
  assumes "ev_run api wapi (Map.empty, st0) es s" and "store_ok dview dinv wlog winv A v base Map.empty (Map.empty, st0)"
    and "list_all event_ok es" and "pages_of es \<subseteq> A" and "wsize (swal st0) + sum_list (map event_len es) < 2 ^ 63"
    and "next_id (enumerator st0) = 0"
  shows "ids_ok es s \<and> log_ops_extend (event_ops base es) (wlog (swal st0)) (wlog (swal (snd s)))"
  using assms
proof (induction "(Map.empty :: nat \<rightharpoonup> transaction, st0)" es s rule: ev_run.induct)
  case no_event
  then show ?case by (simp add: ids_ok_def event_ops_snoc)
next
  case (one_more_event es s1 e s2)
  obtain ss st where s1: "s1 = (ss, st)" by (cases s1)
  obtain ss' st' where s2: "s2 = (ss', st')" by (cases s2)
  have p: "event_ok e" "event_pages e \<subseteq> A" "list_all event_ok es" "pages_of es \<subseteq> A"
      "wsize (swal st0) + sum_list (map event_len es) < 2 ^ 63"
    using one_more_event.prems by (simp_all add: pages_of_facts)
  have i: "store_ok dview dinv wlog winv A v (apply_writes (serial_writes es) base) (snd (history es)) (ss, st)"
      "wsize (swal st) = wsize (swal st0) + sum_list (map event_len es)"
    using run_ok [OF one_more_event.hyps(1) one_more_event.prems(1) p(3-5)] by (simp_all add: s1)
  have ih: "ids_ok es (ss, st)" "log_ops_extend (event_ops base es) (wlog (swal st0)) (wlog (swal st))"
    using one_more_event.hyps(2) [OF one_more_event.prems(1) p(3-5) one_more_event.prems(5)] by (simp_all add: s1)
  have "wsize (swal st) + event_len e < 2 ^ 63" using one_more_event.prems(4) i(2) by simp
  from step_logs [OF one_more_event.hyps(3) [unfolded s1 s2] i(1) p(1,2) this ih] show ?case by (simp add: s2)
qed

end

section \<open>Writes in the log\<close>

fun op_tid :: "log_op \<Rightarrow> u64" where
  "op_tid (OpWrite w) = wl_transaction_id w"
| "op_tid (OpCommit t) = t"

fun op_is_write :: "log_op \<Rightarrow> bool" where
  "op_is_write (OpWrite w) = True"
| "op_is_write (OpCommit t) = False"

fun op_page_writes :: "log_op \<Rightarrow> page_write list" where
  "op_page_writes (OpWrite w) = [(wl_page_address w, wl_offset w, wl_to w)]"
| "op_page_writes (OpCommit t) = []"

fun event_page_writes :: "event \<Rightarrow> page_write list" where
  "event_page_writes (WriteEv h w) = [w]"
| "event_page_writes _ = []"

text \<open>The writes of a schedule in the order in which they happen.\<close>

definition event_writes :: "event list \<Rightarrow> page_write list" where
  "event_writes es = concat (map event_page_writes es)"

lemma event_writes_snoc: "event_writes [] = []" "event_writes (es @ [e]) = event_writes es @ event_page_writes e"
  by (simp_all add: event_writes_def)

lemma event_ops_writes: "concat (map op_page_writes (event_ops base es)) = event_writes es"
proof (induction es rule: rev_induct)
  case (snoc e es)
  have "concat (map op_page_writes (event_op base es e)) = event_page_writes e" by (cases "(base, es, e)" rule: event_op.cases) simp_all
  then show ?case using snoc by (simp add: event_ops_snoc event_writes_snoc)
qed (simp add: event_ops_snoc event_writes_snoc)

lemma extend_all_writes:
  "log_ops_extend ops fresh_log l \<Longrightarrow> map op_write (all_writes l) = concat (map op_page_writes ops)"
proof (induction ops arbitrary: l rule: rev_induct)
  case Nil
  then show ?case by (simp add: all_writes_def checkpoint_item_def List.map_filter_def)
next
  case (snoc x ops)
  obtain l1 i where l: "log_ops_extend ops fresh_log l1" "l = l1 @ [(i, log_op_item x l1)]"
    using log_ops_extend_snocD [OF snoc.prems] by blast
  show ?case using snoc.IH [OF l(1)] unfolding l(2)
    by (cases x) (simp_all add: all_writes_snoc op_write_def write_op_def)
qed

text \<open>The writes of a transaction since its last commit.\<close>

definition open_ops :: "u64 \<Rightarrow> log_op list \<Rightarrow> log_op list" where
  "open_ops u ops = rev (takeWhile op_is_write (rev (filter (\<lambda>x. op_tid x = u) ops)))"

lemma open_ops_snoc:
  "open_ops u [] = []"
  "open_ops u (ops @ [x]) = (if op_tid x = u then if op_is_write x then open_ops u ops @ [x] else [] else open_ops u ops)"
  by (simp_all add: open_ops_def)

lemma open_ops_none: "(\<And>x. x \<in> set ops \<Longrightarrow> op_tid x \<noteq> u) \<Longrightarrow> open_ops u ops = []"
  by (simp add: open_ops_def filter_empty_conv [THEN iffD2])

lemma extend_open_writes:
  "log_ops_extend ops fresh_log l \<Longrightarrow> length (open_writes u l) = length (open_ops u ops)"
proof (induction ops arbitrary: l rule: rev_induct)
  case Nil
  then show ?case by (simp add: open_writes_def open_ops_snoc checkpoint_item_def)
next
  case (snoc x ops)
  obtain l1 i where l: "log_ops_extend ops fresh_log l1" "l = l1 @ [(i, log_op_item x l1)]"
    using log_ops_extend_snocD [OF snoc.prems] by blast
  show ?case using snoc.IH [OF l(1)] unfolding l(2)
    by (cases x) (simp_all add: open_writes_snoc open_ops_snoc chain_data_def)
qed

section \<open>Open transactions in the log\<close>

text \<open>
  Numbers are not given out twice, and the writes in the log after the last commit of their
  transaction are those of the open sessions.
\<close>

definition numbered :: "event list \<Rightarrow> log_op list \<Rightarrow> u64 \<Rightarrow> (nat \<rightharpoonup> u64) \<Rightarrow> bool" where
  "numbered es ops n m \<longleftrightarrow> unat n \<le> length es \<and> (\<forall>h i. m h = Some i \<longrightarrow> i < n)
     \<and> (\<forall>h h' i. m h = Some i \<longrightarrow> m h' = Some i \<longrightarrow> h = h') \<and> (\<forall>x \<in> set ops. op_tid x < n)"

definition open_logged :: "open_sessions \<Rightarrow> log_op list \<Rightarrow> (nat \<rightharpoonup> u64) \<Rightarrow> bool" where
  "open_logged p ops m \<longleftrightarrow> (\<forall>h. m h = None \<longleftrightarrow> p h = None)
     \<and> (\<forall>h i ws. m h = Some i \<longrightarrow> p h = Some ws \<longrightarrow> concat (map op_page_writes (open_ops i ops)) = ws)
     \<and> (\<forall>u. (\<forall>h. m h \<noteq> Some u) \<longrightarrow> open_ops u ops = [])"

lemma numberedD:
  assumes "numbered es ops n m"
  shows "unat n \<le> length es" "m h = Some i \<Longrightarrow> i < n" "m h = Some i \<Longrightarrow> m h' = Some i \<Longrightarrow> h = h'" "x \<in> set ops \<Longrightarrow> op_tid x < n"
  using assms unfolding numbered_def by blast+

lemma open_loggedD:
  assumes "open_logged p ops m"
  shows "m h = None \<longleftrightarrow> p h = None" "m h = Some i \<Longrightarrow> p h = Some ws \<Longrightarrow> concat (map op_page_writes (open_ops i ops)) = ws"
    "(\<And>h. m h \<noteq> Some u) \<Longrightarrow> open_ops u ops = []"
  using assms unfolding open_logged_def by blast+

lemma ids_step:
  assumes "numbered es ops n m" and "open_logged p ops m" and "session_ids es = (n, m)" and "history es = (dn, p)"
    and "ops = event_ops base es" and "enabled base es e" and "Suc (length es) < 2 ^ 64"
  shows "numbered (es @ [e]) (event_ops base (es @ [e])) (fst (id_step e (n, m))) (snd (id_step e (n, m)))
    \<and> open_logged (snd (sched e (dn, p))) (event_ops base (es @ [e])) (snd (id_step e (n, m)))"
proof -
  note nb = numberedD [OF assms(1)] and ol = open_loggedD [OF assms(2)]
  have op: "open_session es h = p h" for h by (simp add: open_session_def assms(4))
  have sid: "session_id es h = i" if "m h = Some i" for h i using that by (simp add: session_id_def assms(3))
  have n1: "unat n < 2 ^ 64 - 1" using nb(1) assms(7) by simp
  have nx: "unat (n + 1) = Suc (unat n)" "n < n + 1"
    using n1 by (simp_all add: unat_word_ariths(1) word_less_nat_alt)
  show ?thesis
  proof (cases e)
    case (BeginEv h)
    have mh: "m h = None" using assms(6) op ol(1) BeginEv by simp
    have fresh: "open_ops n ops = []" using nb(4) by (intro open_ops_none) auto
    have lt: "i < n + 1" if "i < n" for i using that nx(2) by (rule order_less_trans)
    have "numbered (es @ [e]) ops (n + 1) (m(h \<mapsto> n))"
      using nb(1-4) nx lt unfolding numbered_def by auto
    moreover have "open_logged (p(h \<mapsto> [])) ops (m(h \<mapsto> n))"
      unfolding open_logged_def
    proof (intro conjI allI impI)
      show "((m(h \<mapsto> n)) h' = None) = ((p(h \<mapsto> [])) h' = None)" for h' using ol(1) by simp
      show "concat (map op_page_writes (open_ops i ops)) = ws"
        if "(m(h \<mapsto> n)) h' = Some i" "(p(h \<mapsto> [])) h' = Some ws" for h' i ws
        using that fresh ol(2) [of h' i ws] by (auto split: if_splits)
      show "open_ops u ops = []" if "\<forall>h'. (m(h \<mapsto> n)) h' \<noteq> Some u" for u
      proof (rule ol(3))
        fix h' show "m h' \<noteq> Some u" using that [rule_format, of h'] mh by (cases "h' = h") simp_all
      qed
    qed
    ultimately show ?thesis by (simp add: BeginEv event_ops_snoc assms(5))
  next
    case (WriteEv h w)
    obtain a off bs where w: "w = (a, off, bs)" by (cases w)
    obtain ws where ws: "p h = Some ws" using assms(6) op WriteEv by auto
    then obtain i where i: "m h = Some i" using ol(1) [of h] by auto
    let ?x = "OpWrite \<lparr>wl_transaction_id = i, wl_page_address = a, wl_offset = off,
     wl_from = slice (unat off) (length bs) (read_value base es h a), wl_to = bs\<rparr>"
    have ev: "event_ops base (es @ [e]) = ops @ [?x]" by (simp add: WriteEv w event_ops_snoc assms(5) sid [OF i])
    have "numbered (es @ [e]) (ops @ [?x]) n m"
      using nb(1-4) nb(2) [OF i] unfolding numbered_def by auto
    moreover have "open_logged (p(h \<mapsto> ws @ [w])) (ops @ [?x]) m"
      unfolding open_logged_def
    proof (intro conjI allI impI)
      show "(m h' = None) = ((p(h \<mapsto> ws @ [w])) h' = None)" for h' using ol(1) [of h'] ws i by simp
      show "concat (map op_page_writes (open_ops j (ops @ [?x]))) = us"
        if "m h' = Some j" "(p(h \<mapsto> ws @ [w])) h' = Some us" for h' j us
      proof (cases "h' = h")
        case True
        then have "j = i" "us = ws @ [w]" using that i by simp_all
        then show ?thesis using ol(2) [OF i ws] by (simp add: open_ops_snoc w)
      next
        case False
        then have "j \<noteq> i" "p h' = Some us" using that i nb(3) by auto
        then show ?thesis using ol(2) [OF that(1)] by (simp add: open_ops_snoc)
      qed
      show "open_ops u (ops @ [?x]) = []" if "\<forall>h'. m h' \<noteq> Some u" for u
      proof -
        have "u \<noteq> i" using that i by blast
        then show ?thesis using ol(3) that by (simp add: open_ops_snoc)
      qed
    qed
    ultimately show ?thesis unfolding ev by (simp add: WriteEv ws)
  next
    case (ReadEv h a off bs)
    have "numbered (es @ [e]) ops n m" using assms(1) by (simp add: numbered_def)
    then show ?thesis using assms(2) by (simp add: ReadEv event_ops_snoc assms(5))
  next
    case (CommitEv h)
    obtain ws where ws: "p h = Some ws" using assms(6) op CommitEv by auto
    then obtain i where i: "m h = Some i" using ol(1) [of h] by auto
    have ev: "event_ops base (es @ [e]) = ops @ [OpCommit i]" by (simp add: CommitEv event_ops_snoc assms(5) sid [OF i])
    have "numbered (es @ [e]) (ops @ [OpCommit i]) n (m(h := None))"
      using nb(1-4) nb(2) [OF i] unfolding numbered_def by auto
    moreover have "open_logged (p(h := None)) (ops @ [OpCommit i]) (m(h := None))"
      unfolding open_logged_def
    proof (intro conjI allI impI)
      show "((m(h := None)) h' = None) = ((p(h := None)) h' = None)" for h' using ol(1) by simp
      show "concat (map op_page_writes (open_ops j (ops @ [OpCommit i]))) = us"
        if "(m(h := None)) h' = Some j" "(p(h := None)) h' = Some us" for h' j us
      proof -
        have h': "h' \<noteq> h" "m h' = Some j" "p h' = Some us" using that by (auto split: if_splits)
        then have "j \<noteq> i" using i nb(3) by auto
        then show ?thesis using ol(2) [OF h'(2,3)] by (simp add: open_ops_snoc)
      qed
      show "open_ops u (ops @ [OpCommit i]) = []" if "\<forall>h'. (m(h := None)) h' \<noteq> Some u" for u
      proof (cases "u = i")
        case False
        have "m h' \<noteq> Some u" for h' using that [rule_format, of h'] i False by (cases "h' = h") simp_all
        then show ?thesis using ol(3) False by (simp add: open_ops_snoc)
      qed (simp add: open_ops_snoc)
    qed
    ultimately show ?thesis unfolding ev by (simp add: CommitEv)
  qed
qed

lemma schedule_ids:
  "admissible base es \<Longrightarrow> length es < 2 ^ 64 \<Longrightarrow> numbered es (event_ops base es) (fst (session_ids es)) (snd (session_ids es))
    \<and> open_logged (snd (history es)) (event_ops base es) (snd (session_ids es))"
proof (induction es rule: rev_induct)
  case Nil
  then show ?case by (simp add: numbered_def open_logged_def event_ops_snoc open_ops_snoc)
next
  case (snoc e es)
  obtain n m where nm: "session_ids es = (n, m)" by force
  obtain dn p where hs: "history es = (dn, p)" by force
  have ih: "numbered es (event_ops base es) n m" "open_logged p (event_ops base es) m" "enabled base es e"
    using snoc nm hs by (simp_all add: admissible_snoc)
  have "Suc (length es) < 2 ^ 64" using snoc.prems by simp
  from ids_step [OF ih(1,2) nm hs refl ih(3) this] show ?case by (simp add: nm hs)
qed

section \<open>The order of writes and the order of commits\<close>

text \<open>Writes to one page come in the order in which their transactions commit.\<close>

definition page_writes :: "page_address \<Rightarrow> page_write list \<Rightarrow> page_write list" where
  "page_writes a ws = filter (\<lambda>w. fst w = a) ws"

lemma page_writes_simps [simp]:
  "page_writes a [] = []" "page_writes a (ws @ us) = page_writes a ws @ page_writes a us"
  "page_writes a [w] = (if fst w = a then [w] else [])" "page_writes a ws = [] \<longleftrightarrow> a \<notin> fst ` set ws"
  by (auto simp: page_writes_def filter_empty_conv)

lemma apply_page_writes: "apply_writes (page_writes a ws) cur a = apply_writes ws cur a"
proof (induction ws cur rule: apply_writes.induct)
  case (2 b off bs ws cur)
  let ?cur = "cur(b := patch (unat off) bs (cur b))"
  have ih: "apply_writes (page_writes a ws) ?cur a = apply_writes ws ?cur a" using 2 by (simp only: fun_upd_def)
  show ?case
  proof (cases "b = a")
    case False
    have "apply_writes us ?cur a = apply_writes us cur a" for us by (rule apply_writes_cong) (use False in simp)
    then show ?thesis using ih False by (simp add: page_writes_def del: fun_upd_apply)
  qed (use ih in \<open>simp add: page_writes_def del: fun_upd_apply\<close>)
qed (simp add: page_writes_def)

definition ordered_at :: "page_address \<Rightarrow> open_sessions \<Rightarrow> page_write list \<Rightarrow> page_write list \<Rightarrow> bool" where
  "ordered_at a p dn ev \<longleftrightarrow> (\<forall>h ws. p h = Some ws \<longrightarrow> a \<in> fst ` set ws \<longrightarrow> page_writes a ev = page_writes a dn @ page_writes a ws
       \<and> (\<forall>h'. writes_page p h' a \<longrightarrow> h' = h))
     \<and> ((\<forall>h. \<not> writes_page p h a) \<longrightarrow> page_writes a ev = page_writes a dn)"

lemma ordered_atD:
  assumes "ordered_at a p dn ev"
  shows "p h = Some ws \<Longrightarrow> a \<in> fst ` set ws \<Longrightarrow> page_writes a ev = page_writes a dn @ page_writes a ws"
    "writes_page p h a \<Longrightarrow> writes_page p h' a \<Longrightarrow> h' = h"
    "(\<And>h. \<not> writes_page p h a) \<Longrightarrow> page_writes a ev = page_writes a dn"
  using assms unfolding ordered_at_def writes_page_def by blast+

lemma ordered_write:
  assumes o: "ordered_at a p dn ev" and ws: "p h = Some ws" and f: "\<And>h'. h' \<noteq> h \<Longrightarrow> \<not> writes_page p h' (fst w)"
  shows "ordered_at a (p(h \<mapsto> ws @ [w])) dn (ev @ [w])"
proof (cases "fst w = a")
  case True
  obtain off bs where w: "w = (a, off, bs)" using True by (cases w) auto
  have "page_writes a ev = page_writes a dn @ page_writes a ws"
  proof (cases "a \<in> fst ` set ws")
    case False
    then have "\<not> writes_page p h' a" for h' using f True ws by (cases "h' = h") (auto simp: writes_page_def)
    then show ?thesis using ordered_atD(3) [OF o] False by (simp add: page_writes_simps(4) [THEN iffD2])
  qed (rule ordered_atD(1) [OF o ws])
  then show ?thesis
    using f True unfolding ordered_at_def w writes_page_upd(3) [where p = p and h = h and ws = ws, OF ws] by (auto simp: writes_page_def)
next
  case False
  obtain b off bs where w: "w = (b, off, bs)" by (cases w)
  have e: "writes_page (p(h \<mapsto> ws @ [w])) h' a = writes_page p h' a" for h'
    unfolding w using writes_page_upd(3) [where p = p and h = h and ws = ws, OF ws] False w by simp
  show ?thesis
    unfolding ordered_at_def e using o ws False unfolding ordered_at_def by auto
qed

lemma ordered_commit:
  assumes o: "ordered_at a p dn ev" and ws: "p h = Some ws"
  shows "ordered_at a (p(h := None)) (dn @ ws) ev"
proof (cases "a \<in> fst ` set ws")
  case True
  then have "\<not> writes_page p h' a" if "h' \<noteq> h" for h' using ordered_atD(2) [OF o, of h h'] ws that by (auto simp: writes_page_def)
  then show ?thesis using ordered_atD(1) [OF o ws True] unfolding ordered_at_def by (auto simp: writes_page_def)
next
  case False
  have pw: "page_writes a ws = []" using False by (simp only: page_writes_simps) blast
  have "\<not> writes_page p h a" using ws False by (simp add: writes_page_def)
  then have e: "writes_page (p(h := None)) h' a = writes_page p h' a" for h' by auto
  show ?thesis unfolding ordered_at_def e page_writes_simps(2) pw using o unfolding ordered_at_def by auto
qed

lemma serial_order: "admissible base es \<Longrightarrow> ordered_at a (snd (history es)) (serial_writes es) (event_writes es)"
proof (induction es rule: rev_induct)
  case Nil
  then show ?case by (simp add: event_writes_snoc serial_writes_def ordered_at_def)
next
  case (snoc e es)
  obtain dn p where hs: "history es = (dn, p)" by force
  have ih: "ordered_at a p dn (event_writes es)" and en: "enabled base es e"
    using snoc by (simp_all add: admissible_snoc serial_writes_def hs)
  have sw: "serial_writes (es @ [e]) = fst (sched e (dn, p))" "snd (history (es @ [e])) = snd (sched e (dn, p))"
    by (simp_all add: serial_writes_def hs)
  have op: "open_session es h = p h" for h by (simp add: open_session_def hs)
  show ?case
  proof (cases e)
    case (BeginEv h)
    then have "p h = None" using en op by simp
    then have "writes_page (p(h \<mapsto> [])) h' a = writes_page p h' a" for h' by (auto simp: writes_page_def)
    then show ?thesis using ih unfolding sw unfolding ordered_at_def BeginEv event_writes_snoc by auto
  next
    case (WriteEv h w)
    then obtain ws where ws: "p h = Some ws" using en op by auto
    have "\<not> writes_page p h' (fst w)" if "h' \<noteq> h" for h' using en that WriteEv by (auto simp: held_by_other_iff hs)
    from ordered_write [OF ih ws this] show ?thesis unfolding sw unfolding WriteEv event_writes_snoc by (simp add: ws del: fun_upd_apply)
  next
    case (ReadEv h b off bs)
    then show ?thesis using ih unfolding sw unfolding ReadEv event_writes_snoc by simp
  next
    case (CommitEv h)
    then obtain ws where ws: "p h = Some ws" using en op by auto
    show ?thesis using ordered_commit [OF ih ws] unfolding sw unfolding CommitEv event_writes_snoc by (simp add: ws del: fun_upd_apply)
  qed
qed

text \<open>Where nothing is open, the order of writes and the order of commits give the same contents.\<close>

lemma event_order_serial:
  assumes "admissible base es" and "\<And>h. \<not> writes_page (snd (history es)) h a"
  shows "apply_writes (event_writes es) cur a = apply_writes (serial_writes es) cur a"
  using ordered_atD(3) [OF serial_order [OF assms(1)] assms(2)] by (metis apply_page_writes)

end
