(* ===== verification/CrashSessions.thy ===== *)
theory CrashSessions
  imports SessionLog
begin

text \<open>
  A crash in the middle of a schedule of transactions: what the files hold then, and what opening them
  again and recovering gives.
\<close>

lemma run_at:
  assumes "sessions_fit crc16 d n cs es base" and "page_storage_create crc32 n cs k m d = Ok st"
    and "ev_run (physical_impl crc16) (wal_impl (wal_file_impl crc32)) (Map.empty, st) es (ss, st')"
  shows "admissible base es" "storage_view crc16 (sphys st') = storage_view crc16 (physical_storage_new d n)" "sound_storage (sphys st')"
    "log_at crc32 (folder (swal st')) (swal st')" "\<exists>bs. wal_dir (folder (swal st')) = [(wal_file_name 0, RegularFile bs)]"
    "log_ops_extend (event_ops base es) fresh_log (full_log (wal_entries crc32) (swal st'))"
    "ready_at crc32 (folder (swal st')) (swal st')"
    "log_size (wal_file_impl crc32) (swal st') = log_size (wal_file_impl crc32) (swal st) + sum_list (map event_len es)"
proof -
  note c = new_store_ok [OF assms(1,2)]
  have ev: "list_all event_ok es" using assms(1) by (simp add: sessions_fit_def)
  note s = tstore_at.run_ok [OF assms(3) c(1) ev subset_refl c(2)]
  show "admissible base es" using s by blast
  note so = store_okD [of _ _ _ _ _ _ _ _ ss st', OF conjunct1 [OF s]]
  show "storage_view crc16 (sphys st') = storage_view crc16 (physical_storage_new d n)" "sound_storage (sphys st')"
    by (rule so(1), rule so(2))
  have fd: "folder (swal st') = folder (swal st)" using so(3) by (simp add: ready_at_def)
  show ra: "ready_at crc32 (folder (swal st')) (swal st')" unfolding fd by (rule so(3))
  then show "log_at crc32 (folder (swal st')) (swal st')" by (rule ready_log_at)
  show "\<exists>bs. wal_dir (folder (swal st')) = [(wal_file_name 0, RegularFile bs)]" unfolding fd by (rule c(4))
  show "log_ops_extend (event_ops base es) fresh_log (full_log (wal_entries crc32) (swal st'))"
    using tstore_at.run_logs [OF assms(3) c(1) ev subset_refl c(2,6)] by (simp add: c(5))
  show "log_size (wal_file_impl crc32) (swal st') = log_size (wal_file_impl crc32) (swal st) + sum_list (map event_len es)"
    using s by simp
qed

lemma event_writes_ok:
  assumes "list_all event_ok es" and "w \<in> set (event_writes es)"
  shows "page_write_ok w" "fst w \<in> pages_of es"
proof -
  obtain e where e: "e \<in> set es" "w \<in> set (event_page_writes e)" using assms(2) by (auto simp: event_writes_def)
  from e(2) obtain h where "e = WriteEv h w" by (cases e) auto
  then have "WriteEv h w \<in> set es" using e(1) by simp
  then show "page_write_ok w" "fst w \<in> pages_of es" using assms(1) by (auto simp: list_all_iff pages_of_def intro!: bexI [of _ "WriteEv h w"])
qed

text \<open>What recovery repeats.\<close>

lemma run_redo_ok:
  assumes f: "sessions_fit crc16 d n cs es base" and c: "page_storage_create crc32 n cs k m d = Ok st"
    and r: "ev_run (physical_impl crc16) (wal_impl (wal_file_impl crc32)) (Map.empty, st) es (ss, st')"
  shows "map op_write (all_writes (full_log (wal_entries crc32) (swal st'))) = event_writes es"
    "list_all (redo_op_ok (storage_view crc16 (sphys st'))) (all_writes (full_log (wal_entries crc32) (swal st')))"
proof -
  note s = run_at [OF f c r]
  let ?l = "full_log (wal_entries crc32) (swal st')"
  show aw: "map op_write (all_writes ?l) = event_writes es" using extend_all_writes [OF s(6)] by (simp add: event_ops_writes)
  have ok: "wal_ok (\<lambda>f. \<exists>its. wal_inv crc32 its f) (swal st')" using s(4) by (simp add: log_at_def)
  have ev: "list_all event_ok es"
    and b: "\<forall>a \<in> pages_of es. (\<exists>ix. storage_view crc16 (sphys st') a = Ok (ix, base a)) \<and> length (base a) = PAGE_BODY_SIZE"
    using f unfolding s(2) by (simp_all add: sessions_fit_def)
  have "redo_op_ok (storage_view crc16 (sphys st')) op" if op: "op \<in> set (all_writes ?l)" for op
  proof -
    obtain e where e: "(pw_index op, Write e) \<in> set ?l"
      using op by (auto simp: all_writes_def set_map_filter_iff write_op_def split: item.splits)
    have "op_write op \<in> set (event_writes es)" using op aw by (metis image_eqI list.set_map)
    from event_writes_ok [OF ev this] show ?thesis
      using wlog.full_log_wf [OF ok e] b by (auto simp: redo_op_ok_def page_write_ok_def op_write_def)
  qed
  then show "list_all (redo_op_ok (storage_view crc16 (sphys st'))) (all_writes ?l)" by (simp add: list_all_iff)
qed

text \<open>Only writes of open sessions are open in the log.\<close>

lemma run_open_writes:
  assumes f: "sessions_fit crc16 d n cs es base" and c: "page_storage_create crc32 n cs k m d = Ok st"
    and r: "ev_run (physical_impl crc16) (wal_impl (wal_file_impl crc32)) (Map.empty, st) es (ss, st')"
    and q: "\<And>h ws. open_session es h = Some ws \<Longrightarrow> session_id es h = u \<Longrightarrow> ws = []"
  shows "open_writes u (full_log (wal_entries crc32) (swal st')) = []"
proof -
  note s = run_at [OF f c r]
  have len: "length es < 2 ^ 64" using f by (simp add: sessions_fit_def)
  note ol = open_loggedD [OF conjunct2 [OF schedule_ids [OF s(1) len]]]
  have "open_ops u (event_ops base es) = []"
  proof (cases "\<exists>h. snd (session_ids es) h = Some u")
    case True
    then obtain h where h: "snd (session_ids es) h = Some u" by blast
    then obtain ws where ws: "snd (history es) h = Some ws" using ol(1) [of h] by auto
    then have "ws = []" using q h by (auto simp: open_session_def session_id_def)
    then have e: "concat (map op_page_writes (open_ops u (event_ops base es))) = []" using ol(2) [OF h ws] by simp
    have "op_is_write x" if "x \<in> set (open_ops u (event_ops base es))" for x
      using that by (auto simp: open_ops_def dest: set_takeWhileD)
    then have "op_page_writes x \<noteq> []" if "x \<in> set (open_ops u (event_ops base es))" for x
      using that by (cases x) fastforce+
    then show ?thesis using e by (cases "open_ops u (event_ops base es)") auto
  qed (use ol(3) in blast)
  then show ?thesis using extend_open_writes [OF s(6), of u] by simp
qed

text \<open>
  C2: What is committed survives a crash, whatever other transactions were doing. A schedule that begins
  transactions, writes and reads pages and commits, on a new storage whose cache has a page for each page of the
  schedule and whose log has room for its records, is cut off by a crash at a point where the open transactions
  have not written anything; nothing but the files is left. No check-point runs before the crash: if the log gets
  longer than its limit, one is asked for, but it does not get its turn (C27 shows that one loses committed writes
  that have not been flushed). Opening the files again and recovering succeeds, for any number of open
  segment files but none and any cache of at least one page; afterwards the physical storage holds, for each page of the schedule, what the committed transactions
  write when they are executed one after the other in the order of their commits, although no
  page had been written to a segment file and the log has the writes in the order in which they
  happened. All other pages are as before, no lock is held and no transaction is in flight.
\<close>

theorem committed_transactions_survive_crash:
  assumes "sessions_fit crc16 d n cs es base" and "page_storage_create crc32 n cs k m d = Ok st"
    and "ev_run (physical_impl crc16) (wal_impl (wal_file_impl crc32)) (Map.empty, st) es (ss, st')"
    and "\<forall>h ws. open_session es h = Some ws \<longrightarrow> ws = []" and "0 < n'" and "BUFFERED_PAGE_SIZE \<le> cs'"
  shows "\<exists>st1 st2. page_storage_open n' cs' k' m' (left_behind st') = Ok st1
    \<and> storage_view crc16 (sphys st1) = storage_view crc16 (physical_storage_new d n)
    \<and> storage_recover (wal_impl (wal_file_impl crc32)) (physical_impl crc16) st1 = (Ok (), st2)
    \<and> (\<forall>a \<in> pages_of es. \<exists>ix. storage_view crc16 (sphys st2) a = Ok (ix, apply_writes (serial_writes es) base a))
    \<and> (\<forall>a. a \<notin> pages_of es \<longrightarrow> storage_view crc16 (sphys st2) a = storage_view crc16 (physical_storage_new d n) a)
    \<and> full_log (wal_entries crc32) (swal st2) = full_log (wal_entries crc32) (swal st')
    \<and> all_unlocked (scache st2) \<and> transactions (wstate (swal st2)) = []"
proof -
  let ?lg = "full_log (wal_entries crc32)" and ?v = "storage_view crc16 (physical_storage_new d n)"
  note s = run_at [OF assms(1-3)] and rd = run_redo_ok [OF assms(1-3)]
  have ev: "list_all event_ok es" and b: "\<forall>a \<in> pages_of es. \<exists>ix. ?v a = Ok (ix, base a)"
    using assms(1) by (auto simp: sessions_fit_def)
  obtain l' where l': "?lg (swal st') = fresh_log @ l'" using log_ops_extend_append [OF s(6)] by blast
  have "\<forall>u. open_writes u (?lg (swal st')) = []" using run_open_writes [OF assms(1-3)] assms(4) by blast
  then have rc: "recoverable crc16 crc32 st'"
    using s(3-5) rd(2) l' unfolding recoverable_def reopenable_def Let_def by blast
  obtain st1 where o: "page_storage_open n' cs' k' m' (left_behind st') = Ok st1" "recoverable crc16 crc32 st1" "clean_cache crc16 st1"
      "?lg (swal st1) = ?lg (swal st')" "storage_view crc16 (sphys st1) = storage_view crc16 (sphys st')"
    using reopen_ok [OF rc assms(5,6), of k' m'] by (elim exE conjE) (rule that; assumption)
  obtain st2 where r: "storage_recover (wal_impl (wal_file_impl crc32)) (physical_impl crc16) st1 = (Ok (), st2)"
      "storage_view crc16 (sphys st2) = fold redo_view (all_writes (?lg (swal st1))) (storage_view crc16 (sphys st1))"
      "?lg (swal st2) = ?lg (swal st1)" "all_unlocked (scache st2)" "transactions (wstate (swal st2)) = []"
    using storage_recover_ok [OF o(2,3)] by (elim exE conjE) (rule that; assumption)
  have v2: "storage_view crc16 (sphys st2) = fold redo_view (all_writes (?lg (swal st'))) ?v" using r(2) o(4,5) s(2) by simp
  have sub: "fst ` set (event_writes es) \<subseteq> pages_of es" using event_writes_ok(2) [OF ev] by blast
  have b': "\<forall>a \<in> fst ` set (event_writes es). \<exists>ix. ?v a = Ok (ix, base a)" using b sub by blast
  have eq: "apply_writes (event_writes es) base a = apply_writes (serial_writes es) base a" for a
    by (rule event_order_serial [OF s(1)]) (use assms(4) in \<open>fastforce simp: writes_page_def open_session_def\<close>)
  have "\<exists>ix. storage_view crc16 (sphys st2) a = Ok (ix, apply_writes (serial_writes es) base a)" if a: "a \<in> pages_of es" for a
  proof (cases "a \<in> fst ` set (event_writes es)")
    case True
    then show ?thesis using redo_views(1) [OF rd(1) b' True] unfolding v2 eq by blast
  next
    case False
    have "apply_writes (event_writes es) base a = base a" by (rule apply_writes_other [OF False])
    then show ?thesis using b a unfolding v2 redo_views(2) [OF rd(1) b' False] eq by simp
  qed
  moreover have "storage_view crc16 (sphys st2) a = ?v a" if "a \<notin> pages_of es" for a
    unfolding v2 by (rule redo_views(2) [OF rd(1) b']) (use sub that in blast)
  ultimately show ?thesis using o(1,4,5) s(2) r(1,3-5) by (intro exI [of _ st1] exI [of _ st2]) simp
qed

text \<open>Two transactions have committed in the order opposite to that of their first writes; a third one has begun.\<close>

definition demo_crash :: "event list" where
  "demo_crash = demo_schedule @ [BeginEv 2]"

lemma demo_crash_facts:
  "sessions_fit (\<lambda>_. 0) empty_folder 1 (2 * BUFFERED_PAGE_SIZE) demo_crash demo_base" "admissible demo_base demo_crash"
  "pages_of demo_crash = {PageAddress 69 420, PageAddress 69 421}"
  "open_session demo_crash h = (if h = 2 then Some [] else None)"
proof -
  show p: "pages_of demo_crash = {PageAddress 69 420, PageAddress 69 421}"
    by (simp add: demo_crash_def pages_of_facts(2) demo_pages)
  show "sessions_fit (\<lambda>_. 0) empty_folder 1 (2 * BUFFERED_PAGE_SIZE) demo_crash demo_base"
    using demo_fits(2) unfolding sessions_fit_def p demo_pages by (simp add: demo_crash_def demo_schedule_def demo_open_def)
  show "admissible demo_base demo_crash"
    unfolding demo_crash_def admissible_snoc using demo_admissible(2)
    by (simp add: open_session_def history_def demo_schedule_def demo_open_def)
  show "open_session demo_crash h = (if h = 2 then Some [] else None)"
    by (simp add: open_session_def history_def demo_crash_def demo_schedule_def demo_open_def)
qed

lemma fitting_run:
  assumes "sessions_fit (\<lambda>_. 0) empty_folder 1 (2 * BUFFERED_PAGE_SIZE) es demo_base" "admissible demo_base es"
  shows "\<exists>st ss st'. page_storage_create (\<lambda>_. 0) 1 (2 * BUFFERED_PAGE_SIZE) 1 100 empty_folder = Ok st
    \<and> ev_run (physical_impl (\<lambda>_. 0)) (wal_impl (wal_file_impl (\<lambda>_. 0))) (Map.empty, st) es (ss, st')"
proof -
  obtain st where st: "page_storage_create (\<lambda>_. 0) 1 (2 * BUFFERED_PAGE_SIZE) 1 100 empty_folder = Ok st"
    using create_ok [OF empty_folder_ok, of "\<lambda>_. 0" 1 "2 * BUFFERED_PAGE_SIZE" 1 100] by blast
  have "list_all event_ok es" using assms(1) by (simp add: sessions_fit_def)
  then show ?thesis
    using tstore_at.run_exists [OF new_store_ok(1) [OF assms(1) st] _ subset_refl new_store_ok(2,3) [OF assms(1) st] assms(2)] st by auto
qed

theorem committed_transactions_survive_crash_witness:
  "\<exists>st ss st' st1 st2 ix. page_storage_create (\<lambda>_. 0) 1 (2 * BUFFERED_PAGE_SIZE) 1 100 empty_folder = Ok st
    \<and> ev_run (physical_impl (\<lambda>_. 0)) (wal_impl (wal_file_impl (\<lambda>_. 0))) (Map.empty, st) demo_crash (ss, st')
    \<and> page_storage_open 1 BUFFERED_PAGE_SIZE 1 100 (left_behind st') = Ok st1
    \<and> storage_recover (wal_impl (wal_file_impl (\<lambda>_. 0))) (physical_impl (\<lambda>_. 0)) st1 = (Ok (), st2)
    \<and> storage_view (\<lambda>_. 0) (sphys st2) (PageAddress 69 420) = Ok (ix, patch 25 [1, 2, 3, 4] (replicate PAGE_BODY_SIZE 0))"
proof -
  obtain st ss st' where r: "page_storage_create (\<lambda>_. 0) 1 (2 * BUFFERED_PAGE_SIZE) 1 100 empty_folder = Ok st"
      "ev_run (physical_impl (\<lambda>_. 0)) (wal_impl (wal_file_impl (\<lambda>_. 0))) (Map.empty, st) demo_crash (ss, st')"
    using fitting_run [OF demo_crash_facts(1,2)] by blast
  have q: "\<forall>h ws. open_session demo_crash h = Some ws \<longrightarrow> ws = []" by (simp add: demo_crash_facts(4))
  obtain st1 st2 where c: "page_storage_open 1 BUFFERED_PAGE_SIZE 1 100 (left_behind st') = Ok st1"
      "storage_recover (wal_impl (wal_file_impl (\<lambda>_. 0))) (physical_impl (\<lambda>_. 0)) st1 = (Ok (), st2)"
      "\<forall>a \<in> pages_of demo_crash. \<exists>ix. storage_view (\<lambda>_. 0) (sphys st2) a = Ok (ix, apply_writes (serial_writes demo_crash) demo_base a)"
    using committed_transactions_survive_crash [OF demo_crash_facts(1) r q zero_less_one order_refl, of 1 100] by blast
  have "apply_writes (serial_writes demo_crash) demo_base (PageAddress 69 420) = patch 25 [1, 2, 3, 4] (replicate PAGE_BODY_SIZE 0)"
    by (simp add: serial_writes_def history_def demo_crash_def demo_schedule_def demo_open_def)
  moreover have "PageAddress 69 420 \<in> pages_of demo_crash" by (simp add: demo_crash_facts(3))
  ultimately have "\<exists>ix. storage_view (\<lambda>_. 0) (sphys st2) (PageAddress 69 420) = Ok (ix, patch 25 [1, 2, 3, 4] (replicate PAGE_BODY_SIZE 0))"
    using c(3) by metis
  then show ?thesis using r c(1,2) by blast
qed

section \<open>A transaction that was not committed\<close>

lemma replay_distinct: "distinct (map fst (transactions (replay_state l state_default)))"
proof (induction l rule: rev_induct)
  case (snoc x l)
  obtain i it where x: "x = (i, it)" by force
  show ?case
    using snoc by (cases it) (auto simp: x replay_state_snoc handle_item_def track_write_def track_transaction_def complete_transaction_def
        Let_def distinct_update distinct_delete split: option.split)
qed (simp add: replay_state_def state_default_def)

lemma one_transaction_open:
  assumes "open_writes t l \<noteq> []" and "\<And>u. u \<noteq> t \<Longrightarrow> open_writes u l = []"
  shows "map fst (transactions (replay_state l state_default)) = [t]"
proof -
  let ?ts = "transactions (replay_state l state_default)"
  have "u \<in> set (map fst ?ts) \<longleftrightarrow> u = t" for u
  proof -
    have "(u \<in> set (map fst ?ts)) = (map_of ?ts u \<noteq> None)" by (simp add: map_of_eq_None_iff)
    then show ?thesis using assms by (auto simp: replay_transactions transaction_of_def)
  qed
  then have s: "set (map fst ?ts) = {t}" by blast
  have "length (map fst ?ts) = 1" using distinct_card [OF replay_distinct, of l] unfolding s by simp
  with s show ?thesis by (cases "map fst ?ts") auto
qed

text \<open>Recovery of a log with one open transaction: its last write is undone after all writes were repeated.\<close>

lemma recover_one_open:
  assumes ok: "wal_ok (\<lambda>f. \<exists>its. wal_inv crc its f) w" and one: "length (generations (gens w)) = 1"
    and l: "full_log (wal_entries crc) w = fresh_log @ k"
    and o: "open_writes t (full_log (wal_entries crc) w) = i # is" "\<And>u. u \<noteq> t \<Longrightarrow> open_writes u (full_log (wal_entries crc) w) = []"
    and d: "(i, Write d) \<in> set (full_log (wal_entries crc) w)" "create_undo_log d = Some u"
    and run: "for_each handle (all_writes (full_log (wal_entries crc) w)) h = (Ok (), h')"
    and un: "\<And>n. wf_wal_index n \<Longrightarrow> \<exists>h''. handle (undo_op n u) h' = (Ok (), h'')"
    and sz: "log_size (wal_file_impl crc) w + 2 ^ 17 < 2 ^ 63"
  shows "\<exists>w' n h''. wf_wal_index n \<and> handle (undo_op n u) h' = (Ok (), h'') \<and> recover (wal_file_impl crc) handle (w, h) = (Ok (), (w', h''))
    \<and> transactions (wstate w') = []"
proof -
  let ?l = "full_log (wal_entries crc) w" and ?es = "wal_entries crc (current_file w)"
  have ie: "index_entries (current_gen_num (gens w)) ?es = ?l" by (rule single_gen_entries [OF ok one])
  have "first_checkpoint ?es = Some \<lparr>cd_transactions = [], cd_dirty_pages = []\<rparr>"
    using ie l by (intro first_checkpoint_entries) (simp add: checkpoint_item_def)
  then have rt: "replay_state ?l state_default = recovered_tables (current_gen_num (gens w)) ?es"
    using ie by (simp add: recovered_tables_def initial_tables_def state_default_def)
  have srt: "sorted_wrt (<) (map fst ?l)" by (rule wlog.full_log_sorted [OF ok])
  have dp: "map_of (dirty_pages (replay_state ?l state_default)) p = first_write p ?l" for p by (rule replay_dirty)
  have "redo_list (replay_state ?l state_default) ?l = all_writes ?l"
    unfolding all_writes_def by (rule redo_list_all [OF srt dp])
  then have run': "for_each handle (redo_list (replay_state ?l state_default) (index_entries (current_gen_num (gens w)) ?es)) h = (Ok (), h')"
    using run ie by simp
  have ts: "map fst (transactions (replay_state ?l state_default)) = [t]" using one_transaction_open [of t ?l] o by simp
  have "map_of (transactions (replay_state ?l state_default)) t = Some \<lparr>first_gen = generation (last (i # is)), last_index = i\<rparr>"
    using o(1) by (simp add: replay_transactions transaction_of_def)
  then have li: "last_indices [t] (replay_state ?l state_default) = [i]" by (simp add: last_indices_def map_filter_Cons List.map_filter_def)
  obtain e where e: "(i, Write e) \<in> set ?l" "undo_list i [t] ?l = (case create_undo_log e of None \<Rightarrow> [] | Some u \<Rightarrow> [u])"
    using undo_list_last [OF srt o(1)] by blast
  have "distinct (map fst ?l)" using srt by (simp add: strict_sorted_iff)
  then have "e = d" using eq_key_imp_eq_value [OF _ e(1) d(1)] by simp
  then have us: "[u] = recovery_undos (replay_state ?l state_default) ?l"
    using e(2) d(2) by (simp add: recovery_undos_def ts li)
  have "length (transactions (replay_state ?l state_default)) = 1" using arg_cong [OF ts, of length] by simp
  then have room: "log_size (wal_file_impl crc) w + sum_list (map (\<lambda>u. 58 + length (ul_to u)) [u])
      + 48 * length (transactions (replay_state ?l state_default)) < 2 ^ 63"
    using sz undo_log_small [OF ok d] by simp
  let ?upd = "\<lambda>op h. snd (handle op h)"
  have und: "undoes handle ?upd [u] h'" by simp (metis un snd_conv)
  obtain w' ns where w': "recover (wal_file_impl crc) handle (w, h) = (Ok (), (w', fold ?upd (map2 undo_op ns [u]) h'))"
      "length ns = length [u]" "list_all wf_wal_index ns" "transactions (wstate w') = []"
    using wlog.recover_run [where handle = handle and upd = ?upd, OF run' und ok rt us room] by blast
  then obtain n where n: "ns = [n]" "wf_wal_index n" by (auto simp: length_Suc_conv)
  obtain h'' where h: "handle (undo_op n u) h' = (Ok (), h'')" using un [OF n(2)] by blast
  then show ?thesis using w'(1,4) n by (intro exI [of _ w'] exI [of _ n] exI [of _ h'']) simp
qed

text \<open>The last open write of a session, in the operations of the schedule and in the log.\<close>

lemma extend_last_open:
  "log_ops_extend ops fresh_log l \<Longrightarrow> open_ops u ops = xs @ [OpWrite r] \<Longrightarrow> \<exists>i is d. open_writes u l = i # is \<and> (i, Write d) \<in> set l
    \<and> create_undo_log d = Some \<lparr>ul_transaction_id = u, ul_page_address = wl_page_address r, ul_offset = wl_offset r, ul_to = wl_from r\<rparr>"
proof (induction ops arbitrary: l rule: rev_induct)
  case (snoc x ops)
  obtain l1 i where l: "log_ops_extend ops fresh_log l1" "l = l1 @ [(i, log_op_item x l1)]"
    using log_ops_extend_snocD [OF snoc.prems(1)] by blast
  show ?case
  proof (cases "op_tid x = u")
    case True
    then have x: "x = OpWrite r" "wl_transaction_id r = u" using snoc.prems(2) by (simp_all add: open_ops_snoc split: if_splits)
    then obtain d where "log_op_item x l1 = Write d" "td_transaction_id (wd_transaction_data d) = u"
        "create_undo_log d = Some \<lparr>ul_transaction_id = u, ul_page_address = wl_page_address r, ul_offset = wl_offset r, ul_to = wl_from r\<rparr>"
      by (simp add: chain_data_def create_undo_log_def)
    then show ?thesis
      unfolding l(2) by (intro exI [of _ i] exI [of _ "open_writes u l1"] exI [of _ d]) (simp add: open_writes_snoc)
  next
    case False
    then have "open_ops u ops = xs @ [OpWrite r]" using snoc.prems(2) by (simp add: open_ops_snoc)
    from snoc.IH [OF l(1) this] obtain j "is" d where j: "open_writes u l1 = j # is" "(j, Write d) \<in> set l1"
        "create_undo_log d = Some \<lparr>ul_transaction_id = u, ul_page_address = wl_page_address r, ul_offset = wl_offset r, ul_to = wl_from r\<rparr>"
      by blast
    have "item_tid (log_op_item x l1) = Some (op_tid x)" by (cases x) (simp_all add: chain_data_def)
    then show ?thesis
      using False j unfolding l(2) by (intro exI [of _ j] exI [of _ "is"] exI [of _ d]) (simp add: open_writes_snoc)
  qed
qed (simp add: open_ops_snoc)

lemma last_open_op:
  "admissible base es \<Longrightarrow> length es < 2 ^ 64 \<Longrightarrow> open_session es h = Some (ws @ [(a, off, bs)]) \<Longrightarrow>
    \<exists>xs r. open_ops (session_id es h) (event_ops base es) = xs @ [OpWrite r] \<and> wl_page_address r = a \<and> wl_offset r = off \<and> wl_to r = bs
      \<and> wl_from r = slice (unat off) (length bs) (apply_writes ws (apply_writes (serial_writes es) base) a)"
proof (induction es rule: rev_induct)
  case (snoc e es)
  obtain n m where nm: "session_ids es = (n, m)" by force
  obtain dn p where hs: "history es = (dn, p)" by force
  have ad: "admissible base es" "enabled base es e" "length es < 2 ^ 64" using snoc.prems by (simp_all add: admissible_snoc)
  note ids = schedule_ids [OF ad(1,3), unfolded nm hs fst_conv snd_conv]
  note nb = numberedD [OF conjunct1 [OF ids]] and ol = open_loggedD [OF conjunct2 [OF ids]]
  have op: "open_session es h' = p h'" for h' by (simp add: open_session_def hs)
  have op': "snd (sched e (dn, p)) h = Some (ws @ [(a, off, bs)])" using snoc.prems(3) by (simp add: open_session_def hs)
  have sid: "session_id es h' = the (m h')" for h' by (simp add: session_id_def nm)
  have sid': "session_id (es @ [e]) h = the (snd (id_step e (n, m)) h)" by (simp add: session_id_def nm)
  have sw: "serial_writes es = dn" "serial_writes (es @ [e]) = fst (sched e (dn, p))" by (simp_all add: serial_writes_def hs)
  have other: "session_id es h' \<noteq> session_id es h" if "h' \<noteq> h" "p h' \<noteq> None" "p h \<noteq> None" for h'
    using that ol(1) [of h'] ol(1) [of h] nb(3) [of h' _ h] by (auto simp: sid)
  have ih: "\<exists>xs r. open_ops (session_id es h) (event_ops base es) = xs @ [OpWrite r] \<and> wl_page_address r = a \<and> wl_offset r = off \<and> wl_to r = bs
      \<and> wl_from r = slice (unat off) (length bs) (apply_writes ws (apply_writes dn base) a)" if "p h = Some (ws @ [(a, off, bs)])"
    using snoc.IH [OF ad(1,3)] that by (simp add: op sw)
  show ?case
  proof (cases e)
    case (BeginEv h')
    then have "h' \<noteq> h" "p h = Some (ws @ [(a, off, bs)])" using op' by (auto split: if_splits)
    moreover from this have s: "session_id (es @ [e]) h = session_id es h" "serial_writes (es @ [e]) = dn" using sid sid' sw BeginEv by simp_all
    ultimately show ?thesis using ih unfolding s by (simp add: event_ops_snoc BeginEv)
  next
    case (WriteEv h' w)
    have s: "session_id (es @ [e]) h = session_id es h" "serial_writes (es @ [e]) = dn" using sid sid' sw WriteEv by simp_all
    obtain b off' bs' where w: "w = (b, off', bs')" by (cases w)
    obtain us where us: "p h' = Some us" using ad(2) WriteEv op by auto
    show ?thesis
    proof (cases "h' = h")
      case True
      then have e: "us = ws" "w = (a, off, bs)" using op' us WriteEv by simp_all
      then have "read_value base es h a = apply_writes ws (apply_writes dn base) a" using us True by (simp add: read_value_def op sw)
      then show ?thesis unfolding s using e True by (simp add: event_ops_snoc WriteEv open_ops_snoc)
    next
      case False
      then have "p h = Some (ws @ [(a, off, bs)])" using op' us WriteEv by simp
      from ih [OF this] other [OF False] us this show ?thesis
        unfolding s by (simp add: event_ops_snoc WriteEv w open_ops_snoc)
    qed
  next
    case (ReadEv h' b off' bs')
    then have "p h = Some (ws @ [(a, off, bs)])" using op' by simp
    moreover have s: "session_id (es @ [e]) h = session_id es h" "serial_writes (es @ [e]) = dn" using sid sid' sw ReadEv by simp_all
    ultimately show ?thesis using ih unfolding s by (simp add: event_ops_snoc ReadEv)
  next
    case (CommitEv h')
    have h: "h' \<noteq> h" "p h = Some (ws @ [(a, off, bs)])" using op' CommitEv by (auto split: if_splits)
    obtain us where us: "p h' = Some us" using ad(2) CommitEv op by auto
    have swc: "serial_writes (es @ [e]) = dn @ us" using sw us CommitEv by simp
    have "ordered_at a p dn (event_writes es)" using serial_order [OF ad(1)] by (simp add: hs sw)
    then have "a \<notin> fst ` set us" using ordered_atD(2) [of a p dn "event_writes es" h h'] h us by (auto simp: writes_page_def)
    then have "apply_writes us (apply_writes dn base) a = apply_writes dn base a" by (rule apply_writes_other)
    then have "apply_writes ws (apply_writes (serial_writes (es @ [e])) base) a = apply_writes ws (apply_writes dn base) a"
      unfolding swc by (intro apply_writes_cong) (simp add: apply_writes_append)
    moreover have "session_id (es @ [e]) h = session_id es h" using sid sid' CommitEv h(1) by simp
    ultimately show ?thesis
      using ih [OF h(2)] other [OF h(1)] us h(2) by (simp add: event_ops_snoc CommitEv open_ops_snoc)
  qed
qed (simp add: open_session_def)

text \<open>The storage after recovery with one open transaction.\<close>

lemma storage_recover_open:
  fixes st :: "((database_folder, wal_file) wal, (database_folder, u32) physical_storage) page_storage"
  assumes r: "reopenable crc16 crc32 st" and c: "clean_cache crc16 st" and l: "l = full_log (wal_entries crc32) (swal st)"
    and o: "open_writes t l = i # is" "\<And>u. u \<noteq> t \<Longrightarrow> open_writes u l = []"
    and d: "(i, Write d) \<in> set l" "create_undo_log d = Some u"
    and u: "\<And>n. wf_wal_index n \<Longrightarrow> redo_op_ok (storage_view crc16 (sphys st)) (undo_op n u)"
    and sz: "log_size (wal_file_impl crc32) (swal st) + 2 ^ 17 < 2 ^ 63"
  shows "\<exists>st' n. storage_recover (wal_impl (wal_file_impl crc32)) (physical_impl crc16) st = (Ok (), st') \<and> wf_wal_index n
    \<and> storage_view crc16 (sphys st') = redo_view (undo_op n u) (fold redo_view (all_writes l) (storage_view crc16 (sphys st)))
    \<and> all_unlocked (scache st') \<and> transactions (wstate (swal st')) = []"
proof -
  let ?v = "storage_view crc16 (sphys st)"
  note rd = reopenableD [OF r, folded l]
  have cc: "cache_inv (scache st)" "all_unlocked (scache st)" "mirrors (storage_view crc16) (scache st) (sphys st)"
    using c by (simp_all add: clean_cache_def)
  obtain c1 ps1 where run: "for_each (recover_handler (physical_impl crc16)) (all_writes l) (scache st, sphys st) = (Ok (), (c1, ps1))"
      "cache_inv c1" "all_unlocked c1" "mirrors (storage_view crc16) c1 ps1" "sound_storage ps1"
      "storage_view crc16 ps1 = fold redo_view (all_writes l) ?v"
    using pstore.recover_handlers_ok [OF cc rd(4,5)] by blast
  have keep: "redo_op_ok (fold redo_view ops v) op" if "list_all (redo_op_ok v) ops" "redo_op_ok v op" for ops v op
    using that
  proof (induction ops arbitrary: v)
    case (Cons x ops)
    have "list_all (redo_op_ok (redo_view x v)) ops" using Cons.prems(1) redo_op_ok_step by (auto simp: list_all_iff)
    then show ?case using Cons.IH redo_op_ok_step Cons.prems by simp
  qed simp
  have uo: "\<exists>c2 ps2. recover_handler (physical_impl crc16) (undo_op n u) (c1, ps1) = (Ok (), (c2, ps2)) \<and> all_unlocked c2
      \<and> storage_view crc16 ps2 = redo_view (undo_op n u) (fold redo_view (all_writes l) ?v)" if n: "wf_wal_index n" for n
  proof -
    have "redo_op_ok (storage_view crc16 ps1) (undo_op n u)" unfolding run(6) by (rule keep [OF rd(5) u [OF n]])
    from pstore.recover_handler_ok [OF run(2-5) this] show ?thesis unfolding run(6) by blast
  qed
  have w: "wal_ok (\<lambda>f. \<exists>its. wal_inv crc32 its f) (swal st)" "length (generations (gens (swal st))) = 1"
    using rd(1) by (auto simp: log_at_def dest: arg_cong [where f = length])
  obtain k where k: "full_log (wal_entries crc32) (swal st) = fresh_log @ k" using rd(3) unfolding l by blast
  obtain w' n h'' where w': "wf_wal_index n" "recover_handler (physical_impl crc16) (undo_op n u) (c1, ps1) = (Ok (), h'')"
      "recover (wal_file_impl crc32) (recover_handler (physical_impl crc16)) (swal st, (scache st, sphys st)) = (Ok (), (w', h''))"
      "transactions (wstate w') = []"
    using recover_one_open [where handle = "recover_handler (physical_impl crc16)", OF w k o [unfolded l] d(1) [unfolded l] d(2) run(1) [unfolded l] _ sz] uo
    by blast
  obtain c2 ps2 where h: "h'' = (c2, ps2)" by (cases h'')
  have "all_unlocked c2" "storage_view crc16 ps2 = redo_view (undo_op n u) (fold redo_view (all_writes l) ?v)"
    using uo [OF w'(1)] w'(2) unfolding h by auto
  then show ?thesis
    using w' unfolding h
    by (intro exI [of _ "st\<lparr>swal := w', scache := c2, sphys := ps2\<rparr>"] exI [of _ n])
      (simp add: storage_recover_def on_wal_pages_def wal_impl_def)
qed

lemma run_reopenable:
  assumes "sessions_fit crc16 d n cs es base" and "page_storage_create crc32 n cs k m d = Ok st"
    and "ev_run (physical_impl crc16) (wal_impl (wal_file_impl crc32)) (Map.empty, st) es (ss, st')"
  shows "reopenable crc16 crc32 st'"
proof -
  note s = run_at [OF assms] and rd = run_redo_ok [OF assms]
  obtain l' where "full_log (wal_entries crc32) (swal st') = fresh_log @ l'" using log_ops_extend_append [OF s(6)] by blast
  then show ?thesis using s(3-5) rd(2) unfolding reopenable_def Let_def by blast
qed

text \<open>The contents after everything was repeated and the last open write taken back.\<close>

lemma undo_last_open:
  assumes ad: "admissible base es" and ev: "list_all event_ok es" and b: "\<forall>a \<in> pages_of es. length (base a) = PAGE_BODY_SIZE"
    and h: "open_session es h = Some (ws @ [(a, off, bs)])"
    and q: "\<forall>h' us. h' \<noteq> h \<longrightarrow> open_session es h' = Some us \<longrightarrow> us = []"
    and x: "x = apply_writes ws (apply_writes (serial_writes es) base) a"
  shows "a \<in> fst ` set (event_writes es)" "unat off + length bs \<le> PAGE_BODY_SIZE" "length x = PAGE_BODY_SIZE"
    "patch (unat off) (slice (unat off) (length bs) x) (apply_writes (event_writes es) base a) = apply_writes (serial_writes es @ ws) base a"
    "c \<noteq> a \<Longrightarrow> apply_writes (event_writes es) base c = apply_writes (serial_writes es @ ws) base c"
proof -
  let ?ev = "event_writes es" and ?dn = "serial_writes es"
  note o = ordered_atD [OF serial_order [OF ad]]
  have p: "snd (history es) h = Some (ws @ [(a, off, bs)])" using h by (simp add: open_session_def)
  let ?zs = "page_writes a (?dn @ ws)"
  have pe: "page_writes a ?ev = ?zs @ [(a, off, bs)]" using o(1) [OF p, of a] by simp
  then have "set (?zs @ [(a, off, bs)]) \<subseteq> set ?ev" by (metis filter_is_subset page_writes_def)
  then have m: "w \<in> set ?ev" if "w \<in> set ?zs \<or> w = (a, off, bs)" for w using that by auto
  have aev: "(a, off, bs) \<in> set ?ev" using m by blast
  then show "a \<in> fst ` set ?ev" by force
  show off: "unat off + length bs \<le> PAGE_BODY_SIZE" using event_writes_ok(1) [OF ev aev] by (simp add: page_write_ok_def)
  have xz: "x = apply_writes ?zs base a"
    unfolding x apply_page_writes by (simp add: apply_writes_append)
  have "list_all page_write_ok ?zs" using m event_writes_ok(1) [OF ev] by (auto simp: list_all_iff)
  moreover have "length (base a) = PAGE_BODY_SIZE" using b event_writes_ok(2) [OF ev aev] by simp
  ultimately show lx: "length x = PAGE_BODY_SIZE" unfolding xz by (rule length_apply_writes)
  have "apply_writes ?ev base a = patch (unat off) bs x"
    unfolding apply_page_writes [of a ?ev base, symmetric] pe apply_writes_snoc xz by simp
  moreover have "apply_writes (?dn @ ws) base a = x" unfolding xz by (rule apply_page_writes [symmetric])
  ultimately show "patch (unat off) (slice (unat off) (length bs) x) (apply_writes ?ev base a) = apply_writes (?dn @ ws) base a"
    using patch_patch_undo [of "unat off" bs x] off lx by simp
  show "apply_writes ?ev base c = apply_writes (?dn @ ws) base c" if c: "c \<noteq> a"
  proof -
    have "page_writes c ?ev = page_writes c (?dn @ ws)"
    proof (cases "c \<in> fst ` set ws")
      case True
      then show ?thesis using o(1) [OF p, of c] c by simp
    next
      case False
      have "\<not> writes_page (snd (history es)) h' c" for h'
        using p False c q by (cases "h' = h") (fastforce simp: writes_page_def open_session_def)+
      moreover have "page_writes c ws = []" using False by (simp only: page_writes_simps) blast
      ultimately show ?thesis using o(3) by simp
    qed
    then show ?thesis by (metis apply_page_writes)
  qed
qed

text \<open>
  C23: After a crash an uncommitted transaction is still there, up to its last write. If at the crash one open
  transaction has written something (others may be open that have not), then opening the files and
  recovering succeeds, and afterwards the physical storage holds all that was committed together with all writes
  of the open transaction but the last: recovery repeats every write of the log and takes back
  only the last write of each transaction in flight. The transaction is then closed like a committed one.
\<close>

theorem crash_keeps_uncommitted_writes:
  assumes f: "sessions_fit crc16 d n cs es base" and c: "page_storage_create crc32 n cs k m d = Ok st"
    and r: "ev_run (physical_impl crc16) (wal_impl (wal_file_impl crc32)) (Map.empty, st) es (ss, st')"
    and h: "open_session es h = Some ws" "ws \<noteq> []"
    and q: "\<forall>h' us. h' \<noteq> h \<longrightarrow> open_session es h' = Some us \<longrightarrow> us = []"
    and n': "0 < n'" "BUFFERED_PAGE_SIZE \<le> cs'" and sz: "2 ^ 18 + sum_list (map event_len es) < 2 ^ 63"
  shows "\<exists>st1 st2. page_storage_open n' cs' k' m' (left_behind st') = Ok st1
    \<and> storage_recover (wal_impl (wal_file_impl crc32)) (physical_impl crc16) st1 = (Ok (), st2)
    \<and> (\<forall>a \<in> pages_of es. \<exists>ix. storage_view crc16 (sphys st2) a = Ok (ix, apply_writes (serial_writes es @ butlast ws) base a))
    \<and> (\<forall>a. a \<notin> pages_of es \<longrightarrow> storage_view crc16 (sphys st2) a = storage_view crc16 (physical_storage_new d n) a)
    \<and> all_unlocked (scache st2) \<and> transactions (wstate (swal st2)) = []"
proof -
  let ?lg = "full_log (wal_entries crc32) (swal st')" and ?v = "storage_view crc16 (physical_storage_new d n)"
  let ?t = "session_id es h" and ?ev = "event_writes es" and ?ws = "butlast ws"
  note s = run_at [OF f c r] and rd = run_redo_ok [OF f c r]
  have ev: "list_all event_ok es" and len: "length es < 2 ^ 64" and d: "folder_ok d"
    and b: "\<forall>a \<in> pages_of es. (\<exists>ix. ?v a = Ok (ix, base a)) \<and> length (base a) = PAGE_BODY_SIZE"
    using f by (simp_all add: sessions_fit_def)
  obtain a off bs where w: "open_session es h = Some (?ws @ [(a, off, bs)])"
    using h append_butlast_last_id [OF h(2)] by (metis prod_cases3)
  define x where "x = apply_writes ?ws (apply_writes (serial_writes es) base) a"
  have b': "\<forall>a \<in> pages_of es. length (base a) = PAGE_BODY_SIZE" using b by blast
  note ul = undo_last_open [OF s(1) ev b' w q x_def]
  obtain xs r where op: "open_ops ?t (event_ops base es) = xs @ [OpWrite r]" "wl_page_address r = a" "wl_offset r = off"
      "wl_from r = slice (unat off) (length bs) x"
    using last_open_op [OF s(1) len w] unfolding x_def by blast
  let ?u = "\<lparr>ul_transaction_id = ?t, ul_page_address = a, ul_offset = off, ul_to = slice (unat off) (length bs) x\<rparr>"
  obtain i "is" e where o: "open_writes ?t ?lg = i # is" "(i, Write e) \<in> set ?lg" "create_undo_log e = Some ?u"
    using extend_last_open [OF s(6) op(1)] unfolding op(2-4) by blast
  have others: "open_writes u ?lg = []" if "u \<noteq> ?t" for u
    by (rule run_open_writes [OF f c r]) (metis q that)
  have ap: "a \<in> pages_of es" using ul(1) event_writes_ok(2) [OF ev] by blast
  obtain st1 where st1: "page_storage_open n' cs' k' m' (left_behind st') = Ok st1" "reopenable crc16 crc32 st1" "clean_cache crc16 st1"
      "full_log (wal_entries crc32) (swal st1) = ?lg" "storage_view crc16 (sphys st1) = ?v"
      "log_size (wal_file_impl crc32) (swal st1) = log_size (wal_file_impl crc32) (swal st')"
    using reopen_any [OF run_reopenable [OF f c r] n', of k' m'] unfolding s(2) by (elim exE conjE) (rule that; assumption)
  obtain w0 where "swal st = w0" "log_size (wal_file_impl crc32) w0 = log_start + 40"
    using create_ok [OF d, of crc32 n cs k m] c by (auto simp: page_storage_new_def)
  then have z: "log_size (wal_file_impl crc32) (swal st1) + 2 ^ 17 < 2 ^ 63" using sz log_start_less by (simp add: st1(6) s(8))
  obtain ia where va: "?v a = Ok (ia, base a)" "length (base a) = PAGE_BODY_SIZE" using b ap by blast
  have "redo_op_ok (storage_view crc16 (sphys st1)) (undo_op j ?u)" if "wf_wal_index j" for j
    using that pages_of_facts(3) [OF ev ap] ul(2,3) va by (simp add: redo_op_ok_def undo_op_def st1(5))
  from storage_recover_open [OF st1(2,3) st1(4) [symmetric] o(1) others o(2,3) this z]
  obtain st2 j where st2: "storage_recover (wal_impl (wal_file_impl crc32)) (physical_impl crc16) st1 = (Ok (), st2)"
      "storage_view crc16 (sphys st2) = redo_view (undo_op j ?u) (fold redo_view (all_writes ?lg) ?v)"
      "all_unlocked (scache st2)" "transactions (wstate (swal st2)) = []"
    unfolding st1(5) by blast
  have sub: "fst ` set ?ev \<subseteq> pages_of es" using event_writes_ok(2) [OF ev] by blast
  have bv: "\<forall>a \<in> fst ` set ?ev. \<exists>ix. ?v a = Ok (ix, base a)" using b sub by blast
  note rv = redo_views [OF rd(1) bv]
  obtain ja where fa: "fold redo_view (all_writes ?lg) ?v a = Ok (ja, apply_writes ?ev base a)" using rv(1) [OF ul(1)] by blast
  have v2: "storage_view crc16 (sphys st2) p = (if p = a then Ok (Some j, apply_writes (serial_writes es @ ?ws) base a)
      else fold redo_view (all_writes ?lg) ?v p)" for p
    using ul(4) by (simp add: st2(2) redo_view_def undo_op_def fa)
  have "\<exists>ix. storage_view crc16 (sphys st2) p = Ok (ix, apply_writes (serial_writes es @ ?ws) base p)" if p: "p \<in> pages_of es" for p
  proof (cases "p = a")
    case False
    show ?thesis
    proof (cases "p \<in> fst ` set ?ev")
      case True
      then show ?thesis using rv(1) [OF True] ul(5) [OF False] False by (auto simp: v2)
    next
      case n: False
      have "apply_writes ?ev base p = base p" by (rule apply_writes_other [OF n])
      then show ?thesis using b p rv(2) [OF n] ul(5) [OF False] False by (simp add: v2)
    qed
  qed (simp add: v2)
  moreover have "storage_view crc16 (sphys st2) p = ?v p" if "p \<notin> pages_of es" for p
    using that ap rv(2) [of p] sub by (auto simp: v2)
  ultimately show ?thesis using st1(1) st2(1,3,4) by blast
qed

text \<open>The transaction of session 1 has written two pages and not committed; of these writes one is taken back.\<close>

definition demo_uncommitted :: "event list" where
  "demo_uncommitted = demo_schedule @ [BeginEv 1, WriteEv 1 (PageAddress 69 421, 0, [5]), WriteEv 1 (PageAddress 69 420, 25, [6])]"

lemma demo_uncommitted_facts:
  "sessions_fit (\<lambda>_. 0) empty_folder 1 (2 * BUFFERED_PAGE_SIZE) demo_uncommitted demo_base" "admissible demo_base demo_uncommitted"
  "pages_of demo_uncommitted = {PageAddress 69 420, PageAddress 69 421}"
  "open_session demo_uncommitted h = (if h = 1 then Some [(PageAddress 69 421, 0, [5]), (PageAddress 69 420, 25, [6])] else None)"
  "2 ^ 18 + sum_list (map event_len demo_uncommitted) < 2 ^ 63"
proof -
  have a: "demo_uncommitted = ((demo_schedule @ [BeginEv 1]) @ [WriteEv 1 (PageAddress 69 421, 0, [5])]) @ [WriteEv 1 (PageAddress 69 420, 25, [6])]"
    by (simp add: demo_uncommitted_def)
  show p: "pages_of demo_uncommitted = {PageAddress 69 420, PageAddress 69 421}"
    unfolding a pages_of_facts(2) demo_pages by auto
  show "sessions_fit (\<lambda>_. 0) empty_folder 1 (2 * BUFFERED_PAGE_SIZE) demo_uncommitted demo_base"
    using demo_fits(2) unfolding sessions_fit_def p demo_pages
    by (simp add: demo_uncommitted_def demo_schedule_def demo_open_def page_write_ok_def wf_page_address_def page_body_size_value)
  show "admissible demo_base demo_uncommitted"
    unfolding a admissible_snoc using demo_admissible(2)
    by (simp add: open_session_def held_by_other_def history_def demo_schedule_def demo_open_def)
  show "open_session demo_uncommitted h = (if h = 1 then Some [(PageAddress 69 421, 0, [5]), (PageAddress 69 420, 25, [6])] else None)"
    by (simp add: open_session_def history_def demo_uncommitted_def demo_schedule_def demo_open_def)
  show "2 ^ 18 + sum_list (map event_len demo_uncommitted) < 2 ^ 63"
    by (simp add: demo_uncommitted_def demo_schedule_def demo_open_def)
qed

theorem crash_keeps_uncommitted_writes_witness:
  "\<exists>st ss st' st1 st2 ix. page_storage_create (\<lambda>_. 0) 1 (2 * BUFFERED_PAGE_SIZE) 1 100 empty_folder = Ok st
    \<and> ev_run (physical_impl (\<lambda>_. 0)) (wal_impl (wal_file_impl (\<lambda>_. 0))) (Map.empty, st) demo_uncommitted (ss, st')
    \<and> page_storage_open 1 BUFFERED_PAGE_SIZE 1 100 (left_behind st') = Ok st1
    \<and> storage_recover (wal_impl (wal_file_impl (\<lambda>_. 0))) (physical_impl (\<lambda>_. 0)) st1 = (Ok (), st2)
    \<and> storage_view (\<lambda>_. 0) (sphys st2) (PageAddress 69 421) = Ok (ix, patch 0 [5] (patch 0 [9] (replicate PAGE_BODY_SIZE 0)))"
proof -
  let ?ws = "[(PageAddress 69 421, 0, [5]), (PageAddress 69 420, 25, [6])]"
  note f = demo_uncommitted_facts
  obtain st ss st' where r: "page_storage_create (\<lambda>_. 0) 1 (2 * BUFFERED_PAGE_SIZE) 1 100 empty_folder = Ok st"
      "ev_run (physical_impl (\<lambda>_. 0)) (wal_impl (wal_file_impl (\<lambda>_. 0))) (Map.empty, st) demo_uncommitted (ss, st')"
    using fitting_run [OF f(1,2)] by blast
  have h: "open_session demo_uncommitted 1 = Some ?ws" "?ws \<noteq> []" by (simp_all add: f(4))
  have q: "\<forall>h' us. h' \<noteq> 1 \<longrightarrow> open_session demo_uncommitted h' = Some us \<longrightarrow> us = []" by (simp add: f(4))
  obtain st1 st2 where c: "page_storage_open 1 BUFFERED_PAGE_SIZE 1 100 (left_behind st') = Ok st1"
      "storage_recover (wal_impl (wal_file_impl (\<lambda>_. 0))) (physical_impl (\<lambda>_. 0)) st1 = (Ok (), st2)"
      "\<forall>a \<in> pages_of demo_uncommitted. \<exists>ix. storage_view (\<lambda>_. 0) (sphys st2) a
        = Ok (ix, apply_writes (serial_writes demo_uncommitted @ butlast ?ws) demo_base a)"
    using crash_keeps_uncommitted_writes [OF f(1) r h q zero_less_one order_refl f(5), of 1 100] by blast
  have "apply_writes (serial_writes demo_uncommitted @ butlast ?ws) demo_base (PageAddress 69 421)
      = patch 0 [5] (patch 0 [9] (replicate PAGE_BODY_SIZE 0))"
    by (simp add: serial_writes_def history_def demo_uncommitted_def demo_schedule_def demo_open_def)
  moreover have "PageAddress 69 421 \<in> pages_of demo_uncommitted" by (simp add: f(3))
  ultimately have "\<exists>ix. storage_view (\<lambda>_. 0) (sphys st2) (PageAddress 69 421) = Ok (ix, patch 0 [5] (patch 0 [9] (replicate PAGE_BODY_SIZE 0)))"
    using c(3) by metis
  then show ?thesis using r c(1,2) by blast
qed

end
