(* ===== verification/Tasks.thy ===== *)
theory Tasks
  imports Transactions
begin

text \<open>
  The timers and periodic tasks of \<open>tasks.rs\<close>, and the configuration with its defaults
  (\<open>consts.rs\<close> and the \<open>Config\<close> structs of the storage). A point in time and a duration are
  numbers of one unit; the clock is an argument.
\<close>

section \<open>Timers\<close>

record failure_strategy =
  fatal :: bool
  retries :: nat

definition failure_strategy_default :: failure_strategy where
  "failure_strategy_default = \<lparr>fatal = False, retries = 3\<rparr>"

text \<open>The flag is shared by the timer and its handle.\<close>

record timer =
  last_run :: nat
  period :: nat
  timer_active :: bool

definition timer_new :: "nat \<Rightarrow> nat \<Rightarrow> timer" where
  "timer_new now p = \<lparr>last_run = now, period = p, timer_active = True\<rparr>"

text \<open>How long \<open>wait\<close> sleeps before it returns true; nothing when it returns false. A clock that went back counts as no time passed.\<close>

definition timer_wait :: "nat \<Rightarrow> timer \<Rightarrow> nat option" where
  "timer_wait now t = (if \<not> timer_active t then None else Some (period t - (now - last_run t)))"

definition timer_reset :: "nat \<Rightarrow> timer \<Rightarrow> timer" where
  "timer_reset now t = t\<lparr>last_run := now\<rparr>"

definition drop_timer_handle :: "timer \<Rightarrow> timer" where
  "drop_timer_handle t = t\<lparr>timer_active := False\<rparr>"

definition timer_handle_stop :: "timer \<Rightarrow> timer" where
  "timer_handle_stop t = drop_timer_handle t"

section \<open>Periodic tasks\<close>

text \<open>
  \<open>while timer.wait() \<dots>\<close>, for as many rounds as there are clock readings, each with whether the handle
  was dropped before it; the result is how long each round slept.
\<close>

fun periodic_task :: "('s, 'e, unit) prog \<Rightarrow> timer \<Rightarrow> (bool \<times> nat) list \<Rightarrow> ('s, 'e, nat list) prog" where
  "periodic_task work t [] = ret []"
| "periodic_task work t ((dropped, now) # ticks) =
     (let u = (if dropped then timer_handle_stop t else t) in
      case timer_wait now u of
        None \<Rightarrow> ret []
      | Some d \<Rightarrow> bindp work (\<lambda>_. bindp (periodic_task work u ticks) (\<lambda>ds. ret (d # ds))))"

definition periodic_checkpoint_task :: "'f wal_file_api \<Rightarrow> ('d, 'f) folder_api \<Rightarrow> timer \<Rightarrow> (bool \<times> nat) list \<Rightarrow> ('d, 'f, nat list) walp" where
  "periodic_checkpoint_task api fapi = periodic_task (checkpoint_task api fapi)"

definition periodic_flush_task :: "'ps physical_api \<Rightarrow> timer \<Rightarrow> (bool \<times> nat) list \<Rightarrow> (page_cache \<times> 'ps, storage_error, nat list) prog" where
  "periodic_flush_task api = periodic_task (flush_task api)"

lemma wait_new: "timer_wait now (timer_new start p) = Some (p - (now - start))"
  by (simp add: timer_wait_def timer_new_def)

lemma bindp_ret_eq: "bindp (ret a) f = f a"
  by (rule ext) (rule bindp_ret)

text \<open>A task whose handle is dropped ends with the next round.\<close>

lemma dropped_task_ends: "periodic_task work t ((True, now) # ticks) = ret []"
  by (simp add: timer_handle_stop_def drop_timer_handle_def timer_wait_def)

text \<open>How long a round sleeps whose clock reading is \<open>x\<close>, if the timer was created at \<open>start\<close>.\<close>

definition rest_until_deadline :: "nat \<Rightarrow> nat \<Rightarrow> nat \<Rightarrow> nat" where
  "rest_until_deadline start p x = (if start + p \<le> x then 0 else if x < start then p else start + p - x)"

lemma rest_until_deadline: "p - (x - start) = rest_until_deadline start p x"
  by (auto simp: rest_until_deadline_def)

text \<open>
  C38: A periodic task has one deadline, the end of its first period. Nothing resets the timer, so each
  round, whatever the clock reads then, sleeps for what is left of the first period after the creation of
  the timer: not at all once the clock reads that time or later, and the whole period if the clock was
  set back to before the creation. The rounds do not get a period of their own, so on a clock that has
  passed the first deadline the task works without a pause until its handle is dropped.
\<close>

theorem periodic_task_has_one_deadline:
  "periodic_task work (timer_new start p) (map (Pair False) nows @ (True, now) # ticks)
    = bindp (for_each (\<lambda>_. work) nows) (\<lambda>_. ret (map (rest_until_deadline start p) nows))"
  by (induction nows)
    (simp_all add: dropped_task_ends bindp_ret_eq wait_new bindp_assoc rest_until_deadline del: periodic_task.simps,
     simp add: bindp_ret_eq wait_new bindp_assoc rest_until_deadline)

text \<open>The second round ends the first period, and then the clock is set back once.\<close>

theorem periodic_task_has_one_deadline_witness:
  "periodic_task (modify Suc) (timer_new 100 60) [(False, 110), (False, 160), (False, 161), (False, 130), (True, 170), (False, 180)] (0 :: nat)
    = (Ok [50, 0, 0, 30] :: (storage_error, nat list) outcome, 4)"
  using fun_cong [OF periodic_task_has_one_deadline [of "modify Suc :: (nat, storage_error, unit) prog" 100 60
      "[110, 160, 161, 130]" 170 "[(False, 180)]"], of 0]
  by (simp add: prog_simps rest_until_deadline_def)

section \<open>Configuration\<close>

text \<open>Durations in seconds; a floating-point number is its bits.\<close>

definition DEFAULT_MAX_NUM_OPEN_SEGMENTS :: nat where "DEFAULT_MAX_NUM_OPEN_SEGMENTS = 512"
definition DEFAULT_MAX_WAL_GENERATION_SIZE :: nat where "DEFAULT_MAX_WAL_GENERATION_SIZE = 4 * GIB"
definition DEFAULT_PAGE_CACHE_SIZE :: nat where "DEFAULT_PAGE_CACHE_SIZE = 2 * GIB"
definition DEFAULT_MAX_DIRTY_PAGES :: u32 where "DEFAULT_MAX_DIRTY_PAGES = 0x3E4CCCCD"
definition DEFAULT_NUM_WORKERS :: nat where "DEFAULT_NUM_WORKERS = 2"
definition DEFAULT_CHECKPOINT_PERIOD :: nat where "DEFAULT_CHECKPOINT_PERIOD = 60"
definition DEFAULT_FLUSH_PERIOD :: nat where "DEFAULT_FLUSH_PERIOD = 3 * 60"

record physical_storage_config =
  cfg_max_num_open_segments :: nat

record page_cache_config =
  cfg_page_cache_size :: nat
  cfg_max_dirty_pages :: u32
  cfg_flush_period :: nat

record wal_config =
  cfg_max_generation_size :: nat
  cfg_checkpoint_period :: nat

record page_storage_config =
  cfg_physical_storage :: physical_storage_config
  cfg_page_cache :: page_cache_config
  cfg_wal :: wal_config

definition physical_storage_config_default :: physical_storage_config where
  "physical_storage_config_default = \<lparr>cfg_max_num_open_segments = DEFAULT_MAX_NUM_OPEN_SEGMENTS\<rparr>"

definition page_cache_config_default :: page_cache_config where
  "page_cache_config_default = \<lparr>cfg_page_cache_size = DEFAULT_PAGE_CACHE_SIZE, cfg_max_dirty_pages = DEFAULT_MAX_DIRTY_PAGES,
     cfg_flush_period = DEFAULT_FLUSH_PERIOD\<rparr>"

definition wal_config_default :: wal_config where
  "wal_config_default = \<lparr>cfg_max_generation_size = DEFAULT_MAX_WAL_GENERATION_SIZE, cfg_checkpoint_period = DEFAULT_CHECKPOINT_PERIOD\<rparr>"

definition page_storage_config_default :: page_storage_config where
  "page_storage_config_default = \<lparr>cfg_physical_storage = physical_storage_config_default,
     cfg_page_cache = page_cache_config_default, cfg_wal = wal_config_default\<rparr>"

text \<open>Creating and opening a storage with a configuration; the limit of dirty pages is an argument, as its product is of floating-point numbers.\<close>

definition create_configured :: "(byte list \<Rightarrow> u32) \<Rightarrow> page_storage_config \<Rightarrow> nat \<Rightarrow> database_folder
    \<Rightarrow> (storage_error, ((database_folder, wal_file) wal, (database_folder, u32) physical_storage) page_storage) outcome" where
  "create_configured crc cfg dirty_limit d = page_storage_create crc (cfg_max_num_open_segments (cfg_physical_storage cfg))
     (cfg_page_cache_size (cfg_page_cache cfg)) dirty_limit (cfg_max_generation_size (cfg_wal cfg)) d"

definition open_configured :: "page_storage_config \<Rightarrow> nat \<Rightarrow> database_folder
    \<Rightarrow> (storage_error, ((database_folder, wal_file) wal, (database_folder, u32) physical_storage) page_storage) outcome" where
  "open_configured cfg dirty_limit d = page_storage_open (cfg_max_num_open_segments (cfg_physical_storage cfg))
     (cfg_page_cache_size (cfg_page_cache cfg)) dirty_limit (cfg_max_generation_size (cfg_wal cfg)) d"

text \<open>The defaults meet what the theorems on transactions ask for, up to 65540 pages in one transaction.\<close>

lemma default_config_fits:
  "0 < cfg_max_num_open_segments (cfg_physical_storage page_storage_config_default)"
  "BUFFERED_PAGE_SIZE * k \<le> cfg_page_cache_size (cfg_page_cache page_storage_config_default) \<longleftrightarrow> k \<le> 65540"
  "BUFFERED_PAGE_SIZE \<le> cfg_page_cache_size (cfg_page_cache page_storage_config_default)"
proof -
  show "0 < cfg_max_num_open_segments (cfg_physical_storage page_storage_config_default)"
    by (simp add: page_storage_config_default_def physical_storage_config_default_def DEFAULT_MAX_NUM_OPEN_SEGMENTS_def)
  show "BUFFERED_PAGE_SIZE * k \<le> cfg_page_cache_size (cfg_page_cache page_storage_config_default) \<longleftrightarrow> k \<le> 65540"
    by (simp add: page_storage_config_default_def page_cache_config_default_def DEFAULT_PAGE_CACHE_SIZE_def GIB_def MIB_def KIB_def
        BUFFERED_PAGE_SIZE_def HEADER_SIZE_def page_body_size_value) linarith
  show "BUFFERED_PAGE_SIZE \<le> cfg_page_cache_size (cfg_page_cache page_storage_config_default)"
    by (simp add: page_storage_config_default_def page_cache_config_default_def DEFAULT_PAGE_CACHE_SIZE_def GIB_def MIB_def KIB_def
        BUFFERED_PAGE_SIZE_def HEADER_SIZE_def page_body_size_value)
qed

end
