(* ===== verification/Documents.thy ===== *)
theory Documents
  imports DbFolder
begin

text \<open>
  The documents of \<open>doc_store/document.rs\<close>: values, documents, schemas and the error of a
  document that does not fit its schema, with what \<open>Display\<close> prints for each. A hash map is the
  association list of its entries in the order of iteration; \<open>f64\<close> is its 64 bits.
\<close>

section \<open>Primitives, values and documents\<close>

datatype primitive = PString | PBool | PInt | PUint | PFloat

datatype hashable_primitive = HPString | HPBool | HPInt | HPUint

datatype doc_value = VString string | VBool bool | VInt u64 | VUint u64 | VFloat u64

datatype hashable_value = HVString string | HVBool bool | HVInt u64 | HVUint u64

datatype document =
    DocNil
  | DocValue doc_value
  | DocList "document list"
  | DocMap "(hashable_value \<times> document) list"
  | DocStruct "(string \<times> document) list"

fun value_primitive :: "doc_value \<Rightarrow> primitive" where
  "value_primitive (VString _) = PString"
| "value_primitive (VBool _) = PBool"
| "value_primitive (VInt _) = PInt"
| "value_primitive (VUint _) = PUint"
| "value_primitive (VFloat _) = PFloat"

fun value_from_hashable :: "hashable_value \<Rightarrow> doc_value" where
  "value_from_hashable (HVString s) = VString s"
| "value_from_hashable (HVBool b) = VBool b"
| "value_from_hashable (HVInt i) = VInt i"
| "value_from_hashable (HVUint u) = VUint u"

fun primitive_from_hashable :: "hashable_primitive \<Rightarrow> primitive" where
  "primitive_from_hashable HPString = PString"
| "primitive_from_hashable HPBool = PBool"
| "primitive_from_hashable HPInt = PInt"
| "primitive_from_hashable HPUint = PUint"

section \<open>Schemas\<close>

datatype schema =
    Empty
  | SPrimitive primitive
  | SOption schema
  | SList schema
  | SMap hashable_primitive schema
  | SStruct "(string \<times> schema) list"
  | SEnum "(string \<times> schema) list"

fun show_primitive :: "primitive \<Rightarrow> string" where
  "show_primitive PString = ''string''"
| "show_primitive PBool = ''bool''"
| "show_primitive PInt = ''int''"
| "show_primitive PUint = ''uint''"
| "show_primitive PFloat = ''float''"

definition show_hashable_primitive :: "hashable_primitive \<Rightarrow> string" where
  "show_hashable_primitive p = show_primitive (primitive_from_hashable p)"

text \<open>The loops count their entries from 0 to know which is the last.\<close>

fun show_schema :: "schema \<Rightarrow> string"
  and show_entries :: "nat \<Rightarrow> nat \<Rightarrow> (string \<times> schema) list \<Rightarrow> string"
  and show_variants :: "nat \<Rightarrow> nat \<Rightarrow> (string \<times> schema) list \<Rightarrow> string" where
  "show_schema Empty = ''_''"
| "show_schema (SPrimitive p) = show_primitive p"
| "show_schema (SOption s) = ''?'' @ show_schema s"
| "show_schema (SList s) = ''['' @ show_schema s @ '']''"
| "show_schema (SMap k s) = ''['' @ show_hashable_primitive k @ '' => '' @ show_schema s @ '']''"
| "show_schema (SStruct es) = ''{ '' @ show_entries 0 (length es) es @ '' }''"
| "show_schema (SEnum vs) = show_variants 0 (length vs) vs"
| "show_entries i n [] = ''''"
| "show_entries i n ((k, s) # es) =
     k @ '': '' @ show_schema s @ (if i < n - 1 then '', '' else '''') @ show_entries (Suc i) n es"
| "show_variants i n [] = ''''"
| "show_variants i n ((k, s) # vs) =
     (if s = Empty then k else k @ ''('' @ show_schema s @ '')'')
       @ (if i < n - 1 then '' | '' else '''') @ show_variants (Suc i) n vs"

section \<open>Schema errors\<close>

datatype schema_access_step = AccessIndex nat | AccessEntry string

fun show_access_step :: "schema_access_step \<Rightarrow> string" where
  "show_access_step (AccessIndex i) = ''['' @ show_nat i @ '']''"
| "show_access_step (AccessEntry k) = ''.'' @ k"

record schema_error =
  access_stack :: "schema_access_step list"
  se_expected :: schema
  se_received :: primitive

definition schema_error_new :: "schema \<Rightarrow> primitive \<Rightarrow> schema_error" where
  "schema_error_new e r = \<lparr>access_stack = [], se_expected = e, se_received = r\<rparr>"

definition push_access_step :: "schema_access_step \<Rightarrow> schema_error \<Rightarrow> schema_error" where
  "push_access_step s e = e\<lparr>access_stack := access_stack e @ [s]\<rparr>"

definition show_schema_error :: "schema_error \<Rightarrow> string" where
  "show_schema_error e = ''Schema expected '' @ show_schema (se_expected e) @ '' at ''
     @ concat (map show_access_step (rev (access_stack e)))
     @ '', but found '' @ show_primitive (se_received e)"

text \<open>
  The last step pushed is the first one printed: an error that is passed outwards collects its
  path from the inside.
\<close>

lemma show_schema_error_push:
  "show_schema_error (fold push_access_step steps (schema_error_new e r))
     = ''Schema expected '' @ show_schema e @ '' at '' @ concat (map show_access_step (rev steps))
       @ '', but found '' @ show_primitive r"
proof -
  have "fold push_access_step steps err = err\<lparr>access_stack := access_stack err @ steps\<rparr>" for err
    by (induction steps arbitrary: err) (simp_all add: push_access_step_def)
  then show ?thesis by (simp add: show_schema_error_def schema_error_new_def)
qed

end
