(* ===== verification/DocTypes.thy ===== *)
theory DocTypes
  imports Documents StoreTypes
begin

text \<open>
  The errors and pointers of \<open>doc_store/mod.rs\<close> and the stored form of pointers and values of
  \<open>doc_store/document_repr.rs\<close>.
\<close>

section \<open>Errors\<close>

datatype page_kind = FreelistMeta | FreelistBlock | Records

text \<open>\<open>FromUtf8Error\<close> holds the bytes that are not UTF-8.\<close>

datatype database_error =
    PageFormat string
  | UnexpectedPageKind page_kind page_kind
  | UnknownPageKind byte
  | PageOutOfBounds
  | InvalidRecordIndex
  | StringEncoding "byte list"
  | Schema schema_error
  | Storage storage_error

definition from_storage :: "('s, storage_error, 'a) prog \<Rightarrow> ('s, database_error, 'a) prog" where
  "from_storage m = map_errp Storage m"

lemma from_storage_Ok [prog_simps]: "m s = (Ok a, s') \<Longrightarrow> from_storage m s = (Ok a, s')"
  by (simp add: from_storage_def map_errp_Ok)

lemma from_storage_Err [prog_simps]: "m s = (Err e, s') \<Longrightarrow> from_storage m s = (Err (Storage e), s')"
  by (simp add: from_storage_def map_errp_Err)

section \<open>Pointers\<close>

datatype db_pointer = DbPointer (db_segment_num: u32) (db_page_num: u16) (db_index: u16)

definition wf_db_pointer :: "db_pointer \<Rightarrow> bool" where
  "wf_db_pointer p \<longleftrightarrow> db_page_num p \<noteq> 0"

definition db_pointer_new :: "page_address \<Rightarrow> u16 \<Rightarrow> db_pointer" where
  "db_pointer_new a i = DbPointer (segment_num a) (page_num a) i"

definition db_page_address :: "db_pointer \<Rightarrow> page_address" where
  "db_page_address p = PageAddress (db_segment_num p) (db_page_num p)"

lemma db_pointer_parts [simp]:
  "db_page_address (db_pointer_new a i) = a" "db_index (db_pointer_new a i) = i"
  "db_pointer_new (db_page_address p) (db_index p) = p"
  by (simp_all add: db_page_address_def db_pointer_new_def)

section \<open>Their stored form\<close>

definition DB_POINTER_SIZE :: nat where "DB_POINTER_SIZE = 8"

definition enc_opt_db_pointer :: "db_pointer option \<Rightarrow> byte list" where
  "enc_opt_db_pointer v = (case v of
     None \<Rightarrow> replicate 8 0
   | Some p \<Rightarrow> enc_u32 (db_segment_num p) @ enc_u16 (db_page_num p) @ enc_u16 (db_index p))"

definition dec_opt_db_pointer :: "byte list \<Rightarrow> db_pointer option" where
  "dec_opt_db_pointer bs = (let n = dec_u16 (slice 4 2 bs) in
     if n = 0 then None
     else Some (db_pointer_new (PageAddress (dec_u32 (slice 0 4 bs)) n) (dec_u16 (slice 6 2 bs))))"

definition enc_db_pointer :: "db_pointer \<Rightarrow> byte list" where
  "enc_db_pointer p = enc_opt_db_pointer (Some p)"

definition dec_db_pointer :: "byte list \<Rightarrow> (database_error, db_pointer) outcome" where
  "dec_db_pointer bs = (case dec_opt_db_pointer bs of
     None \<Rightarrow> Err (PageFormat ''DB pointer was null!'')
   | Some p \<Rightarrow> Ok p)"

definition wf_opt :: "('a \<Rightarrow> bool) \<Rightarrow> 'a option \<Rightarrow> bool" where
  "wf_opt ok v \<longleftrightarrow> (case v of None \<Rightarrow> True | Some a \<Rightarrow> ok a)"

lemma dec_u16_zeros [simp]: "dec_u16 (replicate n 0) = 0" "dec_u32 (replicate n 0) = 0"
  by (simp_all add: dec_u16_def dec_u32_def)

lemma dec_enc_opt_db_pointer: "wf_opt wf_db_pointer v \<Longrightarrow> dec_opt_db_pointer (enc_opt_db_pointer v) = v"
  by (cases v) (auto simp: dec_opt_db_pointer_def enc_opt_db_pointer_def wf_opt_def wf_db_pointer_def slice_def
      db_pointer_new_def Let_def)

lemma enc_opt_db_pointer_size: "length (enc_opt_db_pointer v) = 8"
  by (cases v) (simp_all add: enc_opt_db_pointer_def)

lemma dec_opt_db_pointer_wf: "dec_opt_db_pointer bs = v \<Longrightarrow> wf_opt wf_db_pointer v"
  by (auto simp: dec_opt_db_pointer_def wf_opt_def wf_db_pointer_def db_pointer_new_def Let_def)

interpretation odp: byte_repr enc_opt_db_pointer "\<lambda>bs. Ok (dec_opt_db_pointer bs)" DB_POINTER_SIZE "wf_opt wf_db_pointer"
  by unfold_locales
    (simp_all add: dec_enc_opt_db_pointer DB_POINTER_SIZE_def enc_opt_db_pointer_size dec_opt_db_pointer_wf)

interpretation dp: byte_repr enc_db_pointer dec_db_pointer DB_POINTER_SIZE wf_db_pointer
proof (unfold_locales, goal_cases)
  case (1 v)
  show ?case using odp.enc_length by (simp add: enc_db_pointer_def)
next
  case (2 v)
  then show ?case using dec_enc_opt_db_pointer [of "Some v"] by (simp add: enc_db_pointer_def dec_db_pointer_def wf_opt_def)
next
  case (3 bs v)
  then show ?case using odp.dec_wf [of bs "Some v"] by (auto simp: dec_db_pointer_def wf_opt_def split: option.splits)
qed

lemma slices_of_8:
  assumes "length bs = 8"
  shows "bs = slice 0 4 bs @ slice 4 2 bs @ slice 6 2 bs"
proof -
  have "bs = take 4 bs @ take 2 (drop 4 bs) @ take 2 (drop 2 (drop 4 bs))"
    using assms by (metis append_take_drop_id drop_drop drop_eq_Nil length_drop order_refl add_diff_cancel_right'
        numeral_Bit0 take_all one_add_one)
  then show ?thesis by (simp add: slice_def)
qed

text \<open>
  C35: Pointers survive being stored. A pointer and an optional pointer decode to themselves, an
  absent one is stored as zeros, and the eight bytes decode to a pointer exactly when their page
  number is not 0; the error for page number 0 is \<open>PageFormat\<close>.
\<close>

theorem db_pointer_roundtrip:
  "(\<forall>p. wf_db_pointer p \<longrightarrow> repr_from_bytes DB_POINTER_SIZE dec_db_pointer (enc_db_pointer p) = Ok p
      \<and> dec_opt_db_pointer (enc_opt_db_pointer (Some p)) = Some p)
    \<and> enc_opt_db_pointer None = replicate DB_POINTER_SIZE 0
    \<and> dec_opt_db_pointer (enc_opt_db_pointer None) = None
    \<and> (\<forall>bs. length bs = DB_POINTER_SIZE \<longrightarrow> (case dec_db_pointer bs of
           Ok q \<Rightarrow> wf_db_pointer q \<and> enc_db_pointer q = bs \<and> wf_page_address (db_page_address q)
         | r \<Rightarrow> r = Err (PageFormat ''DB pointer was null!'') \<and> slice 4 2 bs = [0, 0]))"
proof (intro conjI allI impI)
  fix p assume p: "wf_db_pointer p"
  show "repr_from_bytes DB_POINTER_SIZE dec_db_pointer (enc_db_pointer p) = Ok p" by (rule dp.from_bytes_enc [OF p])
  show "dec_opt_db_pointer (enc_opt_db_pointer (Some p)) = Some p" using dec_enc_opt_db_pointer p by (simp add: wf_opt_def)
next
  show "enc_opt_db_pointer None = replicate DB_POINTER_SIZE 0" by (simp add: enc_opt_db_pointer_def DB_POINTER_SIZE_def)
next
  show "dec_opt_db_pointer (enc_opt_db_pointer None) = None" using dec_enc_opt_db_pointer by (simp add: wf_opt_def)
next
  fix bs :: "byte list" assume b: "length bs = DB_POINTER_SIZE"
  have l: "length (slice 0 4 bs) = 4" "length (slice 4 2 bs) = 2" "length (slice 6 2 bs) = 2"
    using b by (simp_all add: DB_POINTER_SIZE_def)
  have s: "bs = slice 0 4 bs @ slice 4 2 bs @ slice 6 2 bs" by (rule slices_of_8) (simp add: b DB_POINTER_SIZE_def)
  show "case dec_db_pointer bs of
           Ok q \<Rightarrow> wf_db_pointer q \<and> enc_db_pointer q = bs \<and> wf_page_address (db_page_address q)
         | r \<Rightarrow> r = Err (PageFormat ''DB pointer was null!'') \<and> slice 4 2 bs = [0, 0]"
  proof (cases "dec_u16 (slice 4 2 bs) = 0")
    case True
    then have "slice 4 2 bs = enc_u16 0" using enc_dec_u16 [OF l(2)] by metis
    then show ?thesis using True
      by (simp add: dec_db_pointer_def dec_opt_db_pointer_def enc_u16_def numeral_2_eq_2)
  next
    case False
    then show ?thesis
      using enc_dec_u32 [OF l(1)] enc_dec_u16 [OF l(2)] enc_dec_u16 [OF l(3)] s
      by (simp add: dec_db_pointer_def dec_opt_db_pointer_def enc_db_pointer_def enc_opt_db_pointer_def
          wf_db_pointer_def wf_page_address_def db_page_address_def db_pointer_new_def Let_def)
  qed
qed

theorem db_pointer_roundtrip_witness:
  "wf_db_pointer (DbPointer 7 3 9)
    \<and> repr_from_bytes DB_POINTER_SIZE dec_db_pointer (enc_db_pointer (DbPointer 7 3 9)) = Ok (DbPointer 7 3 9)
    \<and> length (replicate 8 (0 :: byte)) = DB_POINTER_SIZE
    \<and> dec_db_pointer (replicate 8 0) = Err (PageFormat ''DB pointer was null!'')"
proof -
  have w: "wf_db_pointer (DbPointer 7 3 9)" by (simp add: wf_db_pointer_def)
  have l: "length (replicate 8 (0 :: byte)) = DB_POINTER_SIZE" by (simp add: DB_POINTER_SIZE_def)
  have n: "dec_opt_db_pointer (replicate 8 0) = None" by (simp add: dec_opt_db_pointer_def slice_def)
  have c: "case dec_db_pointer (replicate 8 0) of
        Ok q \<Rightarrow> wf_db_pointer q \<and> enc_db_pointer q = replicate 8 0 \<and> wf_page_address (db_page_address q)
      | r \<Rightarrow> r = Err (PageFormat ''DB pointer was null!'') \<and> slice 4 2 (replicate 8 (0 :: byte)) = [0, 0]"
    using db_pointer_roundtrip l by blast
  then have "dec_db_pointer (replicate 8 0) = Err (PageFormat ''DB pointer was null!'')"
    using n by (simp add: dec_db_pointer_def)
  then show ?thesis using db_pointer_roundtrip w l by blast
qed

section \<open>Stored values and documents\<close>

datatype stored_value =
    StoredString db_pointer
  | StoredBool bool
  | StoredInt u64
  | StoredUint u64
  | StoredFloat u64

datatype stored_document =
    StoredValue stored_value
  | StoredOption "stored_document option"
  | StoredList db_pointer
  | StructFields "stored_document list"

text \<open>\<open>StoredValue::size\<close>: the sizes of the types in bytes.\<close>

fun stored_value_size :: "stored_value \<Rightarrow> nat" where
  "stored_value_size (StoredString _) = DB_POINTER_SIZE"
| "stored_value_size (StoredBool _) = 1"
| "stored_value_size (StoredInt _) = 8"
| "stored_value_size (StoredUint _) = 8"
| "stored_value_size (StoredFloat _) = 8"

end
