(* ===== verification/DocPages.thy ===== *)
theory DocPages
  imports DocTypes Segment
begin

text \<open>
  The page formats of \<open>doc_store/pages.rs\<close>: the meta page of the allocator, the pages of the
  free list and the record pages.

  A page type \<open>P\<close> is what its trait methods do: \<open>ReadPage::read\<close> and \<open>WritePage::write\<close> are
  arguments of the definitions. The formats are packed structs; a section is read and written at
  the offset of its field. Sizes and indices are \<open>nat\<close>.
\<close>

type_synonym 's read_page = "nat \<Rightarrow> nat \<Rightarrow> ('s, storage_error, byte list) prog"
type_synonym 's write_page = "nat \<Rightarrow> byte list \<Rightarrow> ('s, storage_error, unit) prog"
type_synonym ('s, 'a) dbp = "('s, database_error, 'a) prog"

section \<open>Page headers and addresses\<close>

definition page_kind_from :: "byte \<Rightarrow> page_kind option" where
  "page_kind_from b = (if b = 0 then Some FreelistMeta else if b = 1 then Some FreelistBlock
     else if b = 2 then Some Records else None)"

fun page_kind_byte :: "page_kind \<Rightarrow> byte" where
  "page_kind_byte FreelistMeta = 0"
| "page_kind_byte FreelistBlock = 1"
| "page_kind_byte Records = 2"

text \<open>A \<open>PageHeader\<close> has the one field \<open>kind\<close> and is stored as one byte.\<close>

definition dec_page_kind :: "byte list \<Rightarrow> (database_error, page_kind) outcome" where
  "dec_page_kind bs = (case page_kind_from (hd bs) of None \<Rightarrow> Err (UnknownPageKind (hd bs)) | Some k \<Rightarrow> Ok k)"

definition enc_page_kind :: "page_kind \<Rightarrow> byte list" where
  "enc_page_kind k = [page_kind_byte k]"

definition ADDRESS_SIZE :: nat where "ADDRESS_SIZE = 6"

definition enc_doc_address :: "page_address \<Rightarrow> byte list" where
  "enc_doc_address a = enc_u32 (segment_num a) @ enc_u16 (page_num a)"

definition dec_doc_address :: "byte list \<Rightarrow> (database_error, page_address) outcome" where
  "dec_doc_address bs = (let n = dec_u16 (slice 4 2 bs) in
     if n = 0 then Err (PageFormat ''Found invalid page number '0'!'')
     else Ok (PageAddress (dec_u32 (slice 0 4 bs)) n))"

definition dec_opt_address :: "byte list \<Rightarrow> page_address option" where
  "dec_opt_address bs = (let n = dec_u16 (slice 4 2 bs) in
     if n = 0 then None else Some (PageAddress (dec_u32 (slice 0 4 bs)) n))"

definition enc_opt_address :: "page_address option \<Rightarrow> byte list" where
  "enc_opt_address v = (case v of Some a \<Rightarrow> enc_doc_address a | None \<Rightarrow> replicate 6 0)"

section \<open>Sections\<close>

definition read_section :: "'s read_page \<Rightarrow> nat \<Rightarrow> nat \<Rightarrow> (byte list \<Rightarrow> (database_error, 'a) outcome) \<Rightarrow> ('s, 'a) dbp" where
  "read_section rd off n dec = bindp (from_storage (rd off n)) (\<lambda>bs. lift_oc (dec bs))"

definition write_section :: "'s write_page \<Rightarrow> nat \<Rightarrow> byte list \<Rightarrow> ('s, unit) dbp" where
  "write_section wr off bs = from_storage (wr off bs)"

definition read_array_section ::
  "'s read_page \<Rightarrow> nat \<Rightarrow> nat \<Rightarrow> (byte list \<Rightarrow> (database_error, 'a) outcome) \<Rightarrow> nat \<Rightarrow> ('s, 'a) dbp" where
  "read_array_section rd base n dec i =
     (if base + n * i + n > PAGE_BODY_SIZE then throw PageOutOfBounds
      else read_section rd (base + n * i) n dec)"

definition write_array_section :: "'s write_page \<Rightarrow> nat \<Rightarrow> nat \<Rightarrow> nat \<Rightarrow> byte list \<Rightarrow> ('s, unit) dbp" where
  "write_array_section wr base n i bs =
     (if base + n * i + n > PAGE_BODY_SIZE then ret ()
      else write_section wr (base + n * i) bs)"

section \<open>The meta page\<close>

text \<open>Offsets of \<open>MetaPageFormat\<close>: header 0, free list head 1, next page address 7.\<close>

definition meta_page_new :: "'s read_page \<Rightarrow> ('s, unit) dbp" where
  "meta_page_new rd = bindp (read_section rd 0 1 dec_page_kind) (\<lambda>k.
     if k \<noteq> FreelistMeta then throw (UnexpectedPageKind FreelistMeta k) else ret ())"

definition get_freelist_head :: "'s read_page \<Rightarrow> ('s, page_address option) dbp" where
  "get_freelist_head rd = read_section rd 1 ADDRESS_SIZE (\<lambda>bs. Ok (dec_opt_address bs))"

definition get_next_address :: "'s read_page \<Rightarrow> ('s, page_address) dbp" where
  "get_next_address rd = read_section rd 7 ADDRESS_SIZE dec_doc_address"

definition set_freelist_head :: "'s write_page \<Rightarrow> page_address option \<Rightarrow> ('s, unit) dbp" where
  "set_freelist_head wr v = write_section wr 1 (enc_opt_address v)"

definition set_next_address :: "'s write_page \<Rightarrow> page_address \<Rightarrow> ('s, unit) dbp" where
  "set_next_address wr v = write_section wr 7 (enc_doc_address v)"

definition meta_page_init :: "'s write_page \<Rightarrow> page_address \<Rightarrow> ('s, unit) dbp" where
  "meta_page_init wr nx =
     bindp (write_section wr 0 (enc_page_kind FreelistMeta)) (\<lambda>_.
     bindp (set_freelist_head wr None) (\<lambda>_. set_next_address wr nx))"

section \<open>Pages of the free list\<close>

text \<open>Offsets of \<open>FreelistPageFormat\<close>: header 0, next page address 1, length 7, items 9.\<close>

definition FREELIST_SLOTS :: nat where "FREELIST_SLOTS = (PAGE_BODY_SIZE - 9) div ADDRESS_SIZE"

definition freelist_page_new :: "'s read_page \<Rightarrow> ('s, unit) dbp" where
  "freelist_page_new rd = bindp (read_section rd 0 1 dec_page_kind) (\<lambda>k.
     if k \<noteq> FreelistBlock then throw (UnexpectedPageKind FreelistBlock k) else ret ())"

definition get_next_freelist :: "'s read_page \<Rightarrow> ('s, page_address option) dbp" where
  "get_next_freelist rd = read_section rd 1 ADDRESS_SIZE (\<lambda>bs. Ok (dec_opt_address bs))"

definition get_length :: "'s read_page \<Rightarrow> ('s, nat) dbp" where
  "get_length rd = read_section rd 7 2 (\<lambda>bs. Ok (unat (dec_u16 bs)))"

definition is_full :: "'s read_page \<Rightarrow> ('s, bool) dbp" where
  "is_full rd = bindp (get_length rd) (\<lambda>n. ret (n \<ge> FREELIST_SLOTS))"

definition get_item :: "'s read_page \<Rightarrow> nat \<Rightarrow> ('s, page_address option) dbp" where
  "get_item rd i = read_array_section rd 9 ADDRESS_SIZE (\<lambda>bs. Ok (dec_opt_address bs)) i"

definition set_next_freelist :: "'s write_page \<Rightarrow> page_address option \<Rightarrow> ('s, unit) dbp" where
  "set_next_freelist wr v = write_section wr 1 (enc_opt_address v)"

definition set_length :: "'s write_page \<Rightarrow> nat \<Rightarrow> ('s, unit) dbp" where
  "set_length wr n = (case try_u16 n of None \<Rightarrow> panic | Some w \<Rightarrow> write_section wr 7 (enc_u16 w))"

definition set_item :: "'s write_page \<Rightarrow> nat \<Rightarrow> page_address option \<Rightarrow> ('s, unit) dbp" where
  "set_item wr i v = write_array_section wr 9 ADDRESS_SIZE i (enc_opt_address v)"

definition freelist_init :: "'s write_page \<Rightarrow> ('s, unit) dbp" where
  "freelist_init wr =
     bindp (write_section wr 0 (enc_page_kind FreelistBlock)) (\<lambda>_.
     bindp (set_next_freelist wr None) (\<lambda>_. set_length wr 0))"

definition push_item :: "'s read_page \<Rightarrow> 's write_page \<Rightarrow> page_address \<Rightarrow> ('s, unit) dbp" where
  "push_item rd wr v =
     bindp (get_length rd) (\<lambda>i.
     bindp (set_item wr i (Some v)) (\<lambda>_. set_length wr (i + 1)))"

text \<open>The loop of \<open>pop_item\<close> goes down from the length to the last item that is not empty.\<close>

fun pop_loop :: "'s read_page \<Rightarrow> 's write_page \<Rightarrow> nat \<Rightarrow> ('s, page_address option) dbp" where
  "pop_loop rd wr 0 = ret None"
| "pop_loop rd wr (Suc i) = bindp (get_item rd i) (\<lambda>m.
     case m of
       Some a \<Rightarrow> bindp (set_length wr i) (\<lambda>_. ret (Some a))
     | None \<Rightarrow> pop_loop rd wr i)"

definition pop_item :: "'s read_page \<Rightarrow> 's write_page \<Rightarrow> ('s, page_address option) dbp" where
  "pop_item rd wr = bindp (get_length rd) (pop_loop rd wr)"

section \<open>Record pages\<close>

text \<open>Offsets of \<open>RecordsPageFormat\<close>: header 0, record length 1, number of records 3, offsets 5.\<close>

definition records_page_new :: "'s read_page \<Rightarrow> ('s, unit) dbp" where
  "records_page_new rd = bindp (read_section rd 0 1 dec_page_kind) (\<lambda>k.
     if k \<noteq> Records then throw (UnexpectedPageKind Records k) else ret ())"

definition get_record_length :: "'s read_page \<Rightarrow> ('s, nat) dbp" where
  "get_record_length rd = read_section rd 1 2 (\<lambda>bs. Ok (unat (dec_u16 bs)))"

definition get_num_records :: "'s read_page \<Rightarrow> ('s, nat) dbp" where
  "get_num_records rd = read_section rd 3 2 (\<lambda>bs. Ok (unat (dec_u16 bs)))"

definition get_offset_at :: "'s read_page \<Rightarrow> nat \<Rightarrow> ('s, nat) dbp" where
  "get_offset_at rd i = bindp (get_num_records rd) (\<lambda>n.
     if i \<ge> n then throw InvalidRecordIndex
     else read_array_section rd 5 2 (\<lambda>bs. Ok (unat (dec_u16 bs))) i)"

definition get_first_record_offset :: "'s read_page \<Rightarrow> ('s, nat) dbp" where
  "get_first_record_offset rd = bindp (get_num_records rd) (\<lambda>n. ret (5 + n * 2))"

text \<open>The result of \<open>get_record\<close> is the caller's buffer after the call.\<close>

definition get_record :: "'s read_page \<Rightarrow> nat \<Rightarrow> byte list \<Rightarrow> ('s, byte list) dbp" where
  "get_record rd i buf =
     bindp (get_record_length rd) (\<lambda>len.
     bindp (get_offset_at rd i) (\<lambda>off.
     if off + len > PAGE_BODY_SIZE then throw PageOutOfBounds
     else if len > length buf then panic
     else bindp (from_storage (rd off len)) (\<lambda>bs. ret (bs @ drop len buf))))"

definition set_record :: "'s read_page \<Rightarrow> 's write_page \<Rightarrow> nat \<Rightarrow> byte list \<Rightarrow> ('s, unit) dbp" where
  "set_record rd wr i buf =
     bindp (get_record_length rd) (\<lambda>len.
     bindp (get_offset_at rd i) (\<lambda>off.
     if off + len > PAGE_BODY_SIZE then throw PageOutOfBounds
     else if len > length buf then panic
     else from_storage (wr off (take len buf))))"

definition set_record_length :: "'s write_page \<Rightarrow> nat \<Rightarrow> ('s, unit) dbp" where
  "set_record_length wr n = (case try_u16 n of None \<Rightarrow> panic | Some w \<Rightarrow> write_section wr 1 (enc_u16 w))"

definition set_offset_at :: "'s read_page \<Rightarrow> 's write_page \<Rightarrow> nat \<Rightarrow> nat \<Rightarrow> ('s, unit) dbp" where
  "set_offset_at rd wr i off = bindp (get_num_records rd) (\<lambda>n.
     if i \<ge> n then throw InvalidRecordIndex
     else (case try_u16 off of None \<Rightarrow> panic | Some w \<Rightarrow> write_array_section wr 5 2 i (enc_u16 w)))"

section \<open>Codecs\<close>

lemma length_enc_doc_address [simp]: "length (enc_doc_address a) = 6"
  by (simp add: enc_doc_address_def)

lemma length_enc_opt_address [simp]: "length (enc_opt_address v) = 6"
  by (cases v) (simp_all add: enc_opt_address_def)

lemma dec_enc_doc_address: "wf_page_address a \<Longrightarrow> dec_doc_address (enc_doc_address a) = Ok a"
  by (simp add: dec_doc_address_def enc_doc_address_def slice_def wf_page_address_def)

lemma dec_enc_opt_address: "wf_opt wf_page_address v \<Longrightarrow> dec_opt_address (enc_opt_address v) = v"
  by (cases v) (simp_all add: dec_opt_address_def enc_opt_address_def enc_doc_address_def slice_def wf_page_address_def wf_opt_def)

lemma dec_doc_address_wf: "dec_doc_address bs = Ok a \<Longrightarrow> wf_page_address a"
  by (auto simp: dec_doc_address_def wf_page_address_def Let_def split: if_splits)

lemma dec_opt_address_wf: "dec_opt_address bs = Some a \<Longrightarrow> wf_page_address a"
  by (auto simp: dec_opt_address_def wf_page_address_def Let_def split: if_splits)

lemma dec_enc_page_kind [simp]: "dec_page_kind (enc_page_kind k) = Ok k"
  by (cases k) (simp_all add: dec_page_kind_def enc_page_kind_def page_kind_from_def)

interpretation doc_address: byte_repr enc_doc_address dec_doc_address ADDRESS_SIZE wf_page_address
  by unfold_locales (simp_all add: ADDRESS_SIZE_def dec_enc_doc_address dec_doc_address_wf)

interpretation opt_address: byte_repr enc_opt_address "\<lambda>bs. Ok (dec_opt_address bs)" ADDRESS_SIZE "wf_opt wf_page_address"
  by unfold_locales (auto simp: ADDRESS_SIZE_def dec_enc_opt_address wf_opt_def dec_opt_address_wf split: option.split)

lemma freelist_slots_value: "FREELIST_SLOTS = 5456"
  by (simp add: FREELIST_SLOTS_def ADDRESS_SIZE_def page_body_size_value)

end
