(* ===== verification/PageAlloc.thy ===== *)
theory PageAlloc
  imports DocPages
begin

text \<open>
  The page allocator of \<open>doc_store/page_alloc.rs\<close>, over the interface \<open>TransactionApi\<close> of a
  transaction and its pages.
\<close>

section \<open>The interface of a transaction\<close>

text \<open>
  \<open>get_page\<close> gives a page to read and \<open>get_page_mut\<close> one to read and write. Dropping the first
  has an effect (it ends a shared access), dropping the second has none: it only borrows what the
  transaction holds anyway.
\<close>

record ('t, 'p, 'm) transaction_api =
  ta_get_page :: "page_address \<Rightarrow> ('t, storage_error, 'p) prog"
  ta_get_page_mut :: "page_address \<Rightarrow> ('t, storage_error, 'm) prog"
  ta_read :: "'p \<Rightarrow> 't read_page"
  ta_drop :: "'p \<Rightarrow> 't \<Rightarrow> 't"
  ta_read_mut :: "'m \<Rightarrow> 't read_page"
  ta_write :: "'m \<Rightarrow> 't write_page"

text \<open>Running a block at whose end, also after an error, a value is dropped.\<close>

definition then_drop :: "('s \<Rightarrow> 's) \<Rightarrow> ('s, 'e, 'a) prog \<Rightarrow> ('s, 'e, 'a) prog" where
  "then_drop d m s = (case m s of
     (Ok a, s1) \<Rightarrow> (Ok a, d s1)
   | (Err e, s1) \<Rightarrow> (Err e, d s1)
   | (Panic, s1) \<Rightarrow> (Panic, s1)
   | (Stuck, s1) \<Rightarrow> (Stuck, s1))"

section \<open>Addresses\<close>

definition META_PAGE_ADDRESS :: page_address where "META_PAGE_ADDRESS = PageAddress 0 1"

definition page_address_after :: "page_address \<Rightarrow> (database_error, page_address) outcome" where
  "page_address_after a = (if page_num a = 65535
     then (case checked_add (segment_num a) 1 of None \<Rightarrow> Panic | Some s \<Rightarrow> Ok (PageAddress s 1))
     else (case checked_add (page_num a) 1 of None \<Rightarrow> Panic | Some p \<Rightarrow> Ok (PageAddress (segment_num a) p)))"

section \<open>Operations\<close>

text \<open>\<open>meta_page\<close> and \<open>meta_page_mut\<close>: a page of another kind is dropped.\<close>

definition meta_page :: "('t, 'p, 'm) transaction_api \<Rightarrow> ('t, 'p) dbp" where
  "meta_page api = bindp (from_storage (ta_get_page api META_PAGE_ADDRESS)) (\<lambda>p s.
     case meta_page_new (ta_read api p) s of
       (Ok _, s1) \<Rightarrow> (Ok p, s1)
     | (Err e, s1) \<Rightarrow> (Err e, ta_drop api p s1)
     | (Panic, s1) \<Rightarrow> (Panic, s1)
     | (Stuck, s1) \<Rightarrow> (Stuck, s1))"

definition meta_page_mut :: "('t, 'p, 'm) transaction_api \<Rightarrow> ('t, 'm) dbp" where
  "meta_page_mut api = bindp (from_storage (ta_get_page_mut api META_PAGE_ADDRESS)) (\<lambda>m.
     bindp (meta_page_new (ta_read_mut api m)) (\<lambda>_. ret m))"

definition alloc_init :: "('t, 'p, 'm) transaction_api \<Rightarrow> ('t, unit) dbp" where
  "alloc_init api = bindp (from_storage (ta_get_page_mut api META_PAGE_ADDRESS)) (\<lambda>m.
     bindp (lift_oc (page_address_after META_PAGE_ADDRESS)) (\<lambda>nx.
     meta_page_init (ta_write api m) nx))"

definition next_free_page :: "('t, 'p, 'm) transaction_api \<Rightarrow> ('t, page_address option) dbp" where
  "next_free_page api =
     bindp (meta_page api) (\<lambda>p.
     bindp (then_drop (ta_drop api p) (get_freelist_head (ta_read api p))) (\<lambda>head.
     case head of
       None \<Rightarrow> ret None
     | Some h \<Rightarrow>
         bindp (from_storage (ta_get_page_mut api h)) (\<lambda>m.
         bindp (freelist_page_new (ta_read_mut api m)) (\<lambda>_.
         bindp (pop_item (ta_read_mut api m) (ta_write api m)) (\<lambda>item.
         case item of
           Some a \<Rightarrow> ret (Some a)
         | None \<Rightarrow>
             bindp (get_next_freelist (ta_read_mut api m)) (\<lambda>new_head.
             bindp (meta_page_mut api) (\<lambda>mm.
             bindp (set_freelist_head (ta_write api mm) new_head) (\<lambda>_.
             ret (Some h)))))))))"

definition next_uninit_page :: "('t, 'p, 'm) transaction_api \<Rightarrow> ('t, page_address) dbp" where
  "next_uninit_page api =
     bindp (meta_page_mut api) (\<lambda>m.
     bindp (get_next_address (ta_read_mut api m)) (\<lambda>a.
     bindp (lift_oc (page_address_after a)) (\<lambda>nx.
     bindp (set_next_address (ta_write api m) nx) (\<lambda>_. ret a))))"

definition alloc :: "('t, 'p, 'm) transaction_api \<Rightarrow> ('t, page_address) dbp" where
  "alloc api = bindp (next_free_page api) (\<lambda>m.
     case m of Some a \<Rightarrow> ret a | None \<Rightarrow> next_uninit_page api)"

text \<open>
  \<open>free\<close>: into the first page of the free list if it has room; otherwise the freed page itself
  becomes the first page of the list.
\<close>

definition free :: "('t, 'p, 'm) transaction_api \<Rightarrow> page_address \<Rightarrow> ('t, unit) dbp" where
  "free api a =
     bindp (meta_page api) (\<lambda>p.
     bindp (then_drop (ta_drop api p) (get_freelist_head (ta_read api p))) (\<lambda>head.
     case head of
       Some h \<Rightarrow>
         bindp (from_storage (ta_get_page_mut api h)) (\<lambda>m.
         bindp (freelist_page_new (ta_read_mut api m)) (\<lambda>_.
         bindp (is_full (ta_read_mut api m)) (\<lambda>full.
         if \<not> full then push_item (ta_read_mut api m) (ta_write api m) a
         else
           bindp (from_storage (ta_get_page_mut api a)) (\<lambda>n.
           bindp (freelist_init (ta_write api n)) (\<lambda>_.
           bindp (set_next_freelist (ta_write api n) (Some h)) (\<lambda>_.
           bindp (meta_page_mut api) (\<lambda>mm.
           set_freelist_head (ta_write api mm) (Some a))))))))
     | None \<Rightarrow>
         bindp (from_storage (ta_get_page_mut api a)) (\<lambda>n.
         bindp (freelist_init (ta_write api n)) (\<lambda>_.
         bindp (meta_page_mut api) (\<lambda>mm.
         set_freelist_head (ta_write api mm) (Some a))))))"

end
