(* ===== verification/DocContents.thy ===== *)
theory DocContents
  imports DocPages
begin

text \<open>
  What the operations of the page formats do to the body of a page. The interface of a page to
  its formats is \<open>page_reading\<close> and \<open>page_writing\<close>: reading gives the bytes of the body, writing
  patches them and uses up room in the log.
\<close>

section \<open>The contents of pages\<close>

text \<open>What the fields of a page's body say.\<close>

definition kind_of :: "byte list \<Rightarrow> (database_error, page_kind) outcome" where
  "kind_of b = dec_page_kind (slice 0 1 b)"

definition head_of :: "byte list \<Rightarrow> page_address option" where
  "head_of b = dec_opt_address (slice 1 6 b)"

definition next_of :: "byte list \<Rightarrow> (database_error, page_address) outcome" where
  "next_of b = dec_doc_address (slice 7 6 b)"

definition fl_length :: "byte list \<Rightarrow> nat" where
  "fl_length b = unat (dec_u16 (slice 7 2 b))"

definition fl_item :: "byte list \<Rightarrow> nat \<Rightarrow> page_address option" where
  "fl_item b i = dec_opt_address (slice (9 + 6 * i) 6 b)"

text \<open>The items below a length, without the empty ones.\<close>

fun fl_upto :: "byte list \<Rightarrow> nat \<Rightarrow> page_address list" where
  "fl_upto b 0 = []"
| "fl_upto b (Suc i) = fl_upto b i @ (case fl_item b i of None \<Rightarrow> [] | Some a \<Rightarrow> [a])"

definition fl_items :: "byte list \<Rightarrow> page_address list" where
  "fl_items b = fl_upto b (fl_length b)"

lemma fl_upto_cong: "(\<And>i. i < n \<Longrightarrow> fl_item b i = fl_item c i) \<Longrightarrow> fl_upto b n = fl_upto c n"
  by (induction n) auto

lemma fl_items_wf: "a \<in> set (fl_items b) \<Longrightarrow> wf_page_address a"
proof -
  have "a \<in> set (fl_upto b n) \<Longrightarrow> wf_page_address a" for n
    by (induction n) (auto simp: fl_item_def dec_opt_address_wf split: option.splits)
  then show "a \<in> set (fl_items b) \<Longrightarrow> wf_page_address a" by (simp add: fl_items_def)
qed

text \<open>What the writes of the page formats do to the fields.\<close>

lemma set_head_fields:
  assumes "length b = PAGE_BODY_SIZE" and "wf_opt wf_page_address v"
  shows "head_of (patch 1 (enc_opt_address v) b) = v" "kind_of (patch 1 (enc_opt_address v) b) = kind_of b"
    "next_of (patch 1 (enc_opt_address v) b) = next_of b" "fl_length (patch 1 (enc_opt_address v) b) = fl_length b"
    "n \<le> FREELIST_SLOTS \<Longrightarrow> fl_upto (patch 1 (enc_opt_address v) b) n = fl_upto b n"
proof -
  have l: "1 + length (enc_opt_address v) \<le> length b" using assms(1) by (simp add: page_body_size_value)
  have o: "slice o2 m (patch 1 (enc_opt_address v) b) = slice o2 m b" if "o2 + m \<le> length b" "o2 + m \<le> 1 \<or> 7 \<le> o2" for o2 m
    by (rule slice_patch_other [OF l that(1)]) (use that in simp)
  show "head_of (patch 1 (enc_opt_address v) b) = v"
    using slice_patch_same [OF l] dec_enc_opt_address [OF assms(2)] by (simp add: head_of_def)
  show "kind_of (patch 1 (enc_opt_address v) b) = kind_of b" "next_of (patch 1 (enc_opt_address v) b) = next_of b"
    "fl_length (patch 1 (enc_opt_address v) b) = fl_length b"
    using assms(1) by (simp_all add: kind_of_def next_of_def fl_length_def o [unfolded One_nat_def] page_body_size_value)
  show "fl_upto (patch 1 (enc_opt_address v) b) n = fl_upto b n" if "n \<le> FREELIST_SLOTS"
    by (rule fl_upto_cong) (use assms(1) that in \<open>simp add: fl_item_def o [unfolded One_nat_def] page_body_size_value freelist_slots_value\<close>)
qed

lemma set_length_fields:
  assumes "length b = PAGE_BODY_SIZE"
  shows "fl_length (patch 7 (enc_u16 w) b) = unat w" "kind_of (patch 7 (enc_u16 w) b) = kind_of b"
    "head_of (patch 7 (enc_u16 w) b) = head_of b"
    "n \<le> FREELIST_SLOTS \<Longrightarrow> fl_upto (patch 7 (enc_u16 w) b) n = fl_upto b n"
proof -
  have l: "7 + length (enc_u16 w) \<le> length b" using assms(1) by (simp add: page_body_size_value)
  have o: "slice o2 m (patch 7 (enc_u16 w) b) = slice o2 m b" if "o2 + m \<le> length b" "o2 + m \<le> 7 \<or> 9 \<le> o2" for o2 m
    by (rule slice_patch_other [OF l that(1)]) (use that in simp)
  show "fl_length (patch 7 (enc_u16 w) b) = unat w"
    using slice_patch_same [OF l] by (simp add: fl_length_def)
  show "kind_of (patch 7 (enc_u16 w) b) = kind_of b" "head_of (patch 7 (enc_u16 w) b) = head_of b"
    using assms(1) by (simp_all add: kind_of_def head_of_def o page_body_size_value)
  show "fl_upto (patch 7 (enc_u16 w) b) n = fl_upto b n" if "n \<le> FREELIST_SLOTS"
    by (rule fl_upto_cong) (use assms(1) that in \<open>simp add: fl_item_def o page_body_size_value freelist_slots_value\<close>)
qed

lemma set_item_fields:
  assumes "length b = PAGE_BODY_SIZE" and "wf_opt wf_page_address v" and "i < FREELIST_SLOTS"
  shows "fl_item (patch (9 + 6 * i) (enc_opt_address v) b) i = v"
    "kind_of (patch (9 + 6 * i) (enc_opt_address v) b) = kind_of b"
    "head_of (patch (9 + 6 * i) (enc_opt_address v) b) = head_of b"
    "n \<le> i \<Longrightarrow> fl_upto (patch (9 + 6 * i) (enc_opt_address v) b) n = fl_upto b n"
proof -
  have l: "9 + 6 * i + length (enc_opt_address v) \<le> length b"
    using assms(1,3) by (simp add: page_body_size_value freelist_slots_value)
  have o: "slice o2 m (patch (9 + 6 * i) (enc_opt_address v) b) = slice o2 m b"
    if "o2 + m \<le> length b" "o2 + m \<le> 9 + 6 * i" for o2 m
    by (rule slice_patch_other [OF l that(1)]) (use that in simp)
  show "fl_item (patch (9 + 6 * i) (enc_opt_address v) b) i = v"
    using slice_patch_same [OF l] dec_enc_opt_address [OF assms(2)] by (simp add: fl_item_def)
  show "kind_of (patch (9 + 6 * i) (enc_opt_address v) b) = kind_of b"
    "head_of (patch (9 + 6 * i) (enc_opt_address v) b) = head_of b"
    using assms(1) by (simp_all add: kind_of_def head_of_def o page_body_size_value)
  show "fl_upto (patch (9 + 6 * i) (enc_opt_address v) b) n = fl_upto b n" if "n \<le> i"
    by (rule fl_upto_cong) (use assms(1,3) that in \<open>simp add: fl_item_def o page_body_size_value freelist_slots_value\<close>)
qed

lemma set_kind_fields:
  assumes "length b = PAGE_BODY_SIZE"
  shows "kind_of (patch 0 (enc_page_kind k) b) = Ok k"
  using slice_patch_same [of 0 "enc_page_kind k" b] assms
  by (simp add: kind_of_def page_body_size_value enc_page_kind_def del: dec_enc_page_kind)
    (metis dec_enc_page_kind enc_page_kind_def)

lemma set_next_fields:
  assumes "length b = PAGE_BODY_SIZE" and "wf_page_address a"
  shows "next_of (patch 7 (enc_doc_address a) b) = Ok a" "kind_of (patch 7 (enc_doc_address a) b) = kind_of b"
    "head_of (patch 7 (enc_doc_address a) b) = head_of b"
proof -
  have l: "7 + length (enc_doc_address a) \<le> length b" using assms(1) by (simp add: page_body_size_value)
  have o: "slice o2 m (patch 7 (enc_doc_address a) b) = slice o2 m b" if "o2 + m \<le> length b" "o2 + m \<le> 7" for o2 m
    by (rule slice_patch_other [OF l that(1)]) (use that in simp)
  show "next_of (patch 7 (enc_doc_address a) b) = Ok a"
    using slice_patch_same [OF l] dec_enc_doc_address [OF assms(2)] by (simp add: next_of_def)
  show "kind_of (patch 7 (enc_doc_address a) b) = kind_of b" "head_of (patch 7 (enc_doc_address a) b) = head_of b"
    using assms(1) by (simp_all add: kind_of_def head_of_def o page_body_size_value)
qed

section \<open>The interface of a page\<close>

locale page_reading =
  fixes rd :: "'s read_page" and ok :: "'s \<Rightarrow> bool" and body :: "'s \<Rightarrow> byte list"
  assumes body_length: "ok s \<Longrightarrow> length (body s) = PAGE_BODY_SIZE"
    and read_ok: "ok s \<Longrightarrow> off + n \<le> PAGE_BODY_SIZE \<Longrightarrow> rd off n s = (Ok (slice off n (body s)), s)"
begin

lemma read_section_ok:
  "ok s \<Longrightarrow> off + n \<le> PAGE_BODY_SIZE \<Longrightarrow> read_section rd off n dec s = (dec (slice off n (body s)), s)"
  by (simp add: read_section_def from_storage_Ok [OF read_ok] bindp_Ok [OF from_storage_Ok [OF read_ok]] lift_oc_run)

lemma get_freelist_head_ok: "ok s \<Longrightarrow> get_freelist_head rd s = (Ok (head_of (body s)), s)"
  by (simp add: get_freelist_head_def read_section_ok page_body_size_value ADDRESS_SIZE_def head_of_def)

lemma get_next_address_ok: "ok s \<Longrightarrow> get_next_address rd s = (next_of (body s), s)"
  by (simp add: get_next_address_def read_section_ok page_body_size_value ADDRESS_SIZE_def next_of_def)

lemma get_next_freelist_ok: "ok s \<Longrightarrow> get_next_freelist rd s = (Ok (head_of (body s)), s)"
  by (simp add: get_next_freelist_def read_section_ok page_body_size_value ADDRESS_SIZE_def head_of_def)

lemma get_length_ok: "ok s \<Longrightarrow> get_length rd s = (Ok (fl_length (body s)), s)"
  by (simp add: get_length_def read_section_ok page_body_size_value fl_length_def)

lemma is_full_ok: "ok s \<Longrightarrow> is_full rd s = (Ok (FREELIST_SLOTS \<le> fl_length (body s)), s)"
  by (simp add: is_full_def bindp_Ok [where m = "get_length rd", OF get_length_ok] ret_run)

lemma get_item_ok:
  "ok s \<Longrightarrow> get_item rd i s = (if i < FREELIST_SLOTS then Ok (fl_item (body s) i) else Err PageOutOfBounds, s)"
  by (simp add: get_item_def read_array_section_def read_section_ok page_body_size_value ADDRESS_SIZE_def fl_item_def
      freelist_slots_value throw_run)

lemma kind_ok: "ok s \<Longrightarrow> read_section rd 0 1 dec_page_kind s = (kind_of (body s), s)"
  by (simp add: read_section_ok page_body_size_value kind_of_def)

lemma meta_page_new_ok: "ok s \<Longrightarrow> kind_of (body s) = Ok FreelistMeta \<Longrightarrow> meta_page_new rd s = (Ok (), s)"
  by (simp add: meta_page_new_def bindp_def kind_ok [unfolded One_nat_def] ret_run)

lemma freelist_page_new_ok: "ok s \<Longrightarrow> kind_of (body s) = Ok FreelistBlock \<Longrightarrow> freelist_page_new rd s = (Ok (), s)"
  by (simp add: freelist_page_new_def bindp_def kind_ok [unfolded One_nat_def] ret_run)

end

text \<open>The bytes that a write takes in the log.\<close>

definition write_cost :: "byte list \<Rightarrow> nat" where "write_cost bs = 58 + 2 * length bs"

locale page_writing =
  fixes rd :: "'s read_page" and wr :: "'s write_page" and a :: 'a and ok :: "nat \<Rightarrow> 's \<Rightarrow> bool"
    and view :: "'s \<Rightarrow> 'a \<Rightarrow> byte list"
  assumes view_length: "ok k s \<Longrightarrow> length (view s a) = PAGE_BODY_SIZE"
    and view_read: "ok k s \<Longrightarrow> off + n \<le> PAGE_BODY_SIZE \<Longrightarrow> rd off n s = (Ok (slice off n (view s a)), s)"
    and write_ok: "ok (k + write_cost bs) s \<Longrightarrow> off + length bs \<le> PAGE_BODY_SIZE \<Longrightarrow>
      \<exists>s'. wr off bs s = (Ok (), s') \<and> ok k s' \<and> view s' = (view s)(a := patch off bs (view s a))"
    and ok_mono: "ok (k + j) s \<Longrightarrow> ok k s"

sublocale page_writing \<subseteq> page_reading rd "ok k" "\<lambda>s. view s a" for k
  by unfold_locales (auto simp: view_length view_read)

context page_writing begin

lemma ok_le: "ok k s \<Longrightarrow> j \<le> k \<Longrightarrow> ok j s"
  using ok_mono [of j "k - j" s] by simp

text \<open>Sections are at most 6 bytes long.\<close>

lemma write_section_ok:
  assumes "ok (k + 70) s" and "length bs \<le> 6" and "off + length bs \<le> PAGE_BODY_SIZE"
  shows "\<exists>s'. write_section wr off bs s = (Ok (), s') \<and> ok k s' \<and> view s' = (view s)(a := patch off bs (view s a))"
proof -
  have "ok (k + write_cost bs) s" by (rule ok_le [OF assms(1)]) (use assms(2) in \<open>simp add: write_cost_def\<close>)
  then obtain s' where "wr off bs s = (Ok (), s')" "ok k s'" "view s' = (view s)(a := patch off bs (view s a))"
    using write_ok [OF _ assms(3)] by blast
  then show ?thesis by (auto simp: write_section_def intro: from_storage_Ok)
qed

lemma set_length_ok:
  assumes "ok (k + 70) s" and "n < 2 ^ 16"
  shows "\<exists>s'. set_length wr n s = (Ok (), s') \<and> ok k s' \<and> view s' = (view s)(a := patch 7 (enc_u16 (word_of_nat n)) (view s a))"
  using write_section_ok [OF assms(1), of "enc_u16 (word_of_nat n)" 7] assms(2)
  by (simp add: set_length_def try_u16_def page_body_size_value)

lemma set_item_ok:
  assumes "ok (k + 70) s" and "i < FREELIST_SLOTS"
  shows "\<exists>s'. set_item wr i v s = (Ok (), s') \<and> ok k s' \<and> view s' = (view s)(a := patch (9 + 6 * i) (enc_opt_address v) (view s a))"
  using write_section_ok [OF assms(1), of "enc_opt_address v" "9 + 6 * i"] assms(2)
  by (simp add: set_item_def write_array_section_def page_body_size_value freelist_slots_value ADDRESS_SIZE_def)

lemma set_item_out_of_bounds: "FREELIST_SLOTS \<le> i \<Longrightarrow> set_item wr i v s = (Ok (), s)"
  by (simp add: set_item_def write_array_section_def page_body_size_value freelist_slots_value ADDRESS_SIZE_def ret_run)

lemma set_head_ok:
  assumes "ok (k + 70) s"
  shows "\<exists>s'. set_freelist_head wr v s = (Ok (), s') \<and> ok k s' \<and> view s' = (view s)(a := patch 1 (enc_opt_address v) (view s a))"
  using write_section_ok [OF assms(1), of "enc_opt_address v" 1] by (simp add: set_freelist_head_def page_body_size_value)

lemma set_next_freelist_ok:
  assumes "ok (k + 70) s"
  shows "\<exists>s'. set_next_freelist wr v s = (Ok (), s') \<and> ok k s' \<and> view s' = (view s)(a := patch 1 (enc_opt_address v) (view s a))"
  using write_section_ok [OF assms(1), of "enc_opt_address v" 1] by (simp add: set_next_freelist_def page_body_size_value)

lemma set_next_address_ok:
  assumes "ok (k + 70) s"
  shows "\<exists>s'. set_next_address wr v s = (Ok (), s') \<and> ok k s' \<and> view s' = (view s)(a := patch 7 (enc_doc_address v) (view s a))"
  using write_section_ok [OF assms(1), of "enc_doc_address v" 7] by (simp add: set_next_address_def page_body_size_value)

text \<open>Initialising a page of the free list.\<close>

lemma freelist_init_ok:
  assumes "ok (k + 210) s"
  shows "\<exists>s' b. freelist_init wr s = (Ok (), s') \<and> ok k s' \<and> view s' = (view s)(a := b)
    \<and> kind_of b = Ok FreelistBlock \<and> head_of b = None \<and> fl_length b = 0"
proof -
  have "ok (k + 70 + 70 + 70) s" by (rule ok_le [OF assms]) simp
  then obtain s1 where s1: "write_section wr 0 (enc_page_kind FreelistBlock) s = (Ok (), s1)" "ok (k + 70 + 70) s1"
      "view s1 = (view s)(a := patch 0 (enc_page_kind FreelistBlock) (view s a))"
    using write_section_ok [of "k + 70 + 70" s "enc_page_kind FreelistBlock" 0]
    by (auto simp: enc_page_kind_def page_body_size_value)
  obtain s2 where s2: "set_next_freelist wr None s1 = (Ok (), s2)" "ok (k + 70) s2"
      "view s2 = (view s1)(a := patch 1 (enc_opt_address None) (view s1 a))"
    using set_next_freelist_ok [OF s1(2)] by blast
  obtain s3 where s3: "set_length wr 0 s2 = (Ok (), s3)" "ok k s3"
      "view s3 = (view s2)(a := patch 7 (enc_u16 (word_of_nat 0)) (view s2 a))"
    using set_length_ok [OF s2(2), of 0] by auto
  note l = view_length [OF assms] view_length [OF s1(2)] view_length [OF s2(2)]
  have "freelist_init wr s = (Ok (), s3)"
    by (simp add: freelist_init_def bindp_def s1(1) s2(1) s3(1))
  moreover have "view s3 = (view s)(a := view s3 a)" by (simp add: s1(3) s2(3) s3(3))
  moreover have "kind_of (view s3 a) = Ok FreelistBlock" "head_of (view s3 a) = None" "fl_length (view s3 a) = 0"
    using set_length_fields [OF l(3), where w = 0] set_head_fields [OF l(2), of None] set_kind_fields [OF l(1), of FreelistBlock]
    by (simp_all add: s1(3) s2(3) s3(3) wf_opt_def)
  ultimately show ?thesis using s3(2) by blast
qed

lemma push_item_ok:
  assumes "ok (k + 140) s" and "fl_length (view s a) < FREELIST_SLOTS" and "wf_page_address v"
  shows "\<exists>s' b. push_item rd wr v s = (Ok (), s') \<and> ok k s' \<and> view s' = (view s)(a := b)
    \<and> kind_of b = kind_of (view s a) \<and> head_of b = head_of (view s a)
    \<and> fl_length b = Suc (fl_length (view s a)) \<and> fl_items b = fl_items (view s a) @ [v]"
proof -
  let ?n = "fl_length (view s a)"
  have o: "ok (k + 70 + 70) s" by (rule ok_le [OF assms(1)]) simp
  obtain s1 where s1: "set_item wr ?n (Some v) s = (Ok (), s1)" "ok (k + 70) s1"
      "view s1 = (view s)(a := patch (9 + 6 * ?n) (enc_opt_address (Some v)) (view s a))"
    using set_item_ok [OF o assms(2)] by blast
  have n: "?n + 1 < 2 ^ 16" using assms(2) by (simp add: freelist_slots_value)
  obtain s2 where s2: "set_length wr (?n + 1) s1 = (Ok (), s2)" "ok k s2"
      "view s2 = (view s1)(a := patch 7 (enc_u16 (word_of_nat (?n + 1))) (view s1 a))"
    using set_length_ok [OF s1(2) n] by blast
  note l = view_length [OF o] view_length [OF s1(2)]
  have w: "wf_opt wf_page_address (Some v)" using assms(3) by (simp add: wf_opt_def)
  have u: "unat (word_of_nat (Suc ?n) :: u16) = Suc ?n" using n unat_of_nat [where 'a = 16, of "Suc ?n"] by simp
  note it = set_item_fields [OF l(1) w assms(2)] and le = set_length_fields [OF l(2), where w = "word_of_nat (Suc ?n)"]
  have "push_item rd wr v s = (Ok (), s2)"
    using s2(1) by (simp add: push_item_def bindp_Ok [where m = "get_length rd", OF get_length_ok [OF o]] bindp_Ok [where m = "set_item rd x y" for rd x y, OF s1(1)])
  moreover have "view s2 = (view s)(a := view s2 a)" by (simp add: s1(3) s2(3))
  moreover have "kind_of (view s2 a) = kind_of (view s a)" "head_of (view s2 a) = head_of (view s a)"
      "fl_length (view s2 a) = Suc ?n"
    using le it u by (simp_all add: s1(3) s2(3))
  moreover have "fl_upto (view s2 a) (Suc ?n) = fl_upto (view s a) ?n @ [v]"
    using le(4) [of "Suc ?n"] it(1,4) assms(2) by (simp add: s1(3) s2(3))
  ultimately show ?thesis using s2(2) unfolding fl_items_def by metis
qed

text \<open>Popping passes over the empty items.\<close>

lemma pop_loop_ok:
  assumes "ok (k + 70) s" and "i \<le> FREELIST_SLOTS"
  shows "if fl_upto (view s a) i = [] then pop_loop rd wr i s = (Ok None, s)
    else \<exists>s' j. pop_loop rd wr i s = (Ok (Some (last (fl_upto (view s a) i))), s') \<and> ok k s' \<and> j < i
      \<and> view s' = (view s)(a := patch 7 (enc_u16 (word_of_nat j)) (view s a))
      \<and> fl_upto (view s a) j = butlast (fl_upto (view s a) i)"
  using assms(2)
proof (induction i)
  case 0
  show ?case by (simp add: ret_run)
next
  case (Suc i)
  have g: "get_item rd i s = (Ok (fl_item (view s a) i), s)" using get_item_ok [OF assms(1)] Suc.prems by simp
  show ?case
  proof (cases "fl_item (view s a) i")
    case None
    then have "pop_loop rd wr (Suc i) s = pop_loop rd wr i s" "fl_upto (view s a) (Suc i) = fl_upto (view s a) i"
      by (simp_all add: bindp_Ok [where m = "get_item rd i", OF g])
    then show ?thesis using Suc.IH Suc.prems less_SucI by (auto simp del: pop_loop.simps fl_upto.simps split: if_splits; metis)
  next
    case (Some x)
    have "i < 2 ^ 16" using Suc.prems by (simp add: freelist_slots_value)
    then obtain s1 where "set_length wr i s = (Ok (), s1)" "ok k s1"
        "view s1 = (view s)(a := patch 7 (enc_u16 (word_of_nat i)) (view s a))"
      using set_length_ok [OF assms(1)] by blast
    then show ?thesis using Some by (auto simp: bindp_Ok [where m = "get_item rd i", OF g] bindp_Ok [where m = "set_length wr i"] ret_run)
  qed
qed

lemma pop_item_ok:
  assumes "ok (k + 70) s" and "fl_length (view s a) \<le> FREELIST_SLOTS"
  shows "if fl_items (view s a) = [] then pop_item rd wr s = (Ok None, s)
    else \<exists>s' b. pop_item rd wr s = (Ok (Some (last (fl_items (view s a)))), s') \<and> ok k s' \<and> view s' = (view s)(a := b)
      \<and> kind_of b = kind_of (view s a) \<and> head_of b = head_of (view s a) \<and> fl_length b \<le> FREELIST_SLOTS
      \<and> fl_items b = butlast (fl_items (view s a))"
proof -
  let ?b = "view s a"
  have r: "pop_item rd wr s = pop_loop rd wr (fl_length ?b) s"
    by (simp add: pop_item_def bindp_Ok [where m = "get_length rd", OF get_length_ok [OF assms(1)]])
  note l = view_length [OF assms(1)]
  show ?thesis
  proof (cases "fl_items ?b = []")
    case True
    then show ?thesis using pop_loop_ok [OF assms] by (simp add: r fl_items_def)
  next
    case False
    then obtain s' j where s': "pop_loop rd wr (fl_length ?b) s = (Ok (Some (last (fl_items ?b))), s')" "ok k s'"
        "j < fl_length ?b" "view s' = (view s)(a := patch 7 (enc_u16 (word_of_nat j)) ?b)"
        "fl_upto ?b j = butlast (fl_items ?b)"
      using pop_loop_ok [OF assms] by (auto simp: fl_items_def)
    have j: "j \<le> FREELIST_SLOTS" "unat (word_of_nat j :: u16) = j"
      using s'(3) assms(2) by (simp_all add: freelist_slots_value unat_of_nat)
    note le = set_length_fields [OF l, where w = "word_of_nat j"]
    have "fl_items (patch 7 (enc_u16 (word_of_nat j)) ?b) = butlast (fl_items ?b)"
      using le(1,4) j s'(5) by (simp add: fl_items_def)
    then show ?thesis using False s'(1,2,4) le(1,2,3) j unfolding r by auto
  qed
qed

end

end
