(* ===== verification/AllocProofs.thy ===== *)
theory AllocProofs
  imports PageAlloc DocContents
begin

text \<open>
  The allocator is a stack of free pages on top of a supply of new ones. The interface that a
  transaction gives it is the locale \<open>transaction_pages\<close>; its interpretation on the transactions of
  the page storage is in \<open>AllocStore.thy\<close>.
\<close>

section \<open>The order of addresses\<close>

text \<open>Position of an address in the order in which new pages are given out.\<close>

definition address_index :: "page_address \<Rightarrow> nat" where
  "address_index a = unat (segment_num a) * 65535 + (unat (page_num a) - 1)"

lemma wf_page_num: "wf_page_address a \<longleftrightarrow> 0 < unat (page_num a)"
  by (simp add: wf_page_address_def unat_gt_0)

lemma address_index_inject:
  assumes "wf_page_address a" and "wf_page_address b" and "address_index a = address_index b"
  shows "a = b"
proof -
  have r: "unat (page_num x) - 1 < 65535" for x using unat_bound [of "page_num x"] by simp
  have "unat (segment_num x) = address_index x div 65535" "unat (page_num x) - 1 = address_index x mod 65535" for x
    using r [of x] by (simp_all add: address_index_def)
  then have "unat (segment_num a) = unat (segment_num b)" "unat (page_num a) = unat (page_num b)"
    using assms wf_page_num by (metis, metis Suc_pred' One_nat_def)
  then show ?thesis by (cases a; cases b) (simp add: word_unat_eq_iff)
qed

lemma address_index_less: "address_index a < 2 ^ 32 * 65535"
proof -
  have "unat (segment_num a) < 2 ^ 32" "unat (page_num a) - 1 < 65535"
    using unat_bound [of "segment_num a"] unat_bound [of "page_num a"] by simp_all
  then show ?thesis unfolding address_index_def by linarith
qed

lemma page_address_after_cases:
  assumes a: "wf_page_address a"
  shows "if address_index a = 2 ^ 32 * 65535 - 1 then page_address_after a = Panic
    else \<exists>b. page_address_after a = Ok b \<and> wf_page_address b \<and> address_index b = Suc (address_index a)"
proof (cases "page_num a = 65535")
  case True
  have s: "unat (segment_num a) < 2 ^ 32" using unat_bound [of "segment_num a"] by simp
  show ?thesis
  proof (cases "unat (segment_num a) + 1 < 2 ^ 32")
    case k: True
    then have "checked_add (segment_num a) 1 = Some (segment_num a + 1)" "unat (segment_num a + 1) = unat (segment_num a) + 1"
      by (simp_all add: checked_add_def unat_word_ariths)
    moreover have "address_index a \<noteq> 2 ^ 32 * 65535 - 1" using k True by (simp add: address_index_def)
    ultimately show ?thesis using True by (simp add: page_address_after_def wf_page_address_def address_index_def)
  next
    case k: False
    then have "checked_add (segment_num a) 1 = None" by (simp add: checked_add_def)
    moreover have "unat (segment_num a) = 2 ^ 32 - 1" using k s by linarith
    ultimately show ?thesis using True by (simp add: page_address_after_def address_index_def)
  qed
next
  case False
  have n: "unat (page_num a) < 65535" "0 < unat (page_num a)"
    using False a unat_bound [of "page_num a"] wf_page_num [of a] by (auto simp: word_unat_eq_iff)
  then have c: "checked_add (page_num a) 1 = Some (page_num a + 1)" "unat (page_num a + 1) = unat (page_num a) + 1"
    by (simp_all add: checked_add_def unat_word_ariths)
  have "address_index a \<noteq> 2 ^ 32 * 65535 - 1"
    using n unat_bound [of "segment_num a"] by (simp add: address_index_def)
  moreover have "wf_page_address (PageAddress (segment_num a) (page_num a + 1))" using c(2) by (simp add: wf_page_num)
  ultimately show ?thesis using False n c by (simp add: page_address_after_def address_index_def)
qed

text \<open>The addresses one after the other, from the meta page on.\<close>

fun nth_address :: "nat \<Rightarrow> (database_error, page_address) outcome" where
  "nth_address 0 = Ok META_PAGE_ADDRESS"
| "nth_address (Suc n) = oc_bind (nth_address n) page_address_after"

lemma nth_address_ok:
  "n < 2 ^ 32 * 65535 \<Longrightarrow> \<exists>a. nth_address n = Ok a \<and> wf_page_address a \<and> address_index a = n"
proof (induction n)
  case 0
  show ?case by (simp add: META_PAGE_ADDRESS_def wf_page_address_def address_index_def)
next
  case (Suc n)
  then obtain a where "nth_address n = Ok a" "wf_page_address a" "address_index a = n" by auto
  then show ?case using page_address_after_cases [of a] Suc.prems by (auto split: if_splits)
qed

lemma nth_address_panics: "nth_address (2 ^ 32 * 65535 + n) = Panic"
proof (induction n)
  case 0
  obtain a where "nth_address (2 ^ 32 * 65535 - 1) = Ok a" "wf_page_address a" "address_index a = 2 ^ 32 * 65535 - 1"
    using nth_address_ok [of "2 ^ 32 * 65535 - 1"] by auto
  moreover from this have "page_address_after a = Panic" using page_address_after_cases [of a] by (simp only: if_True)
  ultimately have "nth_address (Suc (2 ^ 32 * 65535 - 1)) = Panic" by (simp only: nth_address.simps oc_bind.simps)
  moreover have "Suc (2 ^ 32 * 65535 - 1) = 2 ^ 32 * 65535 + 0" by simp
  ultimately show ?case by (simp only:)
next
  case (Suc n)
  then show ?case by (simp only: add_Suc_right nth_address.simps oc_bind.simps)
qed

text \<open>
  C34: New pages are given out in a fixed order that leaves out no address and repeats none.
  Starting from the meta page, \<open>page_address_after\<close> reaches every valid address, the one with
  index \<open>n\<close> after exactly \<open>n\<close> steps, and only valid ones (the page number skips 0 when it wraps);
  after the last of the \<open>2^32 * 65535\<close> addresses it panics.
\<close>

theorem page_address_after_enumerates:
  "(\<forall>a. wf_page_address a \<longrightarrow> nth_address (address_index a) = Ok a)
   \<and> (\<forall>n. if n < 2 ^ 32 * 65535 then \<exists>a. nth_address n = Ok a \<and> wf_page_address a \<and> address_index a = n
        else nth_address n = Panic)"
proof (intro conjI allI impI)
  fix a assume a: "wf_page_address a"
  obtain b where "nth_address (address_index a) = Ok b" "wf_page_address b" "address_index b = address_index a"
    using nth_address_ok [OF address_index_less] by blast
  then show "nth_address (address_index a) = Ok a" using address_index_inject [OF _ a] by blast
next
  fix n
  show "if n < 2 ^ 32 * 65535 then \<exists>a. nth_address n = Ok a \<and> wf_page_address a \<and> address_index a = n
      else nth_address n = Panic"
  proof (cases "n < 2 ^ 32 * 65535")
    case True
    then show ?thesis using nth_address_ok [OF True] by (simp only: if_True)
  next
    case False
    then have "2 ^ 32 * 65535 + (n - 2 ^ 32 * 65535) = n" by simp
    then show ?thesis using nth_address_panics [of "n - 2 ^ 32 * 65535"] False by (simp only: if_False)
  qed
qed

theorem page_address_after_enumerates_witness:
  "wf_page_address (PageAddress 1 1)
    \<and> nth_address (address_index (PageAddress 1 1)) = Ok (PageAddress 1 1)
    \<and> address_index (PageAddress 1 1) = 65535
    \<and> nth_address (2 ^ 32 * 65535) = Panic"
proof -
  have w: "wf_page_address (PageAddress 1 1)" by (simp add: wf_page_address_def)
  have "nth_address (2 ^ 32 * 65535) = Panic"
    using conjunct2 [OF page_address_after_enumerates, rule_format, of "2 ^ 32 * 65535"]
    by (simp only: less_irrefl if_False)
  moreover have "nth_address (address_index (PageAddress 1 1)) = Ok (PageAddress 1 1)"
    using page_address_after_enumerates w by blast
  moreover have "address_index (PageAddress 1 1) = 65535" by (simp add: address_index_def)
  ultimately show ?thesis using w by blast
qed

section \<open>The state of the allocator\<close>

text \<open>
  The pages of the free list are linked from the meta page. As a stack, the free list has first
  the items of its first page, the last one on top, then that page itself, and so on.
\<close>

fun linked :: "(page_address \<Rightarrow> byte list) \<Rightarrow> page_address option \<Rightarrow> page_address list \<Rightarrow> bool" where
  "linked v h [] \<longleftrightarrow> h = None"
| "linked v h (p # ps) \<longleftrightarrow> h = Some p \<and> kind_of (v p) = Ok FreelistBlock \<and> fl_length (v p) \<le> FREELIST_SLOTS
     \<and> linked v (head_of (v p)) ps"

fun free_list :: "(page_address \<Rightarrow> byte list) \<Rightarrow> page_address list \<Rightarrow> page_address list" where
  "free_list v [] = []"
| "free_list v (p # ps) = rev (fl_items (v p)) @ p # free_list v ps"

lemma chain_in_free_list: "p \<in> set ps \<Longrightarrow> p \<in> set (free_list v ps)"
  by (induction ps) auto

lemma linked_cong: "(\<And>p. p \<in> set ps \<Longrightarrow> v p = w p) \<Longrightarrow> linked v h ps = linked w h ps"
  by (induction ps arbitrary: h) auto

lemma free_list_cong: "(\<And>p. p \<in> set ps \<Longrightarrow> v p = w p) \<Longrightarrow> free_list v ps = free_list w ps"
  by (induction ps) auto

definition alloc_state :: "(page_address \<Rightarrow> byte list) \<Rightarrow> page_address list \<Rightarrow> page_address list \<Rightarrow> page_address \<Rightarrow> bool" where
  "alloc_state v ps L nx \<longleftrightarrow> kind_of (v META_PAGE_ADDRESS) = Ok FreelistMeta \<and> linked v (head_of (v META_PAGE_ADDRESS)) ps
     \<and> L = free_list v ps \<and> next_of (v META_PAGE_ADDRESS) = Ok nx \<and> distinct (META_PAGE_ADDRESS # L)
     \<and> (\<forall>a \<in> set L. wf_page_address a \<and> address_index a < address_index nx)"

lemma alloc_stateD:
  assumes "alloc_state v ps L nx"
  shows "kind_of (v META_PAGE_ADDRESS) = Ok FreelistMeta" "linked v (head_of (v META_PAGE_ADDRESS)) ps"
    "L = free_list v ps" "next_of (v META_PAGE_ADDRESS) = Ok nx" "META_PAGE_ADDRESS \<notin> set L" "distinct L"
    "a \<in> set L \<Longrightarrow> wf_page_address a" "a \<in> set L \<Longrightarrow> address_index a < address_index nx" "wf_page_address nx"
  using assms dec_doc_address_wf unfolding alloc_state_def next_of_def by auto

text \<open>Only the meta page and the free pages matter.\<close>

lemma alloc_state_cong:
  assumes "alloc_state v ps L nx" and "\<And>b. b \<in> insert META_PAGE_ADDRESS (set L) \<Longrightarrow> w b = v b"
  shows "alloc_state w ps L nx"
proof -
  note d = alloc_stateD [OF assms(1)]
  have "\<And>p. p \<in> set ps \<Longrightarrow> v p = w p" using assms(2) chain_in_free_list [of _ ps v] d(3) by auto
  then show ?thesis
    using assms linked_cong [of ps v w] free_list_cong [of ps v w] unfolding alloc_state_def by auto
qed

section \<open>The interface of a transaction\<close>

text \<open>
  \<open>ok k t\<close>: a transaction that holds no shared access, with room for \<open>k\<close> more bytes in the log and
  for the pages \<open>A\<close> in the cache. \<open>view t\<close> is what the transaction sees in each page.
\<close>

locale transaction_pages =
  fixes api :: "('t, 'p, 'm) transaction_api" and ok :: "nat \<Rightarrow> 't \<Rightarrow> bool" and A :: "page_address set"
    and view :: "'t \<Rightarrow> page_address \<Rightarrow> byte list"
    and reads :: "'p \<Rightarrow> page_address \<Rightarrow> nat \<Rightarrow> 't \<Rightarrow> bool" and writes :: "'m \<Rightarrow> page_address \<Rightarrow> nat \<Rightarrow> 't \<Rightarrow> bool"
  assumes get_page_ok: "ok k t \<Longrightarrow> a \<in> A \<Longrightarrow> \<exists>p t'. ta_get_page api a t = (Ok p, t') \<and> reads p a k t' \<and> view t' = view t"
    and reading: "page_reading (ta_read api p) (reads p a k) (\<lambda>t. view t a)"
    and drop_ok: "reads p a k t \<Longrightarrow> ok k (ta_drop api p t) \<and> view (ta_drop api p t) = view t"
    and get_page_mut_ok: "ok k t \<Longrightarrow> a \<in> A \<Longrightarrow>
      \<exists>m t'. ta_get_page_mut api a t = (Ok m, t') \<and> writes m a k t' \<and> view t' = view t"
    and writing: "page_writing (ta_read_mut api m) (ta_write api m) a (writes m a) view"
    and writes_ok: "writes m a k t \<Longrightarrow> ok k t"
    and ok_drop: "ok (k + j) t \<Longrightarrow> ok k t"
begin

lemma ok_less: "ok k t \<Longrightarrow> j \<le> k \<Longrightarrow> ok j t"
  using ok_drop [of j "k - j" t] by simp

lemma reading_mut: "page_reading (ta_read_mut api m) (writes m a k) (\<lambda>t. view t a)"
  by (rule page_reading.intro) (rule page_writing.view_length [OF writing], assumption,
    rule page_writing.view_read [OF writing], assumption+)

lemma meta_page_ok:
  assumes "ok k t" and "META_PAGE_ADDRESS \<in> A" and "kind_of (view t META_PAGE_ADDRESS) = Ok FreelistMeta"
  shows "\<exists>p t'. meta_page api t = (Ok p, t') \<and> reads p META_PAGE_ADDRESS k t' \<and> view t' = view t"
proof -
  obtain p t1 where p: "ta_get_page api META_PAGE_ADDRESS t = (Ok p, t1)" "reads p META_PAGE_ADDRESS k t1" "view t1 = view t"
    using get_page_ok [OF assms(1,2)] by blast
  have "meta_page_new (ta_read api p) t1 = (Ok (), t1)"
    using page_reading.meta_page_new_ok [OF reading p(2)] assms(3) p(3) by simp
  then show ?thesis using p by (simp add: meta_page_def bindp_def from_storage_Ok)
qed

lemma meta_page_mut_ok:
  assumes "ok k t" and "META_PAGE_ADDRESS \<in> A" and "kind_of (view t META_PAGE_ADDRESS) = Ok FreelistMeta"
  shows "\<exists>m t'. meta_page_mut api t = (Ok m, t') \<and> writes m META_PAGE_ADDRESS k t' \<and> view t' = view t"
proof -
  obtain m t1 where m: "ta_get_page_mut api META_PAGE_ADDRESS t = (Ok m, t1)" "writes m META_PAGE_ADDRESS k t1" "view t1 = view t"
    using get_page_mut_ok [OF assms(1,2)] by blast
  have "meta_page_new (ta_read_mut api m) t1 = (Ok (), t1)"
    using page_reading.meta_page_new_ok [OF reading_mut m(2)] assms(3) m(3) by simp
  then show ?thesis using m by (simp add: meta_page_mut_def bindp_def from_storage_Ok ret_run)
qed

text \<open>Reading the head of the free list, with the meta page dropped again.\<close>

lemma read_head_ok:
  assumes "ok k t" and "META_PAGE_ADDRESS \<in> A" and "kind_of (view t META_PAGE_ADDRESS) = Ok FreelistMeta"
  shows "\<exists>p t1 t'. meta_page api t = (Ok p, t1)
    \<and> then_drop (ta_drop api p) (get_freelist_head (ta_read api p)) t1 = (Ok (head_of (view t META_PAGE_ADDRESS)), t')
    \<and> ok k t' \<and> view t' = view t"
proof -
  obtain p t1 where p: "meta_page api t = (Ok p, t1)" "reads p META_PAGE_ADDRESS k t1" "view t1 = view t"
    using meta_page_ok [OF assms] by blast
  have "get_freelist_head (ta_read api p) t1 = (Ok (head_of (view t META_PAGE_ADDRESS)), t1)"
    using page_reading.get_freelist_head_ok [OF reading p(2)] p(3) by simp
  then show ?thesis
    using p drop_ok [OF p(2)] by (intro exI [of _ p] exI [of _ t1] exI [of _ "ta_drop api p t1"]) (simp add: then_drop_def)
qed

lemma set_head_run:
  assumes "ok (k + 70) t" and "META_PAGE_ADDRESS \<in> A" and "kind_of (view t META_PAGE_ADDRESS) = Ok FreelistMeta"
  shows "\<exists>m t1 t'. meta_page_mut api t = (Ok m, t1) \<and> set_freelist_head (ta_write api m) h t1 = (Ok (), t') \<and> ok k t'
    \<and> view t' = (view t)(META_PAGE_ADDRESS := patch 1 (enc_opt_address h) (view t META_PAGE_ADDRESS))
    \<and> length (view t META_PAGE_ADDRESS) = PAGE_BODY_SIZE"
proof -
  obtain m t1 where m: "meta_page_mut api t = (Ok m, t1)" "writes m META_PAGE_ADDRESS (k + 70) t1" "view t1 = view t"
    using meta_page_mut_ok [OF assms] by blast
  obtain t2 where t2: "set_freelist_head (ta_write api m) h t1 = (Ok (), t2)" "writes m META_PAGE_ADDRESS k t2"
      "view t2 = (view t1)(META_PAGE_ADDRESS := patch 1 (enc_opt_address h) (view t1 META_PAGE_ADDRESS))"
    using page_writing.set_head_ok [OF writing m(2)] by blast
  show ?thesis
    using m(1) t2(1) writes_ok [OF t2(2)] t2(3) page_writing.view_length [OF writing m(2)] unfolding m(3) by blast
qed

text \<open>Initialising the allocator.\<close>

lemma init_ok:
  assumes "ok (k + 210) t" and "META_PAGE_ADDRESS \<in> A"
  shows "\<exists>t'. alloc_init api t = (Ok (), t') \<and> ok k t' \<and> alloc_state (view t') [] [] (PageAddress 0 2)
    \<and> (\<forall>b. b \<noteq> META_PAGE_ADDRESS \<longrightarrow> view t' b = view t b)"
proof -
  let ?M = META_PAGE_ADDRESS and ?nx = "PageAddress 0 2"
  obtain m t1 where m: "ta_get_page_mut api ?M t = (Ok m, t1)" "writes m ?M (k + 210) t1" "view t1 = view t"
    using get_page_mut_ok [OF assms] by blast
  note w = page_writing.view_length [OF writing]
  have o: "writes m ?M (k + 70 + 70 + 70) t1" by (rule page_writing.ok_le [OF writing m(2)]) simp
  obtain s1 where s1: "write_section (ta_write api m) 0 (enc_page_kind FreelistMeta) t1 = (Ok (), s1)" "writes m ?M (k + 70 + 70) s1"
      "view s1 = (view t1)(?M := patch 0 (enc_page_kind FreelistMeta) (view t1 ?M))"
    using page_writing.write_section_ok [OF writing o, of "enc_page_kind FreelistMeta" 0]
    by (auto simp: enc_page_kind_def page_body_size_value)
  obtain s2 where s2: "set_freelist_head (ta_write api m) None s1 = (Ok (), s2)" "writes m ?M (k + 70) s2"
      "view s2 = (view s1)(?M := patch 1 (enc_opt_address None) (view s1 ?M))"
    using page_writing.set_head_ok [OF writing s1(2)] by blast
  obtain s3 where s3: "set_next_address (ta_write api m) ?nx s2 = (Ok (), s3)" "writes m ?M k s3"
      "view s3 = (view s2)(?M := patch 7 (enc_doc_address ?nx) (view s2 ?M))"
    using page_writing.set_next_address_ok [OF writing s2(2)] by blast
  have nx: "page_address_after ?M = Ok ?nx" "wf_page_address ?nx"
    by (simp_all add: page_address_after_def META_PAGE_ADDRESS_def checked_add_def wf_page_address_def)
  have "alloc_init api t = (Ok (), s3)"
    by (simp add: alloc_init_def meta_page_init_def bindp_def from_storage_Ok [where m = "ta_get_page_mut api x" for x, OF m(1)] lift_oc_run nx s1(1) s2(1) s3(1))
  moreover have "alloc_state (view s3) [] [] ?nx"
    using set_kind_fields [OF w [OF o], of FreelistMeta] set_head_fields [OF w [OF s1(2)], of None]
      set_next_fields [OF w [OF s2(2)] nx(2)]
    by (simp add: alloc_state_def s1(3) s2(3) s3(3) wf_opt_def)
  ultimately show ?thesis using writes_ok [OF s3(2)] by (auto simp: s1(3) s2(3) s3(3) m(3))
qed

text \<open>An empty free list: the next new page, or a panic when there is none.\<close>

lemma alloc_new_ok:
  assumes t: "ok (k + 70) t" and M: "META_PAGE_ADDRESS \<in> A" and st: "alloc_state (view t) ps [] nx"
  shows "if address_index nx = 2 ^ 32 * 65535 - 1 then \<exists>t'. alloc api t = (Panic, t')
    else \<exists>t' nx'. alloc api t = (Ok nx, t') \<and> ok k t' \<and> page_address_after nx = Ok nx' \<and> alloc_state (view t') [] [] nx'
      \<and> (\<forall>b. b \<noteq> META_PAGE_ADDRESS \<longrightarrow> view t' b = view t b)"
proof -
  let ?M = META_PAGE_ADDRESS
  note d = alloc_stateD [OF st]
  have ps: "ps = []" using d(3) by (cases ps) auto
  then have h: "head_of (view t ?M) = None" using d(2) by simp
  obtain r t0 t1 where t0: "meta_page api t = (Ok r, t0)"
      "then_drop (ta_drop api r) (get_freelist_head (ta_read api r)) t0 = (Ok None, t1)"
    and t1: "ok (k + 70) t1" "view t1 = view t"
    using read_head_ok [OF t M d(1)] unfolding h by blast
  have nf: "next_free_page api t = (Ok None, t1)"
    by (simp add: next_free_page_def bindp_def t0 ret_run)
  have al: "alloc api t = next_uninit_page api t1"
    by (simp add: alloc_def bindp_Ok [where m = "next_free_page api", OF nf])
  obtain m t2 where m: "meta_page_mut api t1 = (Ok m, t2)" "writes m ?M (k + 70) t2" "view t2 = view t"
    using meta_page_mut_ok [OF t1(1) M] d(1) t1(2) by auto
  have nx: "get_next_address (ta_read_mut api m) t2 = (Ok nx, t2)"
    using page_reading.get_next_address_ok [OF reading_mut m(2)] d(4) m(3) by simp
  note c = page_address_after_cases [OF d(9)]
  show ?thesis
  proof (cases "address_index nx = 2 ^ 32 * 65535 - 1")
    case True
    then have "page_address_after nx = Panic" using c by (simp only: if_True)
    then show ?thesis using True by (simp add: al next_uninit_page_def bindp_def m(1) nx lift_oc_run)
  next
    case False
    then obtain nx' where nx': "page_address_after nx = Ok nx'" "wf_page_address nx'" "address_index nx' = Suc (address_index nx)"
      using c by (simp only: if_False) blast
    obtain t3 where t3: "set_next_address (ta_write api m) nx' t2 = (Ok (), t3)" "writes m ?M k t3"
        "view t3 = (view t2)(?M := patch 7 (enc_doc_address nx') (view t2 ?M))"
      using page_writing.set_next_address_ok [OF writing m(2)] by blast
    have "alloc api t = (Ok nx, t3)"
      by (simp add: al next_uninit_page_def bindp_def m(1) nx nx'(1) lift_oc_run t3(1) ret_run)
    moreover have "alloc_state (view t3) [] [] nx'"
      using set_next_fields [OF page_writing.view_length [OF writing m(2)] nx'(2)] d(1) h
      by (simp add: alloc_state_def t3(3) m(3))
    ultimately show ?thesis using False nx'(1) writes_ok [OF t3(2)] by (auto simp: t3(3) m(3))
  qed
qed

text \<open>A meta page whose next address is invalid.\<close>

lemma alloc_uninit:
  assumes t: "ok k t" and M: "META_PAGE_ADDRESS \<in> A" and m: "kind_of (view t META_PAGE_ADDRESS) = Ok FreelistMeta"
    "head_of (view t META_PAGE_ADDRESS) = None" "next_of (view t META_PAGE_ADDRESS) = Err e"
  shows "\<exists>t'. alloc api t = (Err e, t')"
proof -
  obtain r t0 t1 where t0: "meta_page api t = (Ok r, t0)"
      "then_drop (ta_drop api r) (get_freelist_head (ta_read api r)) t0 = (Ok None, t1)"
    and t1: "ok k t1" "view t1 = view t"
    using read_head_ok [OF t M m(1)] unfolding m(2) by blast
  have nf: "next_free_page api t = (Ok None, t1)" by (simp add: next_free_page_def bindp_def t0 ret_run)
  obtain w t2 where w: "meta_page_mut api t1 = (Ok w, t2)" "writes w META_PAGE_ADDRESS k t2" "view t2 = view t"
    using meta_page_mut_ok [OF t1(1) M] m(1) t1(2) by auto
  have gn: "get_next_address (ta_read_mut api w) t2 = (Err e, t2)"
    using page_reading.get_next_address_ok [OF reading_mut w(2)] m(3) w(3) by simp
  have "alloc api t = next_uninit_page api t1"
    by (simp add: alloc_def bindp_Ok [where m = "next_free_page api", OF nf])
  also have "\<dots> = (Err e, t2)" by (simp add: next_uninit_page_def bindp_def w(1) gn)
  finally show ?thesis by blast
qed

text \<open>A free list that is not empty: its top.\<close>

lemma alloc_free_ok:
  assumes t: "ok (k + 140) t" and M: "META_PAGE_ADDRESS \<in> A" and st: "alloc_state (view t) ps (a # L) nx"
    and sub: "set (a # L) \<subseteq> A"
  shows "\<exists>t' ps'. alloc api t = (Ok a, t') \<and> ok k t' \<and> alloc_state (view t') ps' L nx
    \<and> (\<forall>b. b \<notin> insert META_PAGE_ADDRESS (set (a # L)) \<longrightarrow> view t' b = view t b)"
proof -
  let ?M = META_PAGE_ADDRESS
  note d = alloc_stateD [OF st]
  obtain p qs where ps: "ps = p # qs" using d(3) by (cases ps) auto
  have lk: "head_of (view t ?M) = Some p" "kind_of (view t p) = Ok FreelistBlock" "fl_length (view t p) \<le> FREELIST_SLOTS"
      "linked (view t) (head_of (view t p)) qs"
    using d(2) by (simp_all add: ps)
  have L: "a # L = rev (fl_items (view t p)) @ p # free_list (view t) qs" using d(3) by (simp add: ps)
  have p: "p \<in> set (a # L)" "p \<noteq> ?M" "p \<in> A" using L d(5) sub by auto
  have di: "distinct (rev (fl_items (view t p)) @ p # free_list (view t) qs)" using d(6) L by metis
  have qs: "p \<notin> set qs" "?M \<notin> set qs"
    using di d(5) chain_in_free_list [of _ qs "view t"] unfolding L by auto
  obtain r t0 t1 where t0: "meta_page api t = (Ok r, t0)"
      "then_drop (ta_drop api r) (get_freelist_head (ta_read api r)) t0 = (Ok (Some p), t1)"
    and t1: "ok (k + 140) t1" "view t1 = view t"
    using read_head_ok [OF t M d(1)] unfolding lk by blast
  obtain m t2 where m: "ta_get_page_mut api p t1 = (Ok m, t2)" "writes m p (k + 140) t2" "view t2 = view t"
    using get_page_mut_ok [OF t1(1) p(3)] t1(2) by auto
  have fn: "freelist_page_new (ta_read_mut api m) t2 = (Ok (), t2)"
    using page_reading.freelist_page_new_ok [OF reading_mut m(2)] lk(2) m(3) by simp
  have o: "writes m p (k + 70 + 70) t2" by (rule page_writing.ok_le [OF writing m(2)]) simp
  note pop = page_writing.pop_item_ok [OF writing o, unfolded m(3), OF lk(3)]
  have al: "alloc api t = (Ok x, u)" if "next_free_page api t = (Ok (Some x), u)" for x u
    using that by (simp add: alloc_def bindp_Ok [where m = "next_free_page api"] ret_run)
  note run = bindp_def from_storage_Ok [where m = "ta_get_page_mut api x" for x, OF m(1)] fn ret_run
  show ?thesis
  proof (cases "fl_items (view t p) = []")
    case True
    then have a: "a = p" "L = free_list (view t) qs" using L by simp_all
    have po: "pop_item (ta_read_mut api m) (ta_write api m) t2 = (Ok None, t2)" using pop True by simp
    have gn: "get_next_freelist (ta_read_mut api m) t2 = (Ok (head_of (view t p)), t2)"
      using page_reading.get_next_freelist_ok [OF reading_mut o] m(3) by simp
    obtain mm t3 t4 where t4: "meta_page_mut api t2 = (Ok mm, t3)" "set_freelist_head (ta_write api mm) (head_of (view t p)) t3 = (Ok (), t4)"
        "ok (k + 70) t4" "view t4 = (view t)(?M := patch 1 (enc_opt_address (head_of (view t p))) (view t ?M))"
        "length (view t ?M) = PAGE_BODY_SIZE"
      using set_head_run [OF writes_ok [OF o] M] d(1) unfolding m(3) by blast
    have "alloc api t = (Ok a, t4)"
      by (rule al) (simp add: next_free_page_def t0 run po gn t4(1,2) a(1))
    moreover have "alloc_state (view t4) qs L nx"
    proof -
      have "wf_opt wf_page_address (head_of (view t p))"
        by (auto simp: wf_opt_def head_of_def dec_opt_address_wf split: option.split)
      note f = set_head_fields [OF t4(5) this]
      have v: "view t4 q = view t q" if "q \<noteq> ?M" for q using that by (simp add: t4(4))
      have "linked (view t4) (head_of (view t p)) qs" "free_list (view t4) qs = L"
        using linked_cong [of qs "view t4" "view t"] free_list_cong [of qs "view t4" "view t"] v qs(2) lk(4) a(2) by metis+
      moreover have "kind_of (view t4 ?M) = Ok FreelistMeta" "next_of (view t4 ?M) = Ok nx" "head_of (view t4 ?M) = head_of (view t p)"
        using f d(1,4) by (simp_all add: t4(4))
      ultimately show ?thesis using d(5,6,7,8) by (auto simp: alloc_state_def)
    qed
    ultimately show ?thesis using ok_less [OF t4(3), of k] by (auto simp: t4(4))
  next
    case False
    obtain s b where po: "pop_item (ta_read_mut api m) (ta_write api m) t2 = (Ok (Some (last (fl_items (view t p)))), s)"
        "writes m p (k + 70) s" "view s = (view t)(p := b)" "kind_of b = kind_of (view t p)" "head_of b = head_of (view t p)"
        "fl_length b \<le> FREELIST_SLOTS" "fl_items b = butlast (fl_items (view t p))"
      using pop False unfolding m(3) by auto
    have e: "rev (fl_items (view t p)) = last (fl_items (view t p)) # rev (butlast (fl_items (view t p)))"
      using False by (metis append_butlast_last_id rev.simps(2) rev_rev_ident)
    then have a: "a = last (fl_items (view t p))" "L = rev (fl_items b) @ p # free_list (view t) qs"
      using L unfolding e by (simp_all add: po(7))
    have "alloc api t = (Ok a, s)"
      by (rule al) (simp add: next_free_page_def t0 run po(1) a(1))
    moreover have "alloc_state (view s) (p # qs) L nx"
    proof -
      have v: "view s q = view t q" if "q \<noteq> p" for q using that by (simp add: po(3))
      have "linked (view s) (head_of (view t p)) qs" "free_list (view s) qs = free_list (view t) qs"
        using linked_cong [of qs "view s" "view t"] free_list_cong [of qs "view s" "view t"] v qs(1) lk(4) by metis+
      moreover have "view s ?M = view t ?M" using p(2) by (simp add: po(3))
      moreover have "view s p = b" by (simp add: po(3))
      ultimately show ?thesis using d(1,4-8) lk po(4-7) a(2) by (auto simp: alloc_state_def)
    qed
    ultimately show ?thesis using ok_less [OF writes_ok [OF po(2)], of k] p(1) by (auto simp: po(3))
  qed
qed

text \<open>
  Freeing puts a page on top: as the last item of the first page of the list if that has room,
  otherwise as the new first page.
\<close>

lemma free_push_ok:
  assumes t: "ok (k + 140) t" and M: "META_PAGE_ADDRESS \<in> A" and st: "alloc_state (view t) (p # qs) L nx"
    and p: "p \<in> A" and room: "fl_length (view t p) < FREELIST_SLOTS"
    and a: "a \<notin> insert META_PAGE_ADDRESS (set L)" "wf_page_address a" "address_index a < address_index nx"
  shows "\<exists>t'. free api a t = (Ok (), t') \<and> ok k t' \<and> alloc_state (view t') (p # qs) (a # L) nx
    \<and> (\<forall>b. b \<noteq> p \<longrightarrow> view t' b = view t b)"
proof -
  let ?M = META_PAGE_ADDRESS
  note d = alloc_stateD [OF st]
  have lk: "head_of (view t ?M) = Some p" "kind_of (view t p) = Ok FreelistBlock" "linked (view t) (head_of (view t p)) qs"
    using d(2) by simp_all
  have L: "L = rev (fl_items (view t p)) @ p # free_list (view t) qs" using d(3) by simp
  have qs: "p \<notin> set qs" "p \<noteq> ?M"
    using d(5,6) chain_in_free_list [of p qs "view t"] unfolding L by auto
  obtain r t0 t1 where t0: "meta_page api t = (Ok r, t0)"
      "then_drop (ta_drop api r) (get_freelist_head (ta_read api r)) t0 = (Ok (Some p), t1)"
    and t1: "ok (k + 140) t1" "view t1 = view t"
    using read_head_ok [OF t M d(1)] unfolding lk by blast
  obtain m t2 where m: "ta_get_page_mut api p t1 = (Ok m, t2)" "writes m p (k + 140) t2" "view t2 = view t"
    using get_page_mut_ok [OF t1(1) p] t1(2) by auto
  have fn: "freelist_page_new (ta_read_mut api m) t2 = (Ok (), t2)"
    using page_reading.freelist_page_new_ok [OF reading_mut m(2)] lk(2) m(3) by simp
  have fu: "is_full (ta_read_mut api m) t2 = (Ok False, t2)"
    using page_reading.is_full_ok [OF reading_mut m(2)] room m(3) by simp
  obtain t3 b where t3: "push_item (ta_read_mut api m) (ta_write api m) a t2 = (Ok (), t3)" "writes m p k t3"
      "view t3 = (view t)(p := b)" "kind_of b = kind_of (view t p)" "head_of b = head_of (view t p)"
      "fl_length b = Suc (fl_length (view t p))" "fl_items b = fl_items (view t p) @ [a]"
    using page_writing.push_item_ok [OF writing m(2) _ a(2)] room unfolding m(3) by blast
  have "free api a t = (Ok (), t3)"
    by (simp add: free_def bindp_def t0 from_storage_Ok [where m = "ta_get_page_mut api x" for x, OF m(1)] fn fu t3(1))
  moreover have "alloc_state (view t3) (p # qs) (a # L) nx"
  proof -
    have v: "view t3 q = view t q" if "q \<noteq> p" for q using that by (simp add: t3(3))
    have "linked (view t3) (head_of (view t p)) qs" "free_list (view t3) qs = free_list (view t) qs"
      using linked_cong [of qs "view t3" "view t"] free_list_cong [of qs "view t3" "view t"] v qs(1) lk(3) by metis+
    moreover have "view t3 ?M = view t ?M" using qs(2) by (simp add: t3(3))
    moreover have "view t3 p = b" by (simp add: t3(3))
    ultimately show ?thesis
      using d(1,4-8) lk(1,2) t3(4-7) a room unfolding L by (auto simp: alloc_state_def)
  qed
  ultimately show ?thesis using writes_ok [OF t3(2)] by (auto simp: t3(3))
qed

text \<open>The new first page, with the link to the old one written into it when there is one.\<close>

lemma new_head_state:
  assumes st: "alloc_state v ps L nx" and a: "a \<notin> insert META_PAGE_ADDRESS (set L)" "wf_page_address a" "address_index a < address_index nx"
    and b: "kind_of b = Ok FreelistBlock" "head_of b = head_of (v META_PAGE_ADDRESS)" "fl_length b = 0"
    and l: "length (v META_PAGE_ADDRESS) = PAGE_BODY_SIZE"
    and w: "w = (v(a := b))(META_PAGE_ADDRESS := patch 1 (enc_opt_address (Some a)) (v META_PAGE_ADDRESS))"
  shows "alloc_state w (a # ps) (a # L) nx"
proof -
  let ?M = META_PAGE_ADDRESS
  note d = alloc_stateD [OF st]
  have "wf_opt wf_page_address (Some a)" using a(2) by (simp add: wf_opt_def)
  note f = set_head_fields [OF l this]
  have ps: "a \<notin> set ps" "?M \<notin> set ps" using a(1) d(5) chain_in_free_list [of _ ps v] unfolding d(3) by auto
  then have v: "w q = v q" if "q \<in> set ps" for q using that by (auto simp: w)
  have "linked w (head_of (v ?M)) ps" "free_list w ps = L"
    using linked_cong [of ps w v] free_list_cong [of ps w v] v d(2,3) by metis+
  moreover have "w a = b" "w ?M = patch 1 (enc_opt_address (Some a)) (v ?M)" using a(1) by (auto simp: w)
  moreover have "fl_items b = []" using b(3) by (simp add: fl_items_def)
  ultimately show ?thesis using d(1,4-8) a b f(1-3) by (auto simp: alloc_state_def)
qed

lemma free_new_head_ok:
  assumes t: "ok (k + 350) t" and M: "META_PAGE_ADDRESS \<in> A" and st: "alloc_state (view t) ps L nx"
    and A: "a \<in> A" "set ps \<subseteq> A"
    and full: "case ps of [] \<Rightarrow> True | p # _ \<Rightarrow> FREELIST_SLOTS \<le> fl_length (view t p)"
    and a: "a \<notin> insert META_PAGE_ADDRESS (set L)" "wf_page_address a" "address_index a < address_index nx"
  shows "\<exists>t'. free api a t = (Ok (), t') \<and> ok k t' \<and> alloc_state (view t') (a # ps) (a # L) nx
    \<and> (\<forall>b. b \<notin> {a, META_PAGE_ADDRESS} \<longrightarrow> view t' b = view t b)"
proof -
  let ?M = META_PAGE_ADDRESS
  note d = alloc_stateD [OF st]
  have aM: "a \<noteq> ?M" using a(1) by simp
  define h where "h = head_of (view t ?M)"
  obtain r t0 t1 where t0: "meta_page api t = (Ok r, t0)"
      "then_drop (ta_drop api r) (get_freelist_head (ta_read api r)) t0 = (Ok h, t1)"
    and t1: "ok (k + 350) t1" "view t1 = view t"
    using read_head_ok [OF t M d(1)] unfolding h_def by blast
  text \<open>The state in which the freed page is taken for writing.\<close>
  obtain t2 where t2: "ok (k + 350) t2" "view t2 = view t"
    and pre: "free api a t = (case h of
        Some p \<Rightarrow> bindp (from_storage (ta_get_page_mut api a)) (\<lambda>n. bindp (freelist_init (ta_write api n)) (\<lambda>_.
           bindp (set_next_freelist (ta_write api n) (Some p)) (\<lambda>_. bindp (meta_page_mut api) (\<lambda>mm.
           set_freelist_head (ta_write api mm) (Some a))))) t2
      | None \<Rightarrow> bindp (from_storage (ta_get_page_mut api a)) (\<lambda>n. bindp (freelist_init (ta_write api n)) (\<lambda>_.
           bindp (meta_page_mut api) (\<lambda>mm. set_freelist_head (ta_write api mm) (Some a)))) t2)"
  proof (cases ps)
    case Nil
    then have "h = None" using d(2) by (simp add: h_def)
    then have "free api a t = bindp (from_storage (ta_get_page_mut api a)) (\<lambda>n. bindp (freelist_init (ta_write api n)) (\<lambda>_.
           bindp (meta_page_mut api) (\<lambda>mm. set_freelist_head (ta_write api mm) (Some a)))) t1"
      using t0 by (simp add: free_def bindp_def [of "meta_page api"] bindp_def [of "then_drop x y" for x y])
    then show ?thesis using that [OF t1] \<open>h = None\<close> by simp
  next
    case (Cons p qs)
    then have p: "h = Some p" "kind_of (view t p) = Ok FreelistBlock" "p \<in> A" "FREELIST_SLOTS \<le> fl_length (view t p)"
      using d(2) A(2) full by (auto simp: h_def)
    obtain m t2 where m: "ta_get_page_mut api p t1 = (Ok m, t2)" "writes m p (k + 350) t2" "view t2 = view t"
      using get_page_mut_ok [OF t1(1) p(3)] t1(2) by auto
    have fn: "freelist_page_new (ta_read_mut api m) t2 = (Ok (), t2)"
      using page_reading.freelist_page_new_ok [OF reading_mut m(2)] p(2) m(3) by simp
    have fu: "is_full (ta_read_mut api m) t2 = (Ok True, t2)"
      using page_reading.is_full_ok [OF reading_mut m(2)] p(4) m(3) by simp
    have "free api a t = bindp (from_storage (ta_get_page_mut api a)) (\<lambda>n. bindp (freelist_init (ta_write api n)) (\<lambda>_.
           bindp (set_next_freelist (ta_write api n) (Some p)) (\<lambda>_. bindp (meta_page_mut api) (\<lambda>mm.
           set_freelist_head (ta_write api mm) (Some a))))) t2"
      using t0 p(1) fn fu from_storage_Ok [where m = "ta_get_page_mut api x" for x, OF m(1)]
      by (simp add: free_def bindp_def [of "meta_page api"] bindp_def [of "then_drop x y" for x y]
          bindp_def [of "from_storage (ta_get_page_mut api p)"] bindp_def [of "freelist_page_new x" for x] bindp_def [of "is_full x" for x])
    then show ?thesis using that [OF writes_ok [OF m(2)] m(3)] p(1) by simp
  qed
  obtain n t3 where n: "ta_get_page_mut api a t2 = (Ok n, t3)" "writes n a (k + 350) t3" "view t3 = view t"
    using get_page_mut_ok [OF t2(1) A(1)] t2(2) by auto
  have "writes n a (k + 70 + 70 + 210) t3" by (rule page_writing.ok_le [OF writing n(2)]) simp
  from page_writing.freelist_init_ok [OF writing this]
  obtain t4 b where t4: "freelist_init (ta_write api n) t3 = (Ok (), t4)" "writes n a (k + 70 + 70) t4" "view t4 = (view t)(a := b)"
      "kind_of b = Ok FreelistBlock" "head_of b = None" "fl_length b = 0"
    unfolding n(3) by blast
  note run = bindp_def from_storage_Ok [where m = "ta_get_page_mut api x" for x, OF n(1)] t4(1)
  text \<open>Then the link, and the head in the meta page.\<close>
  have fin: "\<exists>t'. free api a t = (Ok (), t') \<and> ok k t' \<and> alloc_state (view t') (a # ps) (a # L) nx
      \<and> (\<forall>b. b \<notin> {a, ?M} \<longrightarrow> view t' b = view t b)"
    if t5: "writes n a (k + 70) t5" "view t5 = (view t)(a := c)" "kind_of c = Ok FreelistBlock" "head_of c = h" "fl_length c = 0"
      and fr: "free api a t = bindp (meta_page_mut api) (\<lambda>mm. set_freelist_head (ta_write api mm) (Some a)) t5" for t5 c
  proof -
    have M5: "view t5 ?M = view t ?M" using aM by (simp add: t5(2))
    obtain mm t6 t7 where t7: "meta_page_mut api t5 = (Ok mm, t6)" "set_freelist_head (ta_write api mm) (Some a) t6 = (Ok (), t7)"
        "ok k t7" "view t7 = (view t5)(?M := patch 1 (enc_opt_address (Some a)) (view t5 ?M))" "length (view t5 ?M) = PAGE_BODY_SIZE"
      using set_head_run [OF writes_ok [OF t5(1)] M] d(1) M5 by metis
    have "alloc_state (view t7) (a # ps) (a # L) nx"
      by (rule new_head_state [OF st a t5(3) _ t5(5)]) (use t7(4,5) M5 t5(2,4) in \<open>simp_all add: h_def\<close>)
    then show ?thesis using t7 by (simp add: fr bindp_def t5(2))
  qed
  show ?thesis
  proof (cases h)
    case None
    show ?thesis
      by (rule fin [OF page_writing.ok_le [OF writing t4(2)] t4(3,4) _ t4(6)]) (simp_all add: None t4(5) pre run)
  next
    case (Some p)
    have l: "length b = PAGE_BODY_SIZE" using page_writing.view_length [OF writing t4(2)] t4(3) by simp
    have "wf_opt wf_page_address (Some p)" using Some unfolding h_def head_of_def wf_opt_def by (simp add: dec_opt_address_wf)
    note f = set_head_fields [OF l this]
    obtain t5 where t5: "set_next_freelist (ta_write api n) (Some p) t4 = (Ok (), t5)" "writes n a (k + 70) t5"
        "view t5 = (view t4)(a := patch 1 (enc_opt_address (Some p)) (view t4 a))"
      using page_writing.set_next_freelist_ok [OF writing t4(2)] by blast
    show ?thesis
      by (rule fin [OF t5(2), of "patch 1 (enc_opt_address (Some p)) b"])
        (simp_all add: t5(3) t4(3-6) f [unfolded One_nat_def] Some pre run t5(1))
  qed
qed

lemma free_ok:
  assumes t: "ok (k + 350) t" and M: "META_PAGE_ADDRESS \<in> A" and st: "alloc_state (view t) ps L nx"
    and A: "insert a (set L) \<subseteq> A"
    and a: "a \<notin> insert META_PAGE_ADDRESS (set L)" "wf_page_address a" "address_index a < address_index nx"
  shows "\<exists>t' ps'. free api a t = (Ok (), t') \<and> ok k t' \<and> alloc_state (view t') ps' (a # L) nx
    \<and> (\<forall>b. b \<notin> insert META_PAGE_ADDRESS (insert a (set L)) \<longrightarrow> view t' b = view t b)"
proof (cases "\<exists>p qs. ps = p # qs \<and> fl_length (view t p) < FREELIST_SLOTS")
  case True
  then obtain p qs where ps: "ps = p # qs" "fl_length (view t p) < FREELIST_SLOTS" by blast
  have p: "p \<in> set L" using alloc_stateD(3) [OF st] by (simp add: ps)
  have "ok (k + 140) t" by (rule ok_less [OF t]) simp
  moreover have "p \<in> A" using A p by auto
  ultimately obtain t' where t': "free api a t = (Ok (), t')" "ok k t'" "alloc_state (view t') (p # qs) (a # L) nx"
      "\<And>b. b \<noteq> p \<Longrightarrow> view t' b = view t b"
    using free_push_ok [OF _ M st [unfolded ps(1)] _ ps(2) a] by metis
  moreover have "b \<noteq> p" if "b \<notin> insert META_PAGE_ADDRESS (insert a (set L))" for b using that p by auto
  ultimately show ?thesis by (intro exI [of _ t'] exI [of _ "p # qs"]) simp
next
  case False
  then have f: "case ps of [] \<Rightarrow> True | p # _ \<Rightarrow> FREELIST_SLOTS \<le> fl_length (view t p)" by (cases ps) auto
  have "set ps \<subseteq> A" using A chain_in_free_list [of _ ps "view t"] alloc_stateD(3) [OF st] by auto
  moreover have "a \<in> A" using A by simp
  ultimately obtain t' where t': "free api a t = (Ok (), t')" "ok k t'" "alloc_state (view t') (a # ps) (a # L) nx"
      "\<And>b. b \<notin> {a, META_PAGE_ADDRESS} \<Longrightarrow> view t' b = view t b"
    using free_new_head_ok [OF t M st _ _ f a] by metis
  then show ?thesis by (intro exI [of _ t'] exI [of _ "a # ps"]) simp
qed

end

end
