(* ===== verification/AllocRuns.thy ===== *)
theory AllocRuns
  imports AllocProofs
begin

text \<open>
  Runs of the allocator and the abstract machine they refine: a stack of free pages, the next new
  page and the pages that are in use.
\<close>

section \<open>Runs\<close>

text \<open>What a client does: allocate, free, and write to a page it has.\<close>

datatype alloc_op = DoAlloc | DoFree page_address | DoWrite page_address u16 "byte list"

fun run_op :: "('t, 'p, 'm) transaction_api \<Rightarrow> alloc_op \<Rightarrow> ('t, page_address option) dbp" where
  "run_op api DoAlloc = bindp (alloc api) (\<lambda>a. ret (Some a))"
| "run_op api (DoFree a) = bindp (free api a) (\<lambda>_. ret None)"
| "run_op api (DoWrite a off bs) = bindp (from_storage (ta_get_page_mut api a)) (\<lambda>m.
     bindp (from_storage (ta_write api m (unat off) bs)) (\<lambda>_. ret None))"

fun run_ops :: "('t, 'p, 'm) transaction_api \<Rightarrow> alloc_op list \<Rightarrow> ('t, page_address option list) dbp" where
  "run_ops api [] = ret []"
| "run_ops api (x # xs) = bindp (run_op api x) (\<lambda>r. bindp (run_ops api xs) (\<lambda>rs. ret (r # rs)))"

section \<open>The abstract machine\<close>

record alloc_spec =
  free_stack :: "page_address list"
  next_new :: page_address
  in_use :: "page_address list"

definition spec_new :: alloc_spec where
  "spec_new = \<lparr>free_stack = [], next_new = PageAddress 0 2, in_use = []\<rparr>"

text \<open>\<open>None\<close>: freeing or writing a page that is not in use, or no address is left.\<close>

fun spec_op :: "alloc_op \<Rightarrow> alloc_spec \<Rightarrow> (page_address option \<times> alloc_spec) option" where
  "spec_op DoAlloc s = (case free_stack s of
     a # L \<Rightarrow> Some (Some a, s\<lparr>free_stack := L, in_use := a # in_use s\<rparr>)
   | [] \<Rightarrow> (case page_address_after (next_new s) of
       Ok nx \<Rightarrow> Some (Some (next_new s), s\<lparr>next_new := nx, in_use := next_new s # in_use s\<rparr>)
     | _ \<Rightarrow> None))"
| "spec_op (DoFree a) s = (if a \<in> set (in_use s)
     then Some (None, s\<lparr>free_stack := a # free_stack s, in_use := remove1 a (in_use s)\<rparr>) else None)"
| "spec_op (DoWrite a off bs) s = (if a \<in> set (in_use s) \<and> unat off + length bs \<le> PAGE_BODY_SIZE
     then Some (None, s) else None)"

fun spec_ops :: "alloc_op list \<Rightarrow> alloc_spec \<Rightarrow> (page_address option list \<times> alloc_spec) option" where
  "spec_ops [] s = Some ([], s)"
| "spec_ops (x # xs) s = (case spec_op x s of
     None \<Rightarrow> None
   | Some (r, s1) \<Rightarrow> (case spec_ops xs s1 of None \<Rightarrow> None | Some (rs, s2) \<Rightarrow> Some (r # rs, s2)))"

text \<open>No page is the meta page, free twice, in use twice, or both.\<close>

definition spec_inv :: "alloc_spec \<Rightarrow> bool" where
  "spec_inv s \<longleftrightarrow> distinct (META_PAGE_ADDRESS # free_stack s @ in_use s) \<and> wf_page_address (next_new s)
     \<and> (\<forall>a \<in> set (META_PAGE_ADDRESS # free_stack s @ in_use s). wf_page_address a \<and> address_index a < address_index (next_new s))"

lemma spec_invD:
  assumes "spec_inv s"
  shows "a \<in> set (free_stack s) \<union> set (in_use s) \<Longrightarrow> a \<noteq> META_PAGE_ADDRESS" "a \<in> set (in_use s) \<Longrightarrow> a \<notin> set (free_stack s)"
    "distinct (in_use s)" "a \<in> set (free_stack s) \<union> set (in_use s) \<Longrightarrow> wf_page_address a \<and> address_index a < address_index (next_new s)"
    "distinct (free_stack s)"
  using assms unfolding spec_inv_def by auto

lemma spec_inv_new: "spec_inv spec_new"
  by (simp add: spec_inv_def spec_new_def META_PAGE_ADDRESS_def wf_page_address_def address_index_def)

lemma page_address_after_Ok:
  assumes "page_address_after a = Ok b" and "wf_page_address a"
  shows "wf_page_address b \<and> address_index b = Suc (address_index a)"
  using page_address_after_cases [OF assms(2)] assms(1) by (auto split: if_splits)

lemma spec_op_inv:
  assumes "spec_inv s" and "spec_op x s = Some (r, s')"
  shows "spec_inv s' \<and> address_index (next_new s) \<le> address_index (next_new s')"
proof (cases x)
  case DoAlloc
  show ?thesis
  proof (cases "free_stack s")
    case Nil
    then obtain nx where "page_address_after (next_new s) = Ok nx" "s' = s\<lparr>next_new := nx, in_use := next_new s # in_use s\<rparr>"
      using assms(2) DoAlloc by (auto split: outcome.splits)
    moreover from this have "wf_page_address nx \<and> address_index nx = Suc (address_index (next_new s))"
      using page_address_after_Ok assms(1) unfolding spec_inv_def by blast
    ultimately show ?thesis using assms(1) Nil unfolding spec_inv_def by (auto intro: less_SucI)
  next
    case (Cons a L)
    then show ?thesis using assms DoAlloc unfolding spec_inv_def by auto
  qed
next
  case (DoFree a)
  then have "a \<in> set (in_use s)" "s' = s\<lparr>free_stack := a # free_stack s, in_use := remove1 a (in_use s)\<rparr>"
    using assms(2) by (auto split: if_splits)
  then show ?thesis using assms(1) unfolding spec_inv_def by (auto simp: distinct_remove1 dest: notin_set_remove1)
next
  case (DoWrite a off bs)
  then show ?thesis using assms by (auto split: if_splits)
qed

lemma spec_ops_inv:
  "spec_inv s \<Longrightarrow> spec_ops xs s = Some (rs, s') \<Longrightarrow> spec_inv s' \<and> address_index (next_new s) \<le> address_index (next_new s')"
proof (induction xs arbitrary: s rs)
  case Nil
  then show ?case by simp
next
  case (Cons x xs)
  then obtain r s1 rs1 where "spec_op x s = Some (r, s1)" "spec_ops xs s1 = Some (rs1, s')"
    by (auto split: option.splits)
  then show ?case using Cons.IH [of s1] spec_op_inv [OF Cons.prems(1)] by (meson order_trans)
qed

text \<open>
  However a client allocates, frees what it has and writes to what it has, the pages in use are
  distinct, none of them is free or the meta page; an allocation gives a page that was not in
  use, and the page freed last is the next one given out.
\<close>

lemma spec_never_shares:
  assumes "spec_ops xs spec_new = Some (rs, s)"
  shows "distinct (in_use s) \<and> set (in_use s) \<inter> set (free_stack s) = {} \<and> META_PAGE_ADDRESS \<notin> set (in_use s)
    \<and> (\<forall>a \<in> set (in_use s). wf_page_address a \<and> address_index a < address_index (next_new s))
    \<and> (\<forall>a s1. spec_op DoAlloc s = Some (Some a, s1) \<longrightarrow> a \<notin> set (in_use s) \<and> a \<noteq> META_PAGE_ADDRESS
        \<and> in_use s1 = a # in_use s)
    \<and> (\<forall>a s1 s2 b. spec_op (DoFree a) s = Some (None, s1) \<longrightarrow> spec_op DoAlloc s1 = Some (Some b, s2) \<longrightarrow> b = a)"
proof -
  have i: "spec_inv s" using spec_ops_inv [OF spec_inv_new assms] by blast
  note d = spec_invD [OF i]
  have "a \<notin> set (in_use s) \<and> a \<noteq> META_PAGE_ADDRESS \<and> in_use s1 = a # in_use s"
    if o: "spec_op DoAlloc s = Some (Some a, s1)" for a s1
  proof -
    have "in_use s1 = a # in_use s" using o by (auto split: list.splits outcome.splits)
    then show ?thesis using spec_invD(1,3) [of s1] spec_op_inv [OF i o] by auto
  qed
  moreover have "b = a" if "spec_op (DoFree a) s = Some (None, s1)" "spec_op DoAlloc s1 = Some (Some b, s2)" for a b s1 s2
    using that by (auto split: if_splits)
  moreover have "set (in_use s) \<inter> set (free_stack s) = {}" "META_PAGE_ADDRESS \<notin> set (in_use s)"
    "\<forall>a \<in> set (in_use s). wf_page_address a \<and> address_index a < address_index (next_new s)"
    using d(1,2,4) by blast+
  ultimately show ?thesis using d(3) by blast
qed

section \<open>The refinement\<close>

text \<open>The room in the log that an operation needs at most.\<close>

fun op_cost :: "alloc_op \<Rightarrow> nat" where
  "op_cost DoAlloc = 140"
| "op_cost (DoFree a) = 350"
| "op_cost (DoWrite a off bs) = write_cost bs"

text \<open>What a client's writes make of the contents of a page.\<close>

fun own_writes :: "page_address \<Rightarrow> alloc_op list \<Rightarrow> byte list \<Rightarrow> byte list" where
  "own_writes a [] b = b"
| "own_writes a (DoWrite c off bs # xs) b = own_writes a xs (if c = a then patch (unat off) bs b else b)"
| "own_writes a (_ # xs) b = own_writes a xs b"

text \<open>An allocator on pages agrees with the abstract one.\<close>

definition agrees :: "(page_address \<Rightarrow> byte list) \<Rightarrow> alloc_spec \<Rightarrow> bool" where
  "agrees v s \<longleftrightarrow> spec_inv s \<and> (\<exists>ps. alloc_state v ps (free_stack s) (next_new s))"

lemma agreesD: "agrees v s \<Longrightarrow> spec_inv s"
  by (simp add: agrees_def)

lemma agreesI: "alloc_state v ps (free_stack s) (next_new s) \<Longrightarrow> spec_inv s \<Longrightarrow> agrees v s"
  by (auto simp: agrees_def)

context transaction_pages begin

lemma run_op_ok:
  assumes t: "ok (k + op_cost x) t" and ag: "agrees (view t) s" and op: "spec_op x s = Some (r, s')"
    and A: "{a. wf_page_address a \<and> address_index a < address_index (next_new s')} \<subseteq> A"
  shows "\<exists>t'. run_op api x t = (Ok r, t') \<and> ok k t' \<and> agrees (view t') s'
    \<and> (\<forall>a \<in> set (in_use s). x \<noteq> DoFree a \<longrightarrow> view t' a = own_writes a [x] (view t a))"
proof -
  note inv = agreesD [OF ag] and i' = spec_op_inv [OF agreesD [OF ag] op]
  obtain ps where st: "alloc_state (view t) ps (free_stack s) (next_new s)" using ag by (auto simp: agrees_def)
  have inA: "a \<in> A" if "a \<in> set (META_PAGE_ADDRESS # free_stack s @ in_use s)" for a
    using that inv i' A unfolding spec_inv_def by fastforce
  have M: "META_PAGE_ADDRESS \<in> A" by (rule inA) simp
  have use: "b \<notin> insert META_PAGE_ADDRESS (set (free_stack s))" if "b \<in> set (in_use s)" for b
    using spec_invD(1,2) [OF inv] that by auto
  show ?thesis
  proof (cases x)
    case DoAlloc
    have ok: "ok (k + 140) t" "ok (k + 70) t" using t DoAlloc ok_less [OF t, of "k + 70"] by simp_all
    show ?thesis
    proof (cases "free_stack s")
      case Nil
      then obtain nx where nx: "page_address_after (next_new s) = Ok nx" "r = Some (next_new s)"
          "s' = s\<lparr>next_new := nx, in_use := next_new s # in_use s\<rparr>"
        using op DoAlloc by (auto split: outcome.splits)
      have "address_index (next_new s) \<noteq> 2 ^ 32 * 65535 - 1"
        using page_address_after_cases [of "next_new s"] inv nx(1) unfolding spec_inv_def by auto
      then obtain t' nx' where t': "alloc api t = (Ok (next_new s), t')" "ok k t'" "page_address_after (next_new s) = Ok nx'"
          "alloc_state (view t') [] [] nx'" "\<And>b. b \<noteq> META_PAGE_ADDRESS \<Longrightarrow> view t' b = view t b"
        using alloc_new_ok [OF ok(2) M st [unfolded Nil]] by (simp only: if_False) metis
      have "agrees (view t') s'" by (rule agreesI [of _ "[]"]) (use t'(3,4) nx i' Nil in simp_all)
      moreover have "view t' a = view t a" if "a \<in> set (in_use s)" for a using t'(5) use [OF that] by simp
      ultimately show ?thesis using t'(1,2) nx(2) DoAlloc
        by (intro exI [of _ t']) (simp add: bindp_Ok [where m = "alloc api"] ret_run)
    next
      case (Cons a L)
      then have s': "r = Some a" "s' = s\<lparr>free_stack := L, in_use := a # in_use s\<rparr>" using op DoAlloc by auto
      have sub: "set (a # L) \<subseteq> A" using inA Cons by auto
      obtain t' ps' where t': "alloc api t = (Ok a, t')" "ok k t'" "alloc_state (view t') ps' L (next_new s)"
          "\<And>b. b \<notin> insert META_PAGE_ADDRESS (set (a # L)) \<Longrightarrow> view t' b = view t b"
        using alloc_free_ok [OF ok(1) M st [unfolded Cons] sub] by blast
      have "agrees (view t') s'" by (rule agreesI [of _ ps']) (use t'(3) s' i' in simp_all)
      moreover have "view t' b = view t b" if "b \<in> set (in_use s)" for b using t'(4) use [OF that] unfolding Cons by simp
      ultimately show ?thesis using t'(1,2) s'(1) DoAlloc
        by (intro exI [of _ t']) (simp add: bindp_Ok [where m = "alloc api"] ret_run)
    qed
  next
    case (DoFree a)
    then have s': "a \<in> set (in_use s)" "r = None" "s' = s\<lparr>free_stack := a # free_stack s, in_use := remove1 a (in_use s)\<rparr>"
      using op by (auto split: if_splits)
    have ok: "ok (k + 350) t" using t DoFree by simp
    have sub: "insert a (set (free_stack s)) \<subseteq> A" using inA s'(1) by auto
    have aw: "wf_page_address a" "address_index a < address_index (next_new s)" using spec_invD(4) [OF inv] s'(1) by auto
    obtain t' ps' where t': "free api a t = (Ok (), t')" "ok k t'" "alloc_state (view t') ps' (a # free_stack s) (next_new s)"
        "\<And>b. b \<notin> insert META_PAGE_ADDRESS (insert a (set (free_stack s))) \<Longrightarrow> view t' b = view t b"
      using free_ok [OF ok M st sub use [OF s'(1)] aw] by blast
    have "agrees (view t') s'" by (rule agreesI [of _ ps']) (use t'(3) s' i' in simp_all)
    moreover have "view t' b = view t b" if "b \<in> set (in_use s)" "b \<noteq> a" for b using t'(4) use [OF that(1)] that(2) by simp
    ultimately show ?thesis using t'(1,2) s'(2) DoFree
      by (intro exI [of _ t']) (auto simp: bindp_Ok [where m = "free api a"] ret_run)
  next
    case (DoWrite a off bs)
    then have s': "a \<in> set (in_use s)" "unat off + length bs \<le> PAGE_BODY_SIZE" "r = None" "s' = s"
      using op by (auto split: if_splits)
    have aA: "a \<in> A" using inA s'(1) by auto
    obtain m t1 where m: "ta_get_page_mut api a t = (Ok m, t1)" "writes m a (k + write_cost bs) t1" "view t1 = view t"
      using get_page_mut_ok [OF t aA] DoWrite by auto
    obtain t2 where t2: "ta_write api m (unat off) bs t1 = (Ok (), t2)" "writes m a k t2"
        "view t2 = (view t)(a := patch (unat off) bs (view t a))"
      using page_writing.write_ok [OF writing m(2) s'(2)] unfolding m(3) by blast
    have "alloc_state (view t2) ps (free_stack s') (next_new s')"
      unfolding s'(4) by (rule alloc_state_cong [OF st]) (use use [OF s'(1)] in \<open>auto simp: t2(3)\<close>)
    then have "agrees (view t2) s'" by (rule agreesI) (use i' in simp)
    then show ?thesis using writes_ok [OF t2(2)] s'(3) DoWrite
      by (intro exI [of _ t2]) (auto simp: bindp_def from_storage_Ok [where m = "ta_get_page_mut api a", OF m(1)]
          from_storage_Ok [where m = "ta_write api m x y" for x y, OF t2(1)] ret_run t2(3))
  qed
qed

lemma run_ops_ok:
  assumes "ok (k + sum_list (map op_cost xs)) t" and "agrees (view t) s" and "spec_ops xs s = Some (rs, s')"
    and "{a. wf_page_address a \<and> address_index a < address_index (next_new s')} \<subseteq> A"
  shows "\<exists>t'. run_ops api xs t = (Ok rs, t') \<and> ok k t' \<and> agrees (view t') s'
    \<and> (\<forall>a \<in> set (in_use s). DoFree a \<notin> set xs \<longrightarrow> view t' a = own_writes a xs (view t a))"
  using assms
proof (induction xs arbitrary: t s rs)
  case Nil
  then show ?case by (simp add: ret_run)
next
  case (Cons x xs)
  obtain r s1 rs1 where op: "spec_op x s = Some (r, s1)" "spec_ops xs s1 = Some (rs1, s')" "rs = r # rs1"
    using Cons.prems(3) by (auto split: option.splits)
  note i1 = spec_op_inv [OF agreesD [OF Cons.prems(2)] op(1)]
  have "address_index (next_new s1) \<le> address_index (next_new s')" using spec_ops_inv [OF conjunct1 [OF i1] op(2)] by blast
  then have A1: "{a. wf_page_address a \<and> address_index a < address_index (next_new s1)} \<subseteq> A" using Cons.prems(4) by auto
  have "ok (k + sum_list (map op_cost xs) + op_cost x) t" by (rule ok_less [OF Cons.prems(1)]) simp
  from run_op_ok [OF this Cons.prems(2) op(1) A1]
  obtain t1 where t1: "run_op api x t = (Ok r, t1)" "ok (k + sum_list (map op_cost xs)) t1" "agrees (view t1) s1"
      "\<forall>a \<in> set (in_use s). x \<noteq> DoFree a \<longrightarrow> view t1 a = own_writes a [x] (view t a)"
    by blast
  obtain t2 where t2: "run_ops api xs t1 = (Ok rs1, t2)" "ok k t2" "agrees (view t2) s'"
      "\<forall>a \<in> set (in_use s1). DoFree a \<notin> set xs \<longrightarrow> view t2 a = own_writes a xs (view t1 a)"
    using Cons.IH [OF t1(2,3) op(2) Cons.prems(4)] by blast
  have run: "run_ops api (x # xs) t = (Ok rs, t2)" by (simp add: bindp_def t1(1) t2(1) ret_run op(3))
  have use: "a \<in> set (in_use s1)" if "a \<in> set (in_use s)" "x \<noteq> DoFree a" for a
    using that op(1) by (cases x) (auto split: list.splits outcome.splits if_splits)
  have ow: "own_writes a (x # xs) b = own_writes a xs (own_writes a [x] b)" for a b by (cases x) simp_all
  have "view t2 a = own_writes a (x # xs) (view t a)" if "a \<in> set (in_use s)" "DoFree a \<notin> set (x # xs)" for a
  proof -
    have x: "x \<noteq> DoFree a" "DoFree a \<notin> set xs" using that(2) by auto
    then show ?thesis using t1(4) t2(4) that(1) use [OF that(1) x(1)] unfolding ow by metis
  qed
  then show ?case using run t2(2,3) by blast
qed

end

end
