(* ===== verification/AllocStore.thy ===== *)
theory AllocStore
  imports AllocRuns Transactions
begin

text \<open>
  The allocator on the transactions of the page storage: \<open>impl TransactionApi for Transaction\<close> of
  \<open>page_store/mod.rs\<close> as an instance of the interface \<open>transaction_pages\<close>, and what follows for the
  whole storage.
\<close>

section \<open>The transactions of the page storage\<close>

text \<open>\<open>ReadPage for PageMut\<close>.\<close>

definition page_mut_read :: "page_mut \<Rightarrow> nat \<Rightarrow> nat \<Rightarrow> ('w, 'ps, byte list) storep" where
  "page_mut_read m off n = on_cache (guard_read (pm_guard m) off n)"

definition storage_transaction_api :: "'ps physical_api \<Rightarrow> ('w, 'ps) wal_api
    \<Rightarrow> (transaction \<times> ('w, 'ps) page_storage, page_guard, page_mut) transaction_api" where
  "storage_transaction_api api wapi = \<lparr>
     ta_get_page = transaction_get_page api,
     ta_get_page_mut = transaction_get_page_mut api,
     ta_read = (\<lambda>p off n. on_snd (on_cache (page_read p off n))),
     ta_drop = (\<lambda>p ts. (fst ts, (snd ts)\<lparr>scache := drop_page p (scache (snd ts))\<rparr>)),
     ta_read_mut = (\<lambda>m off n. on_snd (page_mut_read m off n)),
     ta_write = (\<lambda>m off bs. on_snd (page_mut_write wapi m off bs))\<rparr>"

section \<open>The invariant of a transaction\<close>

text \<open>Its pages are locked by it, all other pages are unlocked.\<close>

definition held :: "transaction \<Rightarrow> page_cache \<Rightarrow> bool" where
  "held t c \<longleftrightarrow> cache_inv c \<and> (\<forall>a i. map_of (tlocks t) a = Some i \<longrightarrow> map_of (indices c) a = Some i)
     \<and> (\<forall>a i. map_of (indices c) a = Some i \<longrightarrow> locks c ! i = (if map_of (tlocks t) a = None then Unlocked else Exclusive))
     \<and> (\<forall>j. num_filled (buf c) \<le> j \<longrightarrow> j < length (locks c) \<longrightarrow> locks c ! j = Unlocked)"

lemma heldD:
  assumes "held t c"
  shows "cache_inv c" "map_of (tlocks t) a = Some i \<Longrightarrow> map_of (indices c) a = Some i"
    "map_of (indices c) a = Some i \<Longrightarrow> locks c ! i = (if map_of (tlocks t) a = None then Unlocked else Exclusive)"
    "num_filled (buf c) \<le> j \<Longrightarrow> j < length (locks c) \<Longrightarrow> locks c ! j = Unlocked"
  using assms unfolding held_def by blast+

lemma held_cong:
  assumes "held t c" and "cache_inv d" and "indices d = indices c" and "locks d = locks c" and "num_filled (buf d) = num_filled (buf c)"
  shows "held t d"
  using assms unfolding held_def by simp

text \<open>Locking one more page, and unlocking it again.\<close>

lemma held_lock:
  assumes h: "held t c" and a: "map_of (indices c) a = Some g" "map_of (tlocks t) a = None"
  shows "held (t\<lparr>tlocks := tlocks t @ [(a, g)]\<rparr>) (set_lock g Exclusive c)"
proof -
  note hd = heldD [OF h]
  have g: "g < length (locks c)" "g < num_filled (buf c)" by (rule cache_index [OF hd(1) a(1)], rule index_filled [OF hd(1) a(1)])
  have mo: "map_of (tlocks t @ [(a, g)]) b = (if b = a then Some g else map_of (tlocks t) b)" for b
    using a(2) by (auto simp: map_add_def split: option.splits)
  have ne: "i \<noteq> g" if "map_of (indices c) b = Some i" "b \<noteq> a" for b i
    using that cache_index_inject [OF hd(1) a(1), of b] by auto
  show ?thesis
    unfolding held_def
  proof (intro conjI allI impI)
    fix b i assume "map_of (tlocks (t\<lparr>tlocks := tlocks t @ [(a, g)]\<rparr>)) b = Some i"
    then show "map_of (indices (set_lock g Exclusive c)) b = Some i"
      using hd(2) [of b i] a(1) by (simp add: mo del: map_of_append split: if_splits)
  next
    fix b i assume b: "map_of (indices (set_lock g Exclusive c)) b = Some i"
    then have i: "map_of (indices c) b = Some i" by simp
    show "locks (set_lock g Exclusive c) ! i
        = (if map_of (tlocks (t\<lparr>tlocks := tlocks t @ [(a, g)]\<rparr>)) b = None then Unlocked else Exclusive)"
    proof (cases "b = a")
      case True
      then have "i = g" using a(1) i by simp
      then show ?thesis using True g(1) mo [of a] by (simp del: map_of_append)
    next
      case False
      then show ?thesis using hd(3) [OF i] ne [OF i] by (simp add: mo del: map_of_append)
    qed
  next
    fix j assume j: "num_filled (buf (set_lock g Exclusive c)) \<le> j" "j < length (locks (set_lock g Exclusive c))"
    then have "j \<noteq> g" using g(2) by auto
    then show "locks (set_lock g Exclusive c) ! j = Unlocked" using hd(4) [of j] j by (simp add: nth_list_update)
  qed (simp add: hd(1))
qed

text \<open>A page that comes into the cache.\<close>

definition page_loaded :: "page_address \<Rightarrow> byte list \<Rightarrow> page_cache \<Rightarrow> page_cache \<Rightarrow> bool" where
  "page_loaded a b c d \<longleftrightarrow> (let k = num_filled (buf c) in cache_inv d \<and> indices d = indices c @ [(a, k)]
     \<and> num_filled (buf d) = Suc k \<and> page_body (page_at k d) = b \<and> (\<forall>j. j \<noteq> k \<longrightarrow> page_at j d = page_at j c)
     \<and> locks d = (locks c)[k := Exclusive] \<and> length (pages (buf d)) = length (pages (buf c)))"

lemma held_load:
  assumes h: "held t c" and a: "map_of (indices c) a = None" and d: "page_loaded a b c d"
  shows "held t (set_lock (num_filled (buf c)) Unlocked d)"
proof -
  let ?k = "num_filled (buf c)"
  note hd = heldD [OF h]
  have dd: "cache_inv d" "indices d = indices c @ [(a, ?k)]" "num_filled (buf d) = Suc ?k" "locks d = (locks c)[?k := Exclusive]"
    using d by (simp_all add: page_loaded_def Let_def)
  have mo: "map_of (indices d) x = (if x = a then Some ?k else map_of (indices c) x)" for x
    using a by (auto simp: dd(2) map_add_def split: option.splits)
  have k: "?k < length (locks c)"
    using cache_index(1) [OF dd(1), of a ?k] by (simp add: mo dd(4))
  then have u: "locks c ! ?k = Unlocked" using hd(4) [of ?k] by simp
  then have lk: "locks (set_lock ?k Unlocked d) = locks c" using list_update_id [of "locks c" ?k] by (simp add: dd(4))
  have ta: "map_of (tlocks t) a = None" using hd(2) [of a] a by (cases "map_of (tlocks t) a") auto
  show ?thesis
    unfolding held_def lk
  proof (intro conjI allI impI)
    fix x i assume "map_of (tlocks t) x = Some i"
    then show "map_of (indices (set_lock ?k Unlocked d)) x = Some i" using hd(2) [of x i] a by (auto simp: mo)
  next
    fix x i assume "map_of (indices (set_lock ?k Unlocked d)) x = Some i"
    then show "locks c ! i = (if map_of (tlocks t) x = None then Unlocked else Exclusive)"
      using hd(3) [of x i] ta u by (simp add: mo split: if_splits)
  next
    fix j assume "num_filled (buf (set_lock ?k Unlocked d)) \<le> j" "j < length (locks c)"
    then show "locks c ! j = Unlocked" using hd(4) [of j] by (simp add: dd(3))
  qed (simp add: dd(1))
qed

text \<open>What a transaction sees in a page: the cached contents, or else the stored ones.\<close>

definition seen :: "('ps \<Rightarrow> page_address \<Rightarrow> (storage_error, page_read) outcome)
    \<Rightarrow> transaction \<times> ('w, 'ps) page_storage \<Rightarrow> page_address \<Rightarrow> byte list" where
  "seen dview ts a = (case map_of (indices (scache (snd ts))) a of
     Some i \<Rightarrow> page_body (page_at i (scache (snd ts)))
   | None \<Rightarrow> (case dview (sphys (snd ts)) a of Ok (_, b) \<Rightarrow> b | _ \<Rightarrow> []))"

text \<open>The pages \<open>A\<close> can be read and fit in the cache together with what is there already.\<close>

definition room_for :: "('ps \<Rightarrow> page_address \<Rightarrow> (storage_error, page_read) outcome)
    \<Rightarrow> page_address set \<Rightarrow> 'ps \<Rightarrow> page_cache \<Rightarrow> bool" where
  "room_for dview A ps c \<longleftrightarrow> finite A \<and> card (A \<union> keys_of (indices c)) \<le> length (pages (buf c))
     \<and> (\<forall>a \<in> A. wf_page_address a \<and> (\<exists>ix b. dview ps a = Ok (ix, b) \<and> length b = PAGE_BODY_SIZE))"

fun guard_index :: "page_guard \<Rightarrow> nat" where
  "guard_index (SharedGuard g) = g"
| "guard_index (ExclusiveGuard g) = g"

lemma drop_page_fields [simp]:
  "indices (drop_page p c) = indices c" "buf (drop_page p c) = buf c" "page_at j (drop_page p c) = page_at j c"
  "cache_inv (drop_page p c) = cache_inv c"
proof -
  show "indices (drop_page p c) = indices c" "buf (drop_page p c) = buf c"
    by (cases p; simp add: drop_read_guard_def split: rw_lock.split)+
  then show "page_at j (drop_page p c) = page_at j c" by (simp add: page_at_def)
  show "cache_inv (drop_page p c) = cache_inv c"
    by (cases p; simp add: drop_read_guard_def split: rw_lock.split)
qed

definition trans_ok :: "('ps \<Rightarrow> page_address \<Rightarrow> (storage_error, page_read) outcome) \<Rightarrow> ('ps \<Rightarrow> bool) \<Rightarrow> ('w \<Rightarrow> bool) \<Rightarrow> ('w \<Rightarrow> nat)
    \<Rightarrow> page_address set \<Rightarrow> nat \<Rightarrow> transaction \<times> ('w, 'ps) page_storage \<Rightarrow> bool" where
  "trans_ok dview dinv winv wsize A k ts \<longleftrightarrow> (case ts of (t, st) \<Rightarrow> held t (scache st) \<and> dinv (sphys st) \<and> winv (swal st)
     \<and> wsize (swal st) + k < 2 ^ 63 \<and> room_for dview A (sphys st) (scache st))"

definition reads_page :: "('ps \<Rightarrow> page_address \<Rightarrow> (storage_error, page_read) outcome) \<Rightarrow> ('ps \<Rightarrow> bool) \<Rightarrow> ('w \<Rightarrow> bool) \<Rightarrow> ('w \<Rightarrow> nat)
    \<Rightarrow> page_address set \<Rightarrow> page_guard \<Rightarrow> page_address \<Rightarrow> nat \<Rightarrow> transaction \<times> ('w, 'ps) page_storage \<Rightarrow> bool" where
  "reads_page dview dinv winv wsize A p a k ts \<longleftrightarrow> (case ts of (t, st) \<Rightarrow>
     trans_ok dview dinv winv wsize A k (t, st\<lparr>scache := drop_page p (scache st)\<rparr>)
     \<and> map_of (indices (scache st)) a = Some (guard_index p))"

definition writes_page :: "('ps \<Rightarrow> page_address \<Rightarrow> (storage_error, page_read) outcome) \<Rightarrow> ('ps \<Rightarrow> bool) \<Rightarrow> ('w \<Rightarrow> bool) \<Rightarrow> ('w \<Rightarrow> nat)
    \<Rightarrow> page_address set \<Rightarrow> page_mut \<Rightarrow> page_address \<Rightarrow> nat \<Rightarrow> transaction \<times> ('w, 'ps) page_storage \<Rightarrow> bool" where
  "writes_page dview dinv winv wsize A m a k ts \<longleftrightarrow> (case ts of (t, st) \<Rightarrow>
     trans_ok dview dinv winv wsize A k (t, st) \<and> pm_page_address m = a \<and> wf_page_address a
     \<and> map_of (tlocks t) a = Some (pm_guard m))"

lemma room_for_load:
  "room_for dview A ps c \<Longrightarrow> a \<in> A \<Longrightarrow> page_loaded a b c d \<Longrightarrow> room_for dview A ps d"
  by (auto simp: room_for_def page_loaded_def Let_def insert_absorb)

lemma page_loaded_seen:
  assumes "map_of (indices (scache st)) a = None" and "page_loaded a b (scache st) d" and "cache_inv (scache st)"
    and "dview (sphys st) a = Ok (ix, b)" and "dview ps' = dview (sphys st)"
    and "indices (scache st') = indices d" and "\<And>j. page_at j (scache st') = page_at j d" and "sphys st' = ps'"
  shows "seen dview (t', st') = seen dview (t, st)"
proof (rule ext)
  fix x
  let ?k = "num_filled (buf (scache st))"
  have mo: "map_of (indices d) x = (if x = a then Some ?k else map_of (indices (scache st)) x)"
    using assms(1,2) by (auto simp: page_loaded_def Let_def map_add_def split: option.splits)
  have "j \<noteq> ?k" if "map_of (indices (scache st)) x = Some j" for j using index_filled [OF assms(3) that] by simp
  then show "seen dview (t', st') x = seen dview (t, st) x"
    using assms(1,2,4-) mo by (auto simp: seen_def page_loaded_def Let_def split: option.split)
qed

text \<open>Getting a page to read: one the transaction has, or a shared guard.\<close>

lemma get_page_has:
  "map_of (tlocks t) a = Some g \<Longrightarrow> transaction_get_page api a (t, st) = (Ok (ExclusiveGuard g), (t, st))"
  by (simp add: transaction_get_page_def bindp_def on_fst_def get_state_run ret_run)

lemma get_page_shared:
  assumes "map_of (tlocks t) a = None" and "read_guard api a (scache st, sphys st) = (Ok g, (c, ps))"
  shows "transaction_get_page api a (t, st) = (Ok (SharedGuard g), (t, st\<lparr>scache := c, sphys := ps\<rparr>))"
  using assms by (simp add: transaction_get_page_def bindp_def on_fst_def on_snd_def on_pages_def get_state_run ret_run)

lemma unlock_same:
  assumes "i < length (locks c)" and "locks c ! i = Unlocked"
  shows "(locks c)[i := Unlocked] = locks c"
  using list_update_id [of "locks c" i] assms(2) by simp

context transactional_store begin

lemma load_new_ok:
  assumes h: "held t c" and a: "map_of (indices c) a = None" "a \<in> A" and r: "room_for dview A ps c" and ps: "dinv ps"
  shows "\<exists>d ps' ix b. dview ps a = Ok (ix, b) \<and> load_into_cache api a (c, ps) = (Ok (num_filled (buf c)), (d, ps'))
    \<and> page_loaded a b c d \<and> dinv ps' \<and> dview ps' = dview ps"
proof -
  let ?k = "num_filled (buf c)"
  note hd = heldD [OF h]
  obtain ix b where b: "dview ps a = Ok (ix, b)" "length b = PAGE_BODY_SIZE" "wf_page_address a"
    using r a(2) by (auto simp: room_for_def)
  have "card (insert a (keys_of (indices c))) \<le> card (A \<union> keys_of (indices c))"
    using r a(2) by (intro card_mono) (auto simp: room_for_def)
  then have "card (insert a (keys_of (indices c))) \<le> length (pages (buf c))" using r by (simp add: room_for_def)
  then have k: "?k < length (pages (buf c))" by (rule num_filled_room [OF hd(1) a(1)])
  have "locks c ! ?k = Unlocked" using hd(4) [of ?k] k hd(1) by (simp add: cache_inv_def)
  from store_fits [OF hd(1) a(1) k this]
  obtain c1 where c1: "cache_store a c = (Ok ?k, c1)" "cache_inv c1" "indices c1 = indices c @ [(a, ?k)]"
      "num_filled (buf c1) = Suc ?k" "pages (buf c1) = pages (buf c)" "locks c1 = (locks c)[?k := Exclusive]"
    by blast
  obtain ps' where rd: "pa_read api a ps = (Ok (ix, b), ps')" "dinv ps'" "dview ps' = dview ps"
    using dread_ok [OF ps b(3)] b(1) by auto
  let ?d = "set_page ?k ((page_at ?k c1)\<lparr>page_body := b\<rparr>) c1"
  have l: "load_into_cache api a (c, ps) = (Ok ?k, (?d, ps'))" by (rule load_into_cache_run [OF c1(1) rd(1)])
  have "cache_inv ?d" by (rule cache_inv_set_page [OF c1(2)]) (simp add: b(2))
  moreover have "page_at j ?d = (if j = ?k then (page_at ?k c1)\<lparr>page_body := b\<rparr> else page_at j c)" for j
    using page_at_set_page [of ?k c1 j] k c1(5) by (simp add: page_at_def)
  ultimately have "page_loaded a b c ?d" using c1 by (simp add: page_loaded_def Let_def)
  then show ?thesis using l b(1) rd(2,3) by blast
qed

lemma get_page_law:
  assumes ok: "trans_ok dview dinv winv wsize A k (t, st)" and a: "a \<in> A"
  shows "\<exists>p ts. transaction_get_page api a (t, st) = (Ok p, ts) \<and> reads_page dview dinv winv wsize A p a k ts
    \<and> seen dview ts = seen dview (t, st)"
proof -
  let ?c = "scache st" and ?ps = "sphys st"
  have o: "held t ?c" "dinv ?ps" "winv (swal st)" "wsize (swal st) + k < 2 ^ 63" "room_for dview A ?ps ?c"
    using ok by (simp_all add: trans_ok_def)
  note hd = heldD [OF o(1)]
  consider g where "map_of (tlocks t) a = Some g" | i where "map_of (tlocks t) a = None" "map_of (indices ?c) a = Some i"
    | "map_of (tlocks t) a = None" "map_of (indices ?c) a = None" by fastforce
  then show ?thesis
  proof cases
    case 1
    then show ?thesis
      using get_page_has [OF 1, of api st] ok hd(2) [OF 1] by (intro exI [of _ "ExclusiveGuard g"] exI [of _ "(t, st)"]) (simp add: reads_page_def)
  next
    case 2
    note ix = cache_index [OF hd(1) 2(2)]
    have u: "locks ?c ! i = Unlocked" using hd(3) [OF 2(2)] 2(1) by simp
    let ?e = "?c\<lparr>creplacer := snd (replacer_access a (creplacer ?c))\<rparr>"
    let ?c1 = "set_lock i (SharedBy 1) ?e"
    have l: "cache_load a ?c = (Ok (Some i), ?c1)" using cache_load_ok [OF hd(1) 2(2)] u by simp
    have d: "drop_read_guard i ?c1 = set_lock i Unlocked ?c1" using ix by (simp add: drop_read_guard_def)
    have "held t (set_lock i Unlocked ?c1)"
      by (rule held_cong [OF o(1)]) (use cache_inv_access [OF hd(1)] unlock_same [OF ix(1) u] in simp_all)
    moreover have "room_for dview A ?ps (set_lock i Unlocked ?c1)" using o(5) by (simp add: room_for_def)
    ultimately have "reads_page dview dinv winv wsize A (SharedGuard i) a k (t, st\<lparr>scache := ?c1, sphys := ?ps\<rparr>)"
      using o(2-4) 2(2) by (simp add: reads_page_def trans_ok_def d [unfolded One_nat_def])
    moreover have "seen dview (t, st\<lparr>scache := ?c1, sphys := ?ps\<rparr>) = seen dview (t, st)"
      by (rule ext) (simp add: seen_def page_at_def split: option.split)
    ultimately show ?thesis using get_page_shared [OF 2(1) read_guard_cached [OF l]] by blast
  next
    case 3
    let ?k = "num_filled (buf ?c)"
    obtain d ps' ix b where l: "dview ?ps a = Ok (ix, b)" "load_into_cache api a (?c, ?ps) = (Ok ?k, (d, ps'))"
        "page_loaded a b ?c d" "dinv ps'" "dview ps' = dview ?ps"
      using load_new_ok [OF o(1) 3(2) a o(5,2)] by blast
    let ?c1 = "set_lock ?k (SharedBy 1) d"
    have mo: "map_of (indices d) a = Some ?k" "cache_inv d"
      using l(3) 3(2) by (simp_all add: page_loaded_def Let_def map_add_def)
    have "?k < length (locks d)" by (rule cache_index(1) [OF mo(2,1)])
    then have d: "drop_read_guard ?k ?c1 = set_lock ?k Unlocked d"
      by (simp add: drop_read_guard_def) (simp add: set_lock_def)
    have "room_for dview A ps' (set_lock ?k Unlocked d)"
      using room_for_load [OF o(5) a l(3)] l(5) by (simp add: room_for_def)
    then have "reads_page dview dinv winv wsize A (SharedGuard ?k) a k (t, st\<lparr>scache := ?c1, sphys := ps'\<rparr>)"
      using held_load [OF o(1) 3(2) l(3)] o(3,4) l(4) mo(1) by (simp add: reads_page_def trans_ok_def d [unfolded One_nat_def])
    moreover have "seen dview (t, st\<lparr>scache := ?c1, sphys := ps'\<rparr>) = seen dview (t, st)"
      by (rule page_loaded_seen [OF 3(2) l(3) hd(1) l(1,5)]) simp_all
    ultimately show ?thesis using get_page_shared [OF 3(1) read_guard_loads [OF 3(2) l(2)]] by blast
  qed
qed

lemma get_page_mut_law:
  assumes ok: "trans_ok dview dinv winv wsize A k (t, st)" and a: "a \<in> A"
  shows "\<exists>m ts. transaction_get_page_mut api a (t, st) = (Ok m, ts) \<and> writes_page dview dinv winv wsize A m a k ts
    \<and> seen dview ts = seen dview (t, st)"
proof -
  let ?c = "scache st" and ?ps = "sphys st"
  have o: "held t ?c" "dinv ?ps" "winv (swal st)" "wsize (swal st) + k < 2 ^ 63" "room_for dview A ?ps ?c"
    using ok by (simp_all add: trans_ok_def)
  have wf: "wf_page_address a" using o(5) a by (simp add: room_for_def)
  note hd = heldD [OF o(1)]
  consider g where "map_of (tlocks t) a = Some g" | i where "map_of (tlocks t) a = None" "map_of (indices ?c) a = Some i"
    | "map_of (tlocks t) a = None" "map_of (indices ?c) a = None" by fastforce
  then show ?thesis
  proof cases
    case 1
    then show ?thesis using get_page_mut_has [OF 1, of api st] ok wf by (auto simp: writes_page_def)
  next
    case 2
    note ix = cache_index [OF hd(1) 2(2)]
    have u: "locks ?c ! i = Unlocked" using hd(3) [OF 2(2)] 2(1) by simp
    let ?e = "?c\<lparr>creplacer := snd (replacer_access a (creplacer ?c))\<rparr>" and ?t = "t\<lparr>tlocks := tlocks t @ [(a, i)]\<rparr>"
    let ?c1 = "set_lock i Exclusive ?e"
    have lm: "load_mut_direct i ?e = (Ok i, ?c1)" using load_mut_direct_ok [of i ?e] ix u by simp
    have l: "cache_load_mut a ?c = (Ok (Some i), ?c1)"
      using 2(2) by (simp add: cache_load_mut_def get_load_index_def prog_simps bindp_Ok [where m = "load_mut_direct i", OF lm])
    have wg: "write_guard api a (?c, ?ps) = (Ok i, (?c1, ?ps))"
      by (simp add: write_guard_def bindp_def on_fst_def l ret_run)
    have "held t ?e" by (rule held_cong [OF o(1)]) (use cache_inv_access [OF hd(1)] in simp_all)
    then have "held ?t ?c1" by (rule held_lock) (use 2 in simp_all)
    moreover have "room_for dview A ?ps ?c1" using o(5) by (simp add: room_for_def)
    moreover have "map_of (tlocks ?t) a = Some i" using 2(1) by (simp add: map_add_def)
    ultimately have "writes_page dview dinv winv wsize A \<lparr>pm_page_address = a, pm_transaction_id = tid t, pm_guard = i\<rparr> a k
        (?t, st\<lparr>scache := ?c1, sphys := ?ps\<rparr>)"
      using o(2-4) wf by (simp add: writes_page_def trans_ok_def del: map_of_append)
    moreover have "seen dview (?t, st\<lparr>scache := ?c1, sphys := ?ps\<rparr>) = seen dview (t, st)"
      by (rule ext) (simp add: seen_def page_at_def split: option.split)
    ultimately show ?thesis using get_page_mut_new [OF 2(1) wg] by blast
  next
    case 3
    let ?k = "num_filled (buf ?c)" and ?t = "t\<lparr>tlocks := tlocks t @ [(a, num_filled (buf (scache st)))]\<rparr>"
    obtain d ps' ix b where l: "dview ?ps a = Ok (ix, b)" "load_into_cache api a (?c, ?ps) = (Ok ?k, (d, ps'))"
        "page_loaded a b ?c d" "dinv ps'" "dview ps' = dview ?ps"
      using load_new_ok [OF o(1) 3(2) a o(5,2)] by blast
    have mo: "map_of (indices d) a = Some ?k" "cache_inv d" "locks d = (locks ?c)[?k := Exclusive]"
      using l(3) 3(2) by (simp_all add: page_loaded_def Let_def map_add_def)
    have "set_lock ?k Exclusive (set_lock ?k Unlocked d) = d" by (simp add: set_lock_def mo(3))
    then have "held ?t d"
      using held_lock [OF held_load [OF o(1) 3(2) l(3)], of a ?k] mo(1) 3(1) by simp
    moreover have "room_for dview A ps' d" using room_for_load [OF o(5) a l(3)] l(5) by (simp add: room_for_def)
    moreover have "map_of (tlocks ?t) a = Some ?k" using 3(1) by (simp add: map_add_def)
    ultimately have "writes_page dview dinv winv wsize A \<lparr>pm_page_address = a, pm_transaction_id = tid t, pm_guard = ?k\<rparr> a k
        (?t, st\<lparr>scache := d, sphys := ps'\<rparr>)"
      using o(3,4) l(4) wf by (simp add: writes_page_def trans_ok_def del: map_of_append)
    moreover have "seen dview (?t, st\<lparr>scache := d, sphys := ps'\<rparr>) = seen dview (t, st)"
      by (rule page_loaded_seen [OF 3(2) l(3) hd(1) l(1,5)]) simp_all
    moreover have "write_guard api a (?c, ?ps) = (Ok ?k, (d, ps'))" using write_guard_loads [OF 3(2), of api] l(2) by simp
    note get_page_mut_new [OF 3(1) this]
    ultimately show ?thesis by blast
  qed
qed

lemma reading_law:
  "page_reading (ta_read (storage_transaction_api api wapi) p) (reads_page dview dinv winv wsize A p a k) (\<lambda>ts. seen dview ts a)"
proof (unfold_locales, goal_cases)
  case (1 ts)
  then show ?case using cache_index(3) [of "scache (snd ts)" a]
    by (cases ts) (simp add: reads_page_def trans_ok_def held_def seen_def)
next
  case (2 ts off n)
  obtain t st where ts: "ts = (t, st)" by (cases ts)
  have i: "cache_inv (scache st)" "map_of (indices (scache st)) a = Some (guard_index p)"
    using 2(1) by (simp_all add: ts reads_page_def trans_ok_def held_def)
  have "guard_read (guard_index p) off n (scache st) = (Ok (slice off n (page_body (page_at (guard_index p) (scache st)))), scache st)"
    using cache_index(3) [OF i] 2(2) by (simp add: guard_read_def)
  then show ?case
    using i(2) by (cases p) (simp_all add: ts storage_transaction_api_def on_snd_def on_cache_def seen_def)
qed

lemma drop_law:
  assumes "reads_page dview dinv winv wsize A p a k ts"
  shows "trans_ok dview dinv winv wsize A k (ta_drop (storage_transaction_api api wapi) p ts)
    \<and> seen dview (ta_drop (storage_transaction_api api wapi) p ts) = seen dview ts"
  using assms by (cases ts) (auto simp: reads_page_def storage_transaction_api_def seen_def split: option.split)

lemma write_law:
  assumes w: "writes_page dview dinv winv wsize A m a (k + write_cost bs) (t, st)" and b: "off + length bs \<le> PAGE_BODY_SIZE"
  shows "\<exists>ts. on_snd (page_mut_write wapi m off bs) (t, st) = (Ok (), ts) \<and> writes_page dview dinv winv wsize A m a k ts
    \<and> seen dview ts = (seen dview (t, st))(a := patch off bs (seen dview (t, st) a))"
proof -
  let ?c = "scache st" and ?g = "pm_guard m"
  have o: "held t ?c" "dinv (sphys st)" "winv (swal st)" "wsize (swal st) + (k + write_cost bs) < 2 ^ 63" "room_for dview A (sphys st) ?c"
      "pm_page_address m = a" "wf_page_address a" "map_of (tlocks t) a = Some ?g"
    using w by (simp_all add: writes_page_def trans_ok_def)
  note hd = heldD [OF o(1)]
  note g = hd(2) [OF o(8)]
  note ix = cache_index [OF hd(1) g]
  define w16 where "w16 = (word_of_nat off :: u16)"
  have off: "off = unat w16" using b by (simp add: w16_def unat_of_nat page_body_size_value)
  let ?body = "page_body (page_at ?g ?c)"
  let ?rec = "write_record m w16 bs ?body"
  have "log_op_ok (OpWrite ?rec)" "log_op_len (OpWrite ?rec) = write_cost bs"
    using o(6,7) ix(3) b off by (simp_all add: write_record_def write_cost_def page_body_size_value)
  with wal_write_ok [OF o(3), of ?rec] o(4)
  obtain i w' where w': "wa_log_write wapi ?rec (swal st) = (Ok i, w')" "winv w'" "wsize w' = wsize (swal st) + write_cost bs"
    by (auto simp del: log_op_item.simps)
  let ?p = "written_page i w16 bs ?body"
  let ?st = "st\<lparr>swal := w', scache := set_page ?g ?p ?c\<rparr>"
  have run: "page_mut_write wapi m off bs st = (Ok (), ?st)"
    using page_mut_write_run [of m st w16 bs wapi "Ok i" w'] ix b w'(1) off by simp
  have pb: "page_body ?p = patch off bs ?body" by (simp add: written_page_def off)
  have "cache_inv (set_page ?g ?p ?c)" by (rule cache_inv_set_page [OF hd(1)]) (simp add: pb ix(3) b)
  then have "held t (set_page ?g ?p ?c)" by (rule held_cong [OF o(1)]) simp_all
  moreover have "room_for dview A (sphys st) (set_page ?g ?p ?c)" using o(5) by (simp add: room_for_def)
  ultimately have "writes_page dview dinv winv wsize A m a k (t, ?st)"
    using o(2,4,6-8) w'(2,3) by (simp add: writes_page_def trans_ok_def)
  moreover have "seen dview (t, ?st) = (seen dview (t, st))(a := patch off bs (seen dview (t, st) a))"
  proof (rule ext)
    fix x
    have ne: "j \<noteq> ?g" if "map_of (indices ?c) x = Some j" "x \<noteq> a" for j
      using that cache_index_inject [OF hd(1) g, of x] by auto
    have pg: "page_at j (set_page ?g ?p ?c) = (if j = ?g then ?p else page_at j ?c)" for j by (rule page_at_set_page [OF ix(2)])
    show "seen dview (t, ?st) x = ((seen dview (t, st))(a := patch off bs (seen dview (t, st) a))) x"
      using ne g by (cases "x = a") (auto simp: seen_def pg pb split: option.split)
  qed
  ultimately show ?thesis using run by (auto simp: on_snd_def)
qed

lemma writing_law:
  "page_writing (ta_read_mut (storage_transaction_api api wapi) m) (ta_write (storage_transaction_api api wapi) m) a
    (writes_page dview dinv winv wsize A m a) (seen dview)"
proof (unfold_locales, goal_cases)
  case (1 k ts)
  then show ?case using cache_index(3) [of "scache (snd ts)" a]
    by (cases ts) (auto simp: writes_page_def trans_ok_def held_def seen_def split: option.split)
next
  case (2 k ts off n)
  obtain t st where ts: "ts = (t, st)" by (cases ts)
  have i: "cache_inv (scache st)" "map_of (indices (scache st)) a = Some (pm_guard m)"
    using 2(1) by (auto simp: ts writes_page_def trans_ok_def held_def)
  then show ?case using cache_index(3) [OF i] 2(2)
    by (simp add: ts storage_transaction_api_def on_snd_def on_cache_def seen_def page_mut_read_def guard_read_def)
next
  case (3 k bs ts off)
  obtain t st where ts: "ts = (t, st)" by (cases ts)
  show ?case using write_law [OF 3(1) [unfolded ts] 3(2)] by (simp add: ts storage_transaction_api_def)
next
  case (4 k j ts)
  then show ?case by (cases ts) (simp add: writes_page_def trans_ok_def)
qed

end

interpretation salloc: transaction_pages "storage_transaction_api (physical_impl crc16) (wal_impl (wal_file_impl crc32))"
    "trans_ok (storage_view crc16) sound_storage (ready_wal crc32) (log_size (wal_file_impl crc32)) A" A "seen (storage_view crc16)"
    "reads_page (storage_view crc16) sound_storage (ready_wal crc32) (log_size (wal_file_impl crc32)) A"
    "writes_page (storage_view crc16) sound_storage (ready_wal crc32) (log_size (wal_file_impl crc32)) A"
proof (rule transaction_pages.intro, goal_cases)
  case (1 k ts a)
  then show ?case using tstore.get_page_law by (cases ts) (simp add: storage_transaction_api_def)
next
  case (2 p k a)
  show ?case by (rule tstore.reading_law)
next
  case (3 p a k ts)
  then show ?case by (rule tstore.drop_law)
next
  case (4 k ts a)
  then show ?case using tstore.get_page_mut_law by (cases ts) (simp add: storage_transaction_api_def)
next
  case (5 m a)
  show ?case by (rule tstore.writing_law)
next
  case (6 m a k ts)
  then show ?case by (cases ts) (simp add: writes_page_def)
next
  case (7 k j ts)
  then show ?case by (cases ts) (simp add: trans_ok_def)
qed

section \<open>The allocator of a storage\<close>

text \<open>A new storage with room in its cache for the pages \<open>A\<close>, and its first transaction.\<close>

lemma addresses_below:
  "finite {a. wf_page_address a \<and> address_index a < n}" "card {a. wf_page_address a \<and> address_index a < n} \<le> n"
proof -
  have i: "inj_on address_index {a. wf_page_address a \<and> address_index a < n}"
    by (rule inj_onI) (auto intro: address_index_inject)
  have s: "address_index ` {a. wf_page_address a \<and> address_index a < n} \<subseteq> {..<n}" by auto
  show "finite {a. wf_page_address a \<and> address_index a < n}" by (rule inj_on_finite [OF i s]) simp
  show "card {a. wf_page_address a \<and> address_index a < n} \<le> n" using card_inj_on_le [OF i s] by simp
qed

lemma new_transaction_ok:
  assumes "folder_ok d" and "folder_segments_ok d" and "0 < n" and "0 < m" and "BUFFERED_PAGE_SIZE * m \<le> cs"
    and "A = {a. wf_page_address a \<and> address_index a < m}"
    and "\<forall>a \<in> A. \<exists>ix b. storage_view crc16 (physical_storage_new d n) a = Ok (ix, b) \<and> length b = PAGE_BODY_SIZE"
    and "2 ^ 17 + k < 2 ^ 63"
  shows "\<exists>st t st1. page_storage_create crc32 n cs l g d = Ok st \<and> storage_transaction st = (Ok t, st1)
    \<and> trans_ok (storage_view crc16) sound_storage (ready_wal crc32) (log_size (wal_file_impl crc32)) A k (t, st1)
    \<and> (\<forall>a. seen (storage_view crc16) (t, st1) a
        = (case storage_view crc16 (physical_storage_new d n) a of Ok (_, b) \<Rightarrow> b | _ \<Rightarrow> []))"
proof -
  obtain w where w: "page_storage_create crc32 n cs l g d = Ok (page_storage_new (physical_storage_new d n) (page_cache_new cs l) w)"
      "ready_wal crc32 w" "log_size (wal_file_impl crc32) w = log_start + 40"
    using create_ok [OF assms(1)] by blast
  let ?st = "page_storage_new (physical_storage_new d n :: (database_folder, u32) physical_storage) (page_cache_new cs l) w"
  define st1 where "st1 = ?st\<lparr>enumerator := \<lparr>next_id = 1, num_transactions = 1\<rparr>\<rparr>"
  have tr: "storage_transaction ?st = (Ok (transaction_new 0), st1)"
    by (simp add: storage_transaction_def prog_simps page_storage_new_def enumerator_begin_def enumerator_new_def checked_add_def st1_def)
  have sf: "swal st1 = w" "sphys st1 = physical_storage_new d n" "scache st1 = page_cache_new cs l"
    by (simp_all add: page_storage_new_def st1_def)
  have cf: "indices (page_cache_new cs l) = []" "length (pages (buf (page_cache_new cs l))) = cs div BUFFERED_PAGE_SIZE"
    by (simp_all add: page_cache_new_def Let_def page_buffer_new_def)
  have b: "0 < BUFFERED_PAGE_SIZE" by (simp add: BUFFERED_PAGE_SIZE_def HEADER_SIZE_def)
  have "BUFFERED_PAGE_SIZE * 1 \<le> BUFFERED_PAGE_SIZE * m" by (rule mult_le_mono2) (use assms(4) in simp)
  then have cs: "BUFFERED_PAGE_SIZE \<le> cs" using assms(5) unfolding mult_1_right by (rule order_trans)
  have "m \<le> cs div BUFFERED_PAGE_SIZE" using assms(5) b by (simp add: less_eq_div_iff_mult_less_eq mult.commute)
  then have "card A \<le> cs div BUFFERED_PAGE_SIZE" using addresses_below(2) [of m] unfolding assms(6) by (rule order_trans [rotated])
  then have "room_for (storage_view crc16) A (physical_storage_new d n) (page_cache_new cs l)"
    using addresses_below(1) [of m] assms(6,7) by (simp add: room_for_def cf)
  moreover have "held (transaction_new 0) (page_cache_new cs l)"
    using cache_inv_new [OF cs] all_unlocked_nth [OF all_unlocked_new, of _ cs l]
    by (simp add: held_def cf transaction_new_def)
  moreover have "log_start + 40 + k < 2 ^ 63" using assms(8) log_start_less by simp
  ultimately have "trans_ok (storage_view crc16) sound_storage (ready_wal crc32) (log_size (wal_file_impl crc32)) A k (transaction_new 0, st1)"
    using sound_storage_new [OF assms(2,3)] w(2,3) by (simp add: trans_ok_def sf)
  then show ?thesis using w(1) tr by (intro exI [of _ ?st] exI [of _ "transaction_new 0"] exI [of _ st1]) (simp add: seen_def sf cf)
qed

text \<open>
  C6: The allocator of a storage is a stack of free pages. In a transaction on a new storage,
  initialising the allocator and then any sequence of allocations, frees of pages in use and
  writes to pages in use gives exactly the addresses that the abstract stack machine gives; no
  page is in use twice, none in use is free or the meta page, and all are valid addresses; and
  pages in use keep what their owners write: a page in use after the first part \<open>xs\<close> that the
  second part \<open>ys\<close> does not free holds its old contents with the owner's own writes applied,
  whatever else the allocator does.
\<close>

theorem allocator_refines_stack:
  fixes d :: database_folder
  assumes "folder_ok d" and "folder_segments_ok d" and "0 < n"
    and "spec_ops xs spec_new = Some (rs, s)" and "spec_ops ys s = Some (rs', s')"
    and "BUFFERED_PAGE_SIZE * address_index (next_new s') \<le> cs"
    and "\<forall>a. wf_page_address a \<and> address_index a < address_index (next_new s') \<longrightarrow>
      (\<exists>ix b. storage_view crc16 (physical_storage_new d n) a = Ok (ix, b) \<and> length b = PAGE_BODY_SIZE)"
    and "2 ^ 17 + 210 + sum_list (map op_cost (xs @ ys)) < 2 ^ 63"
    and "tapi = storage_transaction_api (physical_impl crc16) (wal_impl (wal_file_impl crc32))"
  shows "\<exists>st t st1 ts1 ts2 ts3. page_storage_create crc32 n cs l g d = Ok st \<and> storage_transaction st = (Ok t, st1)
    \<and> alloc_init tapi (t, st1) = (Ok (), ts1) \<and> run_ops tapi xs ts1 = (Ok rs, ts2) \<and> run_ops tapi ys ts2 = (Ok rs', ts3)
    \<and> distinct (in_use s') \<and> set (in_use s') \<inter> set (free_stack s') = {} \<and> META_PAGE_ADDRESS \<notin> set (in_use s')
    \<and> (\<forall>a \<in> set (in_use s'). wf_page_address a)
    \<and> (\<forall>a \<in> set (in_use s). DoFree a \<notin> set ys \<longrightarrow>
        seen (storage_view crc16) ts3 a = own_writes a ys (seen (storage_view crc16) ts2 a))"
proof -
  note i = spec_ops_inv [OF spec_inv_new assms(4)]
  note i' = spec_ops_inv [OF conjunct1 [OF i] assms(5)]
  let ?m = "address_index (next_new s')"
  let ?A = "{a. wf_page_address a \<and> address_index a < ?m}"
  let ?ok = "trans_ok (storage_view crc16) sound_storage (ready_wal crc32) (log_size (wal_file_impl crc32)) ?A"
  have m: "1 \<le> ?m" using i i' by (simp add: spec_new_def address_index_def)
  let ?k = "sum_list (map op_cost xs) + sum_list (map op_cost ys) + 210"
  have "2 ^ 17 + ?k < 2 ^ 63" using assms(8) by simp
  then obtain st t st1 where st: "page_storage_create crc32 n cs l g d = Ok st" "storage_transaction st = (Ok t, st1)" "?ok ?k (t, st1)"
    using new_transaction_ok [OF assms(1-3) _ assms(6) refl, of crc16 ?k crc32 l g] m assms(7) by auto
  have "address_index META_PAGE_ADDRESS = 0" "wf_page_address META_PAGE_ADDRESS"
    by (simp_all add: META_PAGE_ADDRESS_def wf_page_address_def address_index_def)
  then have M: "META_PAGE_ADDRESS \<in> ?A" using m by simp
  obtain ts1 where ts1: "alloc_init tapi (t, st1) = (Ok (), ts1)" "?ok (sum_list (map op_cost xs) + sum_list (map op_cost ys)) ts1"
      "alloc_state (seen (storage_view crc16) ts1) [] [] (PageAddress 0 2)"
    using salloc.init_ok [OF st(3) M] unfolding assms(9) by blast
  have ag: "agrees (seen (storage_view crc16) ts1) spec_new"
    using agreesI [of _ _ spec_new] ts1(3) spec_inv_new by (simp add: spec_new_def)
  have o2: "?ok (sum_list (map op_cost ys) + sum_list (map op_cost xs)) ts1" using ts1(2) by (simp add: add.commute)
  have sub: "{a. wf_page_address a \<and> address_index a < address_index (next_new s)} \<subseteq> ?A" using i' by auto
  obtain ts2 where ts2: "run_ops tapi xs ts1 = (Ok rs, ts2)" "?ok (sum_list (map op_cost ys)) ts2" "agrees (seen (storage_view crc16) ts2) s"
    using salloc.run_ops_ok [OF o2 ag assms(4) sub] unfolding assms(9) by blast
  have o3: "?ok (0 + sum_list (map op_cost ys)) ts2" using ts2(2) by simp
  obtain ts3 where ts3: "run_ops tapi ys ts2 = (Ok rs', ts3)"
      "\<forall>a \<in> set (in_use s). DoFree a \<notin> set ys \<longrightarrow> seen (storage_view crc16) ts3 a = own_writes a ys (seen (storage_view crc16) ts2 a)"
    using salloc.run_ops_ok [OF o3 ts2(3) assms(5) order_refl] unfolding assms(9) by blast
  have "distinct (in_use s')" "set (in_use s') \<inter> set (free_stack s') = {}" "META_PAGE_ADDRESS \<notin> set (in_use s')"
      "\<forall>a \<in> set (in_use s'). wf_page_address a"
    using spec_invD [OF conjunct1 [OF i']] by blast+
  then show ?thesis using st(1,2) ts1(1) ts2(1) ts3 by blast
qed

text \<open>
  Two pages; the second is freed and given out again while the first is written. Pages 2 and 3
  of segment 0 are the first two after the meta page.
\<close>

theorem allocator_refines_stack_witness:
  "\<exists>st t st1 ts1 ts2 ts3. page_storage_create (\<lambda>_. 0) 1 (BUFFERED_PAGE_SIZE * 3) 1 100 empty_folder = Ok st
    \<and> storage_transaction st = (Ok t, st1)
    \<and> alloc_init (storage_transaction_api (physical_impl (\<lambda>_. 0)) (wal_impl (wal_file_impl (\<lambda>_. 0)))) (t, st1) = (Ok (), ts1)
    \<and> run_ops (storage_transaction_api (physical_impl (\<lambda>_. 0)) (wal_impl (wal_file_impl (\<lambda>_. 0)))) [DoAlloc, DoAlloc] ts1
        = (Ok [Some (PageAddress 0 2), Some (PageAddress 0 3)], ts2)
    \<and> run_ops (storage_transaction_api (physical_impl (\<lambda>_. 0)) (wal_impl (wal_file_impl (\<lambda>_. 0))))
        [DoFree (PageAddress 0 3), DoWrite (PageAddress 0 2) 8 [1, 2], DoAlloc] ts2 = (Ok [None, None, Some (PageAddress 0 3)], ts3)
    \<and> seen (storage_view (\<lambda>_. 0)) ts3 (PageAddress 0 2) = patch 8 [1, 2] (seen (storage_view (\<lambda>_. 0)) ts2 (PageAddress 0 2))"
proof -
  let ?api = "storage_transaction_api (physical_impl (\<lambda>_. 0)) (wal_impl (wal_file_impl (\<lambda>_. 0)))"
  let ?xs = "[DoAlloc, DoAlloc]" and ?ys = "[DoFree (PageAddress 0 3), DoWrite (PageAddress 0 2) 8 [1, 2], DoAlloc]"
  let ?s = "\<lparr>free_stack = [], next_new = PageAddress 0 4, in_use = [PageAddress 0 3, PageAddress 0 2]\<rparr>"
  have a: "page_address_after (PageAddress 0 2) = Ok (PageAddress 0 3)" "page_address_after (PageAddress 0 3) = Ok (PageAddress 0 4)"
    by (simp_all add: page_address_after_def checked_add_def)
  have x: "spec_ops ?xs spec_new = Some ([Some (PageAddress 0 2), Some (PageAddress 0 3)], ?s)"
    by (simp add: spec_new_def a)
  have y: "spec_ops ?ys ?s = Some ([None, None, Some (PageAddress 0 3)], ?s)" by (simp add: page_body_size_value)
  have c: "BUFFERED_PAGE_SIZE * address_index (next_new ?s) \<le> BUFFERED_PAGE_SIZE * 3" by (simp add: address_index_def)
  have v: "\<forall>a. wf_page_address a \<and> address_index a < address_index (next_new ?s) \<longrightarrow>
      (\<exists>ix b. storage_view (\<lambda>_. 0) (physical_storage_new empty_folder 1) a = Ok (ix, b) \<and> length b = PAGE_BODY_SIZE)"
    by (simp add: storage_view_empty)
  have z: "2 ^ 17 + 210 + sum_list (map op_cost (?xs @ ?ys)) < 2 ^ 63" by (simp add: write_cost_def)
  have o: "own_writes (PageAddress 0 2) ?ys b = patch 8 [1, 2] b" for b by simp
  have u: "PageAddress 0 2 \<in> set (in_use ?s)" "DoFree (PageAddress 0 2) \<notin> set ?ys" by simp_all
  from allocator_refines_stack [OF empty_folder_ok empty_segments_ok zero_less_one x y c v z refl, of "\<lambda>_. 0" 1 100]
  show ?thesis using u unfolding o [symmetric] by blast
qed

end
