(* ===== verification/DocRecords.thy ===== *)
theory DocRecords
  imports DocContents
begin

text \<open>
  Record pages, and what the bounds checks of the array sections do: a full page of the free list,
  and accesses beyond the end of a page.
\<close>

section \<open>Beyond the end of a page\<close>

lemma read_array_beyond:
  "PAGE_BODY_SIZE < base + n * i + n \<Longrightarrow> read_array_section rd base n dec i s = (Err PageOutOfBounds, s)"
  by (simp add: read_array_section_def throw_run)

lemma write_array_beyond:
  "PAGE_BODY_SIZE < base + n * i + n \<Longrightarrow> write_array_section wr base n i bs s = (Ok (), s)"
  by (simp add: write_array_section_def ret_run)

context page_writing begin

text \<open>
  A push onto a full page reports success without storing the item, and then the page cannot be
  popped any more.
\<close>

lemma push_full_ok:
  assumes ok: "ok (k + 70) s" and full: "fl_length (view s a) = FREELIST_SLOTS"
  shows "\<exists>s'. push_item rd wr v s = (Ok (), s') \<and> ok k s' \<and> fl_length (view s' a) = Suc FREELIST_SLOTS
    \<and> fl_upto (view s' a) FREELIST_SLOTS = fl_upto (view s a) FREELIST_SLOTS
    \<and> pop_item rd wr s' = (Err PageOutOfBounds, s')"
proof -
  have n: "FREELIST_SLOTS + 1 < 2 ^ 16" by (simp add: freelist_slots_value)
  obtain s1 where s1: "set_length wr (FREELIST_SLOTS + 1) s = (Ok (), s1)" "ok k s1"
      "view s1 = (view s)(a := patch 7 (enc_u16 (word_of_nat (FREELIST_SLOTS + 1))) (view s a))"
    using set_length_ok [OF ok n] by blast
  have st: "set_item wr FREELIST_SLOTS (Some v) s = (Ok (), s)" by (rule set_item_out_of_bounds) simp
  have "push_item rd wr v s = (Ok (), s1)"
    using s1(1) by (simp add: push_item_def bindp_def get_length_ok [OF ok] full st)
  moreover have "unat (word_of_nat (FREELIST_SLOTS + 1) :: u16) = Suc FREELIST_SLOTS"
    by (simp add: freelist_slots_value)
  then have l: "fl_length (view s1 a) = Suc FREELIST_SLOTS" "fl_upto (view s1 a) FREELIST_SLOTS = fl_upto (view s a) FREELIST_SLOTS"
    using set_length_fields(1,4) [OF view_length [OF ok], where w = "word_of_nat (FREELIST_SLOTS + 1)"] by (simp_all add: s1(3))
  moreover have "pop_item rd wr s1 = (Err PageOutOfBounds, s1)"
    by (simp add: pop_item_def bindp_def get_length_ok [OF s1(2)] l(1) get_item_ok [OF s1(2)])
  ultimately show ?thesis using s1(2) by blast
qed

end

section \<open>Records\<close>

definition rec_length :: "byte list \<Rightarrow> nat" where
  "rec_length b = unat (dec_u16 (slice 1 2 b))"

definition num_recs :: "byte list \<Rightarrow> nat" where
  "num_recs b = unat (dec_u16 (slice 3 2 b))"

definition rec_offset :: "byte list \<Rightarrow> nat \<Rightarrow> nat" where
  "rec_offset b i = unat (dec_u16 (slice (5 + 2 * i) 2 b))"

text \<open>A well-formed record page: the records lie behind the table of offsets, inside the page.\<close>

definition records_ok :: "byte list \<Rightarrow> bool" where
  "records_ok b \<longleftrightarrow> length b = PAGE_BODY_SIZE
     \<and> (\<forall>i < num_recs b. 5 + 2 * num_recs b \<le> rec_offset b i \<and> rec_offset b i + rec_length b \<le> PAGE_BODY_SIZE)"

context page_reading begin

lemma get_record_length_ok: "ok s \<Longrightarrow> get_record_length rd s = (Ok (rec_length (body s)), s)"
  by (simp add: get_record_length_def read_section_ok [unfolded One_nat_def] page_body_size_value rec_length_def)

lemma get_num_records_ok: "ok s \<Longrightarrow> get_num_records rd s = (Ok (num_recs (body s)), s)"
  by (simp add: get_num_records_def read_section_ok page_body_size_value num_recs_def)

lemma get_offset_at_ok:
  assumes "ok s"
  shows "get_offset_at rd i s = (if num_recs (body s) \<le> i then Err InvalidRecordIndex
    else if PAGE_BODY_SIZE < 5 + 2 * i + 2 then Err PageOutOfBounds else Ok (rec_offset (body s) i), s)"
  using assms by (simp add: get_offset_at_def bindp_def get_num_records_ok read_array_section_def throw_run
      read_section_ok rec_offset_def)

lemma get_record_ok:
  assumes "ok s" and "records_ok (body s)" and "i < num_recs (body s)" and "rec_length (body s) \<le> length buf"
  shows "get_record rd i buf s
    = (Ok (slice (rec_offset (body s) i) (rec_length (body s)) (body s) @ drop (rec_length (body s)) buf), s)"
proof -
  have o: "5 + 2 * num_recs (body s) \<le> rec_offset (body s) i" "rec_offset (body s) i + rec_length (body s) \<le> PAGE_BODY_SIZE"
    using assms(2,3) by (auto simp: records_ok_def)
  then have g: "get_offset_at rd i s = (Ok (rec_offset (body s) i), s)"
    using get_offset_at_ok [OF assms(1), of i] assms(3) by simp
  have r: "from_storage (rd (rec_offset (body s) i) (rec_length (body s))) s
      = (Ok (slice (rec_offset (body s) i) (rec_length (body s)) (body s)), s)"
    by (rule from_storage_Ok) (rule read_ok [OF assms(1) o(2)])
  show ?thesis
    using o assms(4) by (simp add: get_record_def bindp_def get_record_length_ok [OF assms(1)] g r ret_run)
qed

end

text \<open>Writing a record leaves the tables and the other records.\<close>

lemma record_patch:
  assumes "records_ok b" and "i < num_recs b" and "length bs = rec_length b"
  shows "records_ok (patch (rec_offset b i) bs b)" "num_recs (patch (rec_offset b i) bs b) = num_recs b"
    "rec_length (patch (rec_offset b i) bs b) = rec_length b"
    "j < num_recs b \<Longrightarrow> rec_offset (patch (rec_offset b i) bs b) j = rec_offset b j"
proof -
  have o: "5 + 2 * num_recs b \<le> rec_offset b i" "rec_offset b i + length bs \<le> length b" "length b = PAGE_BODY_SIZE"
    using assms by (auto simp: records_ok_def)
  have s: "slice o2 m (patch (rec_offset b i) bs b) = slice o2 m b" if "o2 + m \<le> rec_offset b i" for o2 m
    by (rule slice_patch_other [OF o(2)]) (use that o(2) in auto)
  show n: "num_recs (patch (rec_offset b i) bs b) = num_recs b" and l: "rec_length (patch (rec_offset b i) bs b) = rec_length b"
    using o(1) by (simp_all add: num_recs_def rec_length_def s [unfolded One_nat_def] s)
  show f: "rec_offset (patch (rec_offset b i) bs b) j = rec_offset b j" if "j < num_recs b" for j
    using o(1) that by (simp add: rec_offset_def [of "patch x y z" for x y z] s) (simp add: rec_offset_def)
  show "records_ok (patch (rec_offset b i) bs b)"
    using assms(1) o(2,3) f by (simp add: records_ok_def n l)
qed

context page_writing begin

lemma set_record_ok:
  assumes ok: "ok (k + write_cost (take (rec_length (view s a)) buf)) s" and r: "records_ok (view s a)"
    and i: "i < num_recs (view s a)" and l: "rec_length (view s a) \<le> length buf"
  shows "\<exists>s'. set_record rd wr i buf s = (Ok (), s') \<and> ok k s'
    \<and> view s' = (view s)(a := patch (rec_offset (view s a) i) (take (rec_length (view s a)) buf) (view s a))"
proof -
  let ?b = "view s a"
  have o: "5 + 2 * num_recs ?b \<le> rec_offset ?b i" "rec_offset ?b i + rec_length ?b \<le> PAGE_BODY_SIZE"
    using r i by (auto simp: records_ok_def)
  then have g: "get_offset_at rd i s = (Ok (rec_offset ?b i), s)"
    using get_offset_at_ok [OF ok, of i] i by simp
  have t: "rec_offset ?b i + length (take (rec_length ?b) buf) \<le> PAGE_BODY_SIZE" using o(2) l by simp
  obtain s' where s': "wr (rec_offset ?b i) (take (rec_length ?b) buf) s = (Ok (), s')" "ok k s'"
      "view s' = (view s)(a := patch (rec_offset ?b i) (take (rec_length ?b) buf) ?b)"
    using write_ok [OF ok t] by blast
  have "set_record rd wr i buf s = (Ok (), s')"
    using o l by (simp add: set_record_def bindp_def get_record_length_ok [OF ok] g from_storage_Ok [where m = "wr x y" for x y, OF s'(1)])
  then show ?thesis using s'(2,3) by blast
qed

text \<open>What was set is read back, and records elsewhere in the page are as before.\<close>

lemma record_roundtrip:
  assumes ok: "ok (k + write_cost (take (rec_length (view s a)) buf)) s" and r: "records_ok (view s a)"
    and i: "i < num_recs (view s a)" and l: "rec_length (view s a) \<le> length buf" "length buf2 = length buf"
  shows "\<exists>s'. set_record rd wr i buf s = (Ok (), s')
    \<and> get_record rd i buf2 s' = (Ok (take (rec_length (view s a)) buf @ drop (rec_length (view s a)) buf2), s')
    \<and> (\<forall>j < num_recs (view s a). rec_offset (view s a) j + rec_length (view s a) \<le> rec_offset (view s a) i
        \<or> rec_offset (view s a) i + rec_length (view s a) \<le> rec_offset (view s a) j \<longrightarrow>
        fst (get_record rd j buf2 s') = fst (get_record rd j buf2 s))"
proof -
  let ?b = "view s a" and ?n = "rec_length (view s a)"
  let ?bs = "take ?n buf"
  obtain s' where s': "set_record rd wr i buf s = (Ok (), s')" "ok k s'" "view s' = (view s)(a := patch (rec_offset ?b i) ?bs ?b)"
    using set_record_ok [OF ok r i l(1)] by blast
  have bs: "length ?bs = ?n" using l(1) by simp
  have o: "rec_offset ?b i + length ?bs \<le> length ?b" using r i l(1) by (simp add: records_ok_def)
  note p = record_patch [OF r i bs]
  have v: "view s' a = patch (rec_offset ?b i) ?bs ?b" by (simp add: s'(3))
  have g: "get_record rd j buf2 s' = (Ok (slice (rec_offset ?b j) ?n (patch (rec_offset ?b i) ?bs ?b) @ drop ?n buf2), s')"
    if "j < num_recs ?b" for j
    using get_record_ok [OF s'(2), unfolded v, OF p(1), of j buf2] l that by (simp add: p)
  have h: "get_record rd j buf2 s = (Ok (slice (rec_offset ?b j) ?n ?b @ drop ?n buf2), s)" if "j < num_recs ?b" for j
    using get_record_ok [OF ok r that, of buf2] l by simp
  have "slice (rec_offset ?b i) ?n (patch (rec_offset ?b i) ?bs ?b) = ?bs"
    using slice_patch_same [OF o] bs by simp
  moreover have "slice (rec_offset ?b j) ?n (patch (rec_offset ?b i) ?bs ?b) = slice (rec_offset ?b j) ?n ?b"
    if "j < num_recs ?b" "rec_offset ?b j + ?n \<le> rec_offset ?b i \<or> rec_offset ?b i + ?n \<le> rec_offset ?b j" for j
    by (rule slice_patch_other [OF o]) (use r that bs in \<open>auto simp: records_ok_def\<close>)
  ultimately show ?thesis using s'(1) g [OF i] g h by (intro exI [of _ s']) simp
qed

end

end
