(* ===== verification/AllocTheorems.thy ===== *)
theory AllocTheorems
  imports AllocStore DocRecords
begin

text \<open>
  What the page formats and the allocator guarantee on the pages of a transaction of the page
  storage, and where they do not.
\<close>

text \<open>The methods of a page that a transaction gives for writing.\<close>

abbreviation pm_read :: "page_mut \<Rightarrow> (transaction \<times> ((database_folder, wal_file) wal, (database_folder, u32) physical_storage) page_storage) read_page" where
  "pm_read m \<equiv> (\<lambda>off n. on_snd (page_mut_read m off n))"

abbreviation pm_write :: "(byte list \<Rightarrow> u32) \<Rightarrow> page_mut
    \<Rightarrow> (transaction \<times> ((database_folder, wal_file) wal, (database_folder, u32) physical_storage) page_storage) write_page" where
  "pm_write crc m \<equiv> (\<lambda>off bs. on_snd (page_mut_write (wal_impl (wal_file_impl crc)) m off bs))"

abbreviation page_held :: "(byte list \<Rightarrow> u16) \<Rightarrow> (byte list \<Rightarrow> u32) \<Rightarrow> page_address set \<Rightarrow> page_mut \<Rightarrow> page_address \<Rightarrow> nat
    \<Rightarrow> transaction \<times> ((database_folder, wal_file) wal, (database_folder, u32) physical_storage) page_storage \<Rightarrow> bool" where
  "page_held crc16 crc32 \<equiv> writes_page (storage_view crc16) sound_storage (ready_wal crc32) (log_size (wal_file_impl crc32))"

lemma page_held_writing: "page_writing (pm_read m) (pm_write crc32 m) a (page_held crc16 crc32 A m a) (seen (storage_view crc16))"
  using tstore.writing_law [of crc16 crc32 m a A] by (simp add: storage_transaction_api_def)

lemma page_held_reading: "page_reading (pm_read m) (page_held crc16 crc32 A m a k) (\<lambda>ts. seen (storage_view crc16) ts a)"
  by (rule page_reading.intro) (rule page_writing.view_length [OF page_held_writing], assumption,
    rule page_writing.view_read [OF page_held_writing], assumption+)

text \<open>A new storage, its first transaction, and page 2 of segment 0 as a page of a free list.\<close>

lemma fresh_page:
  fixes crc16 :: "byte list \<Rightarrow> u16" and crc32 :: "byte list \<Rightarrow> u32"
  assumes "k < 2 ^ 62"
  shows "\<exists>st t st1 m ts. page_storage_create crc32 1 (BUFFERED_PAGE_SIZE * 2) 1 100 empty_folder = Ok st
    \<and> storage_transaction st = (Ok t, st1) \<and> transaction_get_page_mut (physical_impl crc16) (PageAddress 0 2) (t, st1) = (Ok m, ts)
    \<and> page_held crc16 crc32 {PageAddress 0 1, PageAddress 0 2} m (PageAddress 0 2) k ts
    \<and> seen (storage_view crc16) ts (PageAddress 0 2) = replicate PAGE_BODY_SIZE 0"
proof -
  have "address_index a < 2 \<and> wf_page_address a \<longleftrightarrow> a = PageAddress 0 1 \<or> a = PageAddress 0 2" for a
  proof
    assume a: "address_index a < 2 \<and> wf_page_address a"
    have "address_index (PageAddress 0 1) = 0" "address_index (PageAddress 0 2) = 1"
        "wf_page_address (PageAddress 0 1)" "wf_page_address (PageAddress 0 2)"
      by (simp_all add: address_index_def wf_page_address_def)
    moreover have "address_index a = 0 \<or> address_index a = 1" using a by auto
    ultimately show "a = PageAddress 0 1 \<or> a = PageAddress 0 2" using a address_index_inject by metis
  qed (auto simp: address_index_def wf_page_address_def)
  then have A: "{PageAddress 0 1, PageAddress 0 2} = {a. wf_page_address a \<and> address_index a < 2}" by auto
  let ?ok = "trans_ok (storage_view crc16) sound_storage (ready_wal crc32) (log_size (wal_file_impl crc32)) {PageAddress 0 1, PageAddress 0 2}"
  have k: "2 ^ 17 + k < 2 ^ 63" using assms by simp
  have v: "\<forall>a \<in> {PageAddress 0 1, PageAddress 0 2}. \<exists>ix b. storage_view crc16 (physical_storage_new empty_folder 1) a = Ok (ix, b)
      \<and> length b = PAGE_BODY_SIZE"
    by (simp add: storage_view_empty)
  obtain st t st1 where st: "page_storage_create crc32 1 (BUFFERED_PAGE_SIZE * 2) 1 100 empty_folder = Ok st"
      "storage_transaction st = (Ok t, st1)" "?ok k (t, st1)"
      "seen (storage_view crc16) (t, st1) (PageAddress 0 2) = replicate PAGE_BODY_SIZE 0"
    using new_transaction_ok [OF empty_folder_ok empty_segments_ok _ _ _ A v k, of "BUFFERED_PAGE_SIZE * 2" crc32 1 100]
    by (auto simp: storage_view_empty)
  show ?thesis using tstore.get_page_mut_law [OF st(3), of "PageAddress 0 2"] st(1,2,4) by auto
qed

section \<open>Pages of the free list\<close>

text \<open>
  C20: A page of the free list is a stack. On a page that a transaction holds for writing, whose length field is
  within the number of slots, while the log has room for the records: if the page is not full, what is pushed is
  popped next and leaves the items and the link as they were (a push onto a full page breaks it, see
  \<open>push_to_full_page_breaks_it\<close>); whether it is full or not, popping passes over empty items
  and gives the last item that is not empty, or none, in which case nothing changes; no other
  page changes.
\<close>

theorem freelist_page_is_stack:
  assumes "page_held crc16 crc32 A m a (k + 210) ts" and "b = seen (storage_view crc16) ts a"
    and "fl_length b \<le> FREELIST_SLOTS" and "wf_page_address v"
  shows "(fl_length b < FREELIST_SLOTS \<longrightarrow> (\<exists>ts1 ts2. push_item (pm_read m) (pm_write crc32 m) v ts = (Ok (), ts1)
      \<and> pop_item (pm_read m) (pm_write crc32 m) ts1 = (Ok (Some v), ts2)
      \<and> fl_items (seen (storage_view crc16) ts2 a) = fl_items b \<and> head_of (seen (storage_view crc16) ts2 a) = head_of b
      \<and> (\<forall>c. c \<noteq> a \<longrightarrow> seen (storage_view crc16) ts2 c = seen (storage_view crc16) ts c)))
    \<and> (if fl_items b = [] then pop_item (pm_read m) (pm_write crc32 m) ts = (Ok None, ts)
       else \<exists>ts'. pop_item (pm_read m) (pm_write crc32 m) ts = (Ok (Some (last (fl_items b))), ts')
         \<and> fl_items (seen (storage_view crc16) ts' a) = butlast (fl_items b)
         \<and> (\<forall>c. c \<noteq> a \<longrightarrow> seen (storage_view crc16) ts' c = seen (storage_view crc16) ts c))"
proof (intro conjI impI)
  note w = page_held_writing [of m crc32 a crc16 A]
  have ok: "page_held crc16 crc32 A m a (k + 70 + 140) ts" using assms(1) by (simp add: add.assoc)
  {
    assume "fl_length b < FREELIST_SLOTS"
    then obtain ts1 c where p1: "push_item (pm_read m) (pm_write crc32 m) v ts = (Ok (), ts1)" "page_held crc16 crc32 A m a (k + 70) ts1"
        "seen (storage_view crc16) ts1 = (seen (storage_view crc16) ts)(a := c)" "head_of c = head_of b"
        "fl_length c = Suc (fl_length b)" "fl_items c = fl_items b @ [v]"
      using page_writing.push_item_ok [OF w ok _ assms(4)] unfolding assms(2) by blast
    have v: "seen (storage_view crc16) ts1 a = c" using p1(3) by simp
    have "fl_length c \<le> FREELIST_SLOTS" "fl_items c \<noteq> []" using \<open>fl_length b < FREELIST_SLOTS\<close> p1(5,6) by simp_all
    with page_writing.pop_item_ok [OF w p1(2), unfolded v]
    obtain ts2 e where p2: "pop_item (pm_read m) (pm_write crc32 m) ts1 = (Ok (Some (last (fl_items c))), ts2)"
        "seen (storage_view crc16) ts2 = (seen (storage_view crc16) ts1)(a := e)" "head_of e = head_of c" "fl_items e = butlast (fl_items c)"
      by auto
    show "\<exists>ts1 ts2. push_item (pm_read m) (pm_write crc32 m) v ts = (Ok (), ts1)
      \<and> pop_item (pm_read m) (pm_write crc32 m) ts1 = (Ok (Some v), ts2)
      \<and> fl_items (seen (storage_view crc16) ts2 a) = fl_items b \<and> head_of (seen (storage_view crc16) ts2 a) = head_of b
      \<and> (\<forall>c. c \<noteq> a \<longrightarrow> seen (storage_view crc16) ts2 c = seen (storage_view crc16) ts c)"
      using p1(1,3,4,6) p2 by (intro exI [of _ ts1] exI [of _ ts2]) simp
  }
  have "page_held crc16 crc32 A m a (k + 70) ts" by (rule page_writing.ok_le [OF w ok]) simp
  from page_writing.pop_item_ok [OF w this, folded assms(2), OF assms(3)]
  show "if fl_items b = [] then pop_item (pm_read m) (pm_write crc32 m) ts = (Ok None, ts)
       else \<exists>ts'. pop_item (pm_read m) (pm_write crc32 m) ts = (Ok (Some (last (fl_items b))), ts')
         \<and> fl_items (seen (storage_view crc16) ts' a) = butlast (fl_items b)
         \<and> (\<forall>c. c \<noteq> a \<longrightarrow> seen (storage_view crc16) ts' c = seen (storage_view crc16) ts c)"
    by (cases "fl_items b = []") auto
qed

lemma fresh_freelist_page:
  fixes crc16 :: "byte list \<Rightarrow> u16" and crc32 :: "byte list \<Rightarrow> u32"
  assumes "k < 2 ^ 60"
  shows "\<exists>st t st1 m ts0 ts. page_storage_create crc32 1 (BUFFERED_PAGE_SIZE * 2) 1 100 empty_folder = Ok st
    \<and> storage_transaction st = (Ok t, st1) \<and> transaction_get_page_mut (physical_impl crc16) (PageAddress 0 2) (t, st1) = (Ok m, ts0)
    \<and> freelist_init (pm_write crc32 m) ts0 = (Ok (), ts)
    \<and> page_held crc16 crc32 {PageAddress 0 1, PageAddress 0 2} m (PageAddress 0 2) k ts
    \<and> fl_length (seen (storage_view crc16) ts (PageAddress 0 2)) = 0"
proof -
  have "k + 210 < 2 ^ 62" using assms by simp
  from fresh_page [OF this, of crc32 crc16]
  obtain st t st1 m ts where st: "page_storage_create crc32 1 (BUFFERED_PAGE_SIZE * 2) 1 100 empty_folder = Ok st"
    "storage_transaction st = (Ok t, st1)" "transaction_get_page_mut (physical_impl crc16) (PageAddress 0 2) (t, st1) = (Ok m, ts)"
    "page_held crc16 crc32 {PageAddress 0 1, PageAddress 0 2} m (PageAddress 0 2) (k + 210) ts"
    by blast
  from page_writing.freelist_init_ok [OF page_held_writing st(4)] show ?thesis using st(1-3) by fastforce
qed

theorem freelist_page_is_stack_witness:
  "\<exists>st t st1 m ts0 ts ts1 ts2. page_storage_create (\<lambda>_. 0) 1 (BUFFERED_PAGE_SIZE * 2) 1 100 empty_folder = Ok st
    \<and> storage_transaction st = (Ok t, st1) \<and> transaction_get_page_mut (physical_impl (\<lambda>_. 0)) (PageAddress 0 2) (t, st1) = (Ok m, ts0)
    \<and> freelist_init (pm_write (\<lambda>_. 0) m) ts0 = (Ok (), ts)
    \<and> push_item (pm_read m) (pm_write (\<lambda>_. 0) m) (PageAddress 6 7) ts = (Ok (), ts1)
    \<and> pop_item (pm_read m) (pm_write (\<lambda>_. 0) m) ts1 = (Ok (Some (PageAddress 6 7)), ts2)"
proof -
  have "(0 + 210 :: nat) < 2 ^ 60" by simp
  from fresh_freelist_page [OF this, of "\<lambda>_. 0" "\<lambda>_. 0"]
  obtain st t st1 m ts0 ts where st: "page_storage_create (\<lambda>_. 0) 1 (BUFFERED_PAGE_SIZE * 2) 1 100 empty_folder = Ok st"
    "storage_transaction st = (Ok t, st1)" "transaction_get_page_mut (physical_impl (\<lambda>_. 0)) (PageAddress 0 2) (t, st1) = (Ok m, ts0)"
    "freelist_init (pm_write (\<lambda>_. 0) m) ts0 = (Ok (), ts)"
    "page_held (\<lambda>_. 0) (\<lambda>_. 0) {PageAddress 0 1, PageAddress 0 2} m (PageAddress 0 2) (0 + 210) ts"
    "fl_length (seen (storage_view (\<lambda>_. 0)) ts (PageAddress 0 2)) = 0"
    by blast
  have l: "fl_length (seen (storage_view (\<lambda>_. 0)) ts (PageAddress 0 2)) \<le> FREELIST_SLOTS"
      "fl_length (seen (storage_view (\<lambda>_. 0)) ts (PageAddress 0 2)) < FREELIST_SLOTS"
    by (simp_all add: st(6) freelist_slots_value)
  have w: "wf_page_address (PageAddress 6 7)" by (simp add: wf_page_address_def)
  show ?thesis using freelist_page_is_stack [OF st(5) refl l(1) w] l(2) st(1-4) by blast
qed

text \<open>
  A push onto a full page of the free list is lost and breaks the page. \<open>push_item\<close> reports
  success, but the bounds check of the array write drops the item silently while the length goes
  up; from then on \<open>pop_item\<close> fails with \<open>PageOutOfBounds\<close> and changes nothing, so none of the
  5456 items in the page can be popped. (The allocator tests \<open>is_full\<close> first.)
\<close>

theorem push_to_full_page_breaks_it:
  assumes "page_held crc16 crc32 A m a (k + 70) ts" and "fl_length (seen (storage_view crc16) ts a) = FREELIST_SLOTS"
  shows "\<exists>ts'. push_item (pm_read m) (pm_write crc32 m) v ts = (Ok (), ts')
    \<and> fl_length (seen (storage_view crc16) ts' a) = Suc FREELIST_SLOTS
    \<and> fl_upto (seen (storage_view crc16) ts' a) FREELIST_SLOTS = fl_items (seen (storage_view crc16) ts a)
    \<and> pop_item (pm_read m) (pm_write crc32 m) ts' = (Err PageOutOfBounds, ts')
    \<and> is_full (pm_read m) ts = (Ok True, ts)"
proof -
  note w = page_held_writing [of m crc32 a crc16 A]
  have "is_full (pm_read m) ts = (Ok True, ts)" using page_reading.is_full_ok [OF page_held_reading assms(1)] assms(2) by simp
  then show ?thesis using page_writing.push_full_ok [OF w assms, of v] assms(2) by (auto simp: fl_items_def)
qed

theorem push_to_full_page_breaks_it_witness:
  "\<exists>st t st1 m ts0 ts ts1 ts2. page_storage_create (\<lambda>_. 0) 1 (BUFFERED_PAGE_SIZE * 2) 1 100 empty_folder = Ok st
    \<and> storage_transaction st = (Ok t, st1) \<and> transaction_get_page_mut (physical_impl (\<lambda>_. 0)) (PageAddress 0 2) (t, st1) = (Ok m, ts0)
    \<and> freelist_init (pm_write (\<lambda>_. 0) m) ts0 = (Ok (), ts) \<and> set_length (pm_write (\<lambda>_. 0) m) 5456 ts = (Ok (), ts1)
    \<and> push_item (pm_read m) (pm_write (\<lambda>_. 0) m) (PageAddress 6 7) ts1 = (Ok (), ts2)
    \<and> pop_item (pm_read m) (pm_write (\<lambda>_. 0) m) ts2 = (Err PageOutOfBounds, ts2)"
proof -
  have "(0 + 70 + 70 :: nat) < 2 ^ 60" by simp
  from fresh_freelist_page [OF this, of "\<lambda>_. 0" "\<lambda>_. 0"]
  obtain st t st1 m ts0 ts where st: "page_storage_create (\<lambda>_. 0) 1 (BUFFERED_PAGE_SIZE * 2) 1 100 empty_folder = Ok st"
    "storage_transaction st = (Ok t, st1)" "transaction_get_page_mut (physical_impl (\<lambda>_. 0)) (PageAddress 0 2) (t, st1) = (Ok m, ts0)"
    "freelist_init (pm_write (\<lambda>_. 0) m) ts0 = (Ok (), ts)"
    "page_held (\<lambda>_. 0) (\<lambda>_. 0) {PageAddress 0 1, PageAddress 0 2} m (PageAddress 0 2) (0 + 70 + 70) ts"
    by blast
  note w = page_held_writing [of m "\<lambda>_. 0" "PageAddress 0 2" "\<lambda>_. 0" "{PageAddress 0 1, PageAddress 0 2}"]
  obtain ts1 where ts1: "set_length (pm_write (\<lambda>_. 0) m) 5456 ts = (Ok (), ts1)"
      "page_held (\<lambda>_. 0) (\<lambda>_. 0) {PageAddress 0 1, PageAddress 0 2} m (PageAddress 0 2) (0 + 70) ts1"
      "seen (storage_view (\<lambda>_. 0)) ts1 = (seen (storage_view (\<lambda>_. 0)) ts)(PageAddress 0 2
        := patch 7 (enc_u16 (word_of_nat 5456)) (seen (storage_view (\<lambda>_. 0)) ts (PageAddress 0 2)))"
    using page_writing.set_length_ok [OF w st(5), of 5456] by auto
  have "fl_length (seen (storage_view (\<lambda>_. 0)) ts1 (PageAddress 0 2)) = FREELIST_SLOTS"
    using set_length_fields(1) [OF page_writing.view_length [OF w st(5)], where w = "word_of_nat 5456"]
    by (simp add: ts1(3) freelist_slots_value)
  from push_to_full_page_breaks_it [OF ts1(2) this, of "PageAddress 6 7"] show ?thesis using st(1-4) ts1(1) by blast
qed

section \<open>Records\<close>

text \<open>
  C21: A record is read back as it was set. On a record page that a transaction holds, whose
  records lie behind its table of offsets and inside the page, \<open>set_record\<close> stores the first
  bytes of the buffer up to the record length, \<open>get_record\<close> then gives them (and leaves the rest
  of the caller's buffer), and records elsewhere in the page read as before; an index beyond the
  number of records is \<open>InvalidRecordIndex\<close> for both, and nothing is written.
\<close>

theorem record_set_then_get:
  assumes "page_held crc16 crc32 A m a (k + write_cost (take (rec_length b) bs)) ts" and "b = seen (storage_view crc16) ts a"
    and "records_ok b" and "rec_length b \<le> length bs" and "length cs = length bs"
  shows "(i < num_recs b \<longrightarrow> (\<exists>ts'. set_record (pm_read m) (pm_write crc32 m) i bs ts = (Ok (), ts')
      \<and> get_record (pm_read m) i cs ts' = (Ok (take (rec_length b) bs @ drop (rec_length b) cs), ts')
      \<and> (\<forall>j < num_recs b. rec_offset b j + rec_length b \<le> rec_offset b i \<or> rec_offset b i + rec_length b \<le> rec_offset b j \<longrightarrow>
          fst (get_record (pm_read m) j cs ts') = fst (get_record (pm_read m) j cs ts))))
    \<and> (num_recs b \<le> i \<longrightarrow> set_record (pm_read m) (pm_write crc32 m) i bs ts = (Err InvalidRecordIndex, ts)
      \<and> get_record (pm_read m) i bs ts = (Err InvalidRecordIndex, ts))"
proof (intro conjI impI)
  note w = page_held_writing [of m crc32 a crc16 A] and r = page_held_reading [of m crc16 crc32 A a]
  {
    assume "i < num_recs b"
    from page_writing.record_roundtrip [OF w assms(1) [unfolded assms(2)] assms(3) [unfolded assms(2)]
        this [unfolded assms(2)] assms(4) [unfolded assms(2)] assms(5), folded assms(2)]
    show "\<exists>ts'. set_record (pm_read m) (pm_write crc32 m) i bs ts = (Ok (), ts')
      \<and> get_record (pm_read m) i cs ts' = (Ok (take (rec_length b) bs @ drop (rec_length b) cs), ts')
      \<and> (\<forall>j < num_recs b. rec_offset b j + rec_length b \<le> rec_offset b i \<or> rec_offset b i + rec_length b \<le> rec_offset b j \<longrightarrow>
          fst (get_record (pm_read m) j cs ts') = fst (get_record (pm_read m) j cs ts))" .
  next
    assume "num_recs b \<le> i"
    then have "get_offset_at (pm_read m) i ts = (Err InvalidRecordIndex, ts)"
      using page_reading.get_offset_at_ok [OF r assms(1), of i] assms(2) by simp
    then show "set_record (pm_read m) (pm_write crc32 m) i bs ts = (Err InvalidRecordIndex, ts)"
      "get_record (pm_read m) i bs ts = (Err InvalidRecordIndex, ts)"
      by (simp_all add: set_record_def get_record_def bindp_def page_reading.get_record_length_ok [OF r assms(1)])
  }
qed

text \<open>One record of two bytes at offset 100; the number of records has no setter in the code.\<close>

definition record_page :: "byte list" where
  "record_page = patch 5 (enc_u16 100) (patch 3 (enc_u16 1) (patch 1 (enc_u16 2) (replicate PAGE_BODY_SIZE 0)))"

lemma record_page_facts:
  "records_ok record_page" "rec_length record_page = 2" "num_recs record_page = 1"
proof -
  let ?z = "replicate PAGE_BODY_SIZE (0 :: byte)"
  let ?a = "patch 1 (enc_u16 2) ?z"
  let ?b = "patch 3 (enc_u16 1) ?a"
  have l: "length ?z = PAGE_BODY_SIZE" by simp
  have la: "length ?a = PAGE_BODY_SIZE" by (simp add: page_body_size_value)
  have lb: "length ?b = PAGE_BODY_SIZE" using la by (simp add: page_body_size_value)
  have lr: "length record_page = PAGE_BODY_SIZE" using lb by (simp add: record_page_def page_body_size_value)
  have s1: "slice 1 2 record_page = enc_u16 2"
  proof -
    have "slice 1 2 record_page = slice 1 2 ?b" unfolding record_page_def by (rule slice_patch_other) (simp_all add: lb page_body_size_value)
    also have "\<dots> = slice 1 2 ?a" by (rule slice_patch_other) (simp_all add: la page_body_size_value)
    also have "\<dots> = enc_u16 2" using slice_patch_same [of 1 "enc_u16 2" ?z] by (simp add: page_body_size_value)
    finally show ?thesis .
  qed
  have s3: "slice 3 2 record_page = enc_u16 1"
  proof -
    have "slice 3 2 record_page = slice 3 2 ?b" unfolding record_page_def by (rule slice_patch_other) (simp_all add: lb page_body_size_value)
    also have "\<dots> = enc_u16 1" using slice_patch_same [of 3 "enc_u16 1" ?a] la by (simp add: page_body_size_value)
    finally show ?thesis .
  qed
  have s5: "slice 5 2 record_page = enc_u16 100"
    using slice_patch_same [of 5 "enc_u16 100" ?b] lb by (simp add: record_page_def page_body_size_value)
  show n: "rec_length record_page = 2" "num_recs record_page = 1"
    using s1 s3 by (simp_all add: rec_length_def num_recs_def)
  show "records_ok record_page"
    using lr n s5 by (simp add: records_ok_def rec_offset_def page_body_size_value)
qed

theorem record_set_then_get_witness:
  "\<exists>st t st1 m ts ts1 ts2. page_storage_create (\<lambda>_. 0) 1 (BUFFERED_PAGE_SIZE * 2) 1 100 empty_folder = Ok st
    \<and> storage_transaction st = (Ok t, st1) \<and> transaction_get_page_mut (physical_impl (\<lambda>_. 0)) (PageAddress 0 2) (t, st1) = (Ok m, ts)
    \<and> pm_write (\<lambda>_. 0) m 0 record_page ts = (Ok (), ts1)
    \<and> set_record (pm_read m) (pm_write (\<lambda>_. 0) m) 0 [7, 8] ts1 = (Ok (), ts2)
    \<and> get_record (pm_read m) 0 [0, 0] ts2 = (Ok [7, 8], ts2)
    \<and> fst (get_record (pm_read m) 1 [7, 8] ts1) = Err InvalidRecordIndex"
proof -
  have l: "length record_page = PAGE_BODY_SIZE" using record_page_facts(1) by (simp add: records_ok_def)
  have "0 + write_cost [7, 8] + write_cost record_page < 2 ^ 62" using l by (simp add: write_cost_def page_body_size_value)
  from fresh_page [OF this, of "\<lambda>_. 0" "\<lambda>_. 0"]
  obtain st t st1 m ts where st: "page_storage_create (\<lambda>_. 0) 1 (BUFFERED_PAGE_SIZE * 2) 1 100 empty_folder = Ok st"
    "storage_transaction st = (Ok t, st1)" "transaction_get_page_mut (physical_impl (\<lambda>_. 0)) (PageAddress 0 2) (t, st1) = (Ok m, ts)"
    "page_held (\<lambda>_. 0) (\<lambda>_. 0) {PageAddress 0 1, PageAddress 0 2} m (PageAddress 0 2) (0 + write_cost [7, 8] + write_cost record_page) ts"
    "seen (storage_view (\<lambda>_. 0)) ts (PageAddress 0 2) = replicate PAGE_BODY_SIZE 0"
    by blast
  note w = page_held_writing [of m "\<lambda>_. 0" "PageAddress 0 2" "\<lambda>_. 0" "{PageAddress 0 1, PageAddress 0 2}"]
  have "0 + length record_page \<le> PAGE_BODY_SIZE" by (simp add: l)
  from page_writing.write_ok [OF w st(4) this]
  obtain ts1 where ts1: "pm_write (\<lambda>_. 0) m 0 record_page ts = (Ok (), ts1)"
      "page_held (\<lambda>_. 0) (\<lambda>_. 0) {PageAddress 0 1, PageAddress 0 2} m (PageAddress 0 2) (0 + write_cost [7, 8]) ts1"
      "seen (storage_view (\<lambda>_. 0)) ts1 (PageAddress 0 2) = patch 0 record_page (seen (storage_view (\<lambda>_. 0)) ts (PageAddress 0 2))"
    by auto
  have s: "record_page = seen (storage_view (\<lambda>_. 0)) ts1 (PageAddress 0 2)"
    unfolding ts1(3) st(5) by (simp add: patch_def l)
  have b: "rec_length record_page \<le> length [7 :: byte, 8]" "length [0 :: byte, 0] = length [7 :: byte, 8]"
    by (simp_all add: record_page_facts)
  have h: "page_held (\<lambda>_. 0) (\<lambda>_. 0) {PageAddress 0 1, PageAddress 0 2} m (PageAddress 0 2)
      (0 + write_cost (take (rec_length record_page) [7, 8])) ts1"
    using ts1(2) by (simp add: record_page_facts)
  note r = record_set_then_get [OF h s record_page_facts(1) b, unfolded record_page_facts]
  have "num_recs record_page = 1" by (rule record_page_facts)
  have "(0 :: nat) < 1" "(1 :: nat) \<le> 1" by simp_all
  with r [of 0] r [of 1] obtain ts2 where "set_record (pm_read m) (pm_write (\<lambda>_. 0) m) 0 [7, 8] ts1 = (Ok (), ts2)"
      "get_record (pm_read m) 0 [0, 0] ts2 = (Ok (take 2 [7, 8] @ drop 2 [0, 0]), ts2)"
      "get_record (pm_read m) 1 [7, 8] ts1 = (Err InvalidRecordIndex, ts1)"
    by blast
  then show ?thesis using st(1-3) ts1(1) by (intro exI conjI) (assumption | simp)+
qed

section \<open>An allocator that was not initialised\<close>

text \<open>
  An allocator that was never initialised is not recognised as such. The kind of its meta
  page is 0, so a page of zeros passes the check of the page kind; \<open>alloc\<close> on a new storage then
  fails only when it reads the next address, with \<open>PageFormat\<close> instead of a wrong page kind.
\<close>

theorem alloc_before_init:
  fixes d :: database_folder
  assumes "folder_ok d" and "folder_segments_ok d" and "0 < n" and "BUFFERED_PAGE_SIZE \<le> cs"
    and "storage_view crc16 (physical_storage_new d n) META_PAGE_ADDRESS = Ok (ix, replicate PAGE_BODY_SIZE 0)"
    and "tapi = storage_transaction_api (physical_impl crc16) (wal_impl (wal_file_impl crc32))"
  shows "\<exists>st t st1 ts p ts'. page_storage_create crc32 n cs l g d = Ok st \<and> storage_transaction st = (Ok t, st1)
    \<and> meta_page tapi (t, st1) = (Ok p, ts')
    \<and> alloc tapi (t, st1) = (Err (PageFormat ''Found invalid page number '0'!''), ts)"
proof -
  let ?M = META_PAGE_ADDRESS
  have "address_index a < 1 \<and> wf_page_address a \<longleftrightarrow> a = ?M" for a
    using address_index_inject [of a ?M] by (auto simp: address_index_def wf_page_address_def META_PAGE_ADDRESS_def)
  then have A: "{?M} = {a. wf_page_address a \<and> address_index a < 1}" by auto
  have k: "2 ^ 17 + (0 :: nat) < 2 ^ 63" "(0 :: nat) < 1" by simp_all
  have v: "\<forall>a \<in> {?M}. \<exists>ix b. storage_view crc16 (physical_storage_new d n) a = Ok (ix, b) \<and> length b = PAGE_BODY_SIZE"
    using assms(5) by simp
  have c: "BUFFERED_PAGE_SIZE * 1 \<le> cs" using assms(4) by simp
  obtain st t st1 where st: "page_storage_create crc32 n cs l g d = Ok st" "storage_transaction st = (Ok t, st1)"
      "trans_ok (storage_view crc16) sound_storage (ready_wal crc32) (log_size (wal_file_impl crc32)) {?M} 0 (t, st1)"
      "seen (storage_view crc16) (t, st1) ?M = replicate PAGE_BODY_SIZE 0"
    using new_transaction_ok [OF assms(1-3) k(2) c A v k(1), of crc32 l g] assms(5) by auto
  have M: "?M \<in> {?M}" by simp
  have z: "slice j n (replicate PAGE_BODY_SIZE (0::byte)) = replicate n 0" if "j + n \<le> PAGE_BODY_SIZE" for j n
    using that by (simp add: slice_def min_def)
  have f: "kind_of (replicate PAGE_BODY_SIZE 0) = Ok FreelistMeta" "head_of (replicate PAGE_BODY_SIZE 0) = None"
      "next_of (replicate PAGE_BODY_SIZE 0) = Err (PageFormat ''Found invalid page number '0'!'')"
    using z [of 0 1] z [of 1 6] z [of 7 6]
    by (simp_all add: kind_of_def head_of_def next_of_def page_body_size_value dec_page_kind_def page_kind_from_def
        dec_opt_address_def dec_doc_address_def slice_def)
  show ?thesis
    using salloc.alloc_uninit [OF st(3) M] salloc.meta_page_ok [OF st(3) M] f st(1,2,4) unfolding assms(6) by metis
qed

theorem alloc_before_init_witness:
  "\<exists>st t st1 ts. page_storage_create (\<lambda>_. 0) 1 BUFFERED_PAGE_SIZE 1 100 empty_folder = Ok st \<and> storage_transaction st = (Ok t, st1)
    \<and> alloc (storage_transaction_api (physical_impl (\<lambda>_. 0)) (wal_impl (wal_file_impl (\<lambda>_. 0)))) (t, st1)
      = (Err (PageFormat ''Found invalid page number '0'!''), ts)"
  using alloc_before_init [OF empty_folder_ok empty_segments_ok zero_less_one order_refl storage_view_empty refl, of "\<lambda>_. 0" 1 100]
  by blast

end
