(* ===== verification/WalIteration.thy ===== *)
theory WalIteration
  imports WalFile
begin

text \<open>
  Whether the iterators over a log file end, for files with any contents: forwards always,
  backwards only as long as no link to a previous item is damaged.
\<close>

section \<open>Programs that return\<close>

definition returns :: "('s, 'e, 'a) prog \<Rightarrow> bool" where
  "returns m \<longleftrightarrow> (\<forall>s. fst (m s) \<noteq> Stuck)"

lemma returnsI: "(\<And>s. fst (m s) \<noteq> Stuck) \<Longrightarrow> returns m"
  by (simp add: returns_def)

lemma returns_bindp [intro]:
  assumes "returns m" and "\<And>a. returns (f a)"
  shows "returns (bindp m f)"
proof (rule returnsI)
  fix s
  have "fst (m s) \<noteq> Stuck" "fst (f a t) \<noteq> Stuck" for a t using assms by (simp_all add: returns_def)
  then show "fst (bindp m f s) \<noteq> Stuck"
    by (auto simp: bindp_def split: prod.split outcome.split)
qed

lemma returns_basic [intro]:
  "returns (ret a)" "returns (throw e)" "returns panic" "returns get_state" "returns (modify g)"
  "r \<noteq> Stuck \<Longrightarrow> returns (lift_oc r)"
  by (simp_all add: returns_def ret_def throw_def panic_def get_state_def modify_def lift_oc_def)

lemma returns_if [intro]: "returns m \<Longrightarrow> returns n \<Longrightarrow> returns (if b then m else n)"
  by simp

lemma returns_read [intro]: "returns (buf_read_exact n)" "returns (file_read_exact n)" "returns (file_seek_relative d)"
  by (simp_all add: returns_def buf_read_exact_def file_read_exact_def file_seek_relative_def)

lemma returns_deserialize [intro]: "returns rd \<Longrightarrow> (\<And>bs. dec bs \<noteq> Stuck) \<Longrightarrow> returns (deserialize (\<lambda>_. rd) n dec)"
  unfolding deserialize_def by blast

text \<open>Decoding a body returns, whatever the bytes.\<close>

lemma returns_blocks [intro]:
  "returns read_transaction_data" "returns (deserialize buf_read_exact WRITE_BLOCK_SIZE dec_write_block)"
  "returns (deserialize buf_read_exact PAGE_ADDRESS_SIZE dec_page_address)"
  "returns (deserialize buf_read_exact WAL_INDEX_SIZE dec_wal_index)"
  "returns (deserialize buf_read_exact 8 dec_tid)"
  "returns (deserialize buf_read_exact TRANSACTION_STATE_SIZE dec_transaction_state)"
  "returns (deserialize buf_read_exact CHECKPOINT_BLOCK_SIZE dec_checkpoint_block)"
  unfolding read_transaction_data_def deserialize_def
  by (intro returns_bindp returns_read returns_basic;
      simp add: dec_transaction_block_def dec_write_block_def dec_page_address_def dec_wal_index_def dec_tid_def
        dec_transaction_state_def dec_checkpoint_block_def)+

lemma returns_dirty_pages: "returns (read_dirty_pages n m)"
  by (induction n arbitrary: m) (simp_all, (intro returns_bindp returns_basic returns_blocks | assumption)+)

lemma returns_transactions: "returns (read_transactions n m)"
  by (induction n arbitrary: m) (simp_all, (intro returns_bindp returns_basic returns_blocks | assumption)+)

lemma returns_decode_body: "returns (decode_body k u)"
  unfolding decode_body_def read_write_data_def read_checkpoint_data_def
  by (cases k; simp only: item_kind.case)
    (intro returns_bindp returns_basic returns_blocks returns_if returns_read returns_dirty_pages returns_transactions)+

lemma patch_append: "patch (length xs + n) ys (xs @ zs) = xs @ patch n ys zs"
  by (simp add: patch_def add.assoc)

section \<open>Forwards\<close>

text \<open>Reading an item returns, and an item that is read moves the reader on.\<close>

lemma read_item_exact_returns: "fst (read_item_exact crc r) \<noteq> Stuck"
proof -
  have d: "dec_item_header bs \<noteq> Stuck" for bs
    by (cases "item_kind_try_from (bs ! 0)") (auto simp: dec_item_header_def item_kind_try_from_def split: if_splits)
  have "returns (on_reader m)" if "returns m" for m :: "(rfile, file_error, 'a) prog"
    using that by (simp add: returns_def on_reader_def split: prod.split) (metis fst_conv)
  note o = this
  have "fst (decode_body k u b) \<noteq> Stuck" for k u b using returns_decode_body by (simp add: returns_def)
  then have "returns (read_item_exact crc)"
    unfolding read_item_exact_def deserialize_def Let_def
    by (intro returns_bindp returns_basic returns_if o returns_read d) auto
  then show ?thesis by (simp add: returns_def)
qed

lemma read_item_returns: "fst (read_item crc r) \<noteq> Stuck"
  using read_item_exact_returns [of crc r]
  by (cases "read_item_exact crc r") (auto simp: read_item_def split: outcome.split file_error.split)

lemma read_item_moves:
  assumes "read_item crc r = (Ok (Some x), r')"
  shows "pos (rd_file r) + ITEM_HEADER_SIZE \<le> length (content (rd_file r)) \<and> content (rd_file r') = content (rd_file r)
    \<and> pos (rd_file r) + ITEM_HEADER_SIZE \<le> pos (rd_file r')"
proof -
  have e: "read_item_exact crc r = (Ok x, r')"
    using assms by (auto simp: read_item_def split: prod.splits outcome.splits file_error.splits)
  have n: "a + h \<le> nat (int a + int h + uint (w :: u16) + int b)" for a h b w
    using uint_ge_0 [of w] by linarith
  show ?thesis
    using e unfolding read_item_exact_def deserialize_def
    by (auto simp: n elim!: bindp_OkD simp: on_reader_def file_read_exact_def file_seek_relative_def modify_def get_state_def
        lift_oc_def ret_def throw_def panic_def split: prod.splits if_splits)
qed

lemma run_iter_ends:
  assumes "length (content (rd_file r)) < pos (rd_file r) + fuel" and "0 < fuel"
  shows "snd (run_iter (read_item crc) fuel r) \<noteq> Stuck"
    and "ITEM_HEADER_SIZE * length (fst (run_iter (read_item crc) fuel r)) \<le> length (content (rd_file r)) - pos (rd_file r)"
proof -
  have "snd (run_iter (read_item crc) fuel r) \<noteq> Stuck
    \<and> ITEM_HEADER_SIZE * length (fst (run_iter (read_item crc) fuel r)) \<le> length (content (rd_file r)) - pos (rd_file r)"
    using assms
  proof (induction fuel arbitrary: r)
    case 0
    then show ?case by simp
  next
    case (Suc fuel)
    obtain o1 r' where r: "read_item crc r = (o1, r')" by (cases "read_item crc r")
    have "o1 \<noteq> Stuck" using read_item_returns [of crc r] r by simp
    then consider x where "o1 = Ok (Some x)" | "\<forall>x. o1 \<noteq> Ok (Some x)" by blast
    then show ?case
    proof cases
      case 1
      note m = read_item_moves [OF r [unfolded 1]]
      have f: "length (content (rd_file r')) < pos (rd_file r') + fuel" "0 < fuel"
        using m Suc.prems by (simp_all add: ITEM_HEADER_SIZE_def)
      obtain xs e where i: "run_iter (read_item crc) fuel r' = (xs, e)" by (cases "run_iter (read_item crc) fuel r'")
      have "e \<noteq> Stuck" "ITEM_HEADER_SIZE * length xs \<le> length (content (rd_file r')) - pos (rd_file r')"
        using Suc.IH [OF f] i by simp_all
      moreover have "ITEM_HEADER_SIZE * Suc (length xs) \<le> length (content (rd_file r)) - pos (rd_file r)"
      proof -
        have "pos (rd_file r) + 16 \<le> length (content (rd_file r))" "content (rd_file r') = content (rd_file r)"
            "pos (rd_file r) + 16 \<le> pos (rd_file r')" "16 * length xs \<le> length (content (rd_file r')) - pos (rd_file r')"
          using calculation(2) m by (simp_all add: ITEM_HEADER_SIZE_def)
        then show ?thesis unfolding ITEM_HEADER_SIZE_def mult_Suc_right by arith
      qed
      ultimately show ?thesis using r 1 i by simp
    next
      case 2
      then show ?thesis using r \<open>o1 \<noteq> Stuck\<close> by (cases o1) (auto split: option.split)
    qed
  qed
  then show "snd (run_iter (read_item crc) fuel r) \<noteq> Stuck"
    "ITEM_HEADER_SIZE * length (fst (run_iter (read_item crc) fuel r)) \<le> length (content (rd_file r)) - pos (rd_file r)"
    by simp_all
qed

text \<open>
  C32: Iterating forwards over a log always ends, whatever bytes the file holds and whatever the
  checksum: after at most one item per 16 bytes of the file the iterator gives the end of the
  log, an error or a panic, and \<open>iter_items\<close> itself always succeeds.
\<close>

theorem wal_iteration_ends:
  "\<exists>xs e w'. wal_iter_items crc w = (Ok (xs, e), w') \<and> e \<noteq> Stuck
    \<and> ITEM_HEADER_SIZE * length xs \<le> length (content (wfile w'))"
proof -
  define w1 where "w1 = snd (wal_flush w)"
  have fl: "wal_flush w = (Ok (), w1)"
    by (simp add: w1_def wal_flush_def prog_simps bindp_def on_file_def file_write_all_def split: prod.split)
  let ?w2 = "w1\<lparr>wfile := (wfile w1)\<lparr>pos := unat (body_start w1)\<rparr>\<rparr>"
  let ?r = "item_reader_new (wfile ?w2) None"
  obtain xs e where i: "run_iter (read_item crc) (iter_fuel (wfile ?w2)) ?r = (xs, e)"
    by (cases "run_iter (read_item crc) (iter_fuel (wfile ?w2)) ?r")
  have "length (content (rd_file ?r)) < pos (rd_file ?r) + iter_fuel (wfile ?w2)" "0 < iter_fuel (wfile ?w2)"
    by (simp_all add: item_reader_new_def iter_fuel_def)
  from run_iter_ends [OF this, of crc] i
  have "e \<noteq> Stuck" "ITEM_HEADER_SIZE * length xs \<le> length (content (wfile ?w2))"
    by (simp_all add: item_reader_new_def)
  moreover have "wal_iter_items crc w = (Ok (xs, e), ?w2)"
    using i by (simp add: wal_iter_items_def bindp_def fl on_file_def file_seek_start_def get_state_def ret_def)
  ultimately show ?thesis by blast
qed

section \<open>Backwards\<close>

text \<open>
  Iterating backwards need not end. The position of the previous item is in the header of
  an item, which no checksum covers. Damage to these eight bytes of the last item, such that
  they hold the item's own position, makes the reverse iterator give that item for ever, with
  a correct checksum each time; undo and recovery follow these links.
\<close>

theorem reverse_iteration_may_never_end:
  assumes "wal_inv crc (its @ [it]) w" and "q = log_start + log_len its"
    and "f = (wfile w)\<lparr>content := patch (q + 8) (enc_u64 (word_of_nat q)) (content (wfile w)), pos := length (content (wfile w))\<rparr>"
  shows "run_iter (read_prev_item crc) fuel (item_reader_new f (prev_item w)) = (replicate fuel (word_of_nat q, it), Stuck)"
proof -
  have it: "loggable it" and its: "list_all loggable its" and lim: "log_start + log_len (its @ [it]) < 2 ^ 63"
    and cont: "content (wfile w) = enc_generic_header wal_header @ log_image crc None log_start (its @ [it])"
    and pv: "prev_item w = Some (word_of_nat q)"
    using assms(1) by (simp_all add: wal_inv_def last_pos_append assms(2))
  define len where "len = length (content (wfile w))"
  have ll: "len = q + item_len it" using wal_inv_length [OF assms(1)] by (simp add: len_def assms(2))
  have q: "0 < q" "q + item_len it < 2 ^ 63" using lim using log_start_facts(1) by (simp_all add: assms(2))
  let ?self = "Some (word_of_nat q :: u64)" and ?prev = "last_pos None log_start its"
  define A where "A = enc_generic_header wal_header @ log_image crc None log_start its"
  have la: "length A = q"
    using length_log_image [OF its] by (simp add: A_def assms(2) log_start_def)
  have img: "item_image crc ?self q it = patch 8 (enc_u64 (word_of_nat q)) (item_image crc ?prev q it)"
    by (rule loggable_encode [OF it])
      (simp add: item_image_def enc_item_header_def patch_def opt_to_u64_def)
  have fc: "content f = A @ item_image crc ?self q it"
    using patch_append [of A 8] la
    by (simp add: assms(3) cont log_image_append img A_def assms(2) [symmetric])
  have "run_iter (read_prev_item crc) fuel r = (replicate fuel (word_of_nat q, it), Stuck)"
    if "content (rd_file r) = content f" "unat (rd_offset r) = pos (rd_file r)" "pos (rd_file r) < 2 ^ 63" "rd_prev_item r = ?self" for r
    using that
  proof (induction fuel arbitrary: r)
    case 0
    show ?case by simp
  next
    case (Suc fuel)
    have uq: "unat (word_of_nat q :: u64) = q" using q by (simp add: unat_of_nat)
    let ?s = "r\<lparr>rd_file := (rd_file r)\<lparr>pos := q\<rparr>, rd_offset := word_of_nat q\<rparr>"
    have at: "at_pos (rd_file ?s) q (item_image crc ?self q it)"
      using at_posI [where f = "(rd_file r)\<lparr>pos := q\<rparr>" and A = A and B = "[]"] fc Suc.prems(1) la by simp
    have nz: "?self \<noteq> Some 0" using uq q(1) by auto
    have "read_item crc ?s = (Ok (Some (word_of_nat q, it)), \<lparr>rd_offset = word_of_nat (q + item_len it),
        rd_file = (rd_file r)\<lparr>pos := q + item_len it\<rparr>, rd_prev_item = ?self\<rparr>)" (is "_ = (_, ?r1)")
      using read_item_image [OF it at] q nz by simp
    moreover have "\<bar>int q - int (unat (rd_offset r))\<bar> < 2 ^ 63" using q Suc.prems(2,3) by simp
    ultimately have "read_prev_item crc r = (Ok (Some (word_of_nat q, it)), ?r1)"
      using seek_relative_to [OF Suc.prems(2), of q] q(2)
      by (simp add: read_prev_item_def Suc.prems(4) uq prog_simps bindp_Ok)
    moreover have "run_iter (read_prev_item crc) fuel ?r1 = (replicate fuel (word_of_nat q, it), Stuck)"
      by (rule Suc.IH) (use Suc.prems(1) q in \<open>simp_all add: unat_of_nat del: of_nat_add\<close>)
    ultimately show ?case by simp
  qed
  moreover have "unat (word_of_nat len :: u64) = len" using q ll by (simp add: unat_of_nat del: of_nat_add)
  ultimately show ?thesis using q ll pv by (simp add: item_reader_new_def assms(3) len_def)
qed

text \<open>A log of one item at position 9: the three first steps of an iteration without end.\<close>

theorem reverse_iteration_may_never_end_witness:
  "\<exists>w. wal_inv (\<lambda>_. 0) [example_write] w \<and> run_iter (read_prev_item (\<lambda>_. 0)) 3
      (item_reader_new ((wfile w)\<lparr>content := patch (9 + 8) (enc_u64 9) (content (wfile w)), pos := length (content (wfile w))\<rparr>) (prev_item w))
    = ([(9, example_write), (9, example_write), (9, example_write)], Stuck)"
proof -
  obtain w where w: "wal_inv (\<lambda>_. 0) ([] @ [example_write]) w"
    using wal_file_create_run [of "\<lparr>content = [], pos = 0\<rparr>"] wal_push_item_run [of "\<lambda>_. 0" "[]" _ example_write]
      example_write_loggable example_room
    by fastforce
  have q: "9 = log_start + log_len []" by (simp add: log_start_def GENERIC_HEADER_SIZE_def)
  from reverse_iteration_may_never_end [OF w q refl, of 3] w show ?thesis
    by (intro exI [of _ w]) (simp add: numeral_3_eq_3)
qed

end
