(* ===== verification/TornLog.thy ===== *)
theory TornLog
  imports WalProofs
begin

text \<open>
  What becomes of a log whose last append was cut short by a crash, once the program runs
  again: \<open>WalFile::new\<close> keeps the torn bytes, takes the position of the last item from them and
  appends behind them. Iterating such a log is safe at first (\<open>wal_file_torn_append\<close>); this
  theory shows what later appends and the reverse iterator make of it.
\<close>

section \<open>Opening any file with a good header\<close>

text \<open>The last eight bytes, which \<open>new\<close> takes for a footer.\<close>

definition last_u64 :: "byte list \<Rightarrow> u64" where
  "last_u64 bs = dec_u64 (drop (length bs - ITEM_FOOTER_SIZE) bs)"

lemma wal_file_open_torn:
  assumes f: "content f = enc_generic_header wal_header @ rest" and len: "ITEM_FOOTER_SIZE < length rest"
    and lim: "length (content f) < 2 ^ 63"
  shows "wal_file_open f = (if last_u64 (content f) = 0
    then (Err (Corrupted ItemAtPositionZero), f\<lparr>pos := length (content f)\<rparr>)
    else (Ok \<lparr>body_start = word_of_nat log_start, prev_item = Some (last_u64 (content f)), write_buf = [],
      wfile = f\<lparr>pos := length (content f)\<rparr>, next_offset = word_of_nat (length (content f))\<rparr>,
      f\<lparr>pos := length (content f)\<rparr>))"
proof -
  define n where "n = length (content f)"
  have n: "log_start + ITEM_FOOTER_SIZE < n" "n < 2 ^ 63"
    using assms by (simp_all add: n_def log_start_facts)
  have u: "unat (word_of_nat n :: u64) = n" using n by (simp add: unat_of_nat)
  have nz: "(word_of_nat n :: u64) \<noteq> 0" using u n(1) by auto
  have s: "slice (n - ITEM_FOOTER_SIZE) ITEM_FOOTER_SIZE (content f) = drop (n - ITEM_FOOTER_SIZE) (content f)"
    using n(1) by (simp add: slice_def n_def)
  have d: "deserialize file_read_exact ITEM_FOOTER_SIZE dec_item_footer (f\<lparr>pos := n - ITEM_FOOTER_SIZE\<rparr>)
      = (if last_u64 (content f) = 0 then Err (Corrupted ItemAtPositionZero) else Ok (last_u64 (content f)), f\<lparr>pos := n\<rparr>)"
    using n(1) s by (simp add: deserialize_def file_read_exact_def prog_simps n_def [symmetric] dec_item_footer_def
        last_u64_def lift_oc_def bindp_def)
  show ?thesis
    unfolding wal_file_open_header [OF f] n_def [symmetric]
    using n(1) nz d by (simp add: wal_file_new_def file_seek_end_def bindp_def ret_def get_state_def log_start_facts n_def [symmetric])
qed

section \<open>Appending behind the torn bytes\<close>

lemma push_items_append:
  assumes "list_all loggable its" and "write_buf w = []"
    and "next_offset w = word_of_nat (length (content (wfile w)))"
    and "length (content (wfile w)) + log_len its < 2 ^ 63"
  shows "\<exists>offs w'. push_items crc its w = (Ok offs, w') \<and> write_buf w' = [] \<and> body_start w' = body_start w
    \<and> content (wfile w') = content (wfile w) @ log_image crc (prev_item w) (length (content (wfile w))) its"
  using assms
proof (induction its arbitrary: w)
  case Nil
  then show ?case by (simp add: prog_simps)
next
  case (Cons it its)
  define off where "off = length (content (wfile w))"
  have it: "loggable it" and room: "off + item_len it < 2 ^ 63" using Cons.prems by (simp_all add: off_def)
  obtain w1 where w1: "wal_push_item crc it w = (Ok (word_of_nat off), w1)" "write_buf w1 = []" "body_start w1 = body_start w"
    "prev_item w1 = Some (word_of_nat off)" "next_offset w1 = word_of_nat (off + item_len it)"
    "content (wfile w1) = content (wfile w) @ item_image crc (prev_item w) off it"
    using wal_push_item_append [OF it Cons.prems(2) off_def _ room, of crc] Cons.prems(2,3)
    by (simp add: off_def del: of_nat_add)
  have l1: "length (content (wfile w1)) = off + item_len it"
    using w1(6) it by (simp add: off_def length_item_image)
  from Cons.IH [of w1] obtain offs w2 where "push_items crc its w1 = (Ok offs, w2)" "write_buf w2 = []" "body_start w2 = body_start w1"
    "content (wfile w2) = content (wfile w1) @ log_image crc (prev_item w1) (off + item_len it) its"
    using Cons.prems w1 l1 by (auto simp: off_def)
  then show ?case using w1 by (simp add: prog_simps bindp_Ok off_def)
qed

lemma torn_log_iterates:
  assumes its: "list_all loggable its" and it: "loggable it" and enc: "encode_body it = Ok (kd, fl, b)"
    and k: "ITEM_HEADER_SIZE \<le> k" "k < ITEM_HEADER_SIZE + length b"
    and c: "content (wfile w) = enc_generic_header wal_header @ log_image crc None log_start its
      @ take k (item_image crc (last_pos None log_start its) p it) @ B"
    and w: "write_buf w = []" "body_start w = word_of_nat log_start" and lim: "log_start + log_len its < 2 ^ 63"
    and mixed: "ITEM_HEADER_SIZE + length b \<le> k + length B \<Longrightarrow> crc (take (k - ITEM_HEADER_SIZE) b @ take (ITEM_HEADER_SIZE + length b - k) B) \<noteq> crc b"
  shows "wal_iter_items crc w = (Ok (log_entries log_start its,
      if k + length B < ITEM_HEADER_SIZE + length b then Ok () else Err ChecksumMismatch),
    w\<lparr>wfile := (wfile w)\<lparr>pos := log_start\<rparr>\<rparr>)" (is "_ = (Ok (_, ?e), _)")
proof -
  let ?f = "wfile w"
  have nz: "last_pos None log_start its \<noteq> Some 0"
    using last_pos_nonzero [of None log_start its] log_start_facts(1) lim by simp
  have "length its \<le> log_len its" by (rule length_le_log_len)
  then have fuel: "length its < iter_fuel ?f"
    using c length_log_image [OF its] by (simp add: iter_fuel_def)
  have "run_iter (read_item crc) (iter_fuel ?f) (item_reader_new (?f\<lparr>pos := log_start\<rparr>) None) = (log_entries log_start its, ?e)"
  proof (rule run_iter_until [where f = ?f and A = "enc_generic_header wal_header" and prev = None, OF its _ _ _ _ _ fuel])
    fix r :: item_reader and n
    let ?A = "enc_generic_header wal_header @ log_image crc None log_start its"
    assume "content (rd_file r) = content ?f" "pos (rd_file r) = log_start + log_len its"
    then have r: "content (rd_file r) = ?A @ take k (item_image crc (last_pos None log_start its) p it) @ B"
      "pos (rd_file r) = length ?A"
      using c length_log_image [OF its] by (simp_all add: log_start_facts)
    note t = read_item_after_torn [OF enc it k r nz]
    show "run_iter (read_item crc) (Suc n) r = ([], ?e)"
      using t(1) t(2) [OF _ mixed] by (cases "k + length B < ITEM_HEADER_SIZE + length b") auto
  qed (use c lim in \<open>simp_all add: log_start_facts item_reader_new_def\<close>)
  then show ?thesis
    using w by (simp add: wal_iter_items_def bindp_Ok wal_flush_empty prog_simps log_start_facts)
qed

section \<open>Recovering a log that ends in an error\<close>

lemma recover_iter_error:
  assumes q: "queue_ok (gens W)" and f: "current_file W = f"
    and i1: "api_iter_items api f = (Ok (items, Err e), f1)" and i2: "api_iter_items api f1 = (Ok (items, Err e), f2)"
  shows "fst (recover api handle (W, h)) = Err (File e)"
proof -
  have ne: "generations (gens W) \<noteq> []" using q by (simp add: queue_ok_def)
  let ?W1 = "set_current f1 W"
  have r1: "on_current (api_iter_items api) W = (Ok (items, Err e), ?W1)"
    using on_current_run [OF ne, of "api_iter_items api"] f i1 by simp
  have w: "with_current (\<lambda>_. get_state) W = (Ok W, W)"
    by (simp add: with_current_def prog_simps current_generation_ok [OF q])
  show ?thesis
  proof (cases "first_checkpoint items")
    case None
    then have "read_initial_state api W = (Err (File e), ?W1)"
      by (simp add: read_initial_state_def bindp_Ok [where m = "on_current x" for x, OF r1] prog_simps)
    then show ?thesis by (simp add: recover_def on_fst_def w bindp_def Let_def)
  next
    case (Some d)
    let ?W2 = "?W1\<lparr>wstate := \<lparr>dirty_pages = cd_dirty_pages d, transactions = cd_transactions d\<rparr>\<rparr>"
    have s1: "read_initial_state api W = (Ok (), ?W2)"
      using Some by (simp add: read_initial_state_def bindp_Ok [where m = "on_current x" for x, OF r1] prog_simps)
    have "generations (gens ?W2) \<noteq> []" "current_file ?W2 = f1"
      using ne by (simp_all add: set_current_def current_file_def last_list_update)
    from on_current_run [OF this(1), of "api_iter_items api"] this(2) i2
    have r2: "on_current (api_iter_items api) ?W2 = (Ok (items, Err e), set_current f2 ?W2)" by simp
    obtain W3 where r: "recover_state api (current_gen_num (gens W)) ?W2 = (Err (File e), W3)"
      by (simp add: recover_state_def bindp_Ok [where m = "on_current x" for x, OF r2] prog_simps)
    show ?thesis by (simp add: recover_def on_fst_def w s1 r bindp_def Let_def)
  qed
qed

section \<open>Two crashes\<close>

text \<open>
  C25: A second run after a torn append loses what it logs. Let a crash cut the last append to a log
  short, anywhere in its body, and let the program run again. If the last eight bytes that were
  written are zero, the log cannot be opened: it is taken for corrupted. Otherwise \<open>open\<close> takes the
  file as it is, and what is appended goes behind the torn bytes. If the checksum tells the mixture of the torn body
  and the bytes behind it from the body, and the log stays below \<open>2^63\<close> bytes, iterating never gets to any item of the second run: it
  ends where the torn item starts, as at the end of the log while the bytes do not fill its body,
  and with a checksum error as soon as they do. From then on recovery fails whenever it is tried.
\<close>

theorem append_after_torn_append_is_lost:
  assumes inv: "wal_inv crc its w" and it: "loggable it" and enc: "encode_body it = Ok (kd, fl, b)"
    and k: "ITEM_HEADER_SIZE \<le> k" "k < ITEM_HEADER_SIZE + length b"
    and f: "content f = content (wfile w) @ take k (item_image crc (prev_item w) (log_start + log_len its) it)"
    and its': "list_all loggable its'" and room: "log_start + log_len its + k + log_len its' < 2 ^ 63"
    and mixed: "ITEM_HEADER_SIZE + length b \<le> k + log_len its' \<longrightarrow> crc (take (k - ITEM_HEADER_SIZE) b @ take (ITEM_HEADER_SIZE + length b - k)
      (log_image crc (Some (last_u64 (content f))) (log_start + log_len its + k) its')) \<noteq> crc b"
  shows "if last_u64 (content f) = 0 then fst (wal_file_open f) = Err (Corrupted ItemAtPositionZero)
    else \<exists>w1 f1 offs w2. wal_file_open f = (Ok w1, f1) \<and> push_items crc its' w1 = (Ok offs, w2)
    \<and> fst (wal_iter_items crc w2) = Ok (log_entries log_start its,
        if k + log_len its' < ITEM_HEADER_SIZE + length b then Ok () else Err ChecksumMismatch)
    \<and> (ITEM_HEADER_SIZE + length b \<le> k + log_len its' \<longrightarrow>
        (\<forall>W h. queue_ok (gens W) \<and> current_file W = w2 \<longrightarrow>
          fst (recover (wal_file_impl crc) handle (W, h)) = Err (File ChecksumMismatch)))"
proof -
  let ?t = "take k (item_image crc (prev_item w) (log_start + log_len its) it)"
  let ?B = "log_image crc (Some (last_u64 (content f))) (log_start + log_len its + k) its'"
  let ?fin = "if k + log_len its' < ITEM_HEADER_SIZE + length b then Ok () else Err ChecksumMismatch"
  have ll: "list_all loggable its" and pv: "prev_item w = last_pos None log_start its"
    and cw: "content (wfile w) = enc_generic_header wal_header @ log_image crc None log_start its"
    using inv by (simp_all add: wal_inv_def)
  have "length b = body_length it" using enc it by (auto elim: loggable_encode)
  then have lt: "length ?t = k" using k it by (simp add: length_item_image item_len_def)
  then have lf: "length (content f) = log_start + log_len its + k"
    using wal_inv_length [OF inv] f by simp
  have f': "content f = enc_generic_header wal_header @ log_image crc None log_start its @ ?t"
    using f cw by simp
  define w1 where "w1 = \<lparr>body_start = word_of_nat log_start, prev_item = Some (last_u64 (content f)), write_buf = [],
      wfile = f\<lparr>pos := length (content f)\<rparr>, next_offset = word_of_nat (length (content f))\<rparr>"
  have op: "wal_file_open f = (if last_u64 (content f) = 0
      then (Err (Corrupted ItemAtPositionZero), f\<lparr>pos := length (content f)\<rparr>) else (Ok w1, f\<lparr>pos := length (content f)\<rparr>))"
    using wal_file_open_torn [OF f'] lf room k(1) lt
    by (simp add: w1_def ITEM_HEADER_SIZE_def ITEM_FOOTER_SIZE_def)
  obtain offs w2 where w2: "push_items crc its' w1 = (Ok offs, w2)" "write_buf w2 = []"
      "body_start w2 = word_of_nat log_start" "content (wfile w2) = content f @ ?B"
    using push_items_append [OF its', of w1 crc] lf room by (auto simp: w1_def)
  have B: "length ?B = log_len its'" by (rule length_log_image [OF its'])
  have c2: "content (wfile w2) = enc_generic_header wal_header @ log_image crc None log_start its
      @ take k (item_image crc (last_pos None log_start its) (log_start + log_len its) it) @ ?B"
    using w2(4) f' pv by simp
  have iter: "wal_iter_items crc v = (Ok (log_entries log_start its, ?fin), v\<lparr>wfile := (wfile v)\<lparr>pos := log_start\<rparr>\<rparr>)"
    if "content (wfile v) = content (wfile w2)" "write_buf v = []" "body_start v = word_of_nat log_start" for v
    using torn_log_iterates [OF ll it enc k _ that(2,3) _ mixed [folded B, rule_format]] c2 that(1) room B by simp
  note i1 = iter [OF refl w2(2,3)]
  let ?v = "w2\<lparr>wfile := (wfile w2)\<lparr>pos := log_start\<rparr>\<rparr>"
  have i2: "wal_iter_items crc ?v = (Ok (log_entries log_start its, ?fin), ?v)"
    using iter [of ?v] w2(2,3) by simp
  have "fst (recover (wal_file_impl crc) handle (W, h)) = Err (File ChecksumMismatch)"
    if e: "ITEM_HEADER_SIZE + length b \<le> k + log_len its'" and q: "queue_ok (gens W)" and cur: "current_file W = w2" for W h
    using recover_iter_error [OF q cur, of "wal_file_impl crc" "log_entries log_start its" ChecksumMismatch ?v ?v] i1 i2 e by (simp add: wal_file_impl_def)
  with i1 w2(1) op show ?thesis by auto
qed

text \<open>
  A write of nine bytes that lost its last one, and a commit appended by the next run; the checksum
  is the last byte of what it is of.
\<close>

definition torn_example :: item where
  "torn_example = Write \<lparr>wd_transaction_data = \<lparr>td_transaction_id = 1, td_prev_item = None\<rparr>,
     wd_page_address = PageAddress 1 1, wd_offset = 0, wd_from = None, wd_to = replicate 9 7\<rparr>"

definition torn_commit :: item where
  "torn_commit = Commit \<lparr>td_transaction_id = 1, td_prev_item = None\<rparr>"

lemma torn_example_facts:
  obtains c where "encode_body torn_example = Ok (ItemWrite, FLAG_UNDO, c @ replicate 9 7)" "length c = 34"
    "loggable torn_example" "loggable torn_commit" "item_len torn_commit = 48"
proof -
  let ?c = "write_transaction_block \<lparr>td_transaction_id = 1, td_prev_item = None\<rparr>
    @ enc_write_block \<lparr>wb_page_address = PageAddress 1 1, wb_offset = 0, wb_write_length = 9\<rparr>"
  have e: "encode_body torn_example = Ok (ItemWrite, FLAG_UNDO, ?c @ replicate 9 7)"
    by (simp add: encode_body_def torn_example_def write_write_block_def try_u16_def)
  have l: "loggable torn_example" "loggable torn_commit" "item_len torn_commit = 48"
    by (simp_all add: loggable_def torn_example_def torn_commit_def wf_item_def wf_write_data_def
        wf_transaction_data_def wf_page_address_def body_length_def item_len_def block_sizes)
  show thesis
    using encode_body_length [OF e] e l by (intro that [of ?c]) (simp_all add: torn_example_def body_length_def)
qed

lemma last_u64_sevens: "last_u64 (xs @ replicate 8 7) = 506381209866536711"
proof -
  have "replicate 8 (7 :: byte) = [7, 7, 7, 7, 7, 7, 7, 7]" by (simp add: numeral_eq_Suc)
  then show ?thesis by (simp add: last_u64_def ITEM_FOOTER_SIZE_def dec_u64_def)
qed

theorem append_after_torn_append_is_lost_witness:
  "\<exists>w f w1 f1 offs w2. let crc = (\<lambda>b. ucast (last b)) in
     wal_inv crc [] w \<and> content f = content (wfile w) @ take 58 (item_image crc (prev_item w) 9 torn_example)
     \<and> wal_file_open f = (Ok w1, f1) \<and> push_items crc [torn_commit] w1 = (Ok offs, w2)
     \<and> fst (wal_iter_items crc w2) = Ok ([], Err ChecksumMismatch)
     \<and> fst (recover (wal_file_impl crc) (\<lambda>_. ret ())
         (wal_new () (push_generation 0 w2 queue_new) state_default 0, ())) = Err (File ChecksumMismatch)"
proof -
  let ?crc = "\<lambda>b. ucast (last b) :: u32"
  obtain c where c: "encode_body torn_example = Ok (ItemWrite, FLAG_UNDO, c @ replicate 9 7)" "length c = 34"
    "loggable torn_example" "loggable torn_commit" "item_len torn_commit = 48" by (rule torn_example_facts)
  obtain w where w: "wal_inv ?crc [] w" using wal_file_create_run [of "\<lparr>content = [], pos = 0\<rparr>"] by auto
  let ?f = "\<lparr>content = content (wfile w) @ take 58 (item_image ?crc (prev_item w) 9 torn_example), pos = 0\<rparr>"
  have st: "log_start = 9" by (simp add: log_start_def GENERIC_HEADER_SIZE_def)
  obtain hd where img: "item_image ?crc (prev_item w) 9 torn_example = hd @ c @ replicate 9 7 @ enc_item_footer 9" "length hd = 16"
    using c(1) by (simp add: item_image_def ih.enc_length ITEM_HEADER_SIZE_def)
  then have t: "content ?f = (content (wfile w) @ hd @ c) @ replicate 8 7"
    using c(2) by (simp add: numeral_eq_Suc)
  have nz: "last_u64 (content ?f) \<noteq> 0"
    unfolding t last_u64_sevens by simp
  obtain rest where "log_image ?crc (Some (last_u64 (content ?f))) (log_start + log_len [] + 58) [torn_commit] = item_kind_byte ItemCommit # rest"
    by (simp add: torn_commit_def item_image_def encode_body_def enc_item_header_def)
  then have mixed: "?crc (take (58 - ITEM_HEADER_SIZE) (c @ replicate 9 7) @ take (ITEM_HEADER_SIZE + length (c @ replicate 9 7) - 58)
      (log_image ?crc (Some (last_u64 (content ?f))) (log_start + log_len [] + 58) [torn_commit])) \<noteq> ?crc (c @ replicate 9 7)"
    using c(2) by (simp add: ITEM_HEADER_SIZE_def)
  have k: "ITEM_HEADER_SIZE \<le> 58" "58 < ITEM_HEADER_SIZE + length (c @ replicate 9 (7 :: byte))"
    using c(2) by (simp_all add: ITEM_HEADER_SIZE_def)
  have f: "content ?f = content (wfile w) @ take 58 (item_image ?crc (prev_item w) (log_start + log_len []) torn_example)"
    by (simp add: st)
  have l: "list_all loggable [torn_commit]" "log_start + log_len [] + 58 + log_len [torn_commit] < 2 ^ 63"
    using c by (simp_all add: st)
  have long: "ITEM_HEADER_SIZE + length (c @ replicate 9 (7 :: byte)) \<le> 58 + log_len [torn_commit]"
    using c(2,5) by (simp add: ITEM_HEADER_SIZE_def)
  obtain w1 f1 offs w2 where r: "wal_file_open ?f = (Ok w1, f1)" "push_items ?crc [torn_commit] w1 = (Ok offs, w2)"
    "fst (wal_iter_items ?crc w2) = Ok (log_entries log_start [], if 58 + log_len [torn_commit]
      < ITEM_HEADER_SIZE + length (c @ replicate 9 (7 :: byte)) then Ok () else Err ChecksumMismatch)"
    and rc: "\<forall>(W :: (unit, wal_file) wal) (h :: unit). queue_ok (gens W) \<and> current_file W = w2 \<longrightarrow>
      fst (recover (wal_file_impl ?crc) (\<lambda>_. ret ()) (W, h)) = Err (File ChecksumMismatch)"
    using append_after_torn_append_is_lost [OF w c(3) c(1) k f l impI [OF mixed], of "\<lambda>_. ret ()", unfolded if_not_P [OF nz]]
    by (elim exE conjE) (rule that; (assumption | erule mp [OF _ long]))
  have "queue_ok (gens (wal_new () (push_generation 0 w2 queue_new) state_default 0))"
    "current_file (wal_new () (push_generation 0 w2 queue_new) state_default 0) = w2"
    by (simp_all add: queue_ok_def current_file_def wal_new_def push_generation_def queue_new_def)
  then have "fst (recover (wal_file_impl ?crc) (\<lambda>_. ret ()) (wal_new () (push_generation 0 w2 queue_new) state_default 0, ()))
      = Err (File ChecksumMismatch)"
    using rc by blast
  then show ?thesis
    unfolding Let_def using w r long
    by (intro exI [of _ w] exI [of _ ?f] exI [of _ w1] exI [of _ f1] exI [of _ offs] exI [of _ w2]) (simp del: push_items.simps)
qed

section \<open>Undoing from a torn log\<close>












end
