(* ===== verification/SegmentRing.thy ===== *)
theory SegmentRing
  imports Segment "HOL-Library.Multiset"
begin

text \<open>
  Batches of a segment file with the feature \<open>io_uring\<close> (\<open>files/segment.rs\<close>): the operations of a batch
  are queued, submitted together and complete in any order. The crate \<open>io-uring\<close> is a parameter, the
  record \<open>ring_api\<close>.
\<close>

section \<open>The ring\<close>

definition READ_OP_ID :: u64 where "READ_OP_ID = 1"
definition WRITE_OP_ID :: u64 where "WRITE_OP_ID = 2"

text \<open>An entry of the submission queue: an offset with the length of the buffer to fill, or with the bytes to write.\<close>

datatype ring_op = RingRead nat nat | RingWrite nat "byte list"

record ring_entry =
  re_op :: ring_op
  re_user_data :: u64

record completion =
  cqe_result :: i32
  cqe_user_data :: u64

text \<open>
  \<open>IoUring::new\<close> gives a queue of some capacity. \<open>submit_and_wait\<close> works on the file and on the buffers
  of the entries; its result is what the completion queue then yields, and the buffers.
\<close>

record ring_api =
  ring_new :: "u32 \<Rightarrow> (io_kind, nat) outcome"
  ring_submit_and_wait :: "nat \<Rightarrow> ring_entry list \<Rightarrow> (rfile, io_kind, completion list \<times> byte list list) prog"

section \<open>Executing a batch\<close>

text \<open>\<open>usize::next_power_of_two\<close>; no \<open>Vec\<close> is so long that it overflows.\<close>

fun next_power_of_two :: "nat \<Rightarrow> nat" where
  "next_power_of_two n = (if n \<le> 1 then 1 else 2 * next_power_of_two ((n + 1) div 2))"

declare next_power_of_two.simps [simp del]

definition raw_read_as_opcode :: "nat \<Rightarrow> (file_error, ring_op) outcome" where
  "raw_read_as_opcode off = (if PAGE_SIZE < 2 ^ 32 then Ok (RingRead off PAGE_SIZE) else Panic)"

definition raw_write_as_opcode :: "nat \<Rightarrow> byte list \<Rightarrow> (file_error, ring_op) outcome" where
  "raw_write_as_opcode off b = (if length b < 2 ^ 32 then Ok (RingWrite off b) else Panic)"

definition as_cqueue_entry :: "raw_io_op \<Rightarrow> (file_error, ring_entry) outcome" where
  "as_cqueue_entry op = (case op of
     RawRead off \<Rightarrow> oc_bind (raw_read_as_opcode off) (\<lambda>c. Ok \<lparr>re_op = c, re_user_data = READ_OP_ID\<rparr>)
   | RawWrite off b \<Rightarrow> oc_bind (raw_write_as_opcode off b) (\<lambda>c. Ok \<lparr>re_op = c, re_user_data = WRITE_OP_ID\<rparr>))"

text \<open>Pushing to a full queue fails.\<close>

fun push_entries :: "nat \<Rightarrow> raw_io_op list \<Rightarrow> ring_entry list \<Rightarrow> (file_error, ring_entry list) outcome" where
  "push_entries cap [] queue = Ok queue"
| "push_entries cap (op # ops) queue = oc_bind (as_cqueue_entry op) (\<lambda>e.
     if length queue < cap then push_entries cap ops (queue @ [e]) else Err IoQueuePush)"

fun check_completions :: "nat \<Rightarrow> completion list \<Rightarrow> (file_error, unit) outcome" where
  "check_completions 0 cs = Ok ()"
| "check_completions (Suc n) [] = Err Unexpected"
| "check_completions (Suc n) (c # cs) =
     (if sint (cqe_result c) < 0 then
        if cqe_user_data c = READ_OP_ID then Err (ConcurrentReadFail (cqe_result c))
        else if cqe_user_data c = WRITE_OP_ID then Err (ConcurrentWriteFail (cqe_result c))
        else Err Unexpected
      else check_completions n cs)"

definition exec_batch_ring :: "ring_api \<Rightarrow> raw_io_op list \<Rightarrow> (rfile, file_error, byte list list) prog" where
  "exec_batch_ring api ops =
     (let num_ops = length ops; queue_size = next_power_of_two num_ops in
      if queue_size \<ge> 2 ^ 32 then throw TooManyConcurrent
      else bindp (lift_oc (oc_map_err file_error_from_io (ring_new api (word_of_nat queue_size)))) (\<lambda>cap.
        bindp (lift_oc (push_entries cap ops [])) (\<lambda>queue.
        bindp (map_errp file_error_from_io (ring_submit_and_wait api num_ops queue)) (\<lambda>(cs, bufs).
        bindp (lift_oc (check_completions num_ops cs)) (\<lambda>_. ret bufs)))))"

definition segment_batch_ring :: "ring_api \<Rightarrow> (byte list \<Rightarrow> u16) \<Rightarrow> segment_op list
    \<Rightarrow> (rfile, file_error, page_read option list) prog" where
  "segment_batch_ring api crc ops =
     bindp (lift_oc (oc_mapM (raw_io_op_new crc) ops)) (\<lambda>raw.
     bindp (exec_batch_ring api raw) (\<lambda>bufs.
       lift_oc (oc_mapM (raw_complete crc) (zip ops bufs))))"

section \<open>What a ring may do\<close>

text \<open>One entry, with the index of its buffer, transferred completely.\<close>

fun transfer :: "nat \<times> ring_entry \<Rightarrow> rfile \<times> (nat \<Rightarrow> byte list) \<Rightarrow> rfile \<times> (nat \<Rightarrow> byte list)" where
  "transfer (i, e) (f, bufs) = (case re_op e of
     RingRead off n \<Rightarrow> (f, bufs(i := slice off n (content f)))
   | RingWrite off b \<Rightarrow> (f\<lparr>content := patch off b (content f)\<rparr>, bufs(i := b)))"

fun op_fits :: "nat \<Rightarrow> ring_op \<Rightarrow> bool" where
  "op_fits len (RingRead off n) \<longleftrightarrow> off + n \<le> len"
| "op_fits len (RingWrite off b) \<longleftrightarrow> off + length b \<le> len"

fun op_bytes :: "ring_op \<Rightarrow> nat" where
  "op_bytes (RingRead off n) = n"
| "op_bytes (RingWrite off b) = length b"

definition done_completion :: "ring_entry \<Rightarrow> completion" where
  "done_completion e = \<lparr>cqe_result = word_of_nat (op_bytes (re_op e)), cqe_user_data = re_user_data e\<rparr>"

text \<open>
  A ring that is created has a queue at least as long as asked for. Nothing is said of whether it is
  created: \<open>io_uring_setup\<close> fails without an entry, with more than 32768 of them, and when resources
  are short. \<open>completes\<close> is a ring that executes the entries within the file completely, in any order.
\<close>

definition roomy :: "ring_api \<Rightarrow> bool" where
  "roomy api \<longleftrightarrow> (\<forall>q cap. ring_new api q = Ok cap \<longrightarrow> unat q \<le> cap)"

text \<open>What creating the ring for a batch gives.\<close>

definition ring_for :: "ring_api \<Rightarrow> segment_op list \<Rightarrow> (file_error, nat) outcome" where
  "ring_for api ops = oc_map_err file_error_from_io (ring_new api (word_of_nat (next_power_of_two (length ops))))"

definition completes :: "ring_api \<Rightarrow> bool" where
  "completes api \<longleftrightarrow> roomy api \<and> (\<forall>es f. list_all (\<lambda>e. op_fits (length (content f)) (re_op e)) es \<longrightarrow>
     (\<exists>xs f' bufs. mset xs = mset (enumerate 0 es) \<and> fold transfer xs (f, \<lambda>_. []) = (f', bufs)
       \<and> ring_submit_and_wait api (length es) es f = (Ok (map (done_completion \<circ> snd) xs, map bufs [0..<length es]), f')))"

section \<open>Batches without conflicts\<close>

fun op_page :: "segment_op \<Rightarrow> u16" where
  "op_page (SegRead p) = p"
| "op_page (SegWrite w) = swo_page_num w"

fun op_reads :: "segment_op \<Rightarrow> bool" where
  "op_reads (SegRead p) = True"
| "op_reads (SegWrite w) = False"

fun segment_op_ok :: "segment_op \<Rightarrow> bool" where
  "segment_op_ok (SegRead p) \<longleftrightarrow> p \<noteq> 0"
| "segment_op_ok (SegWrite w) \<longleftrightarrow> swo_page_num w \<noteq> 0 \<and> length (swo_buf w) = PAGE_BODY_SIZE"

definition no_conflict :: "segment_op \<Rightarrow> segment_op \<Rightarrow> bool" where
  "no_conflict o1 o2 \<longleftrightarrow> op_page o1 \<noteq> op_page o2 \<or> op_reads o1 \<and> op_reads o2"

fun entry_of :: "(byte list \<Rightarrow> u16) \<Rightarrow> segment_op \<Rightarrow> ring_entry" where
  "entry_of crc (SegRead p) = \<lparr>re_op = RingRead (get_page_offset p) PAGE_SIZE, re_user_data = READ_OP_ID\<rparr>"
| "entry_of crc (SegWrite w) = \<lparr>re_op = RingWrite (get_page_offset (swo_page_num w)) (page_image crc (swo_wal_index w) (swo_buf w)),
     re_user_data = WRITE_OP_ID\<rparr>"

fun raw_of :: "(byte list \<Rightarrow> u16) \<Rightarrow> segment_op \<Rightarrow> raw_io_op" where
  "raw_of crc (SegRead p) = RawRead (get_page_offset p)"
| "raw_of crc (SegWrite w) = RawWrite (get_page_offset (swo_page_num w)) (page_image crc (swo_wal_index w) (swo_buf w))"

lemma raw_ops: "list_all segment_op_ok ops \<Longrightarrow> oc_mapM (raw_io_op_new crc) ops = Ok (map (raw_of crc) ops)"
proof (induction ops)
  case (Cons op ops)
  then show ?case by (cases op) (simp_all add: raw_io_op_new_def raw_write_new_image)
qed simp

lemma entry_raw: "segment_op_ok op \<Longrightarrow> as_cqueue_entry (raw_of crc op) = Ok (entry_of crc op)"
  by (cases op) (simp_all add: as_cqueue_entry_def raw_read_as_opcode_def raw_write_as_opcode_def length_page_image page_size_value)

lemma push_raw:
  "list_all segment_op_ok ops \<Longrightarrow> length queue + length ops \<le> cap \<Longrightarrow>
    push_entries cap (map (raw_of crc) ops) queue = Ok (queue @ map (entry_of crc) ops)"
  by (induction ops arbitrary: queue) (simp_all add: entry_raw)

lemma next_power_of_two_bounds: "n \<le> next_power_of_two n" "n \<le> 2 ^ k \<Longrightarrow> next_power_of_two n \<le> 2 ^ k"
proof (induction n arbitrary: k rule: next_power_of_two.induct)
  case (1 n)
  {
    case 1
    show ?case
    proof (cases "n \<le> 1")
      case False
      then show ?thesis using "1.IH"(1) by (subst next_power_of_two.simps) simp
    qed (simp add: next_power_of_two.simps)
  next
    case 2
    show ?case
    proof (cases "n \<le> 1")
      case False
      then obtain j where j: "k = Suc j" using 2 by (cases k) simp_all
      then have "(n + 1) div 2 \<le> 2 ^ j" using 2 by simp
      then show ?thesis using "1.IH"(2) [OF False] False by (subst next_power_of_two.simps) (simp add: j)
    qed (simp add: next_power_of_two.simps)
  }
qed

text \<open>Entries within the file; two of them do not meet if at least one byte range is not that of the other, or both only read.\<close>

lemma entry_fits: "segment_op_ok op \<Longrightarrow> op_fits SEGMENT_SIZE (re_op (entry_of crc op))"
  using page_slot_bounds(1) by (cases op) (simp_all add: length_page_image)

lemma patch_patch_commute:
  assumes "o1 + length b1 \<le> length xs" and "o2 + length b2 \<le> length xs" and "o1 + length b1 \<le> o2 \<or> o2 + length b2 \<le> o1"
  shows "patch o1 b1 (patch o2 b2 xs) = patch o2 b2 (patch o1 b1 xs)"
  using assms by (intro nth_equalityI) (auto simp: nth_patch)

lemma transfer_length:
  "op_fits (length (content f)) (re_op e) \<Longrightarrow> length (content (fst (transfer (i, e) (f, bufs)))) = length (content f)"
  by (cases "re_op e") simp_all

lemma transfers_commute:
  assumes ok: "segment_op_ok o1" "segment_op_ok o2" and n: "no_conflict o1 o2" and ij: "i \<noteq> j" and len: "length (content f) = SEGMENT_SIZE"
  shows "transfer (i, entry_of crc o1) (transfer (j, entry_of crc o2) (f, bufs))
    = transfer (j, entry_of crc o2) (transfer (i, entry_of crc o1) (f, bufs))"
proof -
  have b: "get_page_offset p + PAGE_SIZE \<le> length (content f)" for p using page_slot_bounds(1) len by simp
  have l: "segment_op_ok (SegWrite w) \<Longrightarrow> length (page_image crc (swo_wal_index w) (swo_buf w)) = PAGE_SIZE" for w
    by (simp add: length_page_image)
  show ?thesis
  proof (cases "op_page o1 = op_page o2")
    case True
    then have "op_reads o1" "op_reads o2" using n by (simp_all add: no_conflict_def)
    then show ?thesis using ij by (cases o1; cases o2) (simp_all add: fun_upd_twist)
  next
    case False
    note d = page_slots_disjoint [OF False]
    show ?thesis
      using ok d ij b l
      by (cases o1; cases o2) (simp_all add: fun_upd_twist slice_patch_other patch_patch_commute disj_commute)
  qed
qed

definition independent :: "segment_op list \<Rightarrow> bool" where
  "independent ops \<longleftrightarrow> (\<forall>i < length ops. \<forall>j < length ops. i \<noteq> j \<longrightarrow> no_conflict (ops ! i) (ops ! j))"

text \<open>So the order of completion is of no consequence.\<close>

lemma any_order:
  assumes ok: "list_all segment_op_ok ops" and ind: "independent ops" and len: "length (content f) = SEGMENT_SIZE"
    and xs: "mset xs = mset (enumerate 0 (map (entry_of crc) ops))"
  shows "fold transfer xs (f, bufs) = fold transfer (enumerate 0 (map (entry_of crc) ops)) (f, bufs)"
proof -
  have m: "\<exists>i < length ops. x = (i, entry_of crc (ops ! i))" if "x \<in> set xs" for x
  proof -
    have "x \<in> set (enumerate 0 (map (entry_of crc) ops))" using that xs by (metis set_mset_mset)
    then show ?thesis by (auto simp: in_set_enumerate_eq prod_eq_iff)
  qed
  have o: "segment_op_ok (ops ! i)" if "i < length ops" for i using ok that by (simp add: list_all_length)
  show ?thesis
  proof (rule fold_permuted_eq [where P = "\<lambda>s. length (content (fst s)) = SEGMENT_SIZE"])
    show "length (content (fst (transfer x s))) = SEGMENT_SIZE" if "x \<in> set xs" "length (content (fst s)) = SEGMENT_SIZE" for x s
      using m [OF that(1)] that(2) entry_fits [OF o, of _ crc] transfer_length [of "fst s" _ _ "snd s"] by fastforce
    show "transfer x (transfer y s) = transfer y (transfer x s)"
      if x: "x \<in> set xs" and y: "y \<in> set xs" and l: "length (content (fst s)) = SEGMENT_SIZE" for x y s
    proof -
      obtain i where i: "i < length ops" "x = (i, entry_of crc (ops ! i))" using m [OF x] by blast
      obtain j where j: "j < length ops" "y = (j, entry_of crc (ops ! j))" using m [OF y] by blast
      show ?thesis
      proof (cases "i = j")
        case False
        then have "no_conflict (ops ! i) (ops ! j)" using ind i(1) j(1) by (simp add: independent_def)
        from transfers_commute [OF o [OF i(1)] o [OF j(1)] this False l, where bufs = "snd s"] show ?thesis
          unfolding i(2) j(2) by (simp only: prod.collapse)
      qed (simp add: i(2) j(2))
    qed
  qed (use xs len in simp_all)
qed

text \<open>In order, the transfers are those of the batch without a ring.\<close>

lemma in_order:
  assumes "list_all segment_op_ok ops" and "length (content f) = SEGMENT_SIZE"
    and "fold transfer (enumerate k (map (entry_of crc) ops)) (f, bufs) = (f', bufs')"
  shows "exec_batch (map (raw_of crc) ops) f = (Ok (map bufs' [k..<k + length ops]), f') \<and> (\<forall>i < k. bufs' i = bufs i)"
  using assms
proof (induction ops arbitrary: k f bufs)
  case Nil
  then show ?case by (simp add: prog_simps)
next
  case (Cons op ops)
  obtain f1 bufs1 where t: "transfer (k, entry_of crc op) (f, bufs) = (f1, bufs1)" by force
  have "length (content f1) = SEGMENT_SIZE"
    using transfer_length [of f "entry_of crc op" k bufs] entry_fits [of op crc] Cons.prems(1,2) t by simp
  then have ih: "exec_batch (map (raw_of crc) ops) f1 = (Ok (map bufs' [Suc k..<Suc k + length ops]), f')" "\<forall>i < Suc k. bufs' i = bufs1 i"
    using Cons.IH [of f1 "Suc k" bufs1] Cons.prems t by simp_all
  have u: "map bufs' [k..<k + length (op # ops)] = bufs1 k # map bufs' [Suc k..<Suc k + length ops]"
    using ih(2) by (simp add: upt_conv_Cons del: upt_Suc)
  show ?case
  proof (cases op)
    case (SegRead p)
    then have e: "f1 = f" "bufs1 = bufs(k := slice (get_page_offset p) PAGE_SIZE (content f))" using t by auto
    have "read_exact_at (get_page_offset p) PAGE_SIZE f = (Ok (bufs1 k), f1)"
      using page_slot_bounds(1) [of p] Cons.prems(2) by (simp add: read_exact_at_def e)
    then show ?thesis using ih u e by (simp add: SegRead bindp_Ok prog_simps)
  next
    case (SegWrite w)
    let ?b = "page_image crc (swo_wal_index w) (swo_buf w)" and ?off = "get_page_offset (swo_page_num w)"
    have e: "f1 = f\<lparr>content := patch ?off ?b (content f)\<rparr>" "bufs1 = bufs(k := ?b)" using t SegWrite by simp_all
    have "?off + length ?b \<le> length (content f)"
      using page_slot_bounds(1) [of "swo_page_num w"] Cons.prems(1,2) SegWrite by (simp add: length_page_image)
    then have "write_all_at ?off ?b f = (Ok (), f1)" unfolding e by (rule write_all_at_patch)
    then show ?thesis using ih u e(2) by (simp add: SegWrite bindp_Ok prog_simps)
  qed
qed

section \<open>Properties\<close>

lemma check_all_done: "\<forall>c \<in> set cs. 0 \<le> sint (cqe_result c) \<Longrightarrow> n \<le> length cs \<Longrightarrow> check_completions n cs = Ok ()"
proof (induction n cs rule: check_completions.induct)
  case (3 n c cs)
  then show ?case by (simp add: not_less [symmetric])
qed simp_all

lemma queue_size: "length ops \<le> 2 ^ 31 \<Longrightarrow> next_power_of_two (length ops) < 2 ^ 32"
  using next_power_of_two_bounds(2) [of "length ops" 31] by simp

lemma ring_room:
  assumes "roomy api" and "length ops \<le> 2 ^ 31" and "ring_for api ops = Ok cap"
  shows "length ops \<le> cap"
proof -
  have "unat (word_of_nat (next_power_of_two (length ops)) :: u32) = next_power_of_two (length ops)"
    using queue_size [OF assms(2)] by (simp add: unsigned_of_nat take_bit_nat_eq_self)
  moreover have "ring_new api (word_of_nat (next_power_of_two (length ops))) = Ok cap"
    using assms(3) by (cases "ring_new api (word_of_nat (next_power_of_two (length ops)))") (simp_all add: ring_for_def)
  ultimately show ?thesis using assms(1) next_power_of_two_bounds(1) [of "length ops"] by (force simp: roomy_def)
qed

lemma exec_ring_run:
  assumes "list_all segment_op_ok ops" and "roomy api" and "length ops \<le> 2 ^ 31" and "ring_for api ops = Ok cap"
    and "ring_submit_and_wait api (length ops) (map (entry_of crc) ops) f = (Ok (cs, bufs), f')"
    and "\<forall>c \<in> set cs. 0 \<le> sint (cqe_result c)" and "length ops \<le> length cs"
  shows "exec_batch_ring api (map (raw_of crc) ops) f = (Ok bufs, f')"
proof -
  have p: "push_entries cap (map (raw_of crc) ops) [] = Ok (map (entry_of crc) ops)"
    using push_raw [OF assms(1), of "[]" cap crc] ring_room [OF assms(2-4)] by simp
  have s: "map_errp file_error_from_io (ring_submit_and_wait api (length ops) (map (entry_of crc) ops)) f = (Ok (cs, bufs), f')"
    using assms(5) by (simp add: map_errp_def)
  show ?thesis
    using queue_size [OF assms(3)] check_all_done [OF assms(6,7)] assms(4) [unfolded ring_for_def]
    by (simp add: exec_batch_ring_def Let_def p bindp_lift bindp_Ok [where m = "map_errp file_error_from_io x" for x, OF s] ret_run)
qed

text \<open>
  C14: A batch on the ring is the batch without it, if the ring can be created. Let the ring have
  room for the entries it was asked for and complete those it gets, in whatever order. Then a batch of at
  most \<open>2^31\<close> operations in which none writes a page that another one reads or writes gives the same
  results and leaves the same file as executing its operations in their order; if the ring cannot be
  created, as for more operations than the kernel takes at once, the batch fails with that error and
  leaves the file alone.
\<close>

theorem ring_batch_is_sequence:
  assumes "completes api" and "wf_segment f" and "list_all segment_op_ok ops" and "independent ops" and "length ops \<le> 2 ^ 31"
  shows "segment_batch_ring api crc ops f = (case ring_for api ops of
      Ok cap \<Rightarrow> segment_batch crc ops f
    | Err e \<Rightarrow> (Err e, f)
    | Panic \<Rightarrow> (Panic, f)
    | Stuck \<Rightarrow> (Stuck, f))"
proof (cases "ring_for api ops")
  case (Ok cap)
  let ?es = "map (entry_of crc) ops"
  have len: "length (content f) = SEGMENT_SIZE" using assms(2) by (simp add: wf_segment_def)
  have "list_all (\<lambda>e. op_fits (length (content f)) (re_op e)) ?es"
    using assms(3) entry_fits by (simp add: list_all_iff len)
  then obtain xs f' bufs where x: "mset xs = mset (enumerate 0 ?es)" "fold transfer xs (f, \<lambda>_. []) = (f', bufs)"
      "ring_submit_and_wait api (length ?es) ?es f = (Ok (map (done_completion \<circ> snd) xs, map bufs [0..<length ?es]), f')"
    using assms(1) unfolding completes_def by blast
  have "fold transfer (enumerate 0 ?es) (f, \<lambda>_. []) = (f', bufs)" using any_order [OF assms(3,4) len x(1)] x(2) by simp
  from in_order [OF assms(3) len this]
  have seq: "exec_batch (map (raw_of crc) ops) f = (Ok (map bufs [0..<length ops]), f')" by simp
  have "size (mset xs) = size (mset (enumerate 0 ?es))" by (simp only: x(1))
  then have lx: "length xs = length ops" by simp
  have pos: "\<forall>c \<in> set (map (done_completion \<circ> snd) xs). 0 \<le> sint (cqe_result c)"
  proof
    fix c assume "c \<in> set (map (done_completion \<circ> snd) xs)"
    then obtain y where y: "y \<in> set xs" "c = done_completion (snd y)" by auto
    then have "y \<in> set (enumerate 0 ?es)" using x(1) by (metis set_mset_mset)
    then have "fst y < length ops" "snd y = entry_of crc (ops ! fst y)" by (auto simp: in_set_enumerate_eq)
    then obtain op where op: "op \<in> set ops" "snd y = entry_of crc op" using nth_mem by blast
    have "segment_op_ok op" using assms(3) op(1) by (simp add: list_all_iff)
    then have "op_bytes (re_op (snd y)) = PAGE_SIZE" unfolding op(2) by (cases op) (simp_all add: length_page_image)
    then show "0 \<le> sint (cqe_result c)" using y(2) by (simp add: done_completion_def page_size_value)
  qed
  have "roomy api" using assms(1) by (simp add: completes_def)
  from exec_ring_run [OF assms(3) this assms(5) Ok _ pos, of crc f "map bufs [0..<length ops]" f'] x(3) lx
  have "exec_batch_ring api (map (raw_of crc) ops) f = (Ok (map bufs [0..<length ops]), f')" by simp
  then show ?thesis
    by (simp add: segment_batch_ring_def segment_batch_def bindp_lift raw_ops [OF assms(3)] seq Ok
        bindp_Ok [where m = "exec_batch_ring api x" for x] bindp_Ok [where m = "exec_batch x" for x])
qed (use queue_size [OF assms(5)] in \<open>simp_all add: segment_batch_ring_def exec_batch_ring_def Let_def bindp_lift
  raw_ops [OF assms(3)] bindp_def lift_oc_def ring_for_def\<close>)

text \<open>The sizes that the kernel takes.\<close>

definition kernel_ring :: "u32 \<Rightarrow> (io_kind, nat) outcome" where
  "kernel_ring q = (if 0 < q \<and> q \<le> 32768 then Ok (unat q) else Err IoInvalidInput)"

text \<open>A ring that completes its entries from the last to the first.\<close>

definition backwards_ring :: ring_api where
  "backwards_ring = \<lparr>ring_new = kernel_ring, ring_submit_and_wait = (\<lambda>n es f.
     case fold transfer (rev (enumerate 0 es)) (f, \<lambda>_. []) of
       (f', bufs) \<Rightarrow> (Ok (map (done_completion \<circ> snd) (rev (enumerate 0 es)), map bufs [0..<length es]), f'))\<rparr>"

lemma backwards_completes: "completes backwards_ring"
  unfolding completes_def
proof (intro conjI allI impI)
  show "roomy backwards_ring" by (simp add: roomy_def backwards_ring_def kernel_ring_def)
  fix es :: "ring_entry list" and f
  obtain f' bufs where b: "fold transfer (rev (enumerate 0 es)) (f, \<lambda>_. []) = (f', bufs)" by force
  show "\<exists>xs f' bufs. mset xs = mset (enumerate 0 es) \<and> fold transfer xs (f, \<lambda>_. []) = (f', bufs)
      \<and> ring_submit_and_wait backwards_ring (length es) es f = (Ok (map (done_completion \<circ> snd) xs, map bufs [0..<length es]), f')"
    using b by (intro exI [of _ "rev (enumerate 0 es)"] exI [of _ f'] exI [of _ bufs]) (simp add: backwards_ring_def)
qed

theorem ring_batch_is_sequence_witness:
  "\<exists>f f'. wf_segment f \<and> segment_batch_ring backwards_ring (\<lambda>_. 7) [SegWrite \<lparr>swo_page_num = 5, swo_wal_index = WalIndex 69 420,
       swo_buf = replicate PAGE_BODY_SIZE 25\<rparr>, SegRead 6] f = segment_batch (\<lambda>_. 7) [SegWrite \<lparr>swo_page_num = 5,
       swo_wal_index = WalIndex 69 420, swo_buf = replicate PAGE_BODY_SIZE 25\<rparr>, SegRead 6] f"
proof -
  obtain f where f: "wf_segment f" using wf_segment_example by blast
  let ?ops = "[SegWrite \<lparr>swo_page_num = 5, swo_wal_index = WalIndex 69 420, swo_buf = replicate PAGE_BODY_SIZE 25\<rparr>, SegRead 6]"
  have "list_all segment_op_ok ?ops" "independent ?ops" "length ?ops \<le> 2 ^ 31"
    by (simp_all add: independent_def no_conflict_def less_Suc_eq)
  note r = ring_batch_is_sequence [OF backwards_completes f this, of "\<lambda>_. 7"]
  have "ring_for backwards_ring ?ops = Ok 2"
    by (simp add: ring_for_def backwards_ring_def kernel_ring_def next_power_of_two.simps)
  then show ?thesis using r f by (intro exI [of _ f]) simp
qed

text \<open>
  C37: How many bytes a completion reports plays no part. A batch of at most \<open>2^31\<close> writes of pages
  of the segment, for which a ring could be created and has room, and for which it gives one completion each,
  succeeds if no completion reports an error: also if the kernel wrote only a part of each page or
  nothing at all, as short writes may; the file is as the ring left it, and the pages are not written again.
\<close>

theorem ring_ignores_short_writes:
  assumes "list_all segment_op_ok ops" and "list_all (\<lambda>op. \<not> op_reads op) ops" and "length ops \<le> 2 ^ 31" and "roomy api"
    and "ring_for api ops = Ok cap" and "ring_submit_and_wait api (length ops) (map (entry_of crc) ops) f = (Ok (cs, bufs), f')"
    and "length cs = length ops" and "length bufs = length ops" and "\<forall>c \<in> set cs. 0 \<le> sint (cqe_result c)"
  shows "segment_batch_ring api crc ops f = (Ok (replicate (length ops) None), f')"
proof -
  have e: "exec_batch_ring api (map (raw_of crc) ops) f = (Ok bufs, f')"
    using exec_ring_run [OF assms(1,4,3,5,6,9)] assms(7) by simp
  have c: "oc_mapM (raw_complete crc) (zip ops bufs) = Ok (replicate (length ops) None)"
    using assms(8,2)
  proof (induction bufs ops rule: list_induct2)
    case (Cons b bufs op ops)
    then show ?case by (cases op) (simp_all add: raw_complete_def)
  qed simp
  show ?thesis
    by (simp add: segment_batch_ring_def bindp_lift raw_ops [OF assms(1)] bindp_Ok [where m = "exec_batch_ring api x" for x, OF e] c lift_oc_run)
qed

text \<open>A ring that writes nothing.\<close>

theorem ring_ignores_short_writes_witness:
  "\<exists>f. wf_segment f \<and> segment_batch_ring \<lparr>ring_new = kernel_ring, ring_submit_and_wait = (\<lambda>n es f.
         (Ok (map (\<lambda>e. \<lparr>cqe_result = 0, cqe_user_data = re_user_data e\<rparr>) es, map (\<lambda>_. []) es), f))\<rparr>
       (\<lambda>_. 7) [SegWrite \<lparr>swo_page_num = 5, swo_wal_index = WalIndex 69 420, swo_buf = replicate PAGE_BODY_SIZE 25\<rparr>] f = (Ok [None], f)"
proof -
  let ?api = "\<lparr>ring_new = kernel_ring, ring_submit_and_wait = (\<lambda>n es f.
         (Ok (map (\<lambda>e. \<lparr>cqe_result = 0, cqe_user_data = re_user_data e\<rparr>) es, map (\<lambda>_. []) es), f))\<rparr>"
  let ?ops = "[SegWrite \<lparr>swo_page_num = 5, swo_wal_index = WalIndex 69 420, swo_buf = replicate PAGE_BODY_SIZE 25\<rparr>]"
  obtain f where f: "wf_segment f" using wf_segment_example by blast
  have "roomy ?api" "ring_for ?api ?ops = Ok 1"
    by (simp_all add: roomy_def ring_for_def kernel_ring_def next_power_of_two.simps)
  from ring_ignores_short_writes [where ops = ?ops and api = ?api and crc = "\<lambda>_. 7" and f = f, OF _ _ _ this] f show ?thesis by simp blast
qed

end
