(* ===== verification/Hexdump.thy ===== *)
theory Hexdump
  imports DbFolder
begin

text \<open>
  The comparison of two buffers that a failed assertion of the unit tests prints
  (\<open>pretty_assertions\<close>). The output is the state; writing to it does not fail. Subtractions and
  divisions panic as in a build with overflow checks. The size of the terminal is an argument.
\<close>

section \<open>Lines\<close>

definition ESC :: char where "ESC = CHR 0x1B"
definition DELIMITER :: string where "DELIMITER = ESC # ''[1;37m|'' @ ESC # ''[0m''"
definition DELIMITER_WIDTH :: nat where "DELIMITER_WIDTH = 3"
definition BYTE_WIDTH :: nat where "BYTE_WIDTH = 2"
definition BYTE_SPACE :: string where "BYTE_SPACE = '' ''"
definition BYTE_SPACE_WIDTH :: nat where "BYTE_SPACE_WIDTH = 1"
definition PADDING :: string where "PADDING = ''   ''"
definition PADDING_WIDTH :: nat where "PADDING_WIDTH = 3"

text \<open>\<open>{byte:02x}\<close>, \<open>" ".repeat(n)\<close>, \<open>ilog10\<close> and \<open>get(i)\<close>.\<close>

definition hex_byte :: "byte \<Rightarrow> string" where
  "hex_byte b = [''0123456789abcdef'' ! (unat b div 16), ''0123456789abcdef'' ! (unat b mod 16)]"

definition spaces :: "nat \<Rightarrow> string" where
  "spaces n = replicate n (CHR '' '')"

fun ilog10 :: "nat \<Rightarrow> nat" where
  "ilog10 n = (if n < 10 then 0 else Suc (ilog10 (n div 10)))"

declare ilog10.simps [simp del]

definition get_nth :: "'a list \<Rightarrow> nat \<Rightarrow> 'a option" where
  "get_nth xs i = (if i < length xs then Some (xs ! i) else None)"

text \<open>The text of one byte, and of one side of a line.\<close>

definition byte_cell :: "byte list \<Rightarrow> byte list \<Rightarrow> string \<Rightarrow> nat \<Rightarrow> string" where
  "byte_cell bytes compare highlight i =
     (if get_nth bytes i \<noteq> get_nth compare i then highlight else ESC # ''[90m'')
     @ (case get_nth bytes i of Some b \<Rightarrow> hex_byte b | None \<Rightarrow> ''  '') @ ESC # ''[0m''"

definition hexdump_diff_line :: "byte list \<Rightarrow> byte list \<Rightarrow> string \<Rightarrow> nat \<Rightarrow> string" where
  "hexdump_diff_line bytes compare highlight pad_to =
     (let line_length = max (length bytes) (length compare) in
      PADDING
      @ concat (map (\<lambda>i. byte_cell bytes compare highlight i @ (if i \<noteq> line_length - 1 then BYTE_SPACE else []))
          [0..<line_length])
      @ concat (replicate (pad_to - line_length) (BYTE_SPACE @ ''  ''))
      @ PADDING)"

text \<open>Checked subtraction and division of \<open>usize\<close>.\<close>

definition usize_sub :: "nat \<Rightarrow> nat \<Rightarrow> (string, 'e, nat) prog" where
  "usize_sub x y = (if y \<le> x then ret (x - y) else panic)"

definition usize_div :: "nat \<Rightarrow> nat \<Rightarrow> (string, 'e, nat) prog" where
  "usize_div x y = (if y = 0 then panic else ret (x div y))"

definition get_bytes_per_line :: "nat \<Rightarrow> (string, 'e, nat) prog" where
  "get_bytes_per_line width = bindp (usize_sub (width + BYTE_SPACE_WIDTH) (2 * PADDING_WIDTH)) (\<lambda>x.
     ret (x div (BYTE_WIDTH + BYTE_SPACE_WIDTH)))"

definition centered :: "string \<Rightarrow> nat \<Rightarrow> string" where
  "centered message width = (if length message \<ge> width then message else spaces ((width - length message) div 2) @ message)"

definition padded_number :: "nat \<Rightarrow> nat \<Rightarrow> string" where
  "padded_number number pad_to = (let width = ilog10 number + 1 in
     ESC # ''[37m'' @ spaces (pad_to - width) @ show_nat number @ ESC # ''[0m'')"

section \<open>The dump\<close>

record hexdump_diff =
  received :: "byte list"
  expected :: "byte list"

definition hexdump_diff_new :: "byte list \<Rightarrow> byte list \<Rightarrow> hexdump_diff" where
  "hexdump_diff_new r e = \<lparr>received = r, expected = e\<rparr>"

definition out :: "string \<Rightarrow> (string, 'e, unit) prog" where
  "out s = modify (\<lambda>t. t @ s)"

text \<open>\<open>get(start..end).unwrap_or_default()\<close> with the end at most the length.\<close>

definition line_of :: "byte list \<Rightarrow> nat \<Rightarrow> nat \<Rightarrow> byte list" where
  "line_of xs start n = (let e = min (length xs) (start + n) in if start \<le> e then slice start (e - start) xs else [])"

definition diff_line :: "hexdump_diff \<Rightarrow> nat \<Rightarrow> nat \<Rightarrow> nat \<Rightarrow> nat \<Rightarrow> string" where
  "diff_line h index_width n pad_to start = (let r = line_of (received h) start n; e = line_of (expected h) start n in
     padded_number start index_width @ hexdump_diff_line r e (ESC # ''[1;91m'') pad_to @ DELIMITER
     @ hexdump_diff_line e r (ESC # ''[1;92m'') pad_to @ ''\<newline>'')"

definition repetitions :: "nat \<Rightarrow> nat \<Rightarrow> string" where
  "repetitions n width = (if n = 0 then [] else ESC # ''[90m'' @ centered (''... '' @ show_nat n @ '' repetitions ...'') width @ ESC # ''[0m'' @ ''\<newline>'')"

text \<open>The loop over the lines; a line like the one before is only counted.\<close>

fun dump_lines :: "hexdump_diff \<Rightarrow> nat \<Rightarrow> nat \<Rightarrow> nat \<Rightarrow> nat \<Rightarrow> nat list \<Rightarrow> (byte list \<times> byte list) option \<Rightarrow> nat \<Rightarrow> string" where
  "dump_lines h width index_width n pad_to [] prev same = []"
| "dump_lines h width index_width n pad_to (line # lines) prev same =
     (let start = line * n; this = (line_of (received h) start n, line_of (expected h) start n) in
      if prev = Some this then dump_lines h width index_width n pad_to lines prev (Suc same)
      else repetitions same width @ diff_line h index_width n pad_to start
        @ dump_lines h width index_width n pad_to lines (Some this) 0)"

definition hexdump_fmt :: "nat option \<Rightarrow> nat option \<Rightarrow> hexdump_diff \<Rightarrow> (string, 'e, unit) prog" where
  "hexdump_fmt fmt_width terminal h =
     (case (case fmt_width of Some w \<Rightarrow> Some w | None \<Rightarrow> terminal) of
        None \<Rightarrow> out (ESC # ''[91mCould not determine terminal size!'' @ ''\<newline>'')
      | Some width \<Rightarrow>
          let diff_len = max (length (received h)) (length (expected h)) in
          bindp (if diff_len = 0 then out (centered (ESC # ''[37mBoth buffers are empty'' @ ESC # ''[0m'') width) else ret ()) (\<lambda>_.
          bindp (if diff_len = 0 then panic else ret (ilog10 diff_len + 1)) (\<lambda>index_width.
          bindp (usize_sub width index_width) (\<lambda>w1.
          bindp (usize_sub w1 DELIMITER_WIDTH) (\<lambda>w2.
          bindp (get_bytes_per_line (w2 div 2)) (\<lambda>n.
          bindp (usize_div diff_len n) (\<lambda>full.
          let num_lines = (if diff_len mod n \<noteq> 0 then full + 1 else full);
              pad_to = (if num_lines = 1 then 0 else n) in
          out (dump_lines h width index_width n pad_to [0..<num_lines] None 0))))))))"

text \<open>\<open>assert_buf_eq!\<close> without a message: it panics with the dump if the buffers differ.\<close>

definition assert_buf_eq :: "nat option \<Rightarrow> byte list \<Rightarrow> byte list \<Rightarrow> (string, 'e, unit) prog" where
  "assert_buf_eq terminal left right = (if left \<noteq> right
     then bindp (out ''assertion failed: `(left == right)`\<newline>\<newline>'') (\<lambda>_.
       bindp (hexdump_fmt None terminal (hexdump_diff_new left right)) (\<lambda>_. bindp (out ''\<newline>'') (\<lambda>_. panic)))
     else ret ())"

section \<open>Properties\<close>

text \<open>What the terminal shows: the text without escape sequences.\<close>

fun shown :: "bool \<Rightarrow> string \<Rightarrow> string" where
  "shown escaped [] = []"
| "shown True (c # cs) = shown (c \<noteq> CHR ''m'') cs"
| "shown False (c # cs) = (if c = ESC then shown True cs else c # shown False cs)"

abbreviation visible :: "string \<Rightarrow> string" where
  "visible \<equiv> shown False"

definition plain :: "string \<Rightarrow> bool" where
  "plain s \<longleftrightarrow> ESC \<notin> set s"

lemma visible_plain: "plain s \<Longrightarrow> visible (s @ t) = s @ visible t"
  by (induction s) (auto simp: plain_def)

lemma visible_escape:
  "visible (ESC # ''[0m'' @ t) = visible t" "visible (ESC # ''[37m'' @ t) = visible t" "visible (ESC # ''[90m'' @ t) = visible t"
  "visible (ESC # ''[1;91m'' @ t) = visible t" "visible (ESC # ''[1;92m'' @ t) = visible t" "visible (ESC # ''[1;37m'' @ t) = visible t"
  by simp_all

lemma length_show_nat: "length (show_nat n) = ilog10 n + 1"
proof (induction n rule: show_nat.induct)
  case (1 n)
  then show ?case by (subst show_nat.simps, subst ilog10.simps) simp
qed

lemma ilog10_mono: "m \<le> n \<Longrightarrow> ilog10 m \<le> ilog10 n"
proof (induction n arbitrary: m rule: ilog10.induct)
  case (1 n)
  show ?case
  proof (cases "m < 10")
    case False
    then have "ilog10 (m div 10) \<le> ilog10 (n div 10)" using 1 by (simp add: div_le_mono)
    then show ?thesis using False 1(2) by (subst ilog10.simps, subst (2) ilog10.simps) simp
  qed (simp add: ilog10.simps)
qed

lemma hex_byte_plain: "plain (hex_byte b)" "length (hex_byte b) = 2"
proof -
  have d: "''0123456789abcdef'' ! i \<noteq> ESC" if "i < 16" for i
  proof -
    have "\<forall>i < 16. ''0123456789abcdef'' ! i \<noteq> ESC" by (simp add: ESC_def All_less_Suc numeral_eq_Suc)
    then show ?thesis using that by blast
  qed
  have "unat b div 16 < 16" using unat_bound [of b] by (simp add: less_mult_imp_div_less)
  then show "plain (hex_byte b)" using d [of "unat b div 16"] d [of "unat b mod 16"] by (auto simp: hex_byte_def plain_def)
  show "length (hex_byte b) = 2" by (simp add: hex_byte_def)
qed

lemma show_nat_plain: "plain (show_nat n)"
proof (induction n rule: show_nat.induct)
  case (1 n)
  have "ESC \<noteq> char_of (48 + d)" if "d < 10" for d :: nat
  proof
    assume "ESC = char_of (48 + d)"
    from this [symmetric]
    have "of_char (char_of (48 + d) :: char) = (27 :: nat)" by (simp add: ESC_def)
    then show False using that by simp
  qed
  then show ?case using 1 by (subst show_nat.simps) (auto simp: plain_def)
qed

text \<open>One side of a line, as it is shown.\<close>

definition shown_byte :: "byte list \<Rightarrow> nat \<Rightarrow> string" where
  "shown_byte bytes i = (case get_nth bytes i of Some b \<Rightarrow> hex_byte b | None \<Rightarrow> ''  '')"

lemma shown_byte_facts: "plain (shown_byte bytes i)" "length (shown_byte bytes i) = 2"
  using hex_byte_plain by (auto simp: shown_byte_def plain_def ESC_def split: option.split)

lemma visible_cells:
  assumes hl: "\<And>t. visible (hl @ t) = visible t"
  shows "visible (concat (map (\<lambda>i. byte_cell bytes compare hl i @ (if i \<noteq> k then BYTE_SPACE else [])) is) @ t)
    = concat (map (\<lambda>i. shown_byte bytes i @ (if i \<noteq> k then BYTE_SPACE else [])) is) @ visible t"
proof (induction "is")
  case (Cons i "is")
  have c: "visible (byte_cell bytes compare hl i @ u) = shown_byte bytes i @ visible u" for u
    using hl visible_plain [OF shown_byte_facts(1), of bytes i] by (simp add: byte_cell_def flip: shown_byte_def)
  have "plain (if i \<noteq> k then BYTE_SPACE else [])" by (simp add: plain_def BYTE_SPACE_def ESC_def)
  then show ?case using c Cons.IH visible_plain by simp
qed simp

definition shown_line :: "byte list \<Rightarrow> nat \<Rightarrow> nat \<Rightarrow> string" where
  "shown_line bytes ll pad_to = PADDING @ concat (map (\<lambda>i. shown_byte bytes i @ (if i \<noteq> ll - 1 then BYTE_SPACE else [])) [0..<ll])
     @ concat (replicate (pad_to - ll) (BYTE_SPACE @ ''  '')) @ PADDING"

lemma visible_line:
  assumes "\<And>t. visible (hl @ t) = visible t"
  shows "visible (hexdump_diff_line bytes compare hl pad_to @ t) = shown_line bytes (max (length bytes) (length compare)) pad_to @ visible t"
proof -
  have p: "plain PADDING" "plain (concat (replicate n (BYTE_SPACE @ ''  '')))" for n
    by (auto simp: plain_def PADDING_def BYTE_SPACE_def ESC_def)
  show ?thesis
    by (simp add: hexdump_diff_line_def Let_def visible_plain [OF p(1)] visible_cells [OF assms] visible_plain [OF p(2)] shown_line_def)
qed

lemma length_shown_line:
  assumes "0 < ll" and "ll \<le> n"
  shows "length (shown_line bytes ll n) = 3 * n + 5"
proof -
  have c: "length (concat (map (\<lambda>i. shown_byte bytes i @ (if i \<noteq> k then BYTE_SPACE else [])) [0..<m]))
      = 3 * m - (if k < m then 1 else 0)" for k m
    by (induction m) (auto simp: shown_byte_facts BYTE_SPACE_def)
  have "length (concat (replicate j (BYTE_SPACE @ ''  ''))) = 3 * j" for j
    by (induction j) (simp_all add: BYTE_SPACE_def)
  then show ?thesis using assms by (simp add: shown_line_def c PADDING_def)
qed

text \<open>A line of the dump fits the terminal, if there are several.\<close>

theorem hexdump_lines_fit:
  assumes "diff_len = max (length (received h)) (length (expected h))" and "start < diff_len" and "index_width = ilog10 diff_len + 1"
    and "n = ((width - index_width - DELIMITER_WIDTH) div 2 + BYTE_SPACE_WIDTH - 2 * PADDING_WIDTH) div (BYTE_WIDTH + BYTE_SPACE_WIDTH)"
    and "0 < n"
  shows "\<exists>l. visible (diff_line h index_width n n start) = l @ ''\<newline>'' \<and> length l = index_width + 6 * n + 11 \<and> length l \<le> width"
proof -
  let ?r = "line_of (received h) start n" and ?e = "line_of (expected h) start n"
  have ll: "length (line_of xs start n) = min n (length xs - start)" for xs :: "byte list"
    by (auto simp: line_of_def slice_def Let_def)
  have m: "0 < max (length ?r) (length ?e)" "max (length ?r) (length ?e) \<le> n"
    using assms(1,2,5) by (auto simp: ll)
  have m': "max (length ?e) (length ?r) = max (length ?r) (length ?e)" by (rule max.commute)
  have ps: "plain (spaces k)" for k by (auto simp: plain_def spaces_def ESC_def)
  let ?l = "spaces (index_width - (ilog10 start + 1)) @ show_nat start @ shown_line ?r (max (length ?r) (length ?e)) n
    @ ''|'' @ shown_line ?e (max (length ?r) (length ?e)) n"
  have hl: "visible ((ESC # ''[1;91m'') @ t) = visible t" "visible ((ESC # ''[1;92m'') @ t) = visible t" for t by simp_all
  have nl: "(CHR ''\<newline>'') \<noteq> ESC" by (simp add: ESC_def)
  have br: "visible (''|'' @ t) = ''|'' @ visible t" for t by (simp add: ESC_def)
  have dl: "visible (DELIMITER @ t) = ''|'' @ visible t" for t
    by (simp add: DELIMITER_def) (simp add: ESC_def)
  have "visible (diff_line h index_width n n start) = ?l @ ''\<newline>''"
    by (simp add: diff_line_def Let_def padded_number_def visible_plain [OF ps] visible_plain [OF show_nat_plain]
        visible_line [OF hl(1), simplified] visible_line [OF hl(2), simplified] dl m' nl)
  moreover have "ilog10 start \<le> ilog10 diff_len" using assms(2) by (intro ilog10_mono) simp
  then have "length ?l = index_width + 6 * n + 11"
    using length_shown_line [OF m] assms(3) by (simp add: length_show_nat spaces_def)
  moreover have "index_width + 6 * n + 11 \<le> width"
    using assms(4,5) by (simp add: DELIMITER_WIDTH_def BYTE_SPACE_WIDTH_def PADDING_WIDTH_def BYTE_WIDTH_def) linarith
  ultimately show ?thesis by metis
qed

lemma usize_runs [prog_simps]:
  "bindp (usize_sub x y) f s = (if y \<le> x then f (x - y) s else (Panic, s))"
  "bindp (usize_div x y) f s = (if y = 0 then (Panic, s) else f (x div y) s)"
  "bindp (get_bytes_per_line w) f s = (if 5 \<le> w then f ((w - 5) div 3) s else (Panic, s))"
  by (simp_all add: usize_sub_def usize_div_def get_bytes_per_line_def bindp_def ret_run panic_run
      BYTE_SPACE_WIDTH_def PADDING_WIDTH_def BYTE_WIDTH_def)

lemma hexdump_run:
  assumes "diff_len = max (length (received h)) (length (expected h))"
  shows "fst (hexdump_fmt (Some width) terminal h t) = (if diff_len = 0 \<or> width < ilog10 diff_len + 20 then Panic else Ok ())"
proof (cases "diff_len = 0")
  case True
  then show ?thesis using assms by (simp add: hexdump_fmt_def Let_def out_def prog_simps)
next
  case False
  let ?w = "(width - (ilog10 diff_len + 1) - 3) div 2"
  have "(5 \<le> ?w \<and> (?w - 5) div 3 \<noteq> 0) = (8 \<le> ?w)" by (auto simp: div_eq_0_iff)
  moreover have "(8 \<le> ?w) = (16 \<le> width - (ilog10 diff_len + 1) - 3)" by (simp add: less_eq_div_iff_mult_less_eq)
  moreover have "ilog10 diff_len + 1 \<le> width \<and> 3 \<le> width - (ilog10 diff_len + 1) \<and> 16 \<le> width - (ilog10 diff_len + 1) - 3
      \<longleftrightarrow> \<not> width < ilog10 diff_len + 20"
    by auto
  ultimately have c: "(diff_len = 0 \<or> width < ilog10 diff_len + 20)
      = (\<not> (ilog10 diff_len + 1 \<le> width \<and> 3 \<le> width - (ilog10 diff_len + 1) \<and> 5 \<le> ?w \<and> (?w - 5) div 3 \<noteq> 0))"
    using False by metis
  show ?thesis
    unfolding c hexdump_fmt_def option.case Let_def assms [symmetric] if_not_P [OF False] bindp_ret usize_runs DELIMITER_WIDTH_def
    by (simp add: out_def modify_run)
qed

text \<open>
  When the comparison panics: on two empty buffers, after it has said that they are empty, and on
  a terminal with less room than for one byte on each side.
\<close>

theorem hexdump_panics_iff:
  "fst (hexdump_fmt (Some width) terminal h t) = Panic \<longleftrightarrow>
     received h = [] \<and> expected h = [] \<or> width < ilog10 (max (length (received h)) (length (expected h))) + 20"
  by (simp add: hexdump_run [OF refl])

text \<open>Lines that repeat the one before up to the end of the buffers are left out without a note.\<close>

theorem hexdump_drops_final_repetitions:
  assumes "\<forall>line \<in> set lines. (line_of (received h) (line * n) n, line_of (expected h) (line * n) n) = this"
  shows "dump_lines h width index_width n pad_to lines (Some this) same = []"
  using assms by (induction lines arbitrary: same) simp_all

text \<open>A failed assertion always panics.\<close>

lemma hexdump_terminal: "hexdump_fmt None (Some w) h = hexdump_fmt (Some w) None h"
  by (simp add: hexdump_fmt_def)

lemma hexdump_ends: "fst (hexdump_fmt fw terminal h u) \<in> {Ok (), Panic}"
proof (cases fw)
  case None
  show ?thesis
  proof (cases terminal)
    case None
    then show ?thesis using \<open>fw = None\<close> by (simp add: hexdump_fmt_def out_def modify_run)
  next
    case (Some w)
    show ?thesis unfolding \<open>fw = None\<close> Some hexdump_terminal hexdump_run [OF refl] by simp
  qed
next
  case (Some w)
  show ?thesis unfolding Some hexdump_run [OF refl] by simp
qed

lemma prints_then_panics:
  assumes "\<And>u. fst (m u) \<in> {Ok (), Panic}"
  shows "fst (bindp (out s) (\<lambda>_. bindp m (\<lambda>_. bindp (out s') (\<lambda>_. panic))) t) = Panic"
  using assms [of "t @ s"] by (cases "m (t @ s)") (auto simp: out_def bindp_def modify_run panic_run)

lemma assert_buf_eq_panics: "fst (assert_buf_eq terminal l r t) = (if l = r then Ok () else Panic)"
proof (cases "l = r")
  case False
  then show ?thesis unfolding assert_buf_eq_def if_P [OF False]
    using prints_then_panics [where m = "hexdump_fmt None terminal (hexdump_diff_new l r)", OF hexdump_ends] by simp
qed (simp add: assert_buf_eq_def ret_run)

end
