(* ===== verification/Spec2Isabelle.thy ===== *)
theory Spec2Isabelle
  imports WalTheorems CacheEviction CacheFlush CrashSessions Tasks AllocTheorems WalIteration TornLog SegmentRing Hexdump
begin

text \<open>
  A model of \<open>acorn\<close>, the storage engine of \<open>tome\<close> (\<open>src/crates/acorn/src/\<close>). It keeps fixed-size
  pages in segment files, caches them, logs every write to a page ahead of the page itself, and
  offers transactions on pages; on top of these the document store lays out its pages and allocates
  them. This theory imports all others; it adds nothing to them.

  \<^bold>\<open>The parts and how they interact.\<close>
    \<^item> Files. A segment file is 65536 slots of a page each, with a checksum (\<open>files/segment.rs\<close>); a log file
      is a sequence of items that can be read in both directions (\<open>files/wal.rs\<close>); both begin with
      the header of \<open>files/generic.rs\<close>; \<open>files/mod.rs\<close> has the folder that holds them.
    \<^item> Physical storage (\<open>page_store/physical.rs\<close>) finds the segment of a page and keeps a bounded
      number of segment files open.
    \<^item> The log (\<open>page_store/wal.rs\<close>) is a queue of log files (generations) with two tables, the
      transactions in flight and the dirty pages. It writes check-points, recovers and undoes.
    \<^item> The page cache (\<open>page_store/cache.rs\<close>, replacement in \<open>utils/cache.rs\<close>) hands out locked
      buffers and writes dirty ones back through the physical storage.
    \<^item> The page storage (\<open>page_store/mod.rs\<close>) ties these together: a page that a transaction gets for
      writing stays locked until it ends; a write goes to the log, then to the cache; a commit
      flushes the log; recovery and undo give the log a callback that writes pages.
    \<^item> The document store (\<open>doc_store/\<close>) interprets pages through the interfaces \<open>ReadPage\<close> and
      \<open>WritePage\<close>, and its allocator works in a transaction through the interface \<open>TransactionApi\<close>.

  \<^bold>\<open>How code becomes definitions.\<close>
  \<open>Prelude\<close> has the effects: a fallible function returns an \<open>outcome\<close>, which is \<open>Ok\<close>, \<open>Err\<close> with
  a value of the error type, \<open>Panic\<close>, or \<open>Stuck\<close> (it waits for a lock for ever, or a loop does not end);
  an operation with state is a \<open>prog\<close>, which keeps the state it had reached when it failed. Structs
  are records, enums datatypes, integers words of their width; checked conversions and
  \<open>NonZero\<close> types are the tests and well-formedness predicates (\<open>wf_...\<close>). A packed struct is its
  byte layout on a machine of one byte order (\<open>NATIVE_BYTE_ORDER\<close> is little endian). A trait is a record of
  operations (\<open>folder_api\<close>, \<open>segment_api\<close>, \<open>wal_file_api\<close>, \<open>wal_api\<close>, \<open>physical_api\<close>,
  \<open>transaction_api\<close>), which the code's implementation instantiates (\<open>..._impl\<close>); the laws a client
  needs of it are a locale, interpreted on that implementation in the theory that provides it.

  \<^bold>\<open>Theories.\<close>
    \<^item> \<open>Prelude\<close>: effects, words and bytes, codecs (locale \<open>byte_repr\<close>), random-access files, lists and maps (\<open>repr.rs\<close>, \<open>utils/units.rs\<close>).
    \<^item> \<open>FileTypes\<close>, \<open>DbFolder\<close>: \<open>files/mod.rs\<close>; \<open>GenericHeader\<close>: \<open>files/generic.rs\<close>; \<open>Segment\<close>:
      \<open>files/segment.rs\<close>, with batches on \<open>io_uring\<close> in \<open>SegmentRing\<close>; \<open>WalItems\<close>, \<open>WalFile\<close>: \<open>files/wal.rs\<close>. Codecs are inverse to each other and
      reject what they should; a segment is a map from slots to pages; a log file gives back the items
      pushed, in order and in reverse order, after reopening, and without a torn last item.
    \<^item> \<open>WalIteration\<close>: on any bytes whatever, forward iteration ends and reverse iteration need not.
    \<^item> \<open>TornLog\<close>: a log whose last append was cut short, opened, appended to and recovered again.
    \<^item> \<open>StoreTypes\<close>: \<open>StorageError\<close>. \<open>Replacer\<close>: \<open>utils/cache.rs\<close>; the invariant of the replacer, and that its
      adaptive part never adapts.
    \<^item> \<open>Wal\<close>: \<open>page_store/wal.rs\<close>. \<open>WalProofs\<close>: the log as one list of items; contracts of logging,
      check-points, undo and recovery from the laws of log files and of the folder. \<open>WalTheorems\<close>:
      these on the real files, what recovery restores, and what undo and check-points lose.
    \<^item> \<open>Physical\<close>: \<open>page_store/physical.rs\<close>, a map from addresses to pages, however few files are open;
      a batch equals its operations one by one.
    \<^item> \<open>PageCache\<close>: \<open>page_store/cache.rs\<close>. \<open>CacheProofs\<close>: the invariant (the index, the buffer and the replacer
      agree), eviction never takes a locked page, storing and loading. \<open>CacheEviction\<close>: which page a new
      one replaces, and when there is none. \<open>CacheFlush\<close>: flushing writes exactly the listed dirty
      pages, and the two ways in which it goes wrong.
    \<^item> \<open>PageStore\<close>: \<open>page_store/mod.rs\<close>. \<open>StoreProofs\<close>: reading through cache and storage, eviction of dirty
      pages, the enumerator as a step relation of threads. \<open>Transactions\<close>: writes are logged first;
      a transaction from creation of the storage to commit and flush. \<open>CrashRecovery\<close>: the files that a crash
      leaves behind, opened again and recovered: committed writes are there, also when recovery itself
      was interrupted (the callback of recovery on cache and storage, repeated writes are idempotent).
      \<open>Interleaving\<close>: several transactions at once, as a step relation; which schedules run, what
      readers see, and that committed transactions have the effect of a serial execution. \<open>Rollback\<close>: what
      undoing a transaction leaves on the disk. \<open>SessionLog\<close>: the log of a schedule, computed from the schedule;
      writes to one page are logged in the order of commits. \<open>CrashSessions\<close>: a crash in the middle of a
      schedule: what is committed is there after recovery, and what is left of an uncommitted transaction.
    \<^item> \<open>Tasks\<close>: \<open>tasks.rs\<close>, \<open>consts.rs\<close> and the \<open>Config\<close> structs of the storage; the periodic tasks as
      loops over clock readings, and that the defaults meet what the theorems on transactions ask for.
    \<^item> \<open>Documents\<close>: \<open>doc_store/document.rs\<close>. \<open>DocTypes\<close>: \<open>doc_store/mod.rs\<close>, \<open>doc_store/document_repr.rs\<close>.
      \<open>DocPages\<close>: \<open>doc_store/pages.rs\<close>. \<open>DocContents\<close>, \<open>DocRecords\<close>: what the operations on pages do to
      the bytes of a page, from the laws \<open>page_reading\<close> and \<open>page_writing\<close>.
    \<^item> \<open>PageAlloc\<close>: \<open>doc_store/page_alloc.rs\<close>. \<open>AllocProofs\<close>: the order of addresses, the linked free list, and
      each operation of the allocator, from the laws \<open>transaction_pages\<close> of a transaction. \<open>AllocRuns\<close>: sequences
      of operations refine an abstract machine with a stack of free pages. \<open>AllocStore\<close>: transactions of
      the page storage satisfy the laws; the allocator on a real storage. \<open>AllocTheorems\<close>: the page formats
      on pages that a transaction holds.
    \<^item> \<open>Hexdump\<close>: the crate \<open>pretty_assertions\<close>; the lines of a dump fit the terminal, and when it panics.

  \<^bold>\<open>Bounds and fuel.\<close>
    \<^item> The iterators of log files run with fuel (\<open>iter_fuel\<close>, one more than the bytes of the file). An item has at least
      16 bytes, so fuel never runs out forwards (\<open>wal_iteration_ends\<close>); backwards it does not run out
      on a file the program wrote, and \<open>Stuck\<close> after all fuel is what a loop of damaged links gives.
    \<^item> The loop of eviction is a partial function. For a page that the replacer does not remember it always ends
      (\<open>store_when_full\<close>), with a page or a panic; for one that it does remember this is not shown.
    \<^item> A panic of the log on offset overflow needs a file of \<open>2^64\<close> bytes. Theorems about sequences of
      operations bound the bytes they log by \<open>2^63\<close> (\<open>log_op_len\<close>, \<open>write_cost\<close>, \<open>op_cost\<close>; \<open>2^17\<close> is more
      than a new log file and its buffer).
    \<^item> Theorems on transactions assume room in the cache for the pages they name, since the pages of a
      transaction stay locked.

  \<^bold>\<open>Parameters.\<close> The two checksums (crate \<open>crc\<close>) are arbitrary functions of the bytes. The crate
  \<open>io-uring\<close> is the record \<open>ring_api\<close>. Creating a ring may fail, as it does for more than 32768
  entries (\<open>ring_for\<close>, \<open>kernel_ring\<close>); one that is created has room for what was asked (\<open>roomy\<close>), and
  \<open>completes\<close> is one that also transfers all bytes, in any order. The clock of the periodic tasks is a
  list of readings, which may go back. The product of the cache
  size with a floating-point number (\<open>max_num_dirty\<close>) is an argument. Theorems on the log take an
  arbitrary callback of recovery and undo, with the hypothesis that it does not fail.

  \<^bold>\<open>Not modelled.\<close>
    \<^item> Device errors and \<open>fsync\<close>: a file is its bytes and a position (seeking to \<open>2^63\<close> or beyond fails, a smaller maximum of a file system is not
      modelled); a crash is the loss of memory and of the end of a file. A folder is a list of its entries, whose
      order is the platform's choice: \<open>folder_iteration_finds_generation\<close> holds for any order.
    \<^item> Opened files are counted between the operations of the physical storage; while one opens a segment, the
      new file is open before the one it replaces is closed.
    \<^item> Crashes after a check-point: the theorems on crashes are about logs of one generation, since the storage was
      created (\<open>recoverable\<close>). Of recovery after check-points, \<open>recover_contract\<close> says what the callback gets.
    \<^item> Threads: locks are values of the state, an operation that would wait is \<open>Stuck\<close>. Operations of
      several transactions interleave (\<open>Interleaving\<close>), but each is one step; only the enumerator is
      split into the atomic steps of several threads. The thread pool is left out: spawned tasks are
      counted, \<open>checkpoint_task\<close> and \<open>flush_task\<close> are what they do, and sleeping is the time it takes.
    \<^item> \<open>tracing\<close>, \<open>Debug\<close> and \<open>Display\<close> of errors, other than those of schemas.
    \<^item> The choice of the checksum algorithms (\<open>files/utils.rs\<close>), module lists, macros for literals, unit
      tests, and \<open>layout_builder\<close>, whose types have no operations and no users. Record pages are not yet
      used by the program, and documents have no operations besides their types, conversions and display.

  \<^bold>\<open>What modelling showed.\<close> Besides the correctness theorems some theorems state how the code departs
  from what its comments or callers expect: undo reverts only the last write of a transaction, also
  when it is recovery that undoes an uncommitted one;
  a check-point forgets committed writes to pages still dirty; an evicted dirty page is lost, and one
  that is written again without having been stored anew is not flushed; a flush hangs on a page listed
  twice and forgets pages after a failure; a scrapped slot becomes unreachable; two threads can begin
  with one transaction number; storing a page in a full cache can panic although some pages are
  unlocked; a log file with a torn first header is rejected for ever, what is appended behind
  a torn item is lost, and recovering such a log undoes nothing if its last bytes are taken for a position outside it;
  too large a check-point panics; the replacer never adapts; a push onto a full page of the free list breaks the page; the
  periodic tasks have a single deadline, and run without a pause after it; a batch on \<open>io_uring\<close> takes short writes for complete ones; the comparison of two empty buffers panics.
\<close>

end
